(* ===== verification/Mesh_Prelude.thy ===== *)
theory Mesh_Prelude
  imports Main "HOL-Library.Word" "HOL-Library.Code_Target_Nat"
begin

text \<open>
  Shared vocabulary of the development: the machine integers of the Rust sources, the
  transport error type, the result monad that stands for the question-mark operator, big-endian
  byte strings, and the generic lemmas on them.

  Bytes and bitmap words are \<open>w word\<close>. The integer types \<open>u16\<close>, \<open>u32\<close>, \<open>u64\<close>, \<open>u128\<close>
  and \<open>usize\<close> are natural numbers below \<open>2 ^ w\<close>, with every saturating, checked and
  wrapping operation of the source written out by the definitions below; \<open>usize\<close> is the
  64-bit one of the hosts. \<open>saturating_sub\<close> is subtraction on \<open>nat\<close>.
\<close>

unbundle bit_operations_syntax

named_theorems result_simps \<open>rewriting of the result monad\<close>
named_theorems sat_defs \<open>saturating and checked integer operations\<close>
named_theorems codec_defs \<open>definitions unfolded by the codec proofs\<close>

section \<open>Machine integers\<close>

type_synonym u8 = "8 word"
type_synonym u16 = nat
type_synonym u32 = nat
type_synonym u64 = nat
type_synonym u128 = nat
type_synonym usize = nat

abbreviation u8_max :: nat where "u8_max \<equiv> 255"
abbreviation u16_max :: nat where "u16_max \<equiv> 65535"
abbreviation u32_max :: nat where "u32_max \<equiv> 4294967295"
abbreviation u64_max :: nat where "u64_max \<equiv> 18446744073709551615"
abbreviation u128_max :: nat where "u128_max \<equiv> 340282366920938463463374607431768211455"

definition sat_add :: "nat \<Rightarrow> nat \<Rightarrow> nat \<Rightarrow> nat" where
  [sat_defs]: "sat_add m a b = min m (a + b)"

definition sat_mul :: "nat \<Rightarrow> nat \<Rightarrow> nat \<Rightarrow> nat" where
  [sat_defs]: "sat_mul m a b = min m (a * b)"

definition checked_add :: "nat \<Rightarrow> nat \<Rightarrow> nat \<Rightarrow> nat option" where
  [sat_defs]: "checked_add m a b = (if a + b \<le> m then Some (a + b) else None)"

definition checked_mul :: "nat \<Rightarrow> nat \<Rightarrow> nat \<Rightarrow> nat option" where
  [sat_defs]: "checked_mul m a b = (if a * b \<le> m then Some (a * b) else None)"

definition checked_sub :: "nat \<Rightarrow> nat \<Rightarrow> nat option" where
  [sat_defs]: "checked_sub a b = (if b \<le> a then Some (a - b) else None)"

text \<open>Unsigned multiplication that wraps, as a release build does.\<close>

definition wrap_mul :: "nat \<Rightarrow> nat \<Rightarrow> nat \<Rightarrow> nat" where
  [sat_defs]: "wrap_mul m a b = (a * b) mod (m + 1)"

definition div_ceil :: "nat \<Rightarrow> nat \<Rightarrow> nat" where
  "div_ceil a b = (let q = a div b in if a mod b = 0 then q else q + 1)"

abbreviation sat_add64 :: "u64 \<Rightarrow> u64 \<Rightarrow> u64" where "sat_add64 \<equiv> sat_add u64_max"
abbreviation sat_mul64 :: "u64 \<Rightarrow> u64 \<Rightarrow> u64" where "sat_mul64 \<equiv> sat_mul u64_max"
abbreviation sat_mul128 :: "u128 \<Rightarrow> u128 \<Rightarrow> u128" where "sat_mul128 \<equiv> sat_mul u128_max"
abbreviation sat_add128 :: "u128 \<Rightarrow> u128 \<Rightarrow> u128" where "sat_add128 \<equiv> sat_add u128_max"

lemma sat_add_le [simp]: "sat_add m a b \<le> m"
  by (simp add: sat_add_def)

lemma sat_mul_le [simp]: "sat_mul m a b \<le> m"
  by (simp add: sat_mul_def)

lemma sat_add_exact: "a + b \<le> m \<Longrightarrow> sat_add m a b = a + b"
  by (simp add: sat_add_def)

lemma sat_mul_exact: "a * b \<le> m \<Longrightarrow> sat_mul m a b = a * b"
  by (simp add: sat_mul_def)

lemma sat_add_ge_left: "a \<le> m \<Longrightarrow> a \<le> sat_add m a b"
  by (simp add: sat_add_def)

lemma sat_add_0 [simp]: "a \<le> m \<Longrightarrow> sat_add m a 0 = a"
  by (simp add: sat_add_def)

lemma checked_add_Some [simp]: "checked_add m a b = Some c \<longleftrightarrow> c = a + b \<and> a + b \<le> m"
  by (auto simp: checked_add_def)

lemma checked_add_exact: "a + b \<le> m \<Longrightarrow> checked_add m a b = Some (a + b)"
  by simp

lemma checked_sub_Some [simp]: "checked_sub a b = Some c \<longleftrightarrow> b \<le> a \<and> c = a - b"
  by (auto simp: checked_sub_def)

lemma checked_mul_Some [simp]: "checked_mul m a b = Some c \<longleftrightarrow> c = a * b \<and> a * b \<le> m"
  by (auto simp: checked_mul_def)

lemma div_ceil_le_iff: "0 < b \<Longrightarrow> div_ceil a b \<le> n \<longleftrightarrow> a \<le> n * b"
proof -
  assume b: "0 < b"
  have d: "a = a div b * b + a mod b" by simp
  have m: "a mod b < b" using b by simp
  show ?thesis
  proof
    assume le: "div_ceil a b \<le> n"
    show "a \<le> n * b"
    proof (cases "a mod b = 0")
      case True
      with le have "a div b * b \<le> n * b" by (simp add: div_ceil_def)
      with True d show ?thesis by linarith
    next
      case False
      with le have "(a div b + 1) * b \<le> n * b"
        unfolding div_ceil_def by (intro mult_le_mono1) simp
      then have "a div b * b + b \<le> n * b" by simp
      with d m show ?thesis by linarith
    qed
  next
    assume le: "a \<le> n * b"
    show "div_ceil a b \<le> n"
    proof (cases "a mod b = 0")
      case True
      from le have "a div b \<le> n * b div b" by (rule div_le_mono)
      with True b show ?thesis by (simp add: div_ceil_def)
    next
      case False
      have "a < n * b" using le False by (metis le_neq_implies_less mod_mult_self2_is_0)
      then have "a div b < n" using b by (simp add: less_mult_imp_div_less)
      with False show ?thesis by (simp add: div_ceil_def)
    qed
  qed
qed

section \<open>The transport error and the result monad\<close>

text \<open>\<open>enum Error\<close> of \<^verbatim>\<open>quic-lite/src/lib.rs\<close>.\<close>

datatype error =
    BufferTooSmall
  | Truncated
  | Invalid
  | Blocked
  | InvalidVarint
  | FlowControl
  | StreamLimit
  | PacketNumberExhausted
  | WrongConnectionId
  | PeerRestarted
  | BootstrapInvalid
  | HistoryFull
  | PathLimit
  | RetransmissionTooLarge
  | DatagramUnsupported
  | DatagramTooLarge
  | OutOfMemory

type_synonym 'a result = "error + 'a"

definition bindE :: "'e + 'a \<Rightarrow> ('a \<Rightarrow> 'e + 'b) \<Rightarrow> 'e + 'b" where
  "bindE m f = (case m of Inl e \<Rightarrow> Inl e | Inr x \<Rightarrow> f x)"

definition ok_or :: "'e \<Rightarrow> 'a option \<Rightarrow> 'e + 'a" where
  "ok_or e r = (case r of None \<Rightarrow> Inl e | Some x \<Rightarrow> Inr x)"

definition guardE :: "'e \<Rightarrow> bool \<Rightarrow> 'e + unit" where
  "guardE e b = (if b then Inr () else Inl e)"

definition isOk :: "'e + 'a \<Rightarrow> bool" where
  "isOk r = (case r of Inl _ \<Rightarrow> False | Inr _ \<Rightarrow> True)"

lemma bindE_simps [simp, result_simps]:
  "bindE (Inl e) f = Inl e" "bindE (Inr x) f = f x"
  by (simp_all add: bindE_def)

lemma bindE_eq_Inr [result_simps]: "bindE m f = Inr y \<longleftrightarrow> (\<exists>x. m = Inr x \<and> f x = Inr y)"
  by (cases m) simp_all

lemma bindE_eq_InrE [elim!]:
  assumes "bindE m f = Inr y"
  obtains x where "m = Inr x" "f x = Inr y"
  using assms by (cases m) simp_all

lemma bindE_cong [fundef_cong]:
  "m = m' \<Longrightarrow> (\<And>x. m' = Inr x \<Longrightarrow> f x = f' x) \<Longrightarrow> bindE m f = bindE m' f'"
  by (cases m') simp_all

lemma ok_or_simps [simp, result_simps]:
  "ok_or e None = Inl e" "ok_or e (Some x) = Inr x"
  by (simp_all add: ok_or_def)

lemma ok_or_eq_Inr [simp, result_simps]: "ok_or e r = Inr x \<longleftrightarrow> r = Some x"
  by (cases r) simp_all

lemma guardE_simps [simp, result_simps]:
  "guardE e True = Inr ()" "guardE e False = Inl e"
  by (simp_all add: guardE_def)

lemma guardE_eq_Inr [simp, result_simps]: "guardE e b = Inr x \<longleftrightarrow> b"
  by (cases b) simp_all

lemma isOk_simps [simp]: "isOk (Inr x)" "\<not> isOk (Inl e)"
  by (simp_all add: isOk_def)

section \<open>Bit operations on natural numbers\<close>

lemma push_bit_or_add:
  fixes v b k :: nat
  assumes "b < 2 ^ k"
  shows "push_bit k v OR b = v * 2 ^ k + b"
proof -
  have "push_bit k v AND b = 0"
  proof (rule bit_eqI)
    fix n assume "possible_bit TYPE(nat) n"
    have "\<not> bit b n" if "k \<le> n"
    proof -
      from that assms have "b < 2 ^ n" by (meson less_le_trans one_le_numeral power_increasing)
      then show ?thesis by (simp add: bit_iff_odd)
    qed
    then show "bit (push_bit k v AND b) n = bit (0 :: nat) n"
      by (auto simp: bit_simps)
  qed
  then have "push_bit k v OR b = push_bit k v + b" by (simp add: disjunctive_add_eq_or)
  then show ?thesis by (simp add: push_bit_eq_mult)
qed

lemma unat_word_of_nat8: "unat (word_of_nat n :: u8) = n mod 256"
  by (simp add: unat_of_nat)

lemma unat_u8_less [simp]: "unat (b :: u8) < 256"
  using unsigned_less [of b] by simp

section \<open>Slices\<close>

lemma drop_past: "drop n xs = ys @ zs \<Longrightarrow> drop (n + length ys) xs = zs"
proof -
  assume a: "drop n xs = ys @ zs"
  have "drop (length ys + n) xs = drop (length ys) (drop n xs)" by (simp only: drop_drop)
  with a show ?thesis by (simp add: add.commute)
qed

section \<open>The first match in a list\<close>

text \<open>
  Tables of the source are vectors searched by a key: \<^verbatim>\<open>iter_mut().find(..)\<close> changes the first
  match, \<^verbatim>\<open>position(..)\<close> followed by \<^verbatim>\<open>remove\<close> drops it.
\<close>

fun update_first :: "('a \<Rightarrow> bool) \<Rightarrow> ('a \<Rightarrow> 'a) \<Rightarrow> 'a list \<Rightarrow> 'a list" where
  "update_first P f [] = []"
| "update_first P f (x # xs) = (if P x then f x # xs else x # update_first P f xs)"

fun remove_first :: "('a \<Rightarrow> bool) \<Rightarrow> 'a list \<Rightarrow> 'a list" where
  "remove_first P [] = []"
| "remove_first P (x # xs) = (if P x then xs else x # remove_first P xs)"

lemma length_update_first [simp]: "length (update_first P f xs) = length xs"
  by (induction xs) auto

lemma map_key_update_first:
  "(\<And>x. P x \<Longrightarrow> key (f x) = key x) \<Longrightarrow> map key (update_first P f xs) = map key xs"
  by (induction xs) auto

lemma set_update_first: "y \<in> set (update_first P f xs) \<Longrightarrow> y \<in> set xs \<or> (\<exists>x \<in> set xs. P x \<and> y = f x)"
  by (induction xs) (auto split: if_splits)

lemma find_update_first:
  "(\<And>x. key (f x) = key x) \<Longrightarrow> find (\<lambda>x. key x = j) (update_first (\<lambda>x. key x = i) f xs)
    = (if i = j then map_option f (find (\<lambda>x. key x = j) xs) else find (\<lambda>x. key x = j) xs)"
  by (induction xs) auto

lemma sum_update_first:
  fixes g :: "'a \<Rightarrow> nat"
  shows "find P xs = Some x \<Longrightarrow>
    sum_list (map g (update_first P f xs)) + g x = sum_list (map g xs) + g (f x)"
  by (induction xs) (auto split: if_splits)

lemma set_remove_first: "y \<in> set (remove_first P xs) \<Longrightarrow> y \<in> set xs"
  by (induction xs) (auto split: if_splits)

lemma distinct_remove_first: "distinct (map key xs) \<Longrightarrow> distinct (map key (remove_first P xs))"
  by (induction xs) (auto dest: set_remove_first)

lemma sum_remove_first:
  fixes g :: "'a \<Rightarrow> nat"
  shows "sum_list (map g (remove_first P xs)) \<le> sum_list (map g xs)"
  by (induction xs) auto

lemma find_remove_first:
  "distinct (map key xs) \<Longrightarrow> find (\<lambda>x. key x = j) (remove_first (\<lambda>x. key x = i) xs)
    = (if i = j then None else find (\<lambda>x. key x = j) xs)"
proof (induction xs)
  case (Cons x xs)
  have "find (\<lambda>y. key y = key x) xs = None"
    using Cons.prems by (simp add: find_None_iff) (metis imageI)
  with Cons show ?case by (cases "key x = i"; cases "i = j") simp_all
qed simp

lemma find_key_SomeD: "find (\<lambda>x. key x = i) xs = Some x \<Longrightarrow> x \<in> set xs \<and> key x = i"
  by (auto simp: find_Some_iff)

lemma find_key_unique: "distinct (map key xs) \<Longrightarrow> x \<in> set xs \<Longrightarrow> find (\<lambda>y. key y = key x) xs = Some x"
  by (induction xs) (auto simp: rev_image_eqI)

lemma member_le_sum_list_map: "x \<in> set xs \<Longrightarrow> (g x :: nat) \<le> sum_list (map g xs)"
  by (simp add: member_le_sum_list)

lemma find_app: "find P (xs @ ys) = (case find P xs of None \<Rightarrow> find P ys | Some x \<Rightarrow> Some x)"
  by (induction xs) auto

text \<open>Searching an index range from below and from above.\<close>

lemma find_upt_None: "find P [a..<b] = None \<longleftrightarrow> (\<forall>m. a \<le> m \<and> m < b \<longrightarrow> \<not> P m)"
  by (auto simp: find_None_iff)

lemma find_upt_Some:
  "find P [a..<b] = Some k \<longleftrightarrow> a \<le> k \<and> k < b \<and> P k \<and> (\<forall>m. a \<le> m \<and> m < k \<longrightarrow> \<not> P m)"
proof (induction b)
  case (Suc b)
  show ?case
  proof (cases "find P [a..<b]")
    case None
    then show ?thesis using find_upt_None [of P a b]
      by (auto simp: find_app less_Suc_eq)
  next
    case (Some j)
    then have "a \<le> j \<and> j < b \<and> P j" by (auto simp: find_Some_iff)
    with Some Suc show ?thesis by (auto simp: find_app less_Suc_eq)
  qed
qed simp

lemma find_rev_upt_Some:
  "find P (rev [a..<b]) = Some k \<longleftrightarrow> a \<le> k \<and> k < b \<and> P k \<and> (\<forall>m. k < m \<and> m < b \<longrightarrow> \<not> P m)"
  by (induction b) (auto simp: less_Suc_eq)

text \<open>\<^verbatim>\<open>iter().position(P)\<close> and \<^verbatim>\<open>iter().rposition(P)\<close>\<close>

definition position :: "('a \<Rightarrow> bool) \<Rightarrow> 'a list \<Rightarrow> usize option" where
  "position P xs = find (\<lambda>i. P (xs ! i)) [0..<length xs]"

definition rposition :: "('a \<Rightarrow> bool) \<Rightarrow> 'a list \<Rightarrow> usize option" where
  "rposition P xs = find (\<lambda>i. P (xs ! i)) (rev [0..<length xs])"

lemma position_Some:
  "position P xs = Some i \<longleftrightarrow> i < length xs \<and> P (xs ! i) \<and> (\<forall>j < i. \<not> P (xs ! j))"
  by (auto simp: position_def find_upt_Some)

lemma position_None: "position P xs = None \<longleftrightarrow> (\<forall>i < length xs. \<not> P (xs ! i))"
  by (auto simp: position_def find_upt_None)

lemma rposition_Some:
  "rposition P xs = Some i \<longleftrightarrow> i < length xs \<and> P (xs ! i) \<and> (\<forall>j. i < j \<and> j < length xs \<longrightarrow> \<not> P (xs ! j))"
  by (auto simp: rposition_def find_rev_upt_Some)

lemma rposition_None: "rposition P xs = None \<longleftrightarrow> (\<forall>i < length xs. \<not> P (xs ! i))"
  by (auto simp: rposition_def find_None_iff)

section \<open>Big-endian byte strings\<close>

text \<open>
  \<open>be_bytes n v\<close> is the loop \<^verbatim>\<open>for i in 0..n { out[i] = (v >> (8 * (n - i - 1))) as u8 }\<close>;
  \<open>be_fold v bs\<close> the loop \<^verbatim>\<open>for &b in bs { v = (v << 8) | b as u64 }\<close>, with the shift
  dropping the bits above bit 63.
\<close>

definition be_bytes :: "nat \<Rightarrow> nat \<Rightarrow> u8 list" where
  "be_bytes n v = map (\<lambda>i. word_of_nat (drop_bit (8 * (n - i - 1)) v)) [0..<n]"

definition be_step :: "nat \<Rightarrow> u8 \<Rightarrow> nat" where
  "be_step v b = take_bit 64 (push_bit 8 v) OR unat b"

definition be_fold :: "nat \<Rightarrow> u8 list \<Rightarrow> nat" where
  "be_fold v bs = foldl be_step v bs"

lemma length_be_bytes [simp]: "length (be_bytes n v) = n"
  by (simp add: be_bytes_def)

lemma be_bytes_0 [simp]: "be_bytes 0 v = []"
  by (simp add: be_bytes_def)

lemma be_bytes_Suc:
  "be_bytes (Suc n) v = word_of_nat (drop_bit (8 * n) v) # be_bytes n v"
proof -
  have "[0..<Suc n] = 0 # map Suc [0..<n]"
    by (metis map_Suc_upt upt_conv_Cons zero_less_Suc)
  then show ?thesis by (simp add: be_bytes_def comp_def)
qed

lemma be_bytes_eq_Nil [simp]: "be_bytes n v = [] \<longleftrightarrow> n = 0"
  by (metis length_0_conv length_be_bytes)

lemma be_step_no_overflow: "v < 2 ^ 56 \<Longrightarrow> be_step v b = v * 256 + unat b"
proof -
  assume "v < 2 ^ 56"
  then have "take_bit 64 (push_bit 8 v) = push_bit 8 v"
    by (simp add: take_bit_eq_mod push_bit_eq_mult)
  then show ?thesis using push_bit_or_add [of "unat b" 8 v] by (simp add: be_step_def)
qed

lemma be_fold_Nil [simp]: "be_fold v [] = v"
  and be_fold_Cons [simp]: "be_fold v (b # bs) = be_fold (be_step v b) bs"
  by (simp_all add: be_fold_def)

lemma be_fold_bound:
  "v < 2 ^ k \<Longrightarrow> k + 8 * length bs \<le> 64 \<Longrightarrow> be_fold v bs < 2 ^ (k + 8 * length bs)"
proof (induction bs arbitrary: v k)
  case Nil
  then show ?case by simp
next
  case (Cons b bs)
  have "(2 :: nat) ^ k \<le> 2 ^ 56" using Cons.prems by (intro power_increasing) simp_all
  with Cons.prems have "v < 2 ^ 56" by linarith
  then have step: "be_step v b = v * 256 + unat b" by (rule be_step_no_overflow)
  have "v * 256 + unat b < 2 ^ (k + 8)"
  proof -
    have "v + 1 \<le> 2 ^ k" using Cons.prems by simp
    then have "(v + 1) * 256 \<le> 2 ^ k * 256" by (rule mult_le_mono1)
    then have "v * 256 + 256 \<le> 2 ^ (k + 8)" by (simp add: power_add)
    then show ?thesis using unat_u8_less [of b] by linarith
  qed
  then have "be_fold (v * 256 + unat b) bs < 2 ^ (k + 8 + 8 * length bs)"
    using Cons.prems by (intro Cons.IH) simp_all
  then show ?case by (simp add: step algebra_simps)
qed

text \<open>Reading back what was written: the fold undoes the loop.\<close>

lemma be_fold_be_bytes:
  "acc * 2 ^ (8 * n) + v mod 2 ^ (8 * n) < 2 ^ 64 \<Longrightarrow>
     be_fold acc (be_bytes n v) = acc * 2 ^ (8 * n) + v mod 2 ^ (8 * n)"
proof (induction n arbitrary: acc)
  case 0
  then show ?case by simp
next
  case (Suc n)
  let ?b = "drop_bit (8 * n) v mod 256"
  have split: "v mod 2 ^ (8 * Suc n) = ?b * 2 ^ (8 * n) + v mod 2 ^ (8 * n)"
  proof -
    have "v mod (2 ^ (8 * n) * 256) = 2 ^ (8 * n) * (v div 2 ^ (8 * n) mod 256) + v mod 2 ^ (8 * n)"
      by (rule mod_mult2_eq)
    then show ?thesis by (simp add: power_add drop_bit_eq_div algebra_simps)
  qed
  have small: "acc < 2 ^ 56"
  proof -
    have "acc * 2 ^ 8 \<le> acc * 2 ^ (8 * Suc n)" by (intro mult_le_mono2 power_increasing) simp_all
    with Suc.prems have "acc * 2 ^ 8 < 2 ^ 64" by linarith
    then show ?thesis by simp
  qed
  have total: "(acc * 256 + ?b) * 2 ^ (8 * n) + v mod 2 ^ (8 * n)
      = acc * 2 ^ (8 * Suc n) + v mod 2 ^ (8 * Suc n)"
    unfolding split by (simp add: power_add algebra_simps)
  have "be_fold (acc * 256 + ?b) (be_bytes n v) = (acc * 256 + ?b) * 2 ^ (8 * n) + v mod 2 ^ (8 * n)"
    using Suc.prems total by (intro Suc.IH) simp
  then show ?case
    using total by (simp add: be_bytes_Suc be_step_no_overflow [OF small] unat_word_of_nat8)
qed

lemma be_fold_split: "v < 2 ^ 64 \<Longrightarrow> be_fold (v div 2 ^ (8 * n)) (be_bytes n v) = v"
  using be_fold_be_bytes [of "v div 2 ^ (8 * n)" n v] by (simp only: div_mult_mod_eq)

text \<open>Writing back what was read: the loop undoes the fold.\<close>

lemma be_bytes_be_fold:
  "v < 2 ^ k \<Longrightarrow> k + 8 * length bs \<le> 64 \<Longrightarrow>
     be_fold v bs div 2 ^ (8 * length bs) = v \<and> be_bytes (length bs) (be_fold v bs) = bs"
proof (induction bs arbitrary: v k)
  case Nil
  then show ?case by simp
next
  case (Cons b bs)
  have "(2 :: nat) ^ k \<le> 2 ^ 56" using Cons.prems by (intro power_increasing) simp_all
  with Cons.prems have "v < 2 ^ 56" by linarith
  then have step: "be_step v b = v * 256 + unat b" by (rule be_step_no_overflow)
  have less: "v * 256 + unat b < 2 ^ (k + 8)"
  proof -
    have "v + 1 \<le> 2 ^ k" using Cons.prems by simp
    then have "(v + 1) * 256 \<le> 2 ^ k * 256" by (rule mult_le_mono1)
    then have "v * 256 + 256 \<le> 2 ^ (k + 8)" by (simp add: power_add)
    then show ?thesis using unat_u8_less [of b] by linarith
  qed
  let ?x = "be_fold (v * 256 + unat b) bs"
  have IH: "?x div 2 ^ (8 * length bs) = v * 256 + unat b" "be_bytes (length bs) ?x = bs"
    using Cons.IH [OF less] Cons.prems by simp_all
  have "?x div 2 ^ (8 * length (b # bs)) = ?x div 2 ^ (8 * length bs) div 256"
    by (simp add: div_mult2_eq [symmetric] power_add mult.commute)
  also have "\<dots> = v" using IH(1) by simp
  finally have "?x div 2 ^ (8 * length (b # bs)) = v" .
  moreover have "word_of_nat (v * 256 + unat b) = b"
    by (rule word_unat_eq_iff [THEN iffD2]) (simp only: unat_of_nat, simp)
  ultimately show ?case
    using IH by (simp add: step be_bytes_Suc drop_bit_eq_div)
qed

end
