(* ===== verification/Wire_Codec.thy ===== *)
theory Wire_Codec
  imports Mesh_Prelude
begin

text \<open>
  The two integer encodings of the transport (\<^verbatim>\<open>quic-lite/src/lib.rs\<close>): QUIC variable-length
  integers and the structured connection identifiers, and the interface \<open>prefix_codec\<close> that
  every self-delimiting encoding of the wire format satisfies.

  An output slice \<^verbatim>\<open>out: &mut [u8]\<close> is modelled by its length: an encoder returns the bytes it
  wrote to the front of it (the returned count is their number) or the error. No encoder of
  the source reads what the slice held before.
\<close>

section \<open>The interface of a self-delimiting encoding\<close>

text \<open>
  \<open>enc x cap\<close> writes \<open>x\<close> into \<open>cap\<close> bytes; \<open>dec bs\<close> reads one value from the front of
  \<open>bs\<close> and reports how many bytes it took; \<open>wf\<close> holds of the values the encoding covers.
\<close>

locale prefix_codec =
  fixes enc :: "'a \<Rightarrow> nat \<Rightarrow> u8 list result"
    and dec :: "u8 list \<Rightarrow> ('a \<times> nat) result"
    and wf :: "'a \<Rightarrow> bool"
  assumes dec_enc: "wf x \<Longrightarrow> enc x cap = Inr bs \<Longrightarrow> dec (bs @ rest) = Inr (x, length bs)"
    and enc_fits: "wf x \<Longrightarrow> enc x cap = Inr bs \<Longrightarrow> length bs \<le> cap"
    and dec_bound: "dec bs = Inr (x, n) \<Longrightarrow> 0 < n \<and> n \<le> length bs"
begin

lemma enc_nonempty: "wf x \<Longrightarrow> enc x cap = Inr bs \<Longrightarrow> bs \<noteq> []"
  using dec_enc [of x cap bs "[]"] dec_bound [of bs x "length bs"] by auto

lemma dec_enc_exact: "wf x \<Longrightarrow> enc x cap = Inr bs \<Longrightarrow> dec bs = Inr (x, length bs)"
  using dec_enc [of x cap bs "[]"] by simp

text \<open>No encoding is a proper prefix of another: the stream of values is uniquely decodable.\<close>

lemma prefix_free:
  assumes "wf x" "wf y" "enc x c = Inr bs" "enc y d = Inr cs" "bs @ r = cs @ s"
  shows "x = y \<and> bs = cs \<and> r = s"
proof -
  have "dec (bs @ r) = Inr (x, length bs)" using assms by (intro dec_enc)
  moreover have "dec (cs @ s) = Inr (y, length cs)" using assms by (intro dec_enc)
  ultimately have "x = y" "length bs = length cs" using assms(5) by simp_all
  with assms(5) show ?thesis by simp
qed

end

section \<open>Variable-length integers\<close>

definition varint_len :: "u64 \<Rightarrow> nat result" where
  "varint_len value =
     (if value < 2 ^ 6 then Inr 1
      else if value < 2 ^ 14 then Inr 2
      else if value < 2 ^ 30 then Inr 4
      else if value < 2 ^ 62 then Inr 8
      else Inl InvalidVarint)"

definition put_varint :: "u64 \<Rightarrow> nat \<Rightarrow> u8 list result" where
  "put_varint value cap = bindE (varint_len value) (\<lambda>n.
     if cap < n then Inl BufferTooSmall
     else
       let tag = (if n = 1 then 0 else if n = 2 then 1 else if n = 4 then 2 else 3 :: u8);
           out = be_bytes n value
       in Inr (out[0 := (out ! 0 AND 0x3f) OR push_bit 6 tag]))"

definition get_varint :: "u8 list \<Rightarrow> (u64 \<times> nat) result" where
  "get_varint input = (case input of
     [] \<Rightarrow> Inl Truncated
   | first # _ \<Rightarrow>
       let n = push_bit (unat (drop_bit 6 first)) 1 in
       if length input < n then Inl Truncated
       else Inr (be_fold (unat (first AND 0x3f)) (drop 1 (take n input)), n))"

text \<open>The tag and the value bits of a first byte do not disturb each other.\<close>

lemma tag_value: "((b AND mask k) OR push_bit k t) AND mask k = (b :: u8) AND mask k"
  by (rule bit_word_eqI) (auto simp: bit_simps)

lemma tag_tag:
  fixes b t :: u8
  assumes "unat t < 2 ^ (8 - k)" "k \<le> 8"
  shows "drop_bit k ((b AND mask k) OR push_bit k t) = t"
proof -
  have "take_bit (8 - k) t = t"
    using assms by (simp add: word_unat_eq_iff unsigned_take_bit_eq take_bit_nat_eq_self)
  then have "n < 8 - k" if "bit t n" for n using that by (metis bit_take_bit_iff)
  then have "k + n < 8" if "bit t n" for n using that assms(2) by fastforce
  then show ?thesis using assms(2)
    by (intro bit_word_eqI) (auto simp: bit_simps)
qed

lemma tag_split: "((b :: u8) AND mask k) OR push_bit k (drop_bit k b) = b"
proof (rule bit_word_eqI)
  fix n :: nat
  assume "n < LENGTH(8)"
  then show "bit ((b AND mask k) OR push_bit k (drop_bit k b)) n = bit b n"
    by (cases "n < k") (auto simp: bit_simps)
qed

lemma mask_bytes:
  "(0x3f :: u8) = mask 6" "(0x7f :: u8) = mask 7" "(0x1f :: u8) = mask 5" "(0x03 :: u8) = mask 2"
  by (simp_all add: mask_eq_exp_minus_1)

lemma unat_and_mask: "unat ((b :: u8) AND mask k) = unat b mod 2 ^ k"
  by (simp only: take_bit_eq_mask [symmetric] unsigned_take_bit_eq) (simp add: take_bit_eq_mod)

lemma varint_len_cases:
  assumes "varint_len v = Inr n"
  shows "n \<in> {1, 2, 4, 8} \<and> v < 2 ^ (8 * n - 2)"
  using assms by (auto simp: varint_len_def split: if_splits)

text \<open>What \<open>put_varint\<close> writes, as a tag byte and the remaining big-endian bytes.\<close>

lemma put_varint_eq:
  assumes "put_varint v cap = Inr bs"
  obtains n t b where
    "varint_len v = Inr (Suc n)" "Suc n \<le> cap" "t < 4" "push_bit (unat t) 1 = Suc n"
    "v < 2 ^ (8 * n + 6)" "b = word_of_nat (drop_bit (8 * n) v)"
    "bs = ((b AND 0x3f) OR push_bit 6 t) # be_bytes n v"
proof -
  from assms obtain n where n: "varint_len v = Inr n" "n \<le> cap"
    and bs: "bs = (be_bytes n v)[0 := (be_bytes n v ! 0 AND 0x3f) OR
        push_bit 6 (if n = 1 then 0 else if n = 2 then 1 else if n = 4 then 2 else 3)]"
    by (auto simp: put_varint_def Let_def split: if_splits)
  from varint_len_cases [OF n(1)] have c: "n \<in> {1, 2, 4, 8}" "v < 2 ^ (8 * n - 2)" by auto
  define t :: u8 where "t = (if n = 1 then 0 else if n = 2 then 1 else if n = 4 then 2 else 3)"
  obtain m where m: "n = Suc m" using c(1) by (cases n) auto
  show ?thesis
  proof (rule that [of m t])
    show "varint_len v = Inr (Suc m)" "Suc m \<le> cap" using n m by simp_all
    show "t < 4" by (simp add: t_def word_less_nat_alt)
    show "push_bit (unat t) 1 = Suc m" using c(1) m by (auto simp: t_def)
    show "v < 2 ^ (8 * m + 6)" using c(2) m by (simp add: add.commute)
    show "bs = ((word_of_nat (drop_bit (8 * m) v) AND 0x3f) OR push_bit 6 t) # be_bytes m v"
      using bs by (simp add: m t_def be_bytes_Suc)
  qed simp
qed

lemma get_put_varint:
  assumes "put_varint v cap = Inr bs"
  shows "get_varint (bs @ rest) = Inr (v, length bs)"
proof -
  from assms obtain n t b where p: "varint_len v = Inr (Suc n)" "t < 4"
      "push_bit (unat t) 1 = Suc n" "v < 2 ^ (8 * n + 6)" "b = word_of_nat (drop_bit (8 * n) v)"
      "bs = ((b AND 0x3f) OR push_bit 6 t) # be_bytes n v"
    by (rule put_varint_eq)
  from varint_len_cases [OF p(1)] have n8: "n < 8" by auto
  have hi: "v div 2 ^ (8 * n) < 64"
    using p(4) by (simp add: less_mult_imp_div_less power_add mult.commute)
  have b: "unat (b AND 0x3f) = v div 2 ^ (8 * n)"
    using hi p(5) by (simp add: mask_bytes unat_and_mask unat_word_of_nat8 drop_bit_eq_div mod_mod_cancel)
  have "(2 :: nat) ^ (8 * n + 6) \<le> 2 ^ 62" using n8 by (intro power_increasing) simp_all
  with p(4) have "v < 2 ^ 64" by simp
  then have "be_fold (v div 2 ^ (8 * n)) (be_bytes n v) = v" by (rule be_fold_split)
  moreover define h where "h = (b AND 0x3f) OR push_bit 6 t"
  moreover have "h AND 0x3f = b AND 0x3f" "drop_bit 6 h = t"
    using tag_value [of b 6 t] tag_tag [of t 6 b] p(2)
    by (simp_all add: h_def mask_bytes word_less_nat_alt)
  ultimately show ?thesis
    using p(3) b by (simp add: p(6) get_varint_def Let_def)
qed

lemma put_varint_fits: "put_varint v cap = Inr bs \<Longrightarrow> length bs \<le> cap"
  by (erule put_varint_eq) simp

lemma get_varint_bound: "get_varint bs = Inr (v, n) \<Longrightarrow> 0 < n \<and> n \<le> length bs"
  by (auto simp: get_varint_def Let_def push_bit_eq_mult split: list.splits if_splits)

lemma put_varint_Inr_iff: "(\<exists>bs. put_varint v cap = Inr bs) \<longleftrightarrow>
    (\<exists>n. varint_len v = Inr n \<and> n \<le> cap)"
  by (cases "varint_len v") (auto simp: put_varint_def Let_def)

interpretation varint: prefix_codec put_varint get_varint "\<lambda>v. True"
  by unfold_locales (simp_all add: get_put_varint put_varint_fits get_varint_bound)


section \<open>Connection identifiers\<close>

datatype ConnectionId = ConnectionId (cid_value: u64)

definition CID_MAX_VALUE :: u64 where
  "CID_MAX_VALUE = 2 ^ 61 - 1"

definition ConnectionId_new :: "u64 \<Rightarrow> ConnectionId option" where
  "ConnectionId_new value = (if value \<le> CID_MAX_VALUE then Some (ConnectionId value) else None)"

definition cid_encoded_len :: "ConnectionId \<Rightarrow> nat" where
  "cid_encoded_len cid =
     (if cid_value cid \<le> 0x7f then 1
      else if cid_value cid \<le> 0x1fff then 2
      else if cid_value cid \<le> 0x1fffffff then 4
      else 8)"

definition cid_encode :: "ConnectionId \<Rightarrow> nat \<Rightarrow> u8 list result" where
  "cid_encode cid cap =
     (let n = cid_encoded_len cid in
      if cap < n then Inl BufferTooSmall
      else
        let tag = push_bit 5 (if n = 1 then 0 else if n = 2 then 0b100
                              else if n = 4 then 0b101 else 0b110 :: u8);
            out = be_bytes n (cid_value cid)
        in Inr (out[0 := (out ! 0 AND (if n = 1 then 0x7f else 0x1f)) OR tag]))"

definition cid_class :: "u8 \<Rightarrow> (nat \<times> u8) result" where
  "cid_class first =
     (if first AND 0x80 = 0 then Inr (1, 0x7f)
      else
        let c = drop_bit 5 first AND 0x03 in
        if c = 0 then Inr (2, 0x1f)
        else if c = 1 then Inr (4, 0x1f)
        else if c = 2 then Inr (8, 0x1f)
        else Inl Invalid)"

definition cid_decode :: "u8 list \<Rightarrow> (ConnectionId \<times> nat) result" where
  "cid_decode input = (case input of
     [] \<Rightarrow> Inl Truncated
   | first # _ \<Rightarrow> bindE (cid_class first) (\<lambda>(n, value_mask).
       if length input < n then Inl Truncated
       else
         let cid = ConnectionId (be_fold (unat (first AND value_mask)) (drop 1 (take n input))) in
         if cid_encoded_len cid \<noteq> n then Inl Invalid else Inr (cid, n)))"

definition encode_compact_cid :: "ConnectionId \<Rightarrow> nat \<Rightarrow> u8 list result" where
  "encode_compact_cid cid cap = (if cid_value cid = 0 then Inl Invalid else cid_encode cid cap)"

definition decode_compact_cid :: "u8 list \<Rightarrow> (ConnectionId \<times> nat) result" where
  "decode_compact_cid input = bindE (cid_decode input) (\<lambda>(cid, used).
     if cid_value cid = 0 then Inl Invalid else Inr (cid, used))"


lemma cid_encoded_len_bound:
  assumes "cid_value cid \<le> CID_MAX_VALUE"
  shows "cid_encoded_len cid = 1 \<and> cid_value cid < 2 ^ 7 \<or>
    cid_encoded_len cid \<in> {2, 4, 8} \<and> cid_value cid < 2 ^ (8 * cid_encoded_len cid - 3)"
  using assms by (auto simp: cid_encoded_len_def CID_MAX_VALUE_def)

lemma cid_class_tag:
  "cid_class h = Inr (n, m) \<longleftrightarrow>
     (\<not> bit h 7 \<and> n = 1 \<and> m = 0x7f) \<or>
     (drop_bit 5 h = 0b100 \<and> n = 2 \<and> m = 0x1f) \<or>
     (drop_bit 5 h = 0b101 \<and> n = 4 \<and> m = 0x1f) \<or>
     (drop_bit 5 h = 0b110 \<and> n = 8 \<and> m = 0x1f)"
proof -
  have seven: "h AND 0x80 = 0 \<longleftrightarrow> \<not> bit h 7"
    using and_exp_eq_0_iff_not_bit [of h 7] by simp
  have lt: "unat (drop_bit 5 h) < 8"
    by (simp add: drop_bit_eq_div unat_div less_mult_imp_div_less)
  have bit7: "bit h 7 \<longleftrightarrow> bit (drop_bit 5 h) 2" by (simp add: bit_simps)
  define d where "d = drop_bit 5 h"
  have "d \<in> {0, 1, 2, 3, 4, 5, 6, 7}"
  proof -
    from lt have "unat d \<in> {0, 1, 2, 3, 4, 5, 6, 7}" by (auto simp: d_def)
    then show ?thesis by (auto simp: word_unat_eq_iff)
  qed
  then show ?thesis
    unfolding cid_class_def Let_def seven bit7 d_def [symmetric]
    by (elim insertE emptyE) (simp_all, auto)
qed


text \<open>What \<open>cid_encode\<close> writes.\<close>

lemma cid_encode_eq:
  assumes "cid_encode cid cap = Inr bs" "cid_value cid \<le> CID_MAX_VALUE"
  obtains n k h where
    "cid_encoded_len cid = Suc n" "Suc n \<le> cap" "cid_class h = Inr (Suc n, mask k)"
    "k \<le> 8" "cid_value cid < 2 ^ (8 * n + k)" "8 * n + k \<le> 64"
    "h AND mask k = word_of_nat (drop_bit (8 * n) (cid_value cid)) AND mask k"
    "bs = h # be_bytes n (cid_value cid)"
proof -
  define t :: u8 where "t = (if cid_encoded_len cid = 1 then 0
      else if cid_encoded_len cid = 2 then 0b100 else if cid_encoded_len cid = 4 then 0b101 else 0b110)"
  define k :: nat where "k = (if cid_encoded_len cid = 1 then 7 else 5)"
  from cid_encoded_len_bound [OF assms(2)] obtain n where n: "cid_encoded_len cid = Suc n"
    by (cases "cid_encoded_len cid") auto
  define b :: u8 where "b = word_of_nat (drop_bit (8 * n) (cid_value cid))"
  define h where "h = (b AND mask k) OR push_bit k t"
  have k5: "push_bit 5 t = push_bit k t" by (simp add: t_def k_def)
  have bs: "bs = h # be_bytes n (cid_value cid)" and cap: "Suc n \<le> cap"
    using assms(1) k5 unfolding h_def b_def t_def k_def
    by (auto simp: cid_encode_def Let_def n be_bytes_Suc mask_bytes split: if_splits)
  have t: "unat t < 2 ^ (8 - k)" "k \<le> 8" by (simp_all add: t_def k_def)
  have tag: "drop_bit k h = t" and val: "h AND mask k = b AND mask k"
    unfolding h_def by (rule tag_tag [OF t], rule tag_value)
  have "cid_class h = Inr (Suc n, mask k)"
  proof (cases "cid_encoded_len cid = 1")
    case True
    then have "drop_bit 7 h = 0" using tag by (simp add: k_def t_def)
    moreover have "bit h 7 = bit (drop_bit 7 h) 0" by (simp add: bit_drop_bit_eq)
    ultimately have "\<not> bit h 7" by simp
    then show ?thesis using True n by (auto simp: cid_class_tag k_def mask_bytes)
  next
    case False
    then have "drop_bit 5 h = t" using tag by (simp add: k_def)
    then show ?thesis using False n cid_encoded_len_bound [OF assms(2)]
      by (auto simp: cid_class_tag k_def t_def mask_bytes)
  qed
  moreover have "cid_value cid < 2 ^ (8 * n + k)" "8 * n + k \<le> 64"
    using cid_encoded_len_bound [OF assms(2)] n by (auto simp: k_def)
  ultimately show ?thesis using that n cap t(2) val bs by (simp add: b_def)
qed

lemma cid_decode_encode:
  assumes "cid_value cid \<le> CID_MAX_VALUE" "cid_encode cid cap = Inr bs"
  shows "cid_decode (bs @ rest) = Inr (cid, length bs)"
proof -
  from assms(2,1) obtain n k h where p:
    "cid_encoded_len cid = Suc n" "cid_class h = Inr (Suc n, mask k)"
    "k \<le> 8" "cid_value cid < 2 ^ (8 * n + k)" "8 * n + k \<le> 64"
    "h AND mask k = word_of_nat (drop_bit (8 * n) (cid_value cid)) AND mask k"
    "bs = h # be_bytes n (cid_value cid)"
    by (rule cid_encode_eq)
  let ?v = "cid_value cid"
  have hi: "?v div 2 ^ (8 * n) < 2 ^ k"
    using p(4) by (simp add: less_mult_imp_div_less power_add mult.commute)
  have "(2 :: nat) ^ k \<le> 2 ^ 8" using p(3) by (intro power_increasing) simp_all
  with hi have "?v div 2 ^ (8 * n) mod 256 = ?v div 2 ^ (8 * n)" by simp
  then have b: "unat (h AND mask k) = ?v div 2 ^ (8 * n)"
    using hi by (simp add: p(6) unat_and_mask unat_word_of_nat8 drop_bit_eq_div)
  have "(2 :: nat) ^ (8 * n + k) \<le> 2 ^ 64" using p(5) by (intro power_increasing) simp_all
  with p(4) have "?v < 2 ^ 64" by linarith
  then have "be_fold (?v div 2 ^ (8 * n)) (be_bytes n ?v) = ?v" by (rule be_fold_split)
  then show ?thesis using p(1,2) b by (simp add: p(7) cid_decode_def Let_def)
qed


lemma cid_encode_length: "cid_encode cid cap = Inr bs \<Longrightarrow> length bs = cid_encoded_len cid"
  and cid_encode_fits: "cid_encode cid cap = Inr bs \<Longrightarrow> length bs \<le> cap"
  by (auto simp: cid_encode_def Let_def split: if_splits)

lemma cid_encode_Inr_iff: "(\<exists>bs. cid_encode cid cap = Inr bs) \<longleftrightarrow> cid_encoded_len cid \<le> cap"
  by (auto simp: cid_encode_def Let_def)

lemma cid_encode_cap: "cid_encode cid cap = Inr bs \<Longrightarrow> cid_encoded_len cid \<le> cap' \<Longrightarrow>
    cid_encode cid cap' = Inr bs"
  by (auto simp: cid_encode_def Let_def split: if_splits)

lemma cid_encoded_len_pos [simp]: "0 < cid_encoded_len cid"
  and cid_encoded_len_le [simp]: "cid_encoded_len cid \<le> 8"
  by (simp_all add: cid_encoded_len_def)

lemma cid_decode_eq:
  assumes "cid_decode input = Inr (cid, used)"
  obtains h tl n m where "input = h # tl" "used = Suc n" "cid_class h = Inr (Suc n, m)"
    "Suc n \<le> length input" "cid_encoded_len cid = Suc n"
    "cid_value cid = be_fold (unat (h AND m)) (take n tl)"
proof -
  from assms obtain h tl where h: "input = h # tl" by (cases input) (auto simp: cid_decode_def)
  with assms obtain n m where nm: "cid_class h = Inr (n, m)" "n \<le> length input" "used = n"
      "cid_encoded_len cid = n" "cid = ConnectionId (be_fold (unat (h AND m)) (drop 1 (take n input)))"
    by (auto simp: cid_decode_def Let_def split: if_splits)
  obtain n' where "n = Suc n'" using nm(4) cid_encoded_len_pos [of cid] by (cases n) auto
  with nm h show ?thesis by (intro that) auto
qed

lemma cid_decode_bound: "cid_decode bs = Inr (cid, n) \<Longrightarrow> 0 < n \<and> n \<le> length bs"
  by (erule cid_decode_eq) simp

text \<open>
  The decoder accepts canonical encodings only: what it consumed is exactly what the encoder
  writes for the identifier it returned.
\<close>

lemma cid_encode_decode:
  assumes "cid_decode input = Inr (cid, used)" "used \<le> cap"
  shows "cid_value cid \<le> CID_MAX_VALUE \<and> cid_encode cid cap = Inr (take used input)"
proof -
  from assms(1) obtain h tl n m where p: "input = h # tl" "used = Suc n"
      "cid_class h = Inr (Suc n, m)" "Suc n \<le> length input" "cid_encoded_len cid = Suc n"
      "cid_value cid = be_fold (unat (h AND m)) (take n tl)"
    by (rule cid_decode_eq)
  define k :: nat where "k = (if n = 0 then 7 else 5)"
  have m: "m = mask k" and n: "n \<in> {0, 1, 3, 7}"
    using p(3) by (auto simp: cid_class_tag k_def mask_bytes)
  have lk: "unat (h AND m) < 2 ^ k" by (simp add: m unat_and_mask)
  have len: "length (take n tl) = n" using p(1,4) by simp
  have k64: "k + 8 * n \<le> 61" using n by (auto simp: k_def)
  have hi: "cid_value cid div 2 ^ (8 * n) = unat (h AND m)" and lo: "be_bytes n (cid_value cid) = take n tl"
    using be_bytes_be_fold [OF lk, of "take n tl"] len k64 by (simp_all add: p(6))
  have "cid_value cid < 2 ^ (k + 8 * n)"
    using be_fold_bound [OF lk, of "take n tl"] len k64 by (simp add: p(6))
  moreover have "(2 :: nat) ^ (k + 8 * n) \<le> 2 ^ 61" using k64 by (intro power_increasing) simp_all
  ultimately have max: "cid_value cid \<le> CID_MAX_VALUE" by (simp add: CID_MAX_VALUE_def)
  have b: "word_of_nat (drop_bit (8 * n) (cid_value cid)) = h AND m"
    by (simp add: drop_bit_eq_div hi)
  define t :: u8 where "t = (if n = 0 then 0 else if n = 1 then 0b100 else if n = 3 then 0b101 else 0b110)"
  have t: "push_bit 5 t = push_bit k (drop_bit k h)"
  proof (cases "n = 0")
    case True
    then have "\<not> bit h 7" using p(3) by (auto simp: cid_class_tag)
    then have "\<not> bit (drop_bit 7 h) i" for i
      using bit_imp_le_length [of h "7 + i"] by (cases i) (auto simp: bit_simps)
    then have "drop_bit 7 h = 0" by (intro bit_word_eqI) simp
    with True show ?thesis by (simp add: t_def k_def)
  next
    case False
    then show ?thesis using p(3) n by (auto simp: cid_class_tag t_def k_def)
  qed
  have mm: "(if Suc n = 1 then 0x7f else 0x1f) = m" by (simp add: m k_def mask_bytes)
  have "cid_encode cid cap = Inr (((h AND m AND m) OR push_bit k (drop_bit k h)) # take n tl)"
    using assms(2) p(2) unfolding t [symmetric] t_def
    by (simp add: cid_encode_def Let_def p(5) be_bytes_Suc lo b m k_def mask_bytes)
  then show ?thesis using max tag_split [of h k] by (simp add: m p(1,2))
qed

lemma cid_decode_max: "cid_decode input = Inr (cid, used) \<Longrightarrow> cid_value cid \<le> CID_MAX_VALUE"
  using cid_encode_decode [of input cid used used] by simp

interpretation cid: prefix_codec cid_encode cid_decode "\<lambda>cid. cid_value cid \<le> CID_MAX_VALUE"
  by unfold_locales (simp_all add: cid_decode_encode cid_encode_fits cid_decode_bound)

interpretation compact_cid: prefix_codec encode_compact_cid decode_compact_cid
  "\<lambda>cid. cid_value cid \<le> CID_MAX_VALUE"
  by unfold_locales
    (auto simp: encode_compact_cid_def decode_compact_cid_def cid_decode_encode cid_encode_fits
      split: if_splits dest: cid_decode_bound)

end
