(* ===== verification/Wire_Header.thy ===== *)
theory Wire_Header
  imports Wire_Codec
begin

text \<open>
  Packet headers of \<^verbatim>\<open>quic-lite/src/lib.rs\<close>: the short header with its truncated packet number
  and the reconstruction of the full number, the long header of packets that have no
  destination yet, and the rewriting of the destination by a relay, into a second buffer and in
  place. The wrappers of \<^verbatim>\<open>wire.rs\<close> are at the end of the definitions.

  The cargo feature \<^verbatim>\<open>packet-protection\<close> is the Boolean argument \<open>pp\<close>.
\<close>

section \<open>Short headers\<close>

definition FLAG_FIXED :: u8 where "FLAG_FIXED = 0x40"
definition FLAG_RESERVED :: u8 where "FLAG_RESERVED = 0x18"
definition FLAG_KEY_PHASE :: u8 where "FLAG_KEY_PHASE = 0x04"

record ShortHeader =
  sh_flags :: u8
  sh_dcid :: ConnectionId
  sh_packet_number :: u32
  sh_packet_number_len :: nat

record ShortHeaderPrefix =
  pre_flags :: u8
  pre_dcid :: ConnectionId
  truncated_packet_number :: u32
  pre_packet_number_len :: nat
  header_len :: usize

definition reconstruct :: "ShortHeaderPrefix \<Rightarrow> u32 \<Rightarrow> ShortHeader result" where
  "reconstruct p expected =
     (let k = pre_packet_number_len p * 8;
          window = push_bit k (1 :: nat);
          half_window = window div 2;
          epoch = push_bit k (drop_bit k expected);
          candidate = epoch OR truncated_packet_number p
      in bindE
        (if candidate + half_window \<le> expected \<and> candidate + window \<le> u32_max
         then Inr (candidate + window)
         else if expected + half_window < candidate
         then if candidate < window then Inl PacketNumberExhausted else Inr (candidate - window)
         else Inr candidate)
        (\<lambda>candidate.
           if u32_max < candidate then Inl PacketNumberExhausted
           else Inr \<lparr>sh_flags = pre_flags p, sh_dcid = pre_dcid p,
             sh_packet_number = candidate, sh_packet_number_len = pre_packet_number_len p\<rparr>))"

definition short_encode :: "bool \<Rightarrow> ShortHeader \<Rightarrow> nat \<Rightarrow> u8 list result" where
  "short_encode pp h cap =
     (let pn_len = min 4 (max 1 (sh_packet_number_len h));
          cid_len = cid_encoded_len (sh_dcid h)
      in if cap < 1 + cid_len + pn_len then Inl BufferTooSmall
      else
        let flags = (if pp then sh_flags h AND NOT FLAG_RESERVED
                     else sh_flags h AND NOT (FLAG_RESERVED OR FLAG_KEY_PHASE));
            first = flags OR FLAG_FIXED OR (word_of_nat (pn_len - 1) AND 3)
        in bindE (cid_encode (sh_dcid h) (cap - 1)) (\<lambda>cid.
             Inr (first # cid @ be_bytes pn_len (sh_packet_number h))))"

definition decode_prefix :: "bool \<Rightarrow> u8 list \<Rightarrow> ShortHeaderPrefix result" where
  "decode_prefix pp input = (case input of
     [] \<Rightarrow> Inl Truncated
   | first # _ \<Rightarrow>
       if first AND FLAG_FIXED = 0 \<or> first AND FLAG_RESERVED \<noteq> 0
          \<or> \<not> pp \<and> first AND FLAG_KEY_PHASE \<noteq> 0
       then Inl Invalid
       else
         let pn_len = unat ((first AND 3) + 1) in
         bindE (cid_decode (drop 1 input)) (\<lambda>(dcid, cid_len).
           if length input < 1 + cid_len + pn_len then Inl Truncated
           else Inr \<lparr>pre_flags = first, pre_dcid = dcid,
             truncated_packet_number = be_fold 0 (take pn_len (drop (1 + cid_len) input)),
             pre_packet_number_len = pn_len, header_len = 1 + cid_len + pn_len\<rparr>))"

definition decode_with_expected :: "bool \<Rightarrow> u8 list \<Rightarrow> u32 \<Rightarrow> (ShortHeader \<times> usize) result" where
  "decode_with_expected pp input expected = bindE (decode_prefix pp input) (\<lambda>p.
     bindE (reconstruct p expected) (\<lambda>h. Inr (h, header_len p)))"

definition short_decode :: "bool \<Rightarrow> u8 list \<Rightarrow> (ShortHeader \<times> usize) result" where
  "short_decode pp input = bindE (decode_prefix pp input) (\<lambda>p.
     Inr (\<lparr>sh_flags = pre_flags p, sh_dcid = pre_dcid p,
       sh_packet_number = truncated_packet_number p,
       sh_packet_number_len = pre_packet_number_len p\<rparr>, header_len p))"

definition packet_number_len :: "u32 \<Rightarrow> u32 option \<Rightarrow> nat" where
  "packet_number_len next largest_acked =
     (let baseline = (case largest_acked of None \<Rightarrow> 0 | Some a \<Rightarrow> a);
          distance = next - baseline;
          needed = max (sat_mul64 distance 2) 1
      in if needed < push_bit 8 1 then 1
         else if needed < push_bit 16 1 then 2
         else if needed < push_bit 24 1 then 3
         else 4)"

section \<open>Long headers\<close>

definition DMESH_LONG_HEADER_VERSION :: u32 where "DMESH_LONG_HEADER_VERSION = 0x444d0001"
definition LONG_PACKET_INITIAL :: nat where "LONG_PACKET_INITIAL = 0"
definition LONG_PACKET_PATH_OPEN :: nat where "LONG_PACKET_PATH_OPEN = 1"
definition LONG_PACKET_PATH_OPEN_ACK :: nat where "LONG_PACKET_PATH_OPEN_ACK = 2"

record LongHeader =
  lh_packet_type :: nat
  lh_version :: u32
  lh_dcid :: "ConnectionId option"
  lh_scid :: "ConnectionId option"
  lh_packet_number :: u32
  lh_packet_number_len :: nat

definition opt_cid_len :: "ConnectionId option \<Rightarrow> nat" where
  "opt_cid_len c = (case c of None \<Rightarrow> 0 | Some cid \<Rightarrow> cid_encoded_len cid)"

text \<open>One pass of the loop over \<^verbatim>\<open>[dcid, scid]\<close>: a length byte, then the identifier.\<close>

definition encode_long_cid :: "ConnectionId option \<Rightarrow> u8 list result" where
  "encode_long_cid c = (case c of
     None \<Rightarrow> Inr [0]
   | Some cid \<Rightarrow> bindE (cid_encode cid (cid_encoded_len cid)) (\<lambda>bytes.
       Inr (word_of_nat (cid_encoded_len cid) # bytes)))"

definition encode_long_packet ::
  "nat \<Rightarrow> ConnectionId option \<Rightarrow> ConnectionId option \<Rightarrow> u32 \<Rightarrow> nat \<Rightarrow> u8 list \<Rightarrow> nat \<Rightarrow> u8 list result"
where
  "encode_long_packet packet_type dcid scid packet_number pn_len payload cap =
     (if 3 < packet_type \<or> \<not> (1 \<le> pn_len \<and> pn_len \<le> 4) \<or> payload = [] then Inl Invalid
      else
        let need = 1 + 4 + 1 + opt_cid_len dcid + 1 + opt_cid_len scid
              + (if packet_type = LONG_PACKET_INITIAL then 1 else 0) + 8 + pn_len + length payload
        in if cap < need then Inl BufferTooSmall
        else
          let first = 0xc0 OR push_bit 4 (word_of_nat packet_type) OR word_of_nat (pn_len - 1)
          in bindE (encode_long_cid dcid) (\<lambda>d.
             bindE (encode_long_cid scid) (\<lambda>s.
             let token = (if packet_type = LONG_PACKET_INITIAL then [0] else []);
                 head = first # be_bytes 4 DMESH_LONG_HEADER_VERSION @ d @ s @ token
             in bindE (put_varint (pn_len + length payload) (cap - length head)) (\<lambda>l.
                Inr (head @ l @ drop (4 - pn_len) (be_bytes 4 packet_number) @ payload)))))"

definition decode_long_cid :: "u8 list \<Rightarrow> usize \<Rightarrow> (ConnectionId option \<times> usize) result" where
  "decode_long_cid input at =
     (if at < length input
      then
        let len = unat (input ! at); at = at + 1 in
        if len \<noteq> 0 then
          if len \<notin> {1, 2, 4, 8} \<or> length input < at + len then Inl Invalid
          else bindE (cid_decode (take len (drop at input))) (\<lambda>(cid, used).
            if used \<noteq> len then Inl Invalid else Inr (Some cid, at + len))
        else Inr (None, at)
      else Inl Truncated)"

definition skip_initial_token :: "nat \<Rightarrow> u8 list \<Rightarrow> usize \<Rightarrow> usize result" where
  "skip_initial_token packet_type input at =
     (if packet_type = LONG_PACKET_INITIAL
      then if length input < at then Inl Truncated
        else bindE (get_varint (drop at input)) (\<lambda>(token_len, used).
          bindE (ok_or Invalid (checked_add u64_max (at + used) token_len)) (\<lambda>at.
            if length input < at then Inl Truncated else Inr at))
      else Inr at)"

definition decode_long_packet :: "u8 list \<Rightarrow> (LongHeader \<times> usize \<times> usize) result" where
  "decode_long_packet input =
     (if length input < 9 \<or> input ! 0 AND 0xc0 \<noteq> 0xc0 then Inl Invalid
      else
        let version = be_fold 0 (take 4 (drop 1 input)) in
        if version \<noteq> DMESH_LONG_HEADER_VERSION then Inl Invalid
        else
          let packet_type = unat (drop_bit 4 (input ! 0) AND 0x03);
              pn_len = unat ((input ! 0 AND 0x03) + 1)
          in bindE (decode_long_cid input 5) (\<lambda>(dcid, at).
             bindE (decode_long_cid input at) (\<lambda>(scid, at).
             bindE (skip_initial_token packet_type input at) (\<lambda>at.
             bindE (get_varint (drop at input)) (\<lambda>(body_len, used).
             let at = at + used in
             if body_len < pn_len \<or> length input \<noteq> at + body_len then Inl Invalid
             else
               Inr (\<lparr>lh_packet_type = packet_type, lh_version = version, lh_dcid = dcid,
                      lh_scid = scid, lh_packet_number = be_fold 0 (take pn_len (drop at input)),
                      lh_packet_number_len = pn_len\<rparr>,
                    at + pn_len, body_len - pn_len))))))"

definition is_long :: "u8 list \<Rightarrow> bool" where
  "is_long input = (case input of [] \<Rightarrow> False | flags # _ \<Rightarrow> flags AND 0x80 \<noteq> 0)"

definition decode_routing_prefix :: "bool \<Rightarrow> u8 list \<Rightarrow> ShortHeaderPrefix result" where
  "decode_routing_prefix pp input =
     (if is_long input
      then bindE (decode_long_packet input) (\<lambda>(h, hlen, _).
        bindE (ok_or Invalid (ConnectionId_new 0)) (\<lambda>zero.
          Inr \<lparr>pre_flags = input ! 0,
               pre_dcid = (case lh_dcid h of None \<Rightarrow> zero | Some cid \<Rightarrow> cid),
               truncated_packet_number = lh_packet_number h,
               pre_packet_number_len = lh_packet_number_len h, header_len = hlen\<rparr>))
      else decode_prefix pp input)"

section \<open>Rewriting the destination\<close>

definition rewrite_destination :: "bool \<Rightarrow> u8 list \<Rightarrow> ConnectionId option \<Rightarrow> nat \<Rightarrow> u8 list result" where
  "rewrite_destination pp input outbound_dcid cap =
     (if is_long input
      then bindE (decode_long_packet input) (\<lambda>(h, payload_at, payload_len).
        encode_long_packet (lh_packet_type h) outbound_dcid (lh_scid h) (lh_packet_number h)
          (lh_packet_number_len h) (take payload_len (drop payload_at input)) cap)
      else
        bindE (ok_or Invalid outbound_dcid) (\<lambda>outbound_dcid.
        bindE (decode_prefix pp input) (\<lambda>p.
        let inbound_len = cid_encoded_len (pre_dcid p);
            outbound_len = cid_encoded_len outbound_dcid
        in bindE (ok_or Invalid (case checked_sub (length input) inbound_len of
               None \<Rightarrow> None | Some len \<Rightarrow> checked_add u64_max len outbound_len)) (\<lambda>used.
           if cap < used then Inl BufferTooSmall
           else bindE (cid_encode outbound_dcid (cap - 1)) (\<lambda>cid.
             Inr (input ! 0 # cid @ drop (1 + inbound_len) input))))))"

definition rewrite_dcid :: "bool \<Rightarrow> u8 list \<Rightarrow> ConnectionId \<Rightarrow> nat \<Rightarrow> u8 list result" where
  "rewrite_dcid pp input outbound_dcid cap =
     (if cid_value outbound_dcid = 0 then Inl Invalid
      else rewrite_destination pp input (Some outbound_dcid) cap)"

definition rewrite_bootstrap_destination :: "bool \<Rightarrow> u8 list \<Rightarrow> nat \<Rightarrow> u8 list result" where
  "rewrite_bootstrap_destination pp input cap = rewrite_destination pp input None cap"

text \<open>
  An owned packet: the whole backing slot, the range of it that is the packet, and whether
  \<^verbatim>\<open>as_mut_unique\<close> grants write access (no other lease of the slot exists).
\<close>

record OwnedPacket =
  pkt_storage :: "u8 list"
  pkt_start :: usize
  pkt_end :: usize
  pkt_unique :: bool

definition packet_bytes :: "OwnedPacket \<Rightarrow> u8 list" where
  "packet_bytes p = drop (pkt_start p) (take (pkt_end p) (pkt_storage p))"

definition dcid_rewrite_layout ::
  "bool \<Rightarrow> OwnedPacket \<Rightarrow> ConnectionId \<Rightarrow> usize \<Rightarrow> usize \<Rightarrow> (usize \<times> usize \<times> u8 list) result"
where
  "dcid_rewrite_layout pp packet destination prefix_required max_packet =
     (if cid_value destination = 0 \<or> is_long (packet_bytes packet) then Inl Invalid
      else bindE (decode_prefix pp (packet_bytes packet)) (\<lambda>p.
        let tail = pkt_start packet + 1 + cid_encoded_len (pre_dcid p);
            hlen = 1 + cid_encoded_len destination
        in bindE (ok_or BufferTooSmall (checked_sub tail hlen)) (\<lambda>start.
           if start < prefix_required \<or> max_packet < pkt_end packet - start
           then Inl BufferTooSmall
           else bindE (cid_encode destination (hlen - 1)) (\<lambda>cid.
             Inr (start, pkt_end packet, packet_bytes packet ! 0 # cid)))))"

definition rewrite_dcid_in_place ::
  "bool \<Rightarrow> OwnedPacket \<Rightarrow> ConnectionId \<Rightarrow> usize \<Rightarrow> usize \<Rightarrow> (error \<times> OwnedPacket) + OwnedPacket"
where
  "rewrite_dcid_in_place pp packet destination prefix_required max_packet =
     (case dcid_rewrite_layout pp packet destination prefix_required max_packet of
        Inl e \<Rightarrow> Inl (e, packet)
      | Inr (start, end', header) \<Rightarrow>
          if \<not> pkt_unique packet then Inl (Blocked, packet)
          else Inr (packet\<lparr>pkt_storage := take start (pkt_storage packet) @ header
                             @ drop (start + length header) (pkt_storage packet),
                           pkt_start := start, pkt_end := end'\<rparr>))"

section \<open>The public wrappers\<close>

definition wire_cid :: "u64 option \<Rightarrow> ConnectionId option result" where
  "wire_cid value = (case value of
     None \<Rightarrow> Inr None
   | Some v \<Rightarrow> bindE (ok_or Invalid (ConnectionId_new v)) (\<lambda>cid. Inr (Some cid)))"

definition wire_encode_connection_id :: "u64 \<Rightarrow> nat \<Rightarrow> u8 list result" where
  "wire_encode_connection_id value cap =
     bindE (ok_or Invalid (ConnectionId_new value)) (\<lambda>cid. cid_encode cid cap)"

definition wire_encode_long_packet ::
  "nat \<Rightarrow> u64 option \<Rightarrow> u64 option \<Rightarrow> u32 \<Rightarrow> nat \<Rightarrow> u8 list \<Rightarrow> nat \<Rightarrow> u8 list result"
where
  "wire_encode_long_packet packet_type dcid scid packet_number pn_len payload cap =
     bindE (wire_cid dcid) (\<lambda>d. bindE (wire_cid scid) (\<lambda>s.
       encode_long_packet packet_type d s packet_number pn_len payload cap))"

definition wire_encode_short_packet :: "bool \<Rightarrow> u64 \<Rightarrow> u32 \<Rightarrow> nat \<Rightarrow> u8 list \<Rightarrow> nat \<Rightarrow> u8 list result" where
  "wire_encode_short_packet pp dcid packet_number pn_len payload cap =
     bindE (ok_or Invalid (ConnectionId_new dcid)) (\<lambda>cid.
     bindE (short_encode pp \<lparr>sh_flags = 0, sh_dcid = cid, sh_packet_number = packet_number,
              sh_packet_number_len = pn_len\<rparr> cap) (\<lambda>h.
     bindE (ok_or BufferTooSmall (checked_add u64_max (length h) (length payload))) (\<lambda>end'.
       if cap < end' then Inl BufferTooSmall else Inr (h @ payload))))"

definition wire_rewrite_dcid :: "bool \<Rightarrow> u8 list \<Rightarrow> u64 \<Rightarrow> nat \<Rightarrow> u8 list result" where
  "wire_rewrite_dcid pp input outbound_dcid cap =
     bindE (ok_or Invalid (ConnectionId_new outbound_dcid)) (\<lambda>cid. rewrite_dcid pp input cid cap)"


section \<open>The flag byte\<close>

text \<open>
  The flags a caller may ask for: neither the long-header bit, nor the packet-number length
  bits (the encoder fills them), nor the reserved bits.
\<close>

definition flags_ok :: "u8 \<Rightarrow> bool" where
  "flags_ok f = (f AND 0x9b = 0)"

lemma and_mask_bits:
  fixes w v :: u8
  shows "w AND 0x40 = 0 \<longleftrightarrow> \<not> bit w 6"
    "w AND 0x80 = 0 \<longleftrightarrow> \<not> bit w 7"
    "w AND 0x04 = 0 \<longleftrightarrow> \<not> bit w 2"
    "w AND 0x18 = 0 \<longleftrightarrow> \<not> bit w 3 \<and> \<not> bit w 4"
    "w AND 0xc0 = 0xc0 \<longleftrightarrow> bit w 6 \<and> bit w 7"
    "w AND 0x9b = 0 \<longleftrightarrow> \<not> bit w 0 \<and> \<not> bit w 1 \<and> \<not> bit w 3 \<and> \<not> bit w 4 \<and> \<not> bit w 7"
    "w AND 0x03 = v AND 0x03 \<longleftrightarrow> bit w 0 = bit v 0 \<and> bit w 1 = bit v 1"
proof -
  have eq8: "a = b \<longleftrightarrow> list_all (\<lambda>i. bit a i = bit b i) [0, 1, 2, 3, 4, 5, 6, 7]" for a b :: u8
  proof -
    have "a = b \<longleftrightarrow> (\<forall>n<8. bit a n = bit b n)" by (auto simp: bit_eq_iff)
    also have "\<dots> \<longleftrightarrow> list_all (\<lambda>i. bit a i = bit b i) [0..<8]"
      by (simp only: list_all_iff set_upt atLeast0LessThan lessThan_iff Ball_def)
    also have "[0..<8] = [0, 1, 2, 3, 4, 5, 6, 7 :: nat]" by code_simp
    finally show ?thesis .
  qed
  show "w AND 0x40 = 0 \<longleftrightarrow> \<not> bit w 6" "w AND 0x80 = 0 \<longleftrightarrow> \<not> bit w 7" "w AND 0x04 = 0 \<longleftrightarrow> \<not> bit w 2"
    "w AND 0x18 = 0 \<longleftrightarrow> \<not> bit w 3 \<and> \<not> bit w 4" "w AND 0xc0 = 0xc0 \<longleftrightarrow> bit w 6 \<and> bit w 7"
    "w AND 0x9b = 0 \<longleftrightarrow> \<not> bit w 0 \<and> \<not> bit w 1 \<and> \<not> bit w 3 \<and> \<not> bit w 4 \<and> \<not> bit w 7"
    "w AND 0x03 = v AND 0x03 \<longleftrightarrow> bit w 0 = bit v 0 \<and> bit w 1 = bit v 1"
    unfolding eq8 by (simp_all add: bit_and_iff)
qed

lemmas flag_bits = and_mask_bits bit_and_iff bit_or_iff bit_not_iff
  FLAG_FIXED_def FLAG_RESERVED_def FLAG_KEY_PHASE_def

text \<open>The first byte of an encoded short header, read back.\<close>

lemma short_first_byte:
  assumes "flags_ok f" "1 \<le> l" "l \<le> 4"
    and first: "first = (if pp then f AND NOT FLAG_RESERVED else f AND NOT (FLAG_RESERVED OR FLAG_KEY_PHASE))
      OR FLAG_FIXED OR (word_of_nat (l - 1) AND 3)"
  shows "first AND FLAG_FIXED \<noteq> 0" "first AND FLAG_RESERVED = 0" "\<not> pp \<Longrightarrow> first AND FLAG_KEY_PHASE = 0"
    "first AND 0x80 = 0" "unat ((first AND 3) + 1) = l"
proof -
  have f: "\<not> bit f 0" "\<not> bit f 1" "\<not> bit f 7"
    using assms(1) by (simp_all add: flags_ok_def flag_bits)
  show "first AND FLAG_FIXED \<noteq> 0" "first AND FLAG_RESERVED = 0" "first AND 0x80 = 0"
    using f by (simp_all add: first flag_bits)
  show "first AND FLAG_KEY_PHASE = 0" if "\<not> pp"
    using that f by (simp_all add: first flag_bits)
  have "first AND 3 = word_of_nat (l - 1) AND 3"
    using f by (simp_all add: first flag_bits)
  moreover have "unat ((word_of_nat (l - 1) AND 3) + 1 :: u8) = l"
  proof -
    have "l \<in> {1, 2, 3, 4}" using assms(2,3) by auto
    then show ?thesis by (elim insertE emptyE) simp_all
  qed
  ultimately show "unat ((first AND 3) + 1) = l" by simp
qed


section \<open>Packet-number reconstruction\<close>

text \<open>
  A number in the half-open window around the expected one is recovered from its low bytes.
\<close>

lemma reconstruct_window:
  assumes l: "1 \<le> l" "l \<le> 4" and pn: "pn \<le> u32_max"
    and t: "truncated_packet_number p = pn mod 2 ^ (8 * l)" "pre_packet_number_len p = l"
    and near: "pn \<le> expected + 2 ^ (8 * l - 1)" "expected < pn + 2 ^ (8 * l - 1)"
  shows "reconstruct p expected = Inr \<lparr>sh_flags = pre_flags p, sh_dcid = pre_dcid p,
    sh_packet_number = pn, sh_packet_number_len = l\<rparr>"
proof -
  define k where "k = 8 * l"
  define W where "W = (2 :: nat) ^ k"
  define H where "H = (2 :: nat) ^ (k - 1)"
  have WH: "W = 2 * H" "W div 2 = H" "0 < H"
  proof -
    have "k = Suc (k - 1)" using l by (simp add: k_def)
    then have "W = 2 * H" unfolding W_def H_def by (metis power_Suc)
    then show "W = 2 * H" "W div 2 = H" "0 < H" by (simp_all add: H_def)
  qed
  define e where "e = expected div W"
  define q where "q = pn div W"
  have ex: "expected = e * W + expected mod W" and exl: "expected mod W < W"
    by (simp_all add: e_def W_def div_mult_mod_eq)
  have pw1: "pn = q * W + pn mod W" and pw2: "pn mod W < W"
    by (simp_all add: q_def W_def div_mult_mod_eq)
  note pw = pw1 pw2
  have cand: "push_bit (l * 8) (drop_bit (l * 8) expected) OR truncated_packet_number p = e * W + pn mod W"
    using push_bit_or_add [of "pn mod W" k "drop_bit k expected"] pw(2)
    by (simp add: t W_def e_def k_def drop_bit_eq_div mult.commute)
  have win: "push_bit (l * 8) (1 :: nat) = W" by (simp add: W_def k_def push_bit_eq_mult mult.commute)
  have n1: "pn \<le> expected + H" and n2: "expected < pn + H" using near by (simp_all add: H_def k_def)
  have "q * W < (e + 2) * W" using n1 pw ex exl WH unfolding add_mult_distrib by linarith
  then have "q < e + 2" by (simp only: mult_less_cancel2)
  then have q1: "q \<le> Suc e" by simp
  have "e * W < (q + 2) * W" using n2 pw ex WH unfolding add_mult_distrib by linarith
  then have "e < q + 2" by (simp only: mult_less_cancel2)
  then have q2: "e \<le> Suc q" by simp
  have rec: "reconstruct p expected = bindE
      (if c + H \<le> expected \<and> c + W \<le> u32_max then Inr (c + W)
       else if expected + H < c then if c < W then Inl PacketNumberExhausted else Inr (c - W)
       else Inr c)
      (\<lambda>c. if u32_max < c then Inl PacketNumberExhausted
        else Inr \<lparr>sh_flags = pre_flags p, sh_dcid = pre_dcid p, sh_packet_number = c,
          sh_packet_number_len = l\<rparr>)" if "c = e * W + pn mod W" for c
    unfolding that by (simp only: reconstruct_def Let_def t(2) win cand WH(2))
  consider "q = e" | "q = Suc e" | "e = Suc q" using q1 q2 by linarith
  then show ?thesis
  proof cases
    case 1
    then show ?thesis using rec [of pn] pw1 n1 n2 WH(3) pn by simp
  next
    case 2
    then have "e * W + pn mod W + W = pn" using pw1 by simp
    then show ?thesis using rec [OF refl] n1 n2 WH(1) pn by simp
  next
    case 3
    then have "e * W + pn mod W = pn + W" using pw1 by simp
    then show ?thesis using rec [OF refl] n1 n2 WH(1) pn by simp
  qed
qed

definition pn_baseline :: "u32 option \<Rightarrow> u32" where
  "pn_baseline largest_acked = (case largest_acked of None \<Rightarrow> 0 | Some a \<Rightarrow> a)"

lemma packet_number_len_range: "1 \<le> packet_number_len next acked \<and> packet_number_len next acked \<le> 4"
  by (simp add: packet_number_len_def Let_def)

text \<open>The length chosen by the sender leaves less than half a window to the acknowledged number.\<close>

lemma packet_number_len_window:
  assumes "next \<le> u32_max" "next - pn_baseline acked \<le> 2 ^ 31"
  shows "next - pn_baseline acked \<le> 2 ^ (8 * packet_number_len next acked - 1)"
  using assms
  by (auto simp: packet_number_len_def pn_baseline_def Let_def sat_mul_def push_bit_eq_mult)

section \<open>Round trip of short headers\<close>

definition short_header_ok :: "ShortHeader \<Rightarrow> bool" where
  "short_header_ok h \<longleftrightarrow> flags_ok (sh_flags h) \<and> cid_value (sh_dcid h) \<le> CID_MAX_VALUE
     \<and> sh_packet_number h \<le> u32_max \<and> 1 \<le> sh_packet_number_len h \<and> sh_packet_number_len h \<le> 4"

lemma be_fold_bytes_mod: "n \<le> 8 \<Longrightarrow> be_fold 0 (be_bytes n v) = v mod 2 ^ (8 * n)"
proof -
  assume "n \<le> 8"
  then have "(2 :: nat) ^ (8 * n) \<le> 2 ^ 64" by (intro power_increasing) simp_all
  moreover have "v mod 2 ^ (8 * n) < 2 ^ (8 * n)" by simp
  ultimately have "v mod 2 ^ (8 * n) < 2 ^ 64" by linarith
  then show ?thesis using be_fold_be_bytes [of 0 n v] by simp
qed

lemma short_encode_eq:
  assumes "short_header_ok h" "short_encode pp h cap = Inr bs"
  obtains first cid where "cid_encode (sh_dcid h) (cap - 1) = Inr cid"
    "bs = first # cid @ be_bytes (sh_packet_number_len h) (sh_packet_number h)"
    "first AND FLAG_FIXED \<noteq> 0" "first AND FLAG_RESERVED = 0" "\<not> pp \<Longrightarrow> first AND FLAG_KEY_PHASE = 0"
    "first AND 0x80 = 0" "unat ((first AND 3) + 1) = sh_packet_number_len h"
proof -
  let ?l = "sh_packet_number_len h"
  have l: "1 \<le> ?l" "?l \<le> 4" and f: "flags_ok (sh_flags h)"
    using assms(1) by (simp_all add: short_header_ok_def)
  define first where "first = (if pp then sh_flags h AND NOT FLAG_RESERVED
      else sh_flags h AND NOT (FLAG_RESERVED OR FLAG_KEY_PHASE)) OR FLAG_FIXED OR (word_of_nat (?l - 1) AND 3)"
  have "min 4 (max 1 ?l) = ?l" using l by simp
  with assms(2) obtain cid where "cid_encode (sh_dcid h) (cap - 1) = Inr cid"
      "bs = first # cid @ be_bytes ?l (sh_packet_number h)"
    by (auto simp: short_encode_def Let_def first_def split: if_splits)
  then show ?thesis
    by (rule that) (use short_first_byte [OF f l first_def] in auto)
qed

lemma decode_prefix_short_encode:
  assumes "short_header_ok h" "short_encode pp h cap = Inr bs"
  shows "decode_prefix pp (bs @ body) = Inr \<lparr>pre_flags = hd bs, pre_dcid = sh_dcid h,
    truncated_packet_number = sh_packet_number h mod 2 ^ (8 * sh_packet_number_len h),
    pre_packet_number_len = sh_packet_number_len h, header_len = length bs\<rparr>"
proof -
  from assms obtain first cid where p: "cid_encode (sh_dcid h) (cap - 1) = Inr cid"
    "bs = first # cid @ be_bytes (sh_packet_number_len h) (sh_packet_number h)"
    "first AND FLAG_FIXED \<noteq> 0" "first AND FLAG_RESERVED = 0" "\<not> pp \<Longrightarrow> first AND FLAG_KEY_PHASE = 0"
    "unat ((first AND 3) + 1) = sh_packet_number_len h"
    by (rule short_encode_eq) blast
  have "cid_decode (cid @ be_bytes (sh_packet_number_len h) (sh_packet_number h) @ body)
      = Inr (sh_dcid h, length cid)"
    using assms(1) p(1) by (intro cid_decode_encode) (simp_all add: short_header_ok_def)
  moreover have "pp \<or> first AND FLAG_KEY_PHASE = 0" using p(5) by blast
  ultimately show ?thesis using p assms(1)
    by (simp add: decode_prefix_def Let_def be_fold_bytes_mod short_header_ok_def)
qed



definition example_header :: ShortHeader where
  "example_header = \<lparr>sh_flags = 0, sh_dcid = ConnectionId 0x12345, sh_packet_number = 70000,
     sh_packet_number_len = 2\<rparr>"



section \<open>Round trip of long headers\<close>

definition opt_cid_ok :: "ConnectionId option \<Rightarrow> bool" where
  "opt_cid_ok c = (case c of None \<Rightarrow> True | Some cid \<Rightarrow> cid_value cid \<le> CID_MAX_VALUE)"

lemma drop_be_bytes: "k \<le> n \<Longrightarrow> drop k (be_bytes n v) = be_bytes (n - k) v"
proof (induction k arbitrary: n)
  case (Suc k)
  then obtain m where "n = Suc m" by (cases n) auto
  with Suc show ?case by (simp add: be_bytes_Suc)
qed simp

lemma long_first_byte:
  assumes "t \<le> 3" "1 \<le> l" "l \<le> 4"
    and first: "first = (0xc0 OR push_bit 4 (word_of_nat t) OR word_of_nat (l - 1) :: u8)"
  shows "first AND 0xc0 = 0xc0" "unat (drop_bit 4 first AND 0x03) = t"
    "unat ((first AND 0x03) + 1) = l" "first AND 0x80 \<noteq> 0"
proof -
  have "t \<in> {0, 1, 2, 3}" "l \<in> {1, 2, 3, 4}" using assms by auto
  then show "first AND 0xc0 = 0xc0" "unat (drop_bit 4 first AND 0x03) = t"
    "unat ((first AND 0x03) + 1) = l" "first AND 0x80 \<noteq> 0"
    unfolding first by (elim insertE emptyE; simp)+
qed

lemma encode_long_cid_length: "encode_long_cid c = Inr f \<Longrightarrow> length f = 1 + opt_cid_len c"
  by (auto simp: encode_long_cid_def opt_cid_len_def cid_encode_length split: option.splits)

lemma opt_cid_len_le: "opt_cid_len c \<le> 8"
  by (simp add: opt_cid_len_def split: option.splits)

lemma encode_long_cid_ok: "\<exists>f. encode_long_cid c = Inr f"
  by (cases c) (auto simp: encode_long_cid_def cid_encode_def Let_def)

lemma decode_long_cid_encode:
  assumes "encode_long_cid c = Inr f" "opt_cid_ok c"
  shows "decode_long_cid (pre @ f @ rest) (length pre) = Inr (c, length pre + length f)"
proof (cases c)
  case None
  with assms show ?thesis by (auto simp: encode_long_cid_def decode_long_cid_def nth_append)
next
  case (Some cid)
  with assms(1) obtain b where b: "cid_encode cid (cid_encoded_len cid) = Inr b"
      "f = word_of_nat (cid_encoded_len cid) # b"
    by (auto simp: encode_long_cid_def)
  have len: "length b = cid_encoded_len cid" using b(1) by (rule cid_encode_length)
  have dec: "cid_decode b = Inr (cid, length b)"
    using cid.dec_enc_exact [of cid _ b] b(1) assms(2) Some by (simp add: opt_cid_ok_def)
  have n: "cid_encoded_len cid \<in> {1, 2, 4, 8}" by (simp add: cid_encoded_len_def)
  then have u: "unat (word_of_nat (cid_encoded_len cid) :: u8) = cid_encoded_len cid"
    by (auto simp: unat_word_of_nat8)
  show ?thesis
    using n dec len by (simp add: decode_long_cid_def Some b(2) nth_append Let_def u)
qed

lemma encode_long_packet_eq:
  assumes "encode_long_packet t dcid scid pn l payload cap = Inr bs"
  obtains first d s v cap' where "t \<le> 3" "1 \<le> l" "l \<le> 4" "payload \<noteq> []"
    "first = 0xc0 OR push_bit 4 (word_of_nat t) OR word_of_nat (l - 1)"
    "encode_long_cid dcid = Inr d" "encode_long_cid scid = Inr s"
    "put_varint (l + length payload) cap' = Inr v"
    "bs = first # be_bytes 4 DMESH_LONG_HEADER_VERSION @ d @ s
      @ (if t = LONG_PACKET_INITIAL then [0] else []) @ v @ be_bytes l pn @ payload"
proof -
  have g: "t \<le> 3" "1 \<le> l" "l \<le> 4" "payload \<noteq> []"
    using assms by (auto simp: encode_long_packet_def split: if_splits)
  have dr: "drop (4 - l) (be_bytes 4 pn) = be_bytes l pn" using g(3) by (simp add: drop_be_bytes)
  from assms obtain d s v cap' where "encode_long_cid dcid = Inr d" "encode_long_cid scid = Inr s"
    "put_varint (l + length payload) cap' = Inr v"
    "bs = (0xc0 OR push_bit 4 (word_of_nat t) OR word_of_nat (l - 1))
      # be_bytes 4 DMESH_LONG_HEADER_VERSION @ d @ s
      @ (if t = LONG_PACKET_INITIAL then [0] else []) @ v @ be_bytes l pn @ payload"
    unfolding encode_long_packet_def Let_def dr by (auto split: if_splits)
  with g show ?thesis by (intro that) auto
qed

lemma long_packet_roundtrip:
  assumes enc: "encode_long_packet t dcid scid pn l payload cap = Inr bs"
    and ok: "opt_cid_ok dcid" "opt_cid_ok scid"
  shows "decode_long_packet bs = Inr (\<lparr>lh_packet_type = t, lh_version = DMESH_LONG_HEADER_VERSION,
      lh_dcid = dcid, lh_scid = scid, lh_packet_number = pn mod 2 ^ (8 * l), lh_packet_number_len = l\<rparr>,
    length bs - length payload, length payload)
    \<and> drop (length bs - length payload) bs = payload \<and> is_long bs"
proof -
  from enc obtain first d s v cap' where p: "t \<le> 3" "1 \<le> l" "l \<le> 4" "payload \<noteq> []"
    "first = 0xc0 OR push_bit 4 (word_of_nat t) OR word_of_nat (l - 1)"
    "encode_long_cid dcid = Inr d" "encode_long_cid scid = Inr s"
    "put_varint (l + length payload) cap' = Inr v"
    "bs = first # be_bytes 4 DMESH_LONG_HEADER_VERSION @ d @ s
      @ (if t = LONG_PACKET_INITIAL then [0] else []) @ v @ be_bytes l pn @ payload"
    by (rule encode_long_packet_eq)
  define ver where "ver = be_bytes 4 DMESH_LONG_HEADER_VERSION"
  define tok :: "u8 list" where "tok = (if t = LONG_PACKET_INITIAL then [0] else [])"
  have bs: "bs = first # ver @ d @ s @ tok @ v @ be_bytes l pn @ payload"
    using p(9) by (simp add: ver_def tok_def)
  have lver: "length ver = 4" by (simp add: ver_def)
  note first = long_first_byte [OF p(1,2,3,5)]
  have ld: "1 \<le> length d" "1 \<le> length s" "1 \<le> length payload"
    using encode_long_cid_length [OF p(6)] encode_long_cid_length [OF p(7)] p(4)
    by (simp_all add: Suc_le_eq)
  have lv: "1 \<le> length v" using varint.enc_nonempty [OF _ p(8)] by (simp add: Suc_le_eq)
  have len9: "\<not> length bs < 9" using ld lv p(2) lver by (simp add: bs)
  have version: "be_fold 0 (take 4 (drop 1 bs)) = DMESH_LONG_HEADER_VERSION"
    by (simp add: bs lver ver_def be_fold_bytes_mod DMESH_LONG_HEADER_VERSION_def)
  let ?a = "5 + length d" and ?b = "5 + length d + length s"
  have c1: "decode_long_cid bs 5 = Inr (dcid, ?a)"
    using decode_long_cid_encode [OF p(6) ok(1), of "first # ver"] by (simp add: bs lver)
  have c2: "decode_long_cid bs ?a = Inr (scid, ?b)"
    using decode_long_cid_encode [OF p(7) ok(2), of "first # ver @ d"] by (simp add: bs lver)
  let ?c = "?b + length tok"
  have bs': "bs = (first # ver @ d @ s) @ tok @ v @ be_bytes l pn @ payload"
    and lb: "?b = length (first # ver @ d @ s)" by (simp_all add: bs lver)
  have bs'': "bs = (first # ver @ d @ s @ tok) @ v @ be_bytes l pn @ payload"
    and lc: "?c = length (first # ver @ d @ s @ tok)" by (simp_all add: bs lver)
  have drop_c: "drop ?c bs = v @ be_bytes l pn @ payload" unfolding bs'' lc by simp
  have tok: "skip_initial_token t bs ?b = Inr ?c"
  proof (cases "t = LONG_PACKET_INITIAL")
    case True
    have "drop ?b bs = 0 # v @ be_bytes l pn @ payload" unfolding bs' lb using True by (simp add: tok_def)
    moreover have "get_varint (0 # v @ be_bytes l pn @ payload) = Inr (0, 1)"
      by (simp add: get_varint_def)
    moreover have "length d + length s \<le> 18"
      using encode_long_cid_length [OF p(6)] encode_long_cid_length [OF p(7)]
        opt_cid_len_le [of dcid] opt_cid_len_le [of scid] by linarith
    ultimately show ?thesis using True
      by (simp add: skip_initial_token_def checked_add_def) (simp add: bs lver tok_def)
  next
    case False
    then show ?thesis by (simp add: skip_initial_token_def tok_def)
  qed
  have g: "get_varint (drop ?c bs) = Inr (l + length payload, length v)"
    unfolding drop_c using p(8) by (rule get_put_varint)
  have at: "length bs = ?c + length v + (l + length payload)" by (simp add: bs lver)
  have body: "drop (?c + length v) bs = be_bytes l pn @ payload"
    by (rule drop_past [OF drop_c])
  have h0: "bs ! 0 = first" by (simp add: bs)
  have "decode_long_packet bs = Inr (\<lparr>lh_packet_type = t, lh_version = DMESH_LONG_HEADER_VERSION,
      lh_dcid = dcid, lh_scid = scid, lh_packet_number = pn mod 2 ^ (8 * l), lh_packet_number_len = l\<rparr>,
    ?c + length v + l, length payload)"
    unfolding decode_long_packet_def
    using len9 version first c1 c2 tok g at body p(3)
    by (simp add: Let_def h0 be_fold_bytes_mod)
  moreover have "is_long bs" using first(4) by (simp add: is_long_def bs)
  moreover have "drop (?c + length v + l) bs = payload"
    using drop_past [OF body] by simp
  moreover have e: "length bs - length payload = ?c + length v + l" using at by simp
  ultimately show ?thesis unfolding e by blast
qed


section \<open>Relaying: only the destination changes\<close>

definition short_flags_ok :: "bool \<Rightarrow> u8 \<Rightarrow> bool" where
  "short_flags_ok pp first \<longleftrightarrow> first AND FLAG_FIXED \<noteq> 0 \<and> first AND FLAG_RESERVED = 0
     \<and> (pp \<or> first AND FLAG_KEY_PHASE = 0)"

text \<open>
  The shape of a packet whose short-header prefix decodes: a flag byte, the canonical bytes of
  its destination, and a tail that starts with the packet number.
\<close>

definition short_shape :: "bool \<Rightarrow> u8 list \<Rightarrow> ShortHeaderPrefix \<Rightarrow> u8 list \<Rightarrow> u8 list \<Rightarrow> bool" where
  "short_shape pp input p cid tail \<longleftrightarrow>
     input = pre_flags p # cid @ tail \<and> short_flags_ok pp (pre_flags p)
     \<and> cid_value (pre_dcid p) \<le> CID_MAX_VALUE \<and> cid_encode (pre_dcid p) (length cid) = Inr cid
     \<and> pre_packet_number_len p = unat ((pre_flags p AND 3) + 1)
     \<and> pre_packet_number_len p \<le> length tail
     \<and> truncated_packet_number p = be_fold 0 (take (pre_packet_number_len p) tail)
     \<and> header_len p = 1 + length cid + pre_packet_number_len p"

lemma decode_prefix_shapeI:
  assumes "short_shape pp input p cid tail"
  shows "decode_prefix pp input = Inr p"
proof -
  have "cid_decode (cid @ tail) = Inr (pre_dcid p, length cid)"
    using assms by (intro cid_decode_encode) (auto simp: short_shape_def)
  then show ?thesis using assms
    by (auto simp: short_shape_def short_flags_ok_def decode_prefix_def Let_def)
qed

lemma decode_prefix_shapeD:
  assumes "decode_prefix pp input = Inr p"
  obtains cid tail where "short_shape pp input p cid tail"
proof -
  from assms obtain first r where i: "input = first # r" by (cases input) (auto simp: decode_prefix_def)
  let ?l = "unat ((first AND 3) + 1)"
  from assms i obtain dcid n where d: "short_flags_ok pp first" "cid_decode r = Inr (dcid, n)"
      "1 + n + ?l \<le> length input"
      "p = \<lparr>pre_flags = first, pre_dcid = dcid, truncated_packet_number = be_fold 0 (take ?l (drop n r)),
        pre_packet_number_len = ?l, header_len = 1 + n + ?l\<rparr>"
    by (auto simp: decode_prefix_def short_flags_ok_def Let_def split: if_splits)
  have n: "n \<le> length r" using cid_decode_bound [OF d(2)] by simp
  have "cid_value dcid \<le> CID_MAX_VALUE \<and> cid_encode dcid n = Inr (take n r)"
    using d(2) by (rule cid_encode_decode) simp
  then show ?thesis using d n i
    by (intro that [of "take n r" "drop n r"]) (auto simp: short_shape_def min_absorb2)
qed

lemma short_shape_length: "short_shape pp input p cid tail \<Longrightarrow> length cid = cid_encoded_len (pre_dcid p)"
  unfolding short_shape_def by (metis cid_encode_length)

lemma rewrite_dcid_eq:
  assumes "\<not> is_long input" "short_shape pp input p cid tail" "rewrite_dcid pp input dest cap = Inr out"
    and "cid_value dest \<le> CID_MAX_VALUE"
  obtains cid' where "cid_encode dest (length cid') = Inr cid'" "out = pre_flags p # cid' @ tail"
    "length out \<le> cap"
proof -
  have sh: "input = pre_flags p # cid @ tail" using assms(2) by (simp add: short_shape_def)
  note lc = short_shape_length [OF assms(2)]
  from assms obtain cid' where c: "cid_encode dest (cap - 1) = Inr cid'"
      "out = input ! 0 # cid' @ drop (1 + cid_encoded_len (pre_dcid p)) input"
      "length input - cid_encoded_len (pre_dcid p) + cid_encoded_len dest \<le> cap"
    by (auto simp: rewrite_dcid_def rewrite_destination_def decode_prefix_shapeI Let_def
        split: if_splits option.splits)
  have "length cid' = cid_encoded_len dest" using c(1) by (rule cid_encode_length)
  then show ?thesis using c lc sh cid_encode_cap [OF c(1), of "length cid'"] by (intro that [of cid']) auto
qed

lemma rewrite_dcid_shape:
  assumes "\<not> is_long input" "short_shape pp input p cid tail" "rewrite_dcid pp input dest cap = Inr out"
    and "cid_value dest \<le> CID_MAX_VALUE"
  obtains cid' where "short_shape pp out (p\<lparr>pre_dcid := dest,
      header_len := 1 + length cid' + pre_packet_number_len p\<rparr>) cid' tail"
    "\<not> is_long out" "length out \<le> cap"
proof -
  from assms obtain cid' where c: "cid_encode dest (length cid') = Inr cid'"
      "out = pre_flags p # cid' @ tail" "length out \<le> cap"
    by (rule rewrite_dcid_eq)
  with assms show ?thesis
    by (intro that [of cid']) (auto simp: short_shape_def is_long_def)
qed

lemma rewrite_dcid_back:
  assumes sh: "short_shape pp input p cid tail" and sh': "short_shape pp out p' cid' tail"
    and "pre_flags p' = pre_flags p" "\<not> is_long out" "cid_value (pre_dcid p) \<noteq> 0"
    and "length input \<le> u64_max"
  shows "rewrite_dcid pp out (pre_dcid p) (length input) = Inr input"
proof -
  note lc = short_shape_length [OF sh] and lc' = short_shape_length [OF sh']
  have e: "input = pre_flags p # cid @ tail" "out = pre_flags p # cid' @ tail"
    using assms(3) sh sh' by (simp_all add: short_shape_def)
  have li: "length input = 1 + length cid + length tail" and lo: "length out = 1 + length cid' + length tail"
    by (simp_all add: e)
  have "cid_encode (pre_dcid p) (length cid) = Inr cid" using sh by (simp add: short_shape_def)
  moreover have "cid_encoded_len (pre_dcid p) \<le> length input - 1" using lc li by linarith
  ultimately have enc: "cid_encode (pre_dcid p) (length input - 1) = Inr cid" by (rule cid_encode_cap)
  have used: "(case checked_sub (length out) (cid_encoded_len (pre_dcid p')) of None \<Rightarrow> None
      | Some len \<Rightarrow> checked_add u64_max len (cid_encoded_len (pre_dcid p))) = Some (length input)"
    using assms(6) unfolding checked_sub_def checked_add_def lc [symmetric] lc' [symmetric] li lo by simp
  have dr: "drop (1 + cid_encoded_len (pre_dcid p')) out = tail" "out ! 0 = pre_flags p"
    unfolding lc' [symmetric] by (simp_all add: e(2))
  show ?thesis
    unfolding rewrite_dcid_def rewrite_destination_def
    using assms(4,5) used enc dr by (simp add: decode_prefix_shapeI [OF sh']) (simp add: e(1))
qed

text \<open>
  Claim C31. A relay that rewrites the destination of a short-header packet changes nothing
  else: the result has the new destination, the same flags and packet-number bytes, and the same
  bytes behind the destination; and rewriting it back to the old destination (zero is never a
  routable one) returns the original packet.
\<close>

theorem rewrite_dcid_only_destination:
  assumes "\<not> is_long input" "decode_prefix pp input = Inr p" "cid_value dest \<le> CID_MAX_VALUE"
    and "rewrite_dcid pp input dest cap = Inr out"
    and "cid_value (pre_dcid p) \<noteq> 0" "length input \<le> u64_max"
  shows "(\<exists>p'. decode_prefix pp out = Inr p' \<and> pre_dcid p' = dest \<and> pre_flags p' = pre_flags p
      \<and> truncated_packet_number p' = truncated_packet_number p
      \<and> drop (header_len p') out = drop (header_len p) input)
    \<and> rewrite_dcid pp out (pre_dcid p) (length input) = Inr input"
proof -
  from assms(2) obtain cid tail where sh: "short_shape pp input p cid tail" by (rule decode_prefix_shapeD)
  from assms(1) sh assms(4,3) obtain cid' where sh': "short_shape pp out (p\<lparr>pre_dcid := dest,
      header_len := 1 + length cid' + pre_packet_number_len p\<rparr>) cid' tail" "\<not> is_long out"
    by (rule rewrite_dcid_shape)
  have "\<exists>p'. decode_prefix pp out = Inr p' \<and> pre_dcid p' = dest \<and> pre_flags p' = pre_flags p
      \<and> truncated_packet_number p' = truncated_packet_number p
      \<and> drop (header_len p') out = drop (header_len p) input"
    using decode_prefix_shapeI [OF sh'(1)] sh sh'(1) by (auto simp: short_shape_def)
  moreover have "rewrite_dcid pp out (pre_dcid p) (length input) = Inr input"
    using assms(5,6) by (intro rewrite_dcid_back [OF sh sh'(1) _ sh'(2)]) simp_all
  ultimately show ?thesis by blast
qed

lemma rewrite_dcid_only_destination_witness:
  "rewrite_dcid False [0x41, 0x2a, 0x00, 0x09, 0xde, 0xad] (ConnectionId 0x12345)
     (length [0x41, 0xa0, 0x01, 0x23, 0x45, 0x00, 0x09, 0xde, 0xad :: u8])
   = Inr [0x41, 0xa0, 0x01, 0x23, 0x45, 0x00, 0x09, 0xde, 0xad]"
proof -
  let ?i = "[0x41, 0xa0, 0x01, 0x23, 0x45, 0x00, 0x09, 0xde, 0xad :: u8]"
  let ?p = "\<lparr>pre_flags = 0x41, pre_dcid = ConnectionId 0x12345, truncated_packet_number = 9,
    pre_packet_number_len = 2, header_len = 7\<rparr>"
  have "\<not> is_long ?i" "decode_prefix False ?i = Inr ?p" "cid_value (ConnectionId 0x2a) \<le> CID_MAX_VALUE"
    "rewrite_dcid False ?i (ConnectionId 0x2a) 64 = Inr [0x41, 0x2a, 0x00, 0x09, 0xde, 0xad]"
    "cid_value (pre_dcid ?p) \<noteq> 0" "length ?i \<le> u64_max"
    by code_simp+
  from rewrite_dcid_only_destination [OF this] show ?thesis by simp
qed


section \<open>Rewriting in place\<close>

text \<open>What \<^verbatim>\<open>OwnedPacket::new\<close> checks: the range lies inside the storage.\<close>

definition packet_ok :: "OwnedPacket \<Rightarrow> bool" where
  "packet_ok p \<longleftrightarrow> pkt_start p \<le> pkt_end p \<and> pkt_end p \<le> length (pkt_storage p)"

lemma length_packet_bytes: "packet_ok p \<Longrightarrow> length (packet_bytes p) = pkt_end p - pkt_start p"
  by (simp add: packet_bytes_def packet_ok_def)

lemma nth_packet_bytes: "packet_ok p \<Longrightarrow> i < pkt_end p - pkt_start p \<Longrightarrow>
    packet_bytes p ! i = pkt_storage p ! (pkt_start p + i)"
  by (simp add: packet_bytes_def packet_ok_def)

text \<open>Overwriting the bytes before a tail and moving the start back to them.\<close>

lemma overwrite_slice:
  assumes "start + length hdr = t" "t \<le> e" "e \<le> length st"
  shows "drop start (take e (take start st @ hdr @ drop t st)) = hdr @ drop t (take e st)"
    "length (take start st @ hdr @ drop t st) = length st"
    "i < start \<or> t \<le> i \<Longrightarrow> (take start st @ hdr @ drop t st) ! i = st ! i"
proof -
  have s: "start \<le> length st" using assms by linarith
  then have l: "length (take start st) = start" by simp
  have "take e (take start st @ hdr @ drop t st) = take start st @ hdr @ take (e - t) (drop t st)"
    using assms s by simp
  moreover have "take (e - t) (drop t st) = drop t (take e st)" by (simp add: take_drop assms(2))
  ultimately show "drop start (take e (take start st @ hdr @ drop t st)) = hdr @ drop t (take e st)"
    using l by simp
  show "length (take start st @ hdr @ drop t st) = length st" using assms s by simp
  show "(take start st @ hdr @ drop t st) ! i = st ! i" if "i < start \<or> t \<le> i"
    using that assms s by (auto simp: nth_append)
qed

lemma in_place_layout:
  assumes ok: "packet_ok packet"
    and lay: "dcid_rewrite_layout pp packet dest prefix_required max_packet = Inr (start, e, hdr)"
    and sh: "short_shape pp (packet_bytes packet) p cid tail"
  obtains cid' where "hdr = pre_flags p # cid'" "cid_encode dest (length cid') = Inr cid'"
    "e = pkt_end packet" "start + length hdr = pkt_start packet + 1 + length cid"
    "prefix_required \<le> start" "e - start \<le> max_packet" "cid_value dest \<noteq> 0" "\<not> is_long (packet_bytes packet)"
proof -
  note lc = short_shape_length [OF sh]
  from lay obtain cid' where c: "cid_value dest \<noteq> 0" "\<not> is_long (packet_bytes packet)"
      "cid_encode dest (cid_encoded_len dest) = Inr cid'"
      "1 + cid_encoded_len dest \<le> pkt_start packet + 1 + cid_encoded_len (pre_dcid p)"
      "start = pkt_start packet + 1 + cid_encoded_len (pre_dcid p) - (1 + cid_encoded_len dest)"
      "prefix_required \<le> start" "pkt_end packet - start \<le> max_packet" "e = pkt_end packet"
      "hdr = packet_bytes packet ! 0 # cid'"
    unfolding dcid_rewrite_layout_def by (auto simp: decode_prefix_shapeI [OF sh] Let_def split: if_splits)
  have len: "length cid' = cid_encoded_len dest" using c(3) by (rule cid_encode_length)
  have "packet_bytes packet ! 0 = pre_flags p" using sh by (simp add: short_shape_def)
  with c len lc show ?thesis by (intro that [of cid']) simp_all
qed

text \<open>
  Claim C32. Rewriting the destination of an exclusively owned packet in place yields the same
  packet as rewriting it into a second buffer, without moving a byte: storage keeps its size,
  every byte outside the new flag and destination bytes stays where it was, the packet still
  leaves the required headroom and fits the bearer.
\<close>

theorem rewrite_in_place_equals_copy:
  assumes ok: "packet_ok packet" and dest: "cid_value dest \<le> CID_MAX_VALUE"
    and rw: "rewrite_dcid_in_place pp packet dest prefix_required max_packet = Inr packet'"
    and len: "length (pkt_storage packet) \<le> u64_max"
  shows "rewrite_dcid pp (packet_bytes packet) dest (length (packet_bytes packet')) = Inr (packet_bytes packet')
    \<and> packet_ok packet' \<and> length (pkt_storage packet') = length (pkt_storage packet)
    \<and> prefix_required \<le> pkt_start packet' \<and> length (packet_bytes packet') \<le> max_packet
    \<and> (\<exists>p p'. decode_prefix pp (packet_bytes packet) = Inr p \<and> decode_prefix pp (packet_bytes packet') = Inr p'
        \<and> (\<forall>i. i < pkt_start packet' \<or> pkt_start packet' + 1 + cid_encoded_len (pre_dcid p') \<le> i \<longrightarrow>
            pkt_storage packet' ! i = pkt_storage packet ! i))"
proof -
  from rw obtain start e hdr where lay:
      "dcid_rewrite_layout pp packet dest prefix_required max_packet = Inr (start, e, hdr)"
      and p': "packet' = packet\<lparr>pkt_storage := take start (pkt_storage packet) @ hdr
        @ drop (start + length hdr) (pkt_storage packet), pkt_start := start, pkt_end := e\<rparr>"
    by (auto simp: rewrite_dcid_in_place_def split: sum.splits if_splits)
  from lay obtain p where "decode_prefix pp (packet_bytes packet) = Inr p"
    by (auto simp: dcid_rewrite_layout_def split: if_splits)
  then obtain cid tail where sh: "short_shape pp (packet_bytes packet) p cid tail"
    by (rule decode_prefix_shapeD)
  from ok lay sh obtain cid' where c: "hdr = pre_flags p # cid'" "cid_encode dest (length cid') = Inr cid'"
      "e = pkt_end packet" "start + length hdr = pkt_start packet + 1 + length cid"
      "prefix_required \<le> start" "e - start \<le> max_packet" "cid_value dest \<noteq> 0" "\<not> is_long (packet_bytes packet)"
    by (rule in_place_layout)
  let ?t = "start + length hdr" and ?st = "pkt_storage packet"
  have bytes: "packet_bytes packet = pre_flags p # cid @ tail" using sh by (simp add: short_shape_def)
  have te: "?t \<le> e" "e \<le> length ?st"
    using length_packet_bytes [OF ok] ok c(3,4) by (auto simp: bytes packet_ok_def)
  note ow = overwrite_slice [OF refl te]
  have "drop ?t (take e ?st) = drop (1 + length cid) (packet_bytes packet)"
    unfolding c(3,4) packet_bytes_def drop_drop by (simp add: add.commute add.left_commute)
  also have "\<dots> = tail" by (simp add: bytes)
  finally have b': "packet_bytes packet' = pre_flags p # cid' @ tail"
    unfolding p' using ow(1) c(1) by (simp add: packet_bytes_def)
  have sh': "short_shape pp (packet_bytes packet') (p\<lparr>pre_dcid := dest,
      header_len := 1 + length cid' + pre_packet_number_len p\<rparr>) cid' tail"
    using sh c(2) dest by (simp add: short_shape_def b')
  have ok': "packet_ok packet'" using te ow(2) by (simp add: p' packet_ok_def)
  have lb: "length (packet_bytes packet') = e - start" using length_packet_bytes [OF ok'] by (simp add: p')
  have "rewrite_dcid pp (packet_bytes packet) (pre_dcid (p\<lparr>pre_dcid := dest,
      header_len := 1 + length cid' + pre_packet_number_len p\<rparr>)) (length (packet_bytes packet'))
      = Inr (packet_bytes packet')"
    using lb te len c(7) by (intro rewrite_dcid_back [OF sh' sh _ c(8)]) simp_all
  moreover have "pkt_start packet' + 1 + cid_encoded_len dest = ?t"
    using short_shape_length [OF sh'] c(1) by (simp add: p')
  moreover have "\<forall>i. i < start \<or> ?t \<le> i \<longrightarrow> pkt_storage packet' ! i = ?st ! i"
    using ow(3) by (simp add: p')
  ultimately show ?thesis
    using ok' lb c(5,6) ow(2) decode_prefix_shapeI [OF sh] decode_prefix_shapeI [OF sh']
    by (auto simp: p')
qed

lemma rewrite_in_place_equals_copy_witness:
  "\<exists>packet'. rewrite_dcid_in_place False \<lparr>pkt_storage = [9, 9, 9, 9, 0x41, 0x2a, 0x00, 0x09, 0xde, 0xad, 7],
      pkt_start = 4, pkt_end = 10, pkt_unique = True\<rparr> (ConnectionId 0x12345) 1 1100 = Inr packet'
    \<and> rewrite_dcid False [0x41, 0x2a, 0x00, 0x09, 0xde, 0xad] (ConnectionId 0x12345)
        (length (packet_bytes packet')) = Inr (packet_bytes packet')"
proof -
  let ?q = "\<lparr>pkt_storage = [9, 9, 9, 9, 0x41, 0x2a, 0x00, 0x09, 0xde, 0xad, 7 :: u8],
      pkt_start = 4, pkt_end = 10, pkt_unique = True\<rparr>"
  let ?q' = "\<lparr>pkt_storage = [9, 0x41, 0xa0, 0x01, 0x23, 0x45, 0x00, 0x09, 0xde, 0xad, 7 :: u8],
      pkt_start = 1, pkt_end = 10, pkt_unique = True\<rparr>"
  have r: "rewrite_dcid_in_place False ?q (ConnectionId 0x12345) 1 1100 = Inr ?q'" by code_simp
  have h: "packet_ok ?q" "cid_value (ConnectionId 0x12345) \<le> CID_MAX_VALUE" by code_simp+
  have b: "packet_bytes ?q = [0x41, 0x2a, 0x00, 0x09, 0xde, 0xad]" by code_simp
  have l: "length (pkt_storage ?q) \<le> u64_max" by simp
  show ?thesis using rewrite_in_place_equals_copy [OF h r l] r unfolding b by blast
qed

end
