(* ===== verification/Ack_Ranges.thy ===== *)
theory Ack_Ranges
  imports Mesh_Prelude
begin

text \<open>
  \<open>AckRanges<N>\<close> of \<^verbatim>\<open>quic-lite/src/lib.rs\<close>: the bounded set of received packet numbers that an
  acknowledgement reports, kept as disjoint ranges, newest first.

  The array with its length field is the list of its live prefix; the capacity \<open>N\<close> is an
  argument. The element-shifting loops of the source are insertion into and removal from that
  list.
\<close>

record AckRange =
  ar_start :: u32
  ar_end :: u32

type_synonym ack_ranges = "AckRange list"

definition ACK_RANGE_CAPACITY :: usize where "ACK_RANGE_CAPACITY = 32"

definition ack_get :: "ack_ranges \<Rightarrow> usize \<Rightarrow> AckRange option" where
  "ack_get rs i = (if i < length rs then Some (rs ! i) else None)"

fun ack_discard_below :: "u32 \<Rightarrow> ack_ranges \<Rightarrow> ack_ranges" where
  "ack_discard_below floor [] = []"
| "ack_discard_below floor (r # rs) =
     (if floor \<le> ar_end r
      then r\<lparr>ar_start := max (ar_start r) floor\<rparr> # ack_discard_below floor rs
      else [])"

text \<open>The final loop: place a range that is older than the whole list, scanning from the end.\<close>

definition ack_place :: "AckRange \<Rightarrow> ack_ranges \<Rightarrow> ack_ranges" where
  "ack_place new rs =
     (let older = (\<lambda>r. ar_end r < ar_end new)
      in rev (dropWhile older (rev rs)) @ new # rev (takeWhile older (rev rs)))"

text \<open>
  The main loop at index \<open>i = length passed\<close>: \<open>passed\<close> are the ranges already passed, the last
  argument those from \<open>i\<close> on. It returns the new list and whether a range was dropped.
\<close>

fun ack_insert_loop :: "nat \<Rightarrow> AckRange \<Rightarrow> ack_ranges \<Rightarrow> ack_ranges \<Rightarrow> ack_ranges \<times> bool" where
  "ack_insert_loop N new passed [] =
     (if length passed < N then (ack_place new passed, False) else (passed, True))"
| "ack_insert_loop N new passed (current # rest) =
     (if ar_end current + 1 < ar_start new
      then
        if length passed + length (current # rest) < N
        then (passed @ new # current # rest, False)
        else if length passed < N
        then (passed @ new # take (N - 1 - length passed) (current # rest), True)
        else (passed @ current # rest, False)
      else if ar_end new + 1 < ar_start current
      then ack_insert_loop N new (passed @ [current]) rest
      else ack_insert_loop N
        \<lparr>ar_start = min (ar_start new) (ar_start current), ar_end = max (ar_end new) (ar_end current)\<rparr>
        passed rest)"

definition ack_extends_newest :: "AckRange \<Rightarrow> ack_ranges \<Rightarrow> bool" where
  "ack_extends_newest new rs = (case rs of
     [] \<Rightarrow> False
   | newest # rest \<Rightarrow>
       ar_start new \<le> ar_end newest + 1 \<and> ar_start newest \<le> ar_end new + 1 \<and>
       (case rest of [] \<Rightarrow> True | second # _ \<Rightarrow> ar_end second + 1 < ar_start new))"

definition ack_insert_range :: "nat \<Rightarrow> AckRange \<Rightarrow> ack_ranges \<Rightarrow> ack_ranges \<times> bool" where
  "ack_insert_range N new rs =
     (if ar_end new < ar_start new then (rs, False)
      else if ack_extends_newest new rs
      then (\<lparr>ar_start = min (ar_start new) (ar_start (hd rs)), ar_end = max (ar_end new) (ar_end (hd rs))\<rparr>
              # tl rs, False)
      else ack_insert_loop N new [] rs)"

definition ack_insert :: "nat \<Rightarrow> u32 \<Rightarrow> ack_ranges \<Rightarrow> ack_ranges \<times> bool" where
  "ack_insert N pn rs = ack_insert_range N \<lparr>ar_start = pn, ar_end = pn\<rparr> rs"

function ack_search :: "ack_ranges \<Rightarrow> u32 \<Rightarrow> usize \<Rightarrow> usize \<Rightarrow> bool" where
  "ack_search rs pn low high =
     (if low < high
      then
        let middle = low + (high - low) div 2; r = rs ! middle in
        if ar_end r < pn then ack_search rs pn low middle
        else if pn < ar_start r then ack_search rs pn (middle + 1) high
        else True
      else False)"
  by pat_completeness auto
termination
  by (relation "measure (\<lambda>(rs, pn, low, high). high - low)") auto

declare ack_search.simps [simp del]

definition ack_contains :: "ack_ranges \<Rightarrow> u32 \<Rightarrow> bool" where
  "ack_contains rs pn = (case rs of
     [] \<Rightarrow> False
   | newest # _ \<Rightarrow>
       if ar_end newest < pn then False
       else if ar_start newest \<le> pn then True
       else ack_search rs pn 1 (length rs))"

section \<open>The set of numbers, and the invariant\<close>

definition ack_set :: "ack_ranges \<Rightarrow> nat set" where
  "ack_set rs = (\<Union>r \<in> set rs. {ar_start r .. ar_end r})"

definition ack_sorted :: "ack_ranges \<Rightarrow> bool" where
  "ack_sorted rs \<longleftrightarrow> sorted_wrt (\<lambda>a b. ar_end b + 1 < ar_start a) rs \<and> (\<forall>r \<in> set rs. ar_start r \<le> ar_end r)"

definition ack_inv :: "nat \<Rightarrow> ack_ranges \<Rightarrow> bool" where
  "ack_inv N rs \<longleftrightarrow> ack_sorted rs \<and> length rs \<le> N"

lemma ack_set_simps [simp]:
  "ack_set [] = {}" "ack_set (r # rs) = {ar_start r .. ar_end r} \<union> ack_set rs"
  "ack_set (xs @ ys) = ack_set xs \<union> ack_set ys"
  by (auto simp: ack_set_def)

lemma ack_sorted_Nil [simp]: "ack_sorted []"
  by (simp add: ack_sorted_def)

lemma ack_sorted_Cons: "ack_sorted (r # rs) \<longleftrightarrow>
    ack_sorted rs \<and> ar_start r \<le> ar_end r \<and> (\<forall>s \<in> set rs. ar_end s + 1 < ar_start r)"
  by (auto simp: ack_sorted_def)

lemma ack_sorted_append: "ack_sorted (xs @ ys) \<longleftrightarrow>
    ack_sorted xs \<and> ack_sorted ys \<and> (\<forall>r \<in> set xs. \<forall>s \<in> set ys. ar_end s + 1 < ar_start r)"
  by (auto simp: ack_sorted_def sorted_wrt_append)

lemma ack_sorted_take: "ack_sorted rs \<Longrightarrow> ack_sorted (take n rs)"
  by (auto simp: ack_sorted_def intro: sorted_wrt_take dest: in_set_takeD)

lemmas ack_sorted_simps = ack_sorted_Cons ack_sorted_append

text \<open>Ranges dropped from the end are below all the others.\<close>

lemma ack_set_take_below:
  assumes "ack_sorted rs" "p \<in> ack_set (drop n rs)" "q \<in> ack_set (take n rs)"
  shows "p < q"
proof -
  have s: "\<forall>r \<in> set (take n rs). \<forall>s \<in> set (drop n rs). ar_end s + 1 < ar_start r"
    using assms(1) ack_sorted_append [of "take n rs" "drop n rs"] by simp
  from assms(2,3) obtain r s where "r \<in> set (take n rs)" "s \<in> set (drop n rs)"
    "p \<le> ar_end s" "ar_start r \<le> q" by (auto simp: ack_set_def)
  with s show ?thesis by fastforce
qed

section \<open>Insertion\<close>

text \<open>
  The unbounded insertion, for reference: its list is truncated to the capacity by the bounded
  one.
\<close>

fun ack_union :: "AckRange \<Rightarrow> ack_ranges \<Rightarrow> ack_ranges" where
  "ack_union new [] = [new]"
| "ack_union new (c # rest) =
     (if ar_end c + 1 < ar_start new then new # c # rest
      else if ar_end new + 1 < ar_start c then c # ack_union new rest
      else ack_union \<lparr>ar_start = min (ar_start new) (ar_start c), ar_end = max (ar_end new) (ar_end c)\<rparr> rest)"

lemma ack_union_bounds:
  assumes "\<forall>s \<in> set rs. ar_end s + 1 < b" "ar_end new + 1 < b" "t \<in> set (ack_union new rs)"
  shows "ar_end t + 1 < b"
  using assms by (induction new rs rule: ack_union.induct) (auto split: if_splits)

lemma ack_union_correct:
  assumes "ack_sorted rs" "ar_start new \<le> ar_end new"
  shows "ack_sorted (ack_union new rs) \<and> ack_set (ack_union new rs) = {ar_start new .. ar_end new} \<union> ack_set rs"
  using assms
proof (induction new rs rule: ack_union.induct)
  case (2 new c rest)
  consider "ar_end c + 1 < ar_start new" | "\<not> ar_end c + 1 < ar_start new" "ar_end new + 1 < ar_start c"
    | "\<not> ar_end c + 1 < ar_start new" "\<not> ar_end new + 1 < ar_start c" by blast
  then show ?case
  proof cases
    case 1
    with 2 show ?thesis by (fastforce simp: ack_sorted_Cons)
  next
    case 2
    have "\<forall>s \<in> set (ack_union new rest). ar_end s + 1 < ar_start c"
      using ack_union_bounds [of rest "ar_start c" new] 2(2) "2.prems" by (auto simp: ack_sorted_Cons)
    with 2 "2.IH"(1) "2.prems" show ?thesis by (auto simp: ack_sorted_Cons)
  next
    case 3
    with "2.IH"(2) "2.prems" show ?thesis by (auto simp: ack_sorted_Cons)
  qed
qed (simp add: ack_sorted_Cons)

lemma ack_union_length: "length (ack_union new rs) \<le> Suc (length rs)"
  by (induction new rs rule: ack_union.induct) auto

lemma ack_place_oldest: "\<forall>r \<in> set rs. ar_end new < ar_end r \<Longrightarrow> ack_place new rs = rs @ [new]"
  by (cases rs rule: rev_cases) (auto simp: ack_place_def)


lemma ack_insert_loop_take:
  assumes "ack_sorted (passed @ rs)" "ar_start new \<le> ar_end new" "length (passed @ rs) \<le> N" "0 < N"
    and "\<forall>r \<in> set passed. ar_end new + 1 < ar_start r"
  shows "ack_insert_loop N new passed rs
    = (take N (passed @ ack_union new rs), N < length (passed @ ack_union new rs))"
  using assms
proof (induction N new passed rs rule: ack_insert_loop.induct)
  case (1 N new passed)
  have "\<forall>r \<in> set passed. ar_end new < ar_end r" using "1.prems" by (fastforce simp: ack_sorted_def)
  with 1 show ?case by (simp add: ack_place_oldest)
next
  case (2 N new passed c rest)
  consider "ar_end c + 1 < ar_start new" | "\<not> ar_end c + 1 < ar_start new" "ar_end new + 1 < ar_start c"
    | "\<not> ar_end c + 1 < ar_start new" "\<not> ar_end new + 1 < ar_start c" by blast
  then show ?case
  proof cases
    case 1
    with "2.prems" show ?thesis by (auto simp: take_Cons' Suc_diff_le)
  next
    case 2
    with "2.prems" "2.IH"(1) show ?thesis by (auto simp: ack_sorted_simps)
  next
    case 3
    let ?m = "\<lparr>ar_start = min (ar_start new) (ar_start c), ar_end = max (ar_end new) (ar_end c)\<rparr>"
    have c: "ar_start c \<le> ar_end c" "\<forall>r \<in> set passed. ar_end c + 1 < ar_start r"
      using "2.prems"(1) by (simp_all add: ack_sorted_simps)
    have "ack_insert_loop N ?m passed rest
        = (take N (passed @ ack_union ?m rest), N < length (passed @ ack_union ?m rest))"
    proof (rule "2.IH"(2) [OF 3])
      show "ack_sorted (passed @ rest)" using "2.prems"(1) by (simp add: ack_sorted_simps)
      show "ar_start ?m \<le> ar_end ?m" using c(1) by simp
      show "length (passed @ rest) \<le> N" "0 < N" using "2.prems" by simp_all
      show "\<forall>r \<in> set passed. ar_end ?m + 1 < ar_start r" using "2.prems"(5) c(2) by (simp add: max_def)
    qed
    with 3 show ?thesis by simp
  qed
qed

lemma ack_extends_newest_union:
  assumes "ack_sorted rs" "ar_start new \<le> ar_end new" "ack_extends_newest new rs"
  shows "ack_union new rs = \<lparr>ar_start = min (ar_start new) (ar_start (hd rs)),
    ar_end = max (ar_end new) (ar_end (hd rs))\<rparr> # tl rs"
proof -
  from assms(3) obtain newest rest where rs: "rs = newest # rest" by (cases rs) (auto simp: ack_extends_newest_def)
  show ?thesis
  proof (cases rest)
    case Nil
    with assms rs show ?thesis by (auto simp: ack_extends_newest_def)
  next
    case (Cons second more)
    with assms rs have "ar_end second + 1 < min (ar_start new) (ar_start newest)"
      by (auto simp: ack_extends_newest_def ack_sorted_Cons)
    with assms rs Cons show ?thesis by (auto simp: ack_extends_newest_def)
  qed
qed

text \<open>The bounded insertion is the unbounded one, truncated to the newest \<open>N\<close> ranges.\<close>

lemma ack_insert_range_take:
  assumes "ack_inv N rs" "0 < N" "ar_start new \<le> ar_end new"
  shows "ack_insert_range N new rs = (take N (ack_union new rs), N < length (ack_union new rs))"
proof (cases "ack_extends_newest new rs")
  case True
  have "rs \<noteq> []" using True by (auto simp: ack_extends_newest_def)
  then have "length (ack_union new rs) \<le> N"
    using ack_extends_newest_union [OF _ assms(3) True] assms(1) by (simp add: ack_inv_def)
  with True assms show ?thesis
    using ack_extends_newest_union [OF _ assms(3) True] by (simp add: ack_insert_range_def ack_inv_def)
next
  case False
  with assms ack_insert_loop_take [of "[]" rs new N] show ?thesis
    by (simp add: ack_insert_range_def ack_inv_def)
qed

lemma ack_insert_range_inv:
  assumes "ack_inv N rs" "0 < N"
  shows "ack_inv N (fst (ack_insert_range N new rs))"
proof (cases "ar_start new \<le> ar_end new")
  case True
  with assms show ?thesis
    using ack_union_correct [of rs new] by (simp add: ack_insert_range_take ack_inv_def ack_sorted_take)
next
  case False
  with assms show ?thesis by (simp add: ack_insert_range_def)
qed

lemma ack_insert_range_subset:
  assumes "ack_inv N rs" "0 < N" "ar_start new \<le> ar_end new"
  shows "ack_set (fst (ack_insert_range N new rs)) \<subseteq> {ar_start new .. ar_end new} \<union> ack_set rs"
proof -
  have "ack_set (take N (ack_union new rs)) \<subseteq> ack_set (ack_union new rs)"
    by (auto simp: ack_set_def dest: in_set_takeD)
  with assms show ?thesis
    using ack_union_correct [of rs new] by (simp add: ack_insert_range_take ack_inv_def)
qed

text \<open>Inserting a range older than the whole list appends it.\<close>

lemma ack_union_oldest: "\<forall>s \<in> set rs. ar_end r + 1 < ar_start s \<and> ar_start s \<le> ar_end s \<Longrightarrow>
    ar_start r \<le> ar_end r \<Longrightarrow> ack_union r rs = rs @ [r]"
  by (induction rs) auto

lemma ack_insert_range_oldest:
  assumes "ack_inv N (rs @ [r])"
  shows "ack_insert_range N r rs = (rs @ [r], False)"
proof -
  have "ack_union r rs = rs @ [r]"
    using assms by (intro ack_union_oldest) (auto simp: ack_inv_def ack_sorted_def sorted_wrt_append)
  then show ?thesis
    using assms by (subst ack_insert_range_take) (auto simp: ack_inv_def ack_sorted_simps)
qed

section \<open>Membership and retirement\<close>

lemma ack_search_correct:
  assumes "ack_sorted rs" "high \<le> length rs"
  shows "ack_search rs pn low high \<longleftrightarrow> (\<exists>i. low \<le> i \<and> i < high \<and> ar_start (rs ! i) \<le> pn \<and> pn \<le> ar_end (rs ! i))"
  using assms
proof (induction rs pn low high rule: ack_search.induct)
  case (1 rs pn low high)
  define m where "m = low + (high - low) div 2"
  have lt: "ar_end (rs ! j) + 1 < ar_start (rs ! i)" if "i < j" "j < length rs" for i j
    using "1.prems"(1) that by (simp add: ack_sorted_def sorted_wrt_iff_nth_less)
  have le: "ar_start (rs ! i) \<le> ar_end (rs ! i)" if "i < length rs" for i
    using "1.prems"(1) that by (simp add: ack_sorted_def)
  show ?case
  proof (cases "low < high")
    case True
    then have m: "low \<le> m" "m < high" "m < length rs" using "1.prems" by (auto simp: m_def)
    consider "ar_end (rs ! m) < pn" | "\<not> ar_end (rs ! m) < pn" "pn < ar_start (rs ! m)"
      | "ar_start (rs ! m) \<le> pn" "pn \<le> ar_end (rs ! m)" by linarith
    then show ?thesis
    proof cases
      case c: 1
      have "\<not> pn \<le> ar_end (rs ! i)" if "m \<le> i" "i < high" for i
        using lt [of m i] le [of m] le [of i] c that "1.prems"(2) m(3) by (cases "i = m") auto
      then have "(\<exists>i. low \<le> i \<and> i < high \<and> ar_start (rs ! i) \<le> pn \<and> pn \<le> ar_end (rs ! i)) \<longleftrightarrow>
          (\<exists>i. low \<le> i \<and> i < m \<and> ar_start (rs ! i) \<le> pn \<and> pn \<le> ar_end (rs ! i))"
        using m(2) by (meson less_trans not_le_imp_less)
      with "1.IH"(1) [OF True m_def refl] c "1.prems" m True show ?thesis
        by (simp add: ack_search.simps [of rs pn low high] m_def [symmetric] Let_def)
    next
      case c: 2
      have "\<not> ar_start (rs ! i) \<le> pn" if "i \<le> m" for i
        using lt [of i m] le [of m] c that m(3) by (cases "i = m") auto
      then have "(\<exists>i. low \<le> i \<and> i < high \<and> ar_start (rs ! i) \<le> pn \<and> pn \<le> ar_end (rs ! i)) \<longleftrightarrow>
          (\<exists>i. m + 1 \<le> i \<and> i < high \<and> ar_start (rs ! i) \<le> pn \<and> pn \<le> ar_end (rs ! i))"
        using m(1) by (metis Suc_eq_plus1 Suc_leD le_trans not_less_eq_eq)
      with "1.IH"(2) [OF True m_def refl] c "1.prems" True show ?thesis
        by (simp add: ack_search.simps [of rs pn low high] m_def [symmetric] Let_def)
    next
      case 3
      with m True show ?thesis
        by (auto simp: ack_search.simps [of rs pn low high] m_def [symmetric] Let_def)
    qed
  next
    case False
    then show ?thesis by (auto simp: ack_search.simps [of rs pn low high])
  qed
qed

lemma ack_contains_iff:
  assumes "ack_sorted rs"
  shows "ack_contains rs pn \<longleftrightarrow> pn \<in> ack_set rs"
proof (cases rs)
  case Nil
  then show ?thesis by (simp add: ack_contains_def)
next
  case (Cons newest rest)
  have set: "pn \<in> ack_set rs \<longleftrightarrow> (\<exists>i < length rs. ar_start (rs ! i) \<le> pn \<and> pn \<le> ar_end (rs ! i))"
    unfolding ack_set_def by (simp add: Bex_def in_set_conv_nth) blast
  have older: "ar_end (rs ! i) < ar_start newest" if "i < length rs" "0 < i" for i
  proof -
    have "\<exists>j. i = Suc j \<and> j < length rest" using that Cons by (cases i) auto
    then obtain j where j: "i = Suc j" "j < length rest" by blast
    then have "rest ! j \<in> set rest" by simp
    with assms have "ar_end (rest ! j) + 1 < ar_start newest" unfolding Cons ack_sorted_Cons by blast
    with j show ?thesis by (simp add: Cons)
  qed
  have le: "ar_start newest \<le> ar_end newest" using assms by (simp add: Cons ack_sorted_Cons)
  consider "ar_end newest < pn" | "ar_start newest \<le> pn" "pn \<le> ar_end newest" | "pn < ar_start newest" by linarith
  then show ?thesis
  proof cases
    case 1
    then have "\<not> pn \<le> ar_end (rs ! i)" if "i < length rs" for i
      using older [OF that] le Cons by (cases i) auto
    with 1 show ?thesis unfolding set by (auto simp: Cons ack_contains_def)
  next
    case 2
    then show ?thesis by (simp add: Cons ack_contains_def)
  next
    case 3
    have "(\<exists>i < length rs. ar_start (rs ! i) \<le> pn \<and> pn \<le> ar_end (rs ! i)) \<longleftrightarrow>
        (\<exists>i. 1 \<le> i \<and> i < length rs \<and> ar_start (rs ! i) \<le> pn \<and> pn \<le> ar_end (rs ! i))"
      using 3 Cons by (metis One_nat_def Suc_leI gr0I linorder_not_less nth_Cons_0)
    with 3 le show ?thesis unfolding set
      using ack_search_correct [OF assms order_refl, of pn 1] by (auto simp: ack_contains_def Cons)
  qed
qed

lemma ack_discard_below_set: "ack_sorted rs \<Longrightarrow> ack_set (ack_discard_below floor rs) = ack_set rs \<inter> {floor ..}"
proof (induction rs)
  case (Cons r rs)
  show ?case
  proof (cases "floor \<le> ar_end r")
    case True
    with Cons show ?thesis by (auto simp: ack_sorted_Cons)
  next
    case False
    with Cons have "\<forall>s \<in> set rs. ar_end s < floor" by (fastforce simp: ack_sorted_Cons)
    with False show ?thesis by (auto simp: ack_set_def)
  qed
qed simp

lemma ack_discard_below_subset: "r \<in> set (ack_discard_below floor rs) \<Longrightarrow>
    \<exists>s \<in> set rs. ar_end r = ar_end s \<and> ar_start s \<le> ar_start r \<and> ar_start r = max (ar_start s) floor \<and> floor \<le> ar_end r"
  by (induction rs) (auto split: if_splits)

lemma ack_discard_below_inv: "ack_inv N rs \<Longrightarrow> ack_inv N (ack_discard_below floor rs)"
proof -
  have "ack_sorted (ack_discard_below floor rs) \<and> length (ack_discard_below floor rs) \<le> length rs"
    if "ack_sorted rs"
    using that by (induction rs) (fastforce simp: ack_sorted_Cons dest: ack_discard_below_subset)+
  then show "ack_inv N rs \<Longrightarrow> ack_inv N (ack_discard_below floor rs)"
    by (auto simp: ack_inv_def)
qed

section \<open>What the set promises\<close>

text \<open>
  Claim C15. Recording a received range keeps the ranges sorted newest first, disjoint,
  non-adjacent and within the capacity. Unless it reports a drop the numbers recorded are exactly
  the union; when it reports one, the set is full and every number it gave up is older than every
  number it kept, so an acknowledgement always describes the newest packets.
\<close>

theorem ack_insert_range_spec:
  assumes "ack_inv N rs" "0 < N" "ar_start new \<le> ar_end new"
    and "ack_insert_range N new rs = (rs', dropped)"
  shows "ack_inv N rs'
    \<and> (\<not> dropped \<longrightarrow> ack_set rs' = {ar_start new .. ar_end new} \<union> ack_set rs)
    \<and> (dropped \<longrightarrow> length rs' = N \<and> ack_set rs' \<subseteq> {ar_start new .. ar_end new} \<union> ack_set rs
        \<and> (\<forall>p \<in> ({ar_start new .. ar_end new} \<union> ack_set rs) - ack_set rs'. \<forall>q \<in> ack_set rs'. p < q))"
proof -
  let ?u = "ack_union new rs"
  have u: "ack_sorted ?u" "ack_set ?u = {ar_start new .. ar_end new} \<union> ack_set rs"
    using ack_union_correct [of rs new] assms by (simp_all add: ack_inv_def)
  have r: "rs' = take N ?u" "dropped \<longleftrightarrow> N < length ?u"
    using ack_insert_range_take [OF assms(1-3)] assms(4) by simp_all
  have d: "p \<in> ack_set (drop N ?u)" if "p \<in> ack_set ?u" "p \<notin> ack_set rs'" for p
    using that r(1) ack_set_simps(3) [of "take N ?u" "drop N ?u"] by simp
  have "ack_inv N rs'" using ack_insert_range_inv [OF assms(1,2), of new] assms(4) by simp
  moreover have "\<not> dropped \<longrightarrow> ack_set rs' = ack_set ?u" using r by simp
  moreover have "dropped \<longrightarrow> length rs' = N" using r by simp
  moreover have "ack_set rs' \<subseteq> ack_set ?u"
    using ack_insert_range_subset [OF assms(1-3)] assms(4) u(2) by simp
  moreover have "\<forall>p \<in> ack_set ?u - ack_set rs'. \<forall>q \<in> ack_set rs'. p < q"
    using ack_set_take_below [OF u(1)] d r(1) by blast
  ultimately show ?thesis unfolding u(2) [symmetric] by blast
qed

lemma ack_insert_range_spec_witness:
  "ack_inv 2 [\<lparr>ar_start = 20, ar_end = 21\<rparr>, \<lparr>ar_start = 9, ar_end = 10\<rparr>]"
proof -
  have h: "ack_inv 2 [\<lparr>ar_start = 9, ar_end = 10\<rparr>, \<lparr>ar_start = 1, ar_end = 4\<rparr>]" "0 < (2 :: nat)"
    "ar_start \<lparr>ar_start = 20, ar_end = 21\<rparr> \<le> ar_end \<lparr>ar_start = 20, ar_end = 21\<rparr>"
    "ack_insert_range 2 \<lparr>ar_start = 20, ar_end = 21\<rparr> [\<lparr>ar_start = 9, ar_end = 10\<rparr>, \<lparr>ar_start = 1, ar_end = 4\<rparr>]
      = ([\<lparr>ar_start = 20, ar_end = 21\<rparr>, \<lparr>ar_start = 9, ar_end = 10\<rparr>], True)"
    by code_simp+
  from ack_insert_range_spec [OF h] show ?thesis by blast
qed

text \<open>
  The binary search of \<open>contains\<close> decides membership exactly, on every list in the
  order the insertions keep, and \<open>discard_below\<close> removes exactly the numbers below its floor.
\<close>

theorem ack_contains_correct:
  assumes "ack_inv N rs"
  shows "(ack_contains rs pn \<longleftrightarrow> (\<exists>r \<in> set rs. ar_start r \<le> pn \<and> pn \<le> ar_end r))
    \<and> (ack_contains (ack_discard_below floor rs) pn \<longleftrightarrow> ack_contains rs pn \<and> floor \<le> pn)"
proof -
  have s: "ack_sorted rs" "ack_sorted (ack_discard_below floor rs)"
    using assms ack_discard_below_inv [OF assms] by (auto simp: ack_inv_def)
  have "ack_contains rs pn \<longleftrightarrow> pn \<in> ack_set rs" using s(1) by (rule ack_contains_iff)
  moreover have "ack_contains (ack_discard_below floor rs) pn \<longleftrightarrow> pn \<in> ack_set rs \<and> floor \<le> pn"
    using ack_contains_iff [OF s(2)] ack_discard_below_set [OF s(1)] by simp
  ultimately show ?thesis by (simp add: ack_set_def)
qed

lemma ack_contains_correct_witness:
  "ack_contains [\<lparr>ar_start = 20, ar_end = 21\<rparr>, \<lparr>ar_start = 9, ar_end = 10\<rparr>, \<lparr>ar_start = 2, ar_end = 4\<rparr>] 3
   \<and> \<not> ack_contains (ack_discard_below 4
      [\<lparr>ar_start = 20, ar_end = 21\<rparr>, \<lparr>ar_start = 9, ar_end = 10\<rparr>, \<lparr>ar_start = 2, ar_end = 4\<rparr>]) 3"
proof -
  have "ack_inv 3 [\<lparr>ar_start = 20, ar_end = 21\<rparr>, \<lparr>ar_start = 9, ar_end = 10\<rparr>, \<lparr>ar_start = 2, ar_end = 4\<rparr>]"
    by code_simp
  from ack_contains_correct [OF this, of 3 4] show ?thesis by simp
qed

section \<open>The interface of a bounded received-number set\<close>

datatype receive_op = Received u32 | Floor u32

locale packet_number_set =
  fixes empty :: 's
    and insert_pn :: "u32 \<Rightarrow> 's \<Rightarrow> 's"
    and discard :: "u32 \<Rightarrow> 's \<Rightarrow> 's"
    and contains :: "'s \<Rightarrow> u32 \<Rightarrow> bool"
    and inv :: "'s \<Rightarrow> bool"
  assumes inv_empty: "inv empty"
    and inv_insert: "inv s \<Longrightarrow> inv (insert_pn p s)"
    and inv_discard: "inv s \<Longrightarrow> inv (discard f s)"
    and contains_empty: "\<not> contains empty p"
    and contains_insert: "inv s \<Longrightarrow> contains (insert_pn p s) q \<Longrightarrow> q = p \<or> contains s q"
    and insert_keeps_newer:
      "inv s \<Longrightarrow> q = p \<or> contains s q \<Longrightarrow> \<not> contains (insert_pn p s) q \<Longrightarrow>
        \<exists>r > q. contains (insert_pn p s) r"
    and contains_discard: "inv s \<Longrightarrow> contains (discard f s) q \<longleftrightarrow> contains s q \<and> f \<le> q"
begin

abbreviation apply_op :: "'s \<Rightarrow> receive_op \<Rightarrow> 's" where
  "apply_op s oper \<equiv> (case oper of Received p \<Rightarrow> insert_pn p s | Floor f \<Rightarrow> discard f s)"

lemma inv_run: "inv (foldl apply_op empty ops)"
  by (induction ops rule: rev_induct) (auto simp: inv_empty inv_insert inv_discard split: receive_op.split)

text \<open>Nothing is reported that was not received.\<close>

lemma contains_run: "contains (foldl apply_op empty ops) q \<Longrightarrow> Received q \<in> set ops"
proof (induction ops rule: rev_induct)
  case Nil
  then show ?case using contains_empty by simp
next
  case (snoc x xs)
  then show ?case
    using contains_insert [OF inv_run] contains_discard [OF inv_run] by (cases x) auto
qed

text \<open>The newest number received is always reported.\<close>

lemma newest_contained:
  "Received p \<in> set ops \<Longrightarrow> (\<And>q. Received q \<in> set ops \<Longrightarrow> q \<le> p) \<Longrightarrow>
   (\<And>f. Floor f \<in> set ops \<Longrightarrow> f \<le> p) \<Longrightarrow> contains (foldl apply_op empty ops) p"
proof (induction ops rule: rev_induct)
  case (snoc x xs)
  show ?case
  proof (cases x)
    case (Floor f)
    with snoc show ?thesis using contains_discard [OF inv_run] by auto
  next
    case (Received r)
    have known: "p = r \<or> contains (foldl apply_op empty xs) p"
      using snoc Received by (cases "p = r") auto
    show ?thesis
    proof (rule ccontr)
      assume no: "\<not> ?thesis"
      then obtain t where "p < t" "contains (foldl apply_op empty (xs @ [x])) t"
        using insert_keeps_newer [OF inv_run known] Received by auto
      then have "t \<le> p" by (intro snoc.prems(2) contains_run)
      with \<open>p < t\<close> show False by simp
    qed
  qed
qed simp

end

lemma ack_insert_keeps_newer:
  assumes "ack_inv N rs" "0 < N" "q = p \<or> q \<in> ack_set rs" "q \<notin> ack_set (fst (ack_insert N p rs))"
  shows "\<exists>r > q. r \<in> ack_set (fst (ack_insert N p rs))"
proof -
  let ?new = "\<lparr>ar_start = p, ar_end = p\<rparr>" and ?u = "ack_union \<lparr>ar_start = p, ar_end = p\<rparr> rs"
  have u: "ack_sorted ?u" "ack_set ?u = {p .. p} \<union> ack_set rs"
    using ack_union_correct [of rs ?new] assms(1) by (simp_all add: ack_inv_def)
  have r: "fst (ack_insert N p rs) = take N ?u"
    using ack_insert_range_take [OF assms(1,2), of ?new] by (simp add: ack_insert_def)
  have "q \<in> ack_set ?u" using assms(3) u(2) by auto
  then have q: "q \<in> ack_set (drop N ?u)"
    using assms(4) r ack_set_simps(3) [of "take N ?u" "drop N ?u"] by simp
  have "?u \<noteq> []" using u(2) by (auto simp: ack_set_def)
  then obtain t where "t \<in> set (take N ?u)" using assms(2) by (cases ?u; cases N) auto
  moreover from this have "ar_start t \<le> ar_end t" using u(1) by (auto simp: ack_sorted_def dest: in_set_takeD)
  ultimately have "ar_end t \<in> ack_set (take N ?u)" by (auto simp: ack_set_def)
  then show ?thesis using ack_set_take_below [OF u(1) q] r by auto
qed

interpretation received: packet_number_set "[]" "\<lambda>p rs. fst (ack_insert ACK_RANGE_CAPACITY p rs)"
    ack_discard_below ack_contains "ack_inv ACK_RANGE_CAPACITY"
proof
  have pos: "0 < ACK_RANGE_CAPACITY" by (simp add: ACK_RANGE_CAPACITY_def)
  have c: "ack_contains rs q \<longleftrightarrow> q \<in> ack_set rs" if "ack_inv ACK_RANGE_CAPACITY rs" for rs q
    using that ack_contains_iff by (auto simp: ack_inv_def)
  have ins: "ack_inv ACK_RANGE_CAPACITY (fst (ack_insert ACK_RANGE_CAPACITY p rs))"
    if "ack_inv ACK_RANGE_CAPACITY rs" for p rs
    using ack_insert_range_inv [OF that pos] by (simp add: ack_insert_def)
  show "ack_inv ACK_RANGE_CAPACITY []" by (simp add: ack_inv_def)
  show "\<not> ack_contains [] p" for p by (simp add: ack_contains_def)
  fix rs p q f
  assume inv: "ack_inv ACK_RANGE_CAPACITY rs"
  show "ack_inv ACK_RANGE_CAPACITY (fst (ack_insert ACK_RANGE_CAPACITY p rs))" using inv by (rule ins)
  show "ack_inv ACK_RANGE_CAPACITY (ack_discard_below f rs)" using inv by (rule ack_discard_below_inv)
  show "ack_contains (ack_discard_below f rs) q \<longleftrightarrow> ack_contains rs q \<and> f \<le> q"
    using c [OF inv] c [OF ack_discard_below_inv [OF inv]] ack_discard_below_set [of rs f] inv
    by (auto simp: ack_inv_def)
  show "q = p \<or> ack_contains rs q" if "ack_contains (fst (ack_insert ACK_RANGE_CAPACITY p rs)) q"
    using that c [OF ins [OF inv]] c [OF inv] ack_insert_range_subset [OF inv pos, of "\<lparr>ar_start = p, ar_end = p\<rparr>"]
    by (auto simp: ack_insert_def)
  show "\<exists>r > q. ack_contains (fst (ack_insert ACK_RANGE_CAPACITY p rs)) r"
    if "q = p \<or> ack_contains rs q" "\<not> ack_contains (fst (ack_insert ACK_RANGE_CAPACITY p rs)) q"
    using that ack_insert_keeps_newer [OF inv pos] c [OF ins [OF inv]] c [OF inv] by auto
qed

definition ack_run :: "receive_op list \<Rightarrow> ack_ranges" where
  "ack_run ops = foldl (\<lambda>rs oper. case oper of
      Received p \<Rightarrow> fst (ack_insert ACK_RANGE_CAPACITY p rs) | Floor f \<Rightarrow> ack_discard_below f rs) [] ops"

text \<open>
  Over any sequence of receptions and floor advances on the 32-range set, a number
  reported as received was received, and the largest number received is reported unless a floor
  passed it.
\<close>

theorem ack_run_sound:
  "(\<forall>q. ack_contains (ack_run ops) q \<longrightarrow> Received q \<in> set ops)
    \<and> (\<forall>p. Received p \<in> set ops \<and> (\<forall>q. Received q \<in> set ops \<longrightarrow> q \<le> p)
        \<and> (\<forall>f. Floor f \<in> set ops \<longrightarrow> f \<le> p) \<longrightarrow> ack_contains (ack_run ops) p)"
  unfolding ack_run_def using received.contains_run received.newest_contained by blast

lemma ack_run_sound_witness:
  "ack_contains (ack_run [Received 5, Received 9, Floor 6, Received 2]) 9"
  using ack_run_sound [of "[Received 5, Received 9, Floor 6, Received 2]"] by auto

end
