(* ===== verification/Wire_Frames.thy ===== *)
theory Wire_Frames
  imports Wire_Header Ack_Ranges
begin

text \<open>
  The frames of \<^verbatim>\<open>quic-lite/src/lib.rs\<close> inside a packet: their encoder \<open>Frame::encode\<close>, the
  parser \<open>decode_frame\<close>, and the two packet classifiers that run it over a whole packet,
  \<open>decode_path_control_packet\<close> and \<open>is_control_only_packet\<close>.

  The writing position \<open>p\<close> of the source is the number of bytes already written, so a write at
  \<^verbatim>\<open>&mut out[p..]\<close> has the remaining capacity. Each arm of the parser is a definition of its own.
\<close>

section \<open>Frames\<close>

datatype Role = Client | Server

record CircuitKey =
  opener_role :: Role
  ck_sequence :: u64

datatype PathStatusKind = Available | Standby | Abandon

record StreamFrame =
  sf_id :: u64
  sf_offset :: u64
  sf_fin :: bool
  sf_data :: "u8 list"

datatype Frame =
    Padding
  | Ping
  | Ack u32 u64
  | AckRangesF u32 u64 ack_ranges
  | AckFrequency u64 u64 u64 u64
  | StreamF StreamFrame
  | Datagram "u8 list" bool
  | MaxData u64
  | MaxStreamData u64 u64
  | MaxStreamsBidi u64
  | MaxStreamsUni u64
  | PathJoin ConnectionId CircuitKey u64 ConnectionId
  | PathJoinAck CircuitKey u64 ConnectionId
  | PathChallenge u64
  | PathResponse u64
  | PathStatus CircuitKey u64 PathStatusKind
  | Close u64

definition FRAME_PADDING :: u64 where [codec_defs]: "FRAME_PADDING = 0x00"
definition FRAME_PING :: u64 where [codec_defs]: "FRAME_PING = 0x01"
definition FRAME_ACK :: u64 where [codec_defs]: "FRAME_ACK = 0x02"
definition FRAME_STREAM_BASE :: u64 where [codec_defs]: "FRAME_STREAM_BASE = 0x08"
definition FRAME_MAX_DATA :: u64 where [codec_defs]: "FRAME_MAX_DATA = 0x10"
definition FRAME_MAX_STREAM_DATA :: u64 where [codec_defs]: "FRAME_MAX_STREAM_DATA = 0x11"
definition FRAME_MAX_STREAMS_BIDI :: u64 where [codec_defs]: "FRAME_MAX_STREAMS_BIDI = 0x12"
definition FRAME_MAX_STREAMS_UNI :: u64 where [codec_defs]: "FRAME_MAX_STREAMS_UNI = 0x13"
definition FRAME_CONNECTION_CLOSE :: u64 where [codec_defs]: "FRAME_CONNECTION_CLOSE = 0x1c"
definition FRAME_PATH_JOIN :: u64 where [codec_defs]: "FRAME_PATH_JOIN = 0x40"
definition FRAME_PATH_JOIN_ACK :: u64 where [codec_defs]: "FRAME_PATH_JOIN_ACK = 0x41"
definition FRAME_PATH_CHALLENGE :: u64 where [codec_defs]: "FRAME_PATH_CHALLENGE = 0x42"
definition FRAME_PATH_RESPONSE :: u64 where [codec_defs]: "FRAME_PATH_RESPONSE = 0x43"
definition FRAME_PATH_STATUS :: u64 where [codec_defs]: "FRAME_PATH_STATUS = 0x44"
definition FRAME_ACK_FREQUENCY :: u64 where [codec_defs]: "FRAME_ACK_FREQUENCY = 0xaf"

section \<open>Encoding\<close>

text \<open>A write that starts where the previous one stopped.\<close>

definition seqE :: "(nat \<Rightarrow> u8 list result) \<Rightarrow> (nat \<Rightarrow> u8 list result) \<Rightarrow> nat \<Rightarrow> u8 list result" where
  "seqE f g cap = bindE (f cap) (\<lambda>a. bindE (g (cap - length a)) (\<lambda>b. Inr (a @ b)))"

text \<open>Consecutive calls of the closure \<open>put\<close>.\<close>

fun put_all :: "u64 list \<Rightarrow> nat \<Rightarrow> u8 list result" where
  "put_all [] cap = Inr []"
| "put_all (v # vs) cap = seqE (put_varint v) (put_all vs) cap"

definition role_value :: "Role \<Rightarrow> u64" where
  "role_value role = (case role of Client \<Rightarrow> 0 | Server \<Rightarrow> 1)"

definition put_role :: "Role \<Rightarrow> nat \<Rightarrow> u8 list result" where
  "put_role role cap = put_varint (role_value role) cap"

definition decode_role :: "u64 \<Rightarrow> Role result" where
  "decode_role value = (if value = 0 then Inr Client else if value = 1 then Inr Server else Inl Invalid)"

definition status_value :: "PathStatusKind \<Rightarrow> u64" where
  "status_value status = (case status of Available \<Rightarrow> 0 | Standby \<Rightarrow> 1 | Abandon \<Rightarrow> 2)"

text \<open>A slice copied behind what is written.\<close>

definition put_slice :: "u8 list \<Rightarrow> nat \<Rightarrow> u8 list result" where
  "put_slice data cap = (if cap < length data then Inl BufferTooSmall else Inr data)"

definition encode_stream_prefix :: "StreamFrame \<Rightarrow> nat \<Rightarrow> u8 list result" where
  "encode_stream_prefix s cap = put_all
     [FRAME_STREAM_BASE OR 0x04 OR 0x02 OR (if sf_fin s then 1 else 0),
      sf_id s, sf_offset s, length (sf_data s)] cap"

text \<open>The ranges after the first one of an ACK frame.\<close>

fun encode_ack_tail :: "AckRange \<Rightarrow> ack_ranges \<Rightarrow> nat \<Rightarrow> u8 list result" where
  "encode_ack_tail previous [] cap = Inr []"
| "encode_ack_tail previous (current # rest) cap =
     bindE (ok_or Invalid (checked_sub (ar_start previous) (ar_end current + 2))) (\<lambda>gap.
       seqE (put_all [gap, ar_end current - ar_start current]) (encode_ack_tail current rest) cap)"

definition encode_ack_ranges :: "u32 \<Rightarrow> u64 \<Rightarrow> ack_ranges \<Rightarrow> nat \<Rightarrow> u8 list result" where
  "encode_ack_ranges largest delay ranges cap = (case ranges of
     [] \<Rightarrow> Inl Invalid
   | first # rest \<Rightarrow>
       if ar_end first \<noteq> largest then Inl Invalid
       else seqE (put_all [FRAME_ACK, largest, delay, length ranges - 1, ar_end first - ar_start first])
              (encode_ack_tail first rest) cap)"

definition frame_encode :: "Frame \<Rightarrow> nat \<Rightarrow> u8 list result" where
  "frame_encode frame cap = (case frame of
     Padding \<Rightarrow> if cap = 0 then Inl BufferTooSmall else Inr [word_of_nat FRAME_PADDING]
   | Ping \<Rightarrow> if cap = 0 then Inl BufferTooSmall else Inr [word_of_nat FRAME_PING]
   | Ack largest delay \<Rightarrow> put_all [FRAME_ACK, largest, delay, 0, 0] cap
   | AckRangesF largest delay ranges \<Rightarrow> encode_ack_ranges largest delay ranges cap
   | AckFrequency sequence packet_threshold max_ack_delay_us reordering_threshold \<Rightarrow>
       put_all [FRAME_ACK_FREQUENCY, sequence, packet_threshold, max_ack_delay_us, reordering_threshold] cap
   | StreamF s \<Rightarrow> seqE (encode_stream_prefix s) (put_slice (sf_data s)) cap
   | MaxData v \<Rightarrow> put_all [FRAME_MAX_DATA, v] cap
   | Datagram data len \<Rightarrow>
       seqE (put_all (if len then [0x31, length data] else [0x30])) (put_slice data) cap
   | MaxStreamData i m \<Rightarrow> put_all [FRAME_MAX_STREAM_DATA, i, m] cap
   | MaxStreamsBidi v \<Rightarrow> put_all [FRAME_MAX_STREAMS_BIDI, v] cap
   | MaxStreamsUni v \<Rightarrow> put_all [FRAME_MAX_STREAMS_UNI, v] cap
   | PathJoin join_cid key transaction_id receive_cid \<Rightarrow>
       seqE (put_varint FRAME_PATH_JOIN) (seqE (put_role (opener_role key))
         (seqE (put_all [ck_sequence key, transaction_id])
           (seqE (encode_compact_cid join_cid) (encode_compact_cid receive_cid)))) cap
   | PathJoinAck key transaction_id receive_cid \<Rightarrow>
       seqE (put_varint FRAME_PATH_JOIN_ACK) (seqE (put_role (opener_role key))
         (seqE (put_all [ck_sequence key, transaction_id]) (encode_compact_cid receive_cid))) cap
   | PathChallenge token \<Rightarrow> put_all [FRAME_PATH_CHALLENGE, token] cap
   | PathResponse token \<Rightarrow> put_all [FRAME_PATH_RESPONSE, token] cap
   | PathStatus key sequence status \<Rightarrow>
       seqE (put_varint FRAME_PATH_STATUS) (seqE (put_role (opener_role key))
         (put_all [ck_sequence key, sequence, status_value status])) cap
   | Close code \<Rightarrow> put_all [FRAME_CONNECTION_CLOSE, code, 0] cap)"

section \<open>Parsing\<close>

text \<open>\<^verbatim>\<open>let (v, n) = get_varint(&input[p..])?; p += n;\<close>\<close>

definition get_at :: "u8 list \<Rightarrow> usize \<Rightarrow> (u64 \<times> usize) result" where
  "get_at input p = bindE (get_varint (drop p input)) (\<lambda>(v, n). Inr (v, p + n))"

definition get_cid_at :: "u8 list \<Rightarrow> usize \<Rightarrow> (ConnectionId \<times> usize) result" where
  "get_cid_at input p = bindE (decode_compact_cid (drop p input)) (\<lambda>(cid, n). Inr (cid, p + n))"

fun decode_ack_tail :: "nat \<Rightarrow> u8 list \<Rightarrow> usize \<Rightarrow> u64 \<Rightarrow> ack_ranges \<Rightarrow> (ack_ranges \<times> usize) result" where
  "decode_ack_tail 0 input p previous_start ranges = Inr (ranges, p)"
| "decode_ack_tail (Suc n) input p previous_start ranges =
     bindE (get_at input p) (\<lambda>(gap, p).
     bindE (get_at input p) (\<lambda>(range, p).
     bindE (ok_or Invalid (checked_sub previous_start (gap + 2))) (\<lambda>current_end.
     bindE (ok_or Invalid (checked_sub current_end range)) (\<lambda>current_start.
       if u32_max < current_end \<or> u32_max < current_start then Inl Invalid
       else decode_ack_tail n input p current_start
              (fst (ack_insert_range ACK_RANGE_CAPACITY \<lparr>ar_start = current_start, ar_end = current_end\<rparr> ranges))))))"

definition decode_ack :: "u8 list \<Rightarrow> usize \<Rightarrow> (Frame \<times> usize) result" where
  "decode_ack input p =
     bindE (get_at input p) (\<lambda>(largest, p).
     bindE (get_at input p) (\<lambda>(delay, p).
     bindE (get_at input p) (\<lambda>(range_count, p).
     bindE (get_at input p) (\<lambda>(first_range, p).
       if u32_max < largest \<or> largest < first_range then Inl Invalid
       else if range_count = 0 \<and> first_range = 0 then Inr (Ack largest delay, p)
       else if ACK_RANGE_CAPACITY \<le> range_count then Inl Invalid
       else
         let ranges = fst (ack_insert_range ACK_RANGE_CAPACITY
               \<lparr>ar_start = largest - first_range, ar_end = largest\<rparr> [])
         in bindE (decode_ack_tail range_count input p (largest - first_range) ranges) (\<lambda>(ranges, p).
              Inr (AckRangesF largest delay ranges, p))))))"

definition decode_ack_frequency :: "u8 list \<Rightarrow> usize \<Rightarrow> (Frame \<times> usize) result" where
  "decode_ack_frequency input p =
     bindE (get_at input p) (\<lambda>(sequence, p).
     bindE (get_at input p) (\<lambda>(packet_threshold, p).
     bindE (get_at input p) (\<lambda>(max_ack_delay_us, p).
     bindE (get_at input p) (\<lambda>(reordering_threshold, p).
       Inr (AckFrequency sequence packet_threshold max_ack_delay_us reordering_threshold, p)))))"

definition decode_datagram :: "bool \<Rightarrow> u8 list \<Rightarrow> usize \<Rightarrow> (Frame \<times> usize) result" where
  "decode_datagram len_present input p =
     bindE (if len_present then get_at input p else Inr (length input - p, p)) (\<lambda>(len, p).
     bindE (ok_or Invalid (checked_add u64_max p len)) (\<lambda>e.
     bindE (guardE Truncated (e \<le> length input)) (\<lambda>_.
       Inr (Datagram (drop p (take e input)) len_present, e))))"

definition decode_one :: "(u64 \<Rightarrow> Frame) \<Rightarrow> u8 list \<Rightarrow> usize \<Rightarrow> (Frame \<times> usize) result" where
  "decode_one mk input p = bindE (get_at input p) (\<lambda>(v, p). Inr (mk v, p))"

definition decode_max_stream_data :: "u8 list \<Rightarrow> usize \<Rightarrow> (Frame \<times> usize) result" where
  "decode_max_stream_data input p =
     bindE (get_at input p) (\<lambda>(i, p).
     bindE (get_at input p) (\<lambda>(m, p). Inr (MaxStreamData i m, p)))"

definition decode_path_join :: "u8 list \<Rightarrow> usize \<Rightarrow> (Frame \<times> usize) result" where
  "decode_path_join input p =
     bindE (get_at input p) (\<lambda>(role, p).
     bindE (decode_role role) (\<lambda>opener.
     bindE (get_at input p) (\<lambda>(sequence, p).
     bindE (get_at input p) (\<lambda>(transaction_id, p).
     bindE (get_cid_at input p) (\<lambda>(join_cid, p).
     bindE (get_cid_at input p) (\<lambda>(receive_cid, p).
       if sequence = 0 \<or> transaction_id = 0 \<or> cid_value join_cid = 0 \<or> cid_value receive_cid = 0
       then Inl Invalid
       else Inr (PathJoin join_cid \<lparr>opener_role = opener, ck_sequence = sequence\<rparr>
              transaction_id receive_cid, p)))))))"

definition decode_path_join_ack :: "u8 list \<Rightarrow> usize \<Rightarrow> (Frame \<times> usize) result" where
  "decode_path_join_ack input p =
     bindE (get_at input p) (\<lambda>(role, p).
     bindE (decode_role role) (\<lambda>opener.
     bindE (get_at input p) (\<lambda>(sequence, p).
     bindE (get_at input p) (\<lambda>(transaction_id, p).
     bindE (get_cid_at input p) (\<lambda>(receive_cid, p).
       if sequence = 0 \<or> transaction_id = 0 \<or> cid_value receive_cid = 0 then Inl Invalid
       else Inr (PathJoinAck \<lparr>opener_role = opener, ck_sequence = sequence\<rparr>
              transaction_id receive_cid, p))))))"

definition decode_token :: "(u64 \<Rightarrow> Frame) \<Rightarrow> u8 list \<Rightarrow> usize \<Rightarrow> (Frame \<times> usize) result" where
  "decode_token mk input p = bindE (get_at input p) (\<lambda>(token, p).
     if token = 0 then Inl Invalid else Inr (mk token, p))"

definition decode_path_status :: "u8 list \<Rightarrow> usize \<Rightarrow> (Frame \<times> usize) result" where
  "decode_path_status input p =
     bindE (get_at input p) (\<lambda>(role, p).
     bindE (decode_role role) (\<lambda>opener.
     bindE (get_at input p) (\<lambda>(key_sequence, p).
     bindE (get_at input p) (\<lambda>(sequence, p).
     bindE (get_at input p) (\<lambda>(status, p).
     bindE (guardE Invalid (sequence \<noteq> 0)) (\<lambda>_.
     bindE (if status = 0 then Inr Available else if status = 1 then Inr Standby
            else if status = 2 then Inr Abandon else Inl Invalid) (\<lambda>status.
       Inr (PathStatus \<lparr>opener_role = opener, ck_sequence = key_sequence\<rparr> sequence status, p))))))))"

definition decode_close :: "u8 list \<Rightarrow> usize \<Rightarrow> (Frame \<times> usize) result" where
  "decode_close input p =
     bindE (get_at input p) (\<lambda>(code, p).
     bindE (get_at input p) (\<lambda>(len, p).
     bindE (ok_or Invalid (checked_add u64_max p len)) (\<lambda>e.
     bindE (guardE Truncated (e \<le> length input)) (\<lambda>_. Inr (Close code, e)))))"

definition decode_stream :: "u64 \<Rightarrow> u8 list \<Rightarrow> usize \<Rightarrow> (Frame \<times> usize) result" where
  "decode_stream t input p =
     bindE (get_at input p) (\<lambda>(i, p).
     bindE (if t AND 4 \<noteq> 0 then get_at input p else Inr (0, p)) (\<lambda>(off, p).
     bindE (if t AND 2 \<noteq> 0 then get_at input p else Inr (length input - p, p)) (\<lambda>(len, p).
     bindE (ok_or Invalid (checked_add u64_max p len)) (\<lambda>e.
     bindE (guardE Truncated (e \<le> length input)) (\<lambda>_.
       Inr (StreamF \<lparr>sf_id = i, sf_offset = off, sf_fin = (t AND 1 \<noteq> 0),
              sf_data = drop p (take e input)\<rparr>, e))))))"

definition decode_frame :: "u8 list \<Rightarrow> (Frame \<times> usize) result" where
  "decode_frame input = bindE (get_varint input) (\<lambda>(typ, p).
     if typ = FRAME_PADDING then Inr (Padding, p)
     else if typ = FRAME_PING then Inr (Ping, p)
     else if typ = FRAME_ACK then decode_ack input p
     else if typ = FRAME_ACK_FREQUENCY then decode_ack_frequency input p
     else if typ = FRAME_MAX_DATA then decode_one MaxData input p
     else if typ = 0x30 \<or> typ = 0x31 then decode_datagram (typ = 0x31) input p
     else if typ = FRAME_MAX_STREAM_DATA then decode_max_stream_data input p
     else if typ = FRAME_MAX_STREAMS_BIDI then decode_one MaxStreamsBidi input p
     else if typ = FRAME_MAX_STREAMS_UNI then decode_one MaxStreamsUni input p
     else if typ = FRAME_PATH_JOIN then decode_path_join input p
     else if typ = FRAME_PATH_JOIN_ACK then decode_path_join_ack input p
     else if typ = FRAME_PATH_CHALLENGE then decode_token PathChallenge input p
     else if typ = FRAME_PATH_RESPONSE then decode_token PathResponse input p
     else if typ = FRAME_PATH_STATUS then decode_path_status input p
     else if typ = FRAME_CONNECTION_CLOSE then decode_close input p
     else if FRAME_STREAM_BASE \<le> typ \<and> typ \<le> FRAME_STREAM_BASE + 7 then decode_stream typ input p
     else Inl Invalid)"

section \<open>Classifying a packet\<close>

definition is_path_control :: "Frame \<Rightarrow> bool" where
  "is_path_control frame = (case frame of
     PathJoin _ _ _ _ \<Rightarrow> True
   | PathJoinAck _ _ _ \<Rightarrow> True
   | PathChallenge _ \<Rightarrow> True
   | PathResponse _ \<Rightarrow> True
   | PathStatus _ _ _ \<Rightarrow> True
   | _ \<Rightarrow> False)"

function path_control_loop :: "u8 list \<Rightarrow> usize \<Rightarrow> Frame option \<Rightarrow> bool \<Rightarrow> Frame option result" where
  "path_control_loop input offset path_control other_frame =
     (if offset < length input
      then (case decode_frame (drop offset input) of
        Inl _ \<Rightarrow> Inr None
      | Inr (frame, used) \<Rightarrow>
          if used = 0 then Inr None
          else if is_path_control frame
          then
            if path_control \<noteq> None \<or> other_frame then Inl Invalid
            else path_control_loop input (offset + used) (Some frame) other_frame
          else if path_control \<noteq> None
          then
            if frame \<noteq> Padding then Inl Invalid
            else path_control_loop input (offset + used) path_control other_frame
          else path_control_loop input (offset + used) path_control True)
      else Inr path_control)"
  by pat_completeness auto
termination
  by (relation "measure (\<lambda>(input, offset, _, _). length input - offset)") auto

declare path_control_loop.simps [simp del]

definition decode_path_control_packet :: "bool \<Rightarrow> u8 list \<Rightarrow> Frame option result" where
  "decode_path_control_packet pp input =
     (if is_long input then Inr None
      else bindE (short_decode pp input) (\<lambda>(_, hlen). path_control_loop input hlen None False))"

definition is_neutral :: "Frame \<Rightarrow> bool" where
  "is_neutral frame = (case frame of Padding \<Rightarrow> True | Ping \<Rightarrow> True | _ \<Rightarrow> False)"

definition is_priority_control :: "Frame \<Rightarrow> bool" where
  "is_priority_control frame = (case frame of
     Ack _ _ \<Rightarrow> True
   | AckRangesF _ _ _ \<Rightarrow> True
   | AckFrequency _ _ _ _ \<Rightarrow> True
   | MaxData _ \<Rightarrow> True
   | MaxStreamData _ _ \<Rightarrow> True
   | MaxStreamsBidi _ \<Rightarrow> True
   | MaxStreamsUni _ \<Rightarrow> True
   | Close _ \<Rightarrow> True
   | _ \<Rightarrow> is_path_control frame)"

function control_only_loop :: "u8 list \<Rightarrow> usize \<Rightarrow> bool \<Rightarrow> bool" where
  "control_only_loop input offset has_priority_control =
     (if offset < length input
      then (case decode_frame (drop offset input) of
        Inl _ \<Rightarrow> False
      | Inr (frame, used) \<Rightarrow>
          if used = 0 then False
          else if is_neutral frame then control_only_loop input (offset + used) has_priority_control
          else if is_priority_control frame then control_only_loop input (offset + used) True
          else False)
      else has_priority_control)"
  by pat_completeness auto
termination
  by (relation "measure (\<lambda>(input, offset, _). length input - offset)") auto

declare control_only_loop.simps [simp del]

definition is_control_only_packet :: "bool \<Rightarrow> u8 list \<Rightarrow> bool" where
  "is_control_only_packet pp input = (case short_decode pp input of
     Inl _ \<Rightarrow> False
   | Inr (_, hlen) \<Rightarrow> if hlen = length input then False else control_only_loop input hlen False)"

section \<open>Well-formed frames and payloads\<close>

text \<open>The frames the encoder can express and the parser gives back unchanged: a datagram without a
  length takes the rest of its packet, and an ACK of a single number has a shorter form.\<close>

definition frame_ok :: "Frame \<Rightarrow> bool" where
  "frame_ok frame = (case frame of
     Ack largest _ \<Rightarrow> largest \<le> u32_max
   | AckRangesF largest _ rs \<Rightarrow> largest \<le> u32_max \<and> ack_inv ACK_RANGE_CAPACITY rs
       \<and> \<not> (length rs = 1 \<and> ar_start (hd rs) = largest)
   | Datagram _ len \<Rightarrow> len
   | PathJoin join_cid key transaction_id receive_cid \<Rightarrow>
       cid_value join_cid \<le> CID_MAX_VALUE \<and> cid_value receive_cid \<le> CID_MAX_VALUE
       \<and> ck_sequence key \<noteq> 0 \<and> transaction_id \<noteq> 0
   | PathJoinAck key transaction_id receive_cid \<Rightarrow>
       cid_value receive_cid \<le> CID_MAX_VALUE \<and> ck_sequence key \<noteq> 0 \<and> transaction_id \<noteq> 0
   | PathChallenge token \<Rightarrow> token \<noteq> 0
   | PathResponse token \<Rightarrow> token \<noteq> 0
   | PathStatus _ sequence _ \<Rightarrow> sequence \<noteq> 0
   | _ \<Rightarrow> True)"

text \<open>The specification of a whole payload: all of its frames, or an error.\<close>

function parse_frames :: "u8 list \<Rightarrow> Frame list result" where
  "parse_frames payload =
     (if payload = [] then Inr []
      else (case decode_frame payload of
        Inl e \<Rightarrow> Inl e
      | Inr (frame, used) \<Rightarrow>
          if used = 0 then Inl Invalid
          else bindE (parse_frames (drop used payload)) (\<lambda>fs. Inr (frame # fs))))"
  by pat_completeness auto
termination
  by (relation "measure length") auto

declare parse_frames.simps [simp del]

section \<open>Sequenced writes\<close>

lemma seqE_InrE [elim!]:
  assumes "seqE f g cap = Inr bs"
  obtains a b where "f cap = Inr a" "g (cap - length a) = Inr b" "bs = a @ b"
  using assms by (auto simp: seqE_def)

lemma put_varint_length: "put_varint v cap = Inr bs \<Longrightarrow> length bs \<le> 8 \<and> v < 2 ^ 62"
  by (auto simp: put_varint_def varint_len_def Let_def split: if_splits)

lemma get_at_put:
  "put_varint v cap = Inr a \<Longrightarrow> drop p input = a @ rest \<Longrightarrow> get_at input p = Inr (v, p + length a)"
  by (simp add: get_at_def get_put_varint)

lemma put_slice_Inr [simp]: "put_slice data cap = Inr bs \<longleftrightarrow> bs = data \<and> length data \<le> cap"
  by (auto simp: put_slice_def)

lemma encode_compact_cid_nonzero: "encode_compact_cid cid cap = Inr bs \<Longrightarrow> 0 < cid_value cid"
  by (auto simp: encode_compact_cid_def split: if_splits)

lemma role_roundtrip [simp]: "decode_role (role_value role) = Inr role"
  by (cases role) (simp_all add: decode_role_def role_value_def)

lemmas frame_codec_simps = decode_frame_def get_put_varint codec_defs get_at_def get_cid_at_def put_role_def

lemma decode_ack_tail_encode:
  assumes "encode_ack_tail previous rs cap = Inr bs" "ack_inv ACK_RANGE_CAPACITY (acc @ previous # rs)"
    and "ar_end previous \<le> u32_max" "drop p input = bs @ rest"
  shows "decode_ack_tail (length rs) input p (ar_start previous) (acc @ [previous])
    = Inr (acc @ previous # rs, p + length bs)"
  using assms
proof (induction rs arbitrary: previous cap bs acc p)
  case (Cons c rs)
  from Cons.prems(1) obtain g l t where w: "ar_end c + 2 \<le> ar_start previous"
      "put_varint (ar_start previous - (ar_end c + 2)) cap = Inr g"
      "put_varint (ar_end c - ar_start c) (cap - length g) = Inr l"
      "encode_ack_tail c rs (cap - length (g @ l)) = Inr t" "bs = g @ l @ t"
    by auto
  have d: "drop p input = g @ l @ t @ rest" "drop (p + length g) input = l @ t @ rest"
    "drop (p + length g + length l) input = t @ rest"
    using drop_past [of p input g "l @ t @ rest"] drop_past [of "p + length g" input l "t @ rest"] Cons.prems(4) w(5)
    by simp_all
  have c: "ar_start c \<le> ar_end c" "ar_start previous \<le> ar_end previous"
    using Cons.prems(2) by (simp_all add: ack_inv_def ack_sorted_simps)
  have inv: "ack_inv ACK_RANGE_CAPACITY ((acc @ [previous]) @ [c])"
    using Cons.prems(2) by (auto simp: ack_inv_def ack_sorted_simps)
  have "decode_ack_tail (length rs) input (p + length g + length l) (ar_start c) ((acc @ [previous]) @ [c])
      = Inr ((acc @ [previous]) @ c # rs, p + length g + length l + length t)"
    using w(1) c Cons.prems(2,3) by (intro Cons.IH [OF w(4) _ _ d(3)]) simp_all
  moreover have "checked_sub (ar_start previous) (ar_start previous - (ar_end c + 2) + 2) = Some (ar_end c)"
    "checked_sub (ar_end c) (ar_end c - ar_start c) = Some (ar_start c)"
    using w(1) c by (auto simp: checked_sub_def)
  moreover have "fst (ack_insert_range ACK_RANGE_CAPACITY \<lparr>ar_start = ar_start c, ar_end = ar_end c\<rparr> (acc @ [previous]))
      = acc @ [previous, c]"
    using ack_insert_range_oldest [OF inv] by (cases c) simp
  ultimately show ?case
    using get_at_put [OF w(2) d(1)] get_at_put [OF w(3) d(2)] w(1,5) c Cons.prems(3)
    by (simp del: checked_sub_Some)
qed simp

lemma ack_ranges_roundtrip:
  assumes "frame_ok (AckRangesF largest delay rs)" "encode_ack_ranges largest delay rs cap = Inr bs"
  shows "decode_frame (bs @ rest) = Inr (AckRangesF largest delay rs, length bs)"
proof -
  from assms(2) obtain first more where rs: "rs = first # more" "ar_end first = largest"
    by (auto simp: encode_ack_ranges_def split: list.splits if_splits)
  have inv: "ack_inv ACK_RANGE_CAPACITY ([] @ first # more)" "ar_start first \<le> ar_end first"
    "length more < ACK_RANGE_CAPACITY"
    using assms(1) by (auto simp: rs frame_ok_def ack_inv_def ack_sorted_simps)
  from assms(2) rs obtain a t where w: "put_all [FRAME_ACK, largest, delay, length more, largest - ar_start first] cap = Inr a"
      "encode_ack_tail first more (cap - length a) = Inr t" "bs = a @ t"
    by (auto simp: encode_ack_ranges_def simp del: put_all.simps)
  have "ack_inv ACK_RANGE_CAPACITY ([] @ [first])" using inv by (auto simp: ack_inv_def ack_sorted_simps)
  from ack_insert_range_oldest [OF this]
  have one: "ack_insert_range ACK_RANGE_CAPACITY first [] = ([first], False)" by simp
  have "drop (length a) (bs @ rest) = t @ rest" using w(3) by simp
  from decode_ack_tail_encode [OF w(2) inv(1) _ this]
  have tail: "decode_ack_tail (length more) (bs @ rest) (length a) (ar_start first) [first] = Inr (rs, length bs)"
    using assms(1) rs w(3) by (simp add: frame_ok_def)
  have "largest - (largest - ar_start first) = ar_start first" using inv(2) rs(2) by simp
  moreover have "\<lparr>ar_start = ar_start first, ar_end = largest\<rparr> = first" using rs(2) by simp
  moreover have "\<not> (length more = 0 \<and> largest - ar_start first = 0)"
    using assms(1) inv(2) by (auto simp: frame_ok_def rs)
  moreover have "largest \<le> u32_max" "\<not> largest < largest - ar_start first"
    using assms(1) by (simp_all add: frame_ok_def)
  ultimately show ?thesis
    using w(1) tail one inv(3)
    by (auto simp: w(3) frame_codec_simps decode_ack_def add.assoc)
qed

lemma decode_frame_encode:
  assumes "frame_ok frame" "frame_encode frame cap = Inr bs"
  shows "decode_frame (bs @ rest) = Inr (frame, length bs)"
proof (cases frame)
  case Padding
  then show ?thesis using assms by (auto simp: frame_encode_def decode_frame_def get_varint_def codec_defs split: if_splits)
next
  case Ping
  then show ?thesis using assms by (auto simp: frame_encode_def decode_frame_def get_varint_def codec_defs split: if_splits)
next
  case (AckRangesF largest delay rs)
  with assms ack_ranges_roundtrip show ?thesis by (simp add: frame_encode_def)
next
  case (StreamF s)
  with assms obtain a b c d where w: "put_varint (8 OR 4 OR 2 OR (if sf_fin s then 1 else 0)) cap = Inr a"
      "put_varint (sf_id s) (cap - length a) = Inr b"
      "put_varint (sf_offset s) (cap - length a - length b) = Inr c"
      "put_varint (length (sf_data s)) (cap - length a - length b - length c) = Inr d"
      "bs = a @ b @ c @ d @ sf_data s"
    by (auto simp: frame_encode_def encode_stream_prefix_def codec_defs)
  have "length a + length b + length c + length d + length (sf_data s) \<le> u64_max"
    using w(1-4) [THEN put_varint_length] by simp
  moreover have "8 OR 4 OR 2 OR (if sf_fin s then 1 else 0) = (if sf_fin s then 15 else 14 :: nat)" by simp
  ultimately show ?thesis
    using w(1-4) by (cases "sf_fin s") (simp_all add: StreamF w(5) frame_codec_simps decode_stream_def checked_add_exact)
next
  case (Datagram data len)
  with assms obtain a b where w: "put_varint 0x31 cap = Inr a" "put_varint (length data) (cap - length a) = Inr b"
    "bs = a @ b @ data" len
    by (auto simp: frame_encode_def frame_ok_def)
  have "length a + length b + length data \<le> u64_max" using w(1,2) [THEN put_varint_length] by simp
  with w show ?thesis by (simp add: Datagram frame_codec_simps decode_datagram_def checked_add_exact)
next
  case (Close code)
  with assms obtain a b c where w: "put_varint FRAME_CONNECTION_CLOSE cap = Inr a" "put_varint code (cap - length a) = Inr b"
    "put_varint 0 (cap - length a - length b) = Inr c" "bs = a @ b @ c"
    by (auto simp: frame_encode_def)
  have "length a + length b + length c \<le> u64_max" using w(1-3) [THEN put_varint_length] by simp
  with w show ?thesis by (simp add: Close frame_codec_simps decode_close_def checked_add_exact)
next
  case (PathJoin j k t r)
  with assms show ?thesis
    by (auto simp: frame_encode_def frame_ok_def frame_codec_simps decode_path_join_def compact_cid.dec_enc)
      (blast intro: encode_compact_cid_nonzero)+
next
  case (PathJoinAck k t r)
  with assms show ?thesis
    by (auto simp: frame_encode_def frame_ok_def frame_codec_simps decode_path_join_ack_def compact_cid.dec_enc)
      (blast intro: encode_compact_cid_nonzero)
next
  case (PathStatus k q st)
  with assms show ?thesis
    by (cases st) (auto simp: frame_encode_def frame_ok_def frame_codec_simps decode_path_status_def status_value_def)
qed (use assms in \<open>auto simp: frame_encode_def frame_ok_def frame_codec_simps decode_ack_def decode_one_def
    decode_ack_frequency_def decode_max_stream_data_def decode_token_def\<close>)

text \<open>A writer that stays inside the capacity it is given.\<close>

definition bounded_writer :: "(nat \<Rightarrow> u8 list result) \<Rightarrow> bool" where
  "bounded_writer f \<longleftrightarrow> (\<forall>cap bs. f cap = Inr bs \<longrightarrow> length bs \<le> cap)"

lemma bounded_seqE [intro]: "bounded_writer f \<Longrightarrow> bounded_writer g \<Longrightarrow> bounded_writer (seqE f g)"
  unfolding bounded_writer_def by (fastforce simp: seqE_def)

lemma bounded_put_varint [intro]: "bounded_writer (put_varint v)"
  using put_varint_fits by (simp add: bounded_writer_def)

lemma bounded_put_all [intro]: "bounded_writer (put_all vs)"
proof (induction vs)
  case (Cons v vs)
  have "put_all (v # vs) = seqE (put_varint v) (put_all vs)" by (rule ext) simp
  with Cons show ?case by auto
qed (simp add: bounded_writer_def)

lemma bounded_put_slice [intro]: "bounded_writer (put_slice data)"
  by (simp add: bounded_writer_def)

lemma bounded_compact_cid [intro]: "bounded_writer (encode_compact_cid cid)"
proof -
  have "length bs \<le> cap" if "cid_encode cid cap = Inr bs" for cap bs
    using that cid_encode_length [OF that] cid_encode_Inr_iff [of cid cap] by auto
  then show ?thesis by (simp add: bounded_writer_def encode_compact_cid_def)
qed

lemma bounded_ack_tail [intro]: "bounded_writer (encode_ack_tail previous rs)"
proof (induction rs arbitrary: previous)
  case (Cons c rs)
  have "bounded_writer (seqE (put_all [gap, ar_end c - ar_start c]) (encode_ack_tail c rs))" for gap
    using Cons by (intro bounded_seqE bounded_put_all)
  moreover have "\<exists>gap. seqE (put_all [gap, ar_end c - ar_start c]) (encode_ack_tail c rs) cap = Inr bs"
    if "encode_ack_tail previous (c # rs) cap = Inr bs" for cap bs
    using that unfolding encode_ack_tail.simps by (elim bindE_eq_InrE) (rule exI)
  ultimately show ?case unfolding bounded_writer_def by metis
qed (simp add: bounded_writer_def)

lemma bounded_frame_encode [intro]: "bounded_writer (frame_encode frame)"
proof (cases frame)
  case (AckRangesF largest delay rs)
  then have "frame_encode frame = encode_ack_ranges largest delay rs" by (simp add: fun_eq_iff frame_encode_def)
  moreover have "bounded_writer (encode_ack_ranges largest delay rs)"
  proof (cases rs)
    case (Cons first rest)
    have "bounded_writer (seqE (put_all [FRAME_ACK, largest, delay, length rs - 1, ar_end first - ar_start first])
        (encode_ack_tail first rest))" by blast
    then show ?thesis unfolding bounded_writer_def encode_ack_ranges_def Cons list.case by simp
  qed (simp add: bounded_writer_def encode_ack_ranges_def)
  ultimately show ?thesis by simp
next
  case Padding
  then show ?thesis by (auto simp: frame_encode_def bounded_writer_def)
next
  case Ping
  then show ?thesis by (auto simp: frame_encode_def bounded_writer_def)
next
  case (StreamF s)
  have "bounded_writer (encode_stream_prefix s)"
    using bounded_put_all unfolding bounded_writer_def encode_stream_prefix_def by blast
  then show ?thesis unfolding frame_encode_def StreamF Frame.case by blast
next
  case (PathJoin j k t r)
  then show ?thesis
    by (simp add: frame_encode_def [abs_def] put_role_def [abs_def] del: put_all.simps)
      (intro bounded_seqE bounded_put_varint bounded_put_all bounded_compact_cid)
qed (auto simp: frame_encode_def [abs_def] put_role_def [abs_def] simp del: put_all.simps)


lemma get_at_bound: "get_at input p = Inr (v, q) \<Longrightarrow> p < q \<and> q \<le> length input"
  by (auto simp: get_at_def dest: get_varint_bound)

lemma get_cid_at_bound: "get_cid_at input p = Inr (v, q) \<Longrightarrow> p < q \<and> q \<le> length input"
  by (auto simp: get_cid_at_def dest: compact_cid.dec_bound)

lemma decode_ack_tail_bound:
  "decode_ack_tail n input p prev rs = Inr (rs', q) \<Longrightarrow> p \<le> length input \<Longrightarrow> p \<le> q \<and> q \<le> length input"
proof (induction n arbitrary: p prev rs)
  case (Suc n)
  then show ?case by (fastforce dest: get_at_bound split: if_splits)
qed simp

lemma frame_arm_bound:
  assumes "p \<le> length input"
  shows "decode_ack input p = Inr (frame, n) \<Longrightarrow> p \<le> n \<and> n \<le> length input"
    "decode_ack_frequency input p = Inr (frame, n) \<Longrightarrow> p \<le> n \<and> n \<le> length input"
    "decode_one mk input p = Inr (frame, n) \<Longrightarrow> p \<le> n \<and> n \<le> length input"
    "decode_datagram b input p = Inr (frame, n) \<Longrightarrow> p \<le> n \<and> n \<le> length input"
    "decode_max_stream_data input p = Inr (frame, n) \<Longrightarrow> p \<le> n \<and> n \<le> length input"
    "decode_path_join input p = Inr (frame, n) \<Longrightarrow> p \<le> n \<and> n \<le> length input"
    "decode_path_join_ack input p = Inr (frame, n) \<Longrightarrow> p \<le> n \<and> n \<le> length input"
    "decode_token mk input p = Inr (frame, n) \<Longrightarrow> p \<le> n \<and> n \<le> length input"
    "decode_path_status input p = Inr (frame, n) \<Longrightarrow> p \<le> n \<and> n \<le> length input"
    "decode_close input p = Inr (frame, n) \<Longrightarrow> p \<le> n \<and> n \<le> length input"
    "decode_stream t input p = Inr (frame, n) \<Longrightarrow> p \<le> n \<and> n \<le> length input"
  using assms
  by (auto simp: decode_ack_def decode_ack_frequency_def decode_one_def decode_datagram_def
      decode_max_stream_data_def decode_path_join_def decode_path_join_ack_def decode_token_def
      decode_path_status_def decode_close_def decode_stream_def Let_def
      dest!: get_at_bound get_cid_at_bound decode_ack_tail_bound split: if_splits)

lemma decode_frame_bound:
  assumes "decode_frame input = Inr (frame, n)"
  shows "0 < n \<and> n \<le> length input"
proof -
  from assms obtain ty p where t: "get_varint input = Inr (ty, p)" by (auto simp: decode_frame_def)
  have p: "0 < p" "p \<le> length input" using get_varint_bound [OF t] by auto
  have "p \<le> n \<and> n \<le> length input"
    using assms p(2) by (auto simp: decode_frame_def t dest: frame_arm_bound split: if_splits)
  with p(1) show ?thesis by linarith
qed

interpretation frame: prefix_codec frame_encode decode_frame frame_ok
  using decode_frame_encode bounded_frame_encode decode_frame_bound
  by unfold_locales (auto simp: bounded_writer_def)

section \<open>The frames of a payload\<close>

lemma parse_frames_Nil [simp]: "parse_frames [] = Inr []"
  by (simp add: parse_frames.simps)

lemma parse_frames_step:
  assumes "offset < length input" "decode_frame (drop offset input) = Inr (frame, used)"
  shows "parse_frames (drop offset input)
    = bindE (parse_frames (drop (offset + used) input)) (\<lambda>fs. Inr (frame # fs))"
  using assms decode_frame_bound [OF assms(2)]
  by (simp add: parse_frames.simps [of "drop offset input"] add.commute)

lemma parse_frames_fail:
  assumes "offset < length input" "decode_frame (drop offset input) = Inl e"
  shows "parse_frames (drop offset input) = Inl e"
  using assms by (simp add: parse_frames.simps [of "drop offset input"])

lemma control_only_loop_iff:
  "control_only_loop input offset seen \<longleftrightarrow>
    (\<exists>fs. parse_frames (drop offset input) = Inr fs \<and> (\<forall>f \<in> set fs. is_neutral f \<or> is_priority_control f)
      \<and> (seen \<or> (\<exists>f \<in> set fs. is_priority_control f)))"
proof (induction input offset seen rule: control_only_loop.induct)
  case (1 input offset seen)
  have disjoint: "\<not> is_priority_control f" if "is_neutral f" for f
    using that by (cases f) (simp_all add: is_neutral_def is_priority_control_def is_path_control_def)
  show ?case
  proof (cases "offset < length input")
    case True
    show ?thesis
    proof (cases "decode_frame (drop offset input)")
      case (Inl e)
      with True parse_frames_fail [OF True Inl] show ?thesis by (simp add: control_only_loop.simps [of input])
    next
      case (Inr r)
      obtain frame used where r: "r = (frame, used)" by (cases r)
      have u: "0 < used" using decode_frame_bound Inr r by blast
      note step = parse_frames_step [OF True Inr [unfolded r]]
      show ?thesis
        using 1 True Inr r u disjoint [of frame]
        by (simp add: control_only_loop.simps [of input offset] step bindE_eq_Inr) auto
    qed
  next
    case False
    then show ?thesis by (simp add: control_only_loop.simps [of input])
  qed
qed

lemma path_control_loop_Some_iff:
  "path_control_loop input offset pc other = Inr (Some f) \<longleftrightarrow>
    (\<exists>fs. parse_frames (drop offset input) = Inr fs \<and>
      ((pc = Some f \<and> (\<forall>g \<in> set fs. g = Padding))
       \<or> (pc = None \<and> \<not> other \<and> is_path_control f \<and> (\<exists>gs. fs = f # gs \<and> (\<forall>g \<in> set gs. g = Padding)))))"
proof (induction input offset pc other rule: path_control_loop.induct)
  case (1 input offset pc other)
  have disjoint: "\<not> is_path_control Padding" by (simp add: is_path_control_def)
  show ?case
  proof (cases "offset < length input")
    case True
    show ?thesis
    proof (cases "decode_frame (drop offset input)")
      case (Inl e)
      with True parse_frames_fail [OF True Inl] show ?thesis by (simp add: path_control_loop.simps [of input])
    next
      case (Inr r)
      obtain frame used where r: "r = (frame, used)" by (cases r)
      have u: "0 < used" using decode_frame_bound Inr r by blast
      note step = parse_frames_step [OF True Inr [unfolded r]]
      show ?thesis
        using 1 True Inr r u disjoint
        by (simp add: path_control_loop.simps [of input offset] step bindE_eq_Inr) (safe; fastforce)
    qed
  next
    case False
    then show ?thesis by (simp add: path_control_loop.simps [of input])
  qed
qed

lemma decode_ack_tail_inv:
  assumes "decode_ack_tail n input p (ar_start (last acc)) acc = Inr (rs, q)"
    and "ack_inv ACK_RANGE_CAPACITY acc" "acc \<noteq> []" "length acc + n \<le> ACK_RANGE_CAPACITY"
  shows "ack_inv ACK_RANGE_CAPACITY rs \<and> hd rs = hd acc \<and> length rs = length acc + n"
  using assms
proof (induction n arbitrary: p acc)
  case (Suc n)
  let ?prev = "ar_start (last acc)"
  from Suc.prems(1) obtain e st gap range p' where d: "gap + 2 \<le> ?prev" "e = ?prev - (gap + 2)"
      "range \<le> e" "st = e - range"
      "decode_ack_tail n input p' st (fst (ack_insert_range ACK_RANGE_CAPACITY \<lparr>ar_start = st, ar_end = e\<rparr> acc))
        = Inr (rs, q)"
    by (auto split: if_splits)
  have acc: "ack_sorted (butlast acc @ [last acc])" using Suc.prems(2,3) by (simp add: ack_inv_def)
  have "ar_start (last acc) \<le> ar_start s" if "s \<in> set acc" for s
    using that acc Suc.prems(3) by (cases acc rule: rev_cases) (fastforce simp: ack_sorted_simps)+
  then have "ack_inv ACK_RANGE_CAPACITY (acc @ [\<lparr>ar_start = st, ar_end = e\<rparr>])"
    using Suc.prems(2,4) d by (fastforce simp: ack_inv_def ack_sorted_simps)
  with Suc.IH [of p' "acc @ [\<lparr>ar_start = st, ar_end = e\<rparr>]"] d Suc.prems show ?case
    by (simp add: ack_insert_range_oldest)
qed simp

lemma decode_ack_ok: "decode_ack input p = Inr (frame, n) \<Longrightarrow> frame_ok frame"
proof -
  assume "decode_ack input p = Inr (frame, n)"
  then consider l d where "frame = Ack l d" "l \<le> u32_max"
    | l d c f p' rs where "frame = AckRangesF l d rs" "l \<le> u32_max" "f \<le> l" "\<not> (c = 0 \<and> f = 0)" "c < ACK_RANGE_CAPACITY"
      "decode_ack_tail c input p' (l - f) (fst (ack_insert_range ACK_RANGE_CAPACITY \<lparr>ar_start = l - f, ar_end = l\<rparr> []))
        = Inr (rs, n)"
    by (auto simp: decode_ack_def Let_def not_less not_le split: if_splits) blast+
  then show "frame_ok frame"
  proof cases
    case 1
    then show ?thesis by (simp add: frame_ok_def)
  next
    case 2
    let ?r = "\<lparr>ar_start = l - f, ar_end = l\<rparr>"
    have inv: "ack_inv ACK_RANGE_CAPACITY ([] @ [?r])"
      by (simp add: ack_inv_def ack_sorted_Cons ACK_RANGE_CAPACITY_def)
    have "decode_ack_tail c input p' (ar_start (last [?r])) [?r] = Inr (rs, n)"
      using 2(6) ack_insert_range_oldest [OF inv] by simp
    from decode_ack_tail_inv [OF this] inv 2(5)
    have "ack_inv ACK_RANGE_CAPACITY rs" "hd rs = ?r" "length rs = 1 + c" by simp_all
    with 2 show ?thesis by (auto simp: frame_ok_def)
  qed
qed

lemma get_cid_at_max: "get_cid_at input p = Inr (cid, q) \<Longrightarrow> cid_value cid \<le> CID_MAX_VALUE"
  using cid_encode_decode by (fastforce simp: get_cid_at_def decode_compact_cid_def split: if_splits)

lemma decode_frame_ok:
  assumes "decode_frame input = Inr (frame, n)"
  shows "frame_ok frame \<or> (\<exists>data. frame = Datagram data False)"
proof -
  have "frame_ok frame" if "decode_path_join input p = Inr (frame, n)" for p
    using that get_cid_at_max by (auto simp: decode_path_join_def frame_ok_def split: if_splits)
  moreover have "frame_ok frame" if "decode_path_join_ack input p = Inr (frame, n)" for p
    using that get_cid_at_max by (auto simp: decode_path_join_ack_def frame_ok_def split: if_splits)
  moreover have "frame_ok frame" if "decode_path_status input p = Inr (frame, n)" for p
    using that by (auto simp: decode_path_status_def frame_ok_def split: if_splits)
  moreover have "frame_ok frame" if "decode_stream t input p = Inr (frame, n)" for t p
    using that by (auto simp: decode_stream_def frame_ok_def split: if_splits)
  moreover have "frame_ok frame" if "decode_close input p = Inr (frame, n)" for p
    using that by (auto simp: decode_close_def frame_ok_def split: if_splits)
  moreover have "frame_ok frame \<or> (\<exists>data. frame = Datagram data False)"
    if "decode_datagram b input p = Inr (frame, n)" for b p
    using that by (cases b) (auto simp: decode_datagram_def frame_ok_def split: if_splits)
  ultimately show ?thesis
    using assms decode_ack_ok
    by (auto simp: decode_frame_def decode_ack_frequency_def decode_one_def decode_token_def decode_max_stream_data_def
        frame_ok_def [of "MaxData _"] frame_ok_def [of "MaxStreamsBidi _"] frame_ok_def [of "MaxStreamsUni _"]
        frame_ok_def [of Padding] frame_ok_def [of Ping] frame_ok_def [of "PathChallenge _"] frame_ok_def [of "PathResponse _"]
        frame_ok_def [of "MaxStreamData _ _"] frame_ok_def [of "AckFrequency _ _ _ _"]
        split: if_splits)
qed

lemma parse_frames_concat:
  assumes "list_all2 (\<lambda>f bs. frame_ok f \<and> (\<exists>cap. frame_encode f cap = Inr bs)) fs bss"
  shows "parse_frames (concat bss) = Inr fs"
  using assms
proof (induction rule: list_all2_induct)
  case (Cons f fs bs bss)
  then obtain cap where e: "frame_ok f" "frame_encode f cap = Inr bs" by blast
  have "bs \<noteq> []" using e by (rule frame.enc_nonempty)
  moreover have "decode_frame (bs @ concat bss) = Inr (f, length bs)" using e by (rule frame.dec_enc)
  ultimately show ?case
    using Cons by (simp add: parse_frames.simps [of "bs @ concat bss"])
qed simp

section \<open>What the frame layer promises\<close>


definition example_frames :: "Frame list" where
  "example_frames = [Ack 7 1, StreamF \<lparr>sf_id = 4, sf_offset = 100, sf_fin = True, sf_data = [1, 2, 3]\<rparr>,
     PathStatus \<lparr>opener_role = Server, ck_sequence = 3\<rparr> 9 Standby]"

definition example_bytes :: "u8 list list" where
  "example_bytes = [[2, 7, 1, 0, 0], [15, 4, 0x40, 100, 3, 1, 2, 3], [0x40, 0x44, 1, 3, 9, 1]]"


text \<open>
  Whatever bytes arrive, a frame that the parser accepts consumed at least one and at
  most all of them and is well formed: acknowledged ranges are sorted, disjoint and within the
  capacity with the first one ending at the largest number, and circuit keys, transaction numbers,
  tokens and connection identifiers are in range. Only a datagram without a length may not be
  followed by another frame.
\<close>

theorem decode_frame_safe:
  assumes "decode_frame input = Inr (frame, n)"
  shows "0 < n \<and> n \<le> length input \<and> (frame_ok frame \<or> (\<exists>data. frame = Datagram data False))"
  using decode_frame_bound [OF assms] decode_frame_ok [OF assms] by blast

lemma decode_frame_safe_witness: "frame_ok (AckRangesF 100 7 [\<lparr>ar_start = 90, ar_end = 100\<rparr>, \<lparr>ar_start = 3, ar_end = 80\<rparr>])"
proof -
  have "decode_frame [2, 64, 100, 7, 1, 10, 8, 64, 77, 0] =
      Inr (AckRangesF 100 7 [\<lparr>ar_start = 90, ar_end = 100\<rparr>, \<lparr>ar_start = 3, ar_end = 80\<rparr>], 9)"
    by code_simp
  from decode_frame_safe [OF this] show ?thesis by simp
qed

text \<open>
  A packet is taken for path control with the frame \<open>f\<close> exactly when it is a
  short-header packet whose payload is the single path-control frame \<open>f\<close> followed by padding
  only: a path-control frame can never travel with stream data or another control frame.
\<close>

theorem path_control_exact:
  "decode_path_control_packet pp input = Inr (Some f) \<longleftrightarrow>
    \<not> is_long input \<and> is_path_control f \<and>
    (\<exists>h n gs. short_decode pp input = Inr (h, n) \<and> parse_frames (drop n input) = Inr (f # gs)
      \<and> (\<forall>g \<in> set gs. g = Padding))"
proof (cases "short_decode pp input")
  case (Inr r)
  then show ?thesis
    by (cases r) (auto simp: decode_path_control_packet_def path_control_loop_Some_iff)
qed (simp add: decode_path_control_packet_def)

lemma path_control_exact_witness:
  "decode_path_control_packet False [0x40, 0x2a, 9, 0x40, 0x42, 5, 0, 0] = Inr (Some (PathChallenge 5))"
proof -
  have "\<not> is_long [0x40, 0x2a, 9, 0x40, 0x42, 5, 0, 0 :: u8]" "is_path_control (PathChallenge 5)"
    "short_decode False [0x40, 0x2a, 9, 0x40, 0x42, 5, 0, 0]
      = Inr (\<lparr>sh_flags = 0x40, sh_dcid = ConnectionId 0x2a, sh_packet_number = 9, sh_packet_number_len = 1\<rparr>, 3)"
    "parse_frames (drop 3 [0x40, 0x2a, 9, 0x40, 0x42, 5, 0, 0]) = Inr [PathChallenge 5, Padding, Padding]"
    by code_simp+
  then show ?thesis unfolding path_control_exact by auto
qed

text \<open>
  A packet is classified as priority control exactly when its whole payload parses, it
  carries at least one control frame, and everything else in it is padding or a ping: no stream
  byte or datagram can enter the priority queue.
\<close>

theorem control_only_exact:
  "is_control_only_packet pp input \<longleftrightarrow>
    (\<exists>h n fs. short_decode pp input = Inr (h, n) \<and> parse_frames (drop n input) = Inr fs
      \<and> (\<forall>f \<in> set fs. is_neutral f \<or> is_priority_control f) \<and> (\<exists>f \<in> set fs. is_priority_control f))"
proof (cases "short_decode pp input")
  case (Inr r)
  then show ?thesis
    by (cases r) (auto simp: is_control_only_packet_def control_only_loop_iff)
qed (simp add: is_control_only_packet_def)

lemma control_only_exact_witness: "is_control_only_packet False [0x40, 0x2a, 9, 1, 0x10, 5]"
proof -
  have "short_decode False [0x40, 0x2a, 9, 1, 0x10, 5]
      = Inr (\<lparr>sh_flags = 0x40, sh_dcid = ConnectionId 0x2a, sh_packet_number = 9, sh_packet_number_len = 1\<rparr>, 3)"
    "parse_frames (drop 3 [0x40, 0x2a, 9, 1, 0x10, 5]) = Inr [Ping, MaxData 5]"
    "is_neutral Ping" "is_priority_control (MaxData 5)"
    by code_simp+
  then show ?thesis unfolding control_only_exact by auto
qed

end
