(* ===== verification/Transitions.thy ===== *)
theory Transitions
  imports Mesh_Prelude
begin

text \<open>
  The interface of a stateful component: the state it starts in, the steps its operations make,
  and an invariant that every operation keeps. The components of the development interpret it on
  their own step relations, and take the invariance over whole executions from it.
\<close>

locale stateful =
  fixes start :: "'s \<Rightarrow> bool"
    and step :: "'s \<Rightarrow> 's \<Rightarrow> bool"
    and inv :: "'s \<Rightarrow> bool"
  assumes inv_start: "start s \<Longrightarrow> inv s"
    and inv_step: "inv s \<Longrightarrow> step s t \<Longrightarrow> inv t"
begin

lemma inv_run:
  assumes "inv s" "step\<^sup>*\<^sup>* s t"
  shows "inv t"
  using assms(2,1) by (induction rule: rtranclp_induct) (auto intro: inv_step)

lemma inv_reachable: "start s \<Longrightarrow> step\<^sup>*\<^sup>* s t \<Longrightarrow> inv t"
  using inv_start inv_run by blast

text \<open>A quantity that no step lowers is never lowered.\<close>

lemma monotone_run:
  fixes m :: "'s \<Rightarrow> nat"
  assumes "\<And>s t. inv s \<Longrightarrow> step s t \<Longrightarrow> m s \<le> m t" "inv s" "step\<^sup>*\<^sup>* s t"
  shows "m s \<le> m t"
  using assms(3)
proof (induction rule: rtranclp_induct)
  case (step y z)
  have "inv y" using assms(2) step.hyps(1) by (rule inv_run)
  with assms(1) [of y z] step show ?case by simp
qed simp

end

end
