(* ===== verification/Flow_Control.thy ===== *)
theory Flow_Control
  imports Wire_Frames Transitions
begin

text \<open>
  Flow control of \<^verbatim>\<open>quic-lite/src/lib.rs\<close>: the sender's view of the credit its peer advertised
  (\<open>SendFlowControl\<close>), the receiver's accounting of one stream (\<open>StreamState\<close>) and of the whole
  association (\<open>ConnectionState\<close>) with the set of retired streams.

  The result of \<^verbatim>\<open>Vec::try_reserve(1)\<close> is the Boolean argument \<open>mem\<close>. Operations that the source
  runs on \<^verbatim>\<open>&mut self\<close> return the new state; \<open>accept\<close>, which can change the state before it
  fails, returns the state with its result.
\<close>

section \<open>Limits\<close>

definition FIRST_CLIENT_BIDI_STREAM_ID :: u64 where "FIRST_CLIENT_BIDI_STREAM_ID = 4"
definition DEFAULT_MAX_PACKET_SIZE :: usize where "DEFAULT_MAX_PACKET_SIZE = 1100"
definition DEFAULT_MAX_DATAGRAM_FRAME_SIZE :: usize where
  "DEFAULT_MAX_DATAGRAM_FRAME_SIZE = DEFAULT_MAX_PACKET_SIZE - (1 + 8 + 4) - 16"
definition DEFAULT_MAX_BIDI_STREAMS :: u64 where "DEFAULT_MAX_BIDI_STREAMS = 16"
definition INITIAL_MAX_DATA :: u64 where "INITIAL_MAX_DATA = 256 * 1024"
definition INITIAL_MAX_STREAM_DATA :: u64 where "INITIAL_MAX_STREAM_DATA = INITIAL_MAX_DATA div 4"

record ConnectionLimits =
  max_datagram_frame_size :: u64
  lim_max_data :: u64
  lim_max_stream_data :: u64
  max_streams_bidi :: u64
  max_streams_uni :: u64

record ReceiveWindowRequest =
  rw_max_data :: u64
  rw_max_stream_data :: u64

definition clamped_to_request :: "ConnectionLimits \<Rightarrow> ReceiveWindowRequest option \<Rightarrow> ConnectionLimits" where
  "clamped_to_request lim request = (case request of
     Some r \<Rightarrow> lim\<lparr>
       lim_max_data := (if rw_max_data r < lim_max_data lim then rw_max_data r else lim_max_data lim),
       lim_max_stream_data := (if rw_max_stream_data r < lim_max_stream_data lim
         then rw_max_stream_data r else lim_max_stream_data lim)\<rparr>
   | None \<Rightarrow> lim)"

definition with_receive_profile :: "u64 \<Rightarrow> u64 \<Rightarrow> u64 \<Rightarrow> ConnectionLimits" where
  "with_receive_profile max_data max_stream_data bidi =
     \<lparr>max_datagram_frame_size = DEFAULT_MAX_DATAGRAM_FRAME_SIZE, lim_max_data = max_data,
      lim_max_stream_data = max_stream_data, max_streams_bidi = bidi, max_streams_uni = 4\<rparr>"

definition with_receive_window :: "u64 \<Rightarrow> ConnectionLimits" where
  "with_receive_window window_bytes =
     (let packet_floor = (if window_bytes < DEFAULT_MAX_PACKET_SIZE then window_bytes else DEFAULT_MAX_PACKET_SIZE);
          quarter = window_bytes div 4;
          stream_window = (if quarter > packet_floor then quarter else packet_floor)
      in with_receive_profile window_bytes stream_window DEFAULT_MAX_BIDI_STREAMS)"

definition default_limits :: ConnectionLimits where
  "default_limits = \<lparr>max_datagram_frame_size = DEFAULT_MAX_DATAGRAM_FRAME_SIZE,
     lim_max_data = INITIAL_MAX_DATA, lim_max_stream_data = INITIAL_MAX_STREAM_DATA,
     max_streams_bidi = DEFAULT_MAX_BIDI_STREAMS, max_streams_uni = 4\<rparr>"

section \<open>Receive credit of the association\<close>

record FlowControl =
  fc_max_data :: u64
  fc_consumed :: u64

definition fc_new :: "u64 \<Rightarrow> FlowControl" where
  "fc_new m = \<lparr>fc_max_data = m, fc_consumed = 0\<rparr>"

definition fc_can_receive :: "FlowControl \<Rightarrow> u64 \<Rightarrow> bool" where
  "fc_can_receive fc e \<longleftrightarrow> e \<le> fc_max_data fc"

definition fc_consume :: "u64 \<Rightarrow> FlowControl \<Rightarrow> FlowControl" where
  "fc_consume n fc = fc\<lparr>fc_consumed := sat_add64 (fc_consumed fc) n\<rparr>"

definition fc_extend :: "u64 \<Rightarrow> FlowControl \<Rightarrow> FlowControl" where
  "fc_extend credit fc = fc\<lparr>fc_max_data := max (fc_max_data fc) (sat_add64 (fc_consumed fc) credit)\<rparr>"

section \<open>The sender's credit\<close>

record SendStreamCredit =
  ss_id :: u64
  ss_max_data :: u64
  ss_sent :: u64
  ss_finished :: bool

record SendFlowControl =
  sf_max_data :: u64
  initial_stream_max_data :: u64
  sent_data :: u64
  sf_streams :: "SendStreamCredit list"

definition sfc_new :: "u64 \<Rightarrow> u64 \<Rightarrow> SendFlowControl" where
  "sfc_new max_data max_stream_data =
     \<lparr>sf_max_data = max_data, initial_stream_max_data = max_stream_data, sent_data = 0, sf_streams = []\<rparr>"

definition sfc_stream :: "SendFlowControl \<Rightarrow> u64 \<Rightarrow> SendStreamCredit option" where
  "sfc_stream f i = find (\<lambda>s. ss_id s = i) (sf_streams f)"

definition open_stream :: "bool \<Rightarrow> u64 \<Rightarrow> u64 \<Rightarrow> SendFlowControl \<Rightarrow> SendFlowControl result" where
  "open_stream mem i max_data f =
     (if (\<exists>s \<in> set (sf_streams f). ss_id s = i) then Inr f
      else if \<not> mem then Inl StreamLimit
      else Inr (f\<lparr>sf_streams := sf_streams f @
        [\<lparr>ss_id = i, ss_max_data = min max_data (initial_stream_max_data f), ss_sent = 0,
          ss_finished = False\<rparr>]\<rparr>))"

definition set_initial_limits :: "u64 \<Rightarrow> u64 \<Rightarrow> SendFlowControl \<Rightarrow> SendFlowControl result" where
  "set_initial_limits max_data max_stream_data f =
     (if max_data = 0 \<or> max_stream_data = 0 \<or> sent_data f \<noteq> 0 \<or> sf_streams f \<noteq> [] then Inl error.FlowControl
      else Inr (f\<lparr>sf_max_data := max_data, initial_stream_max_data := max_stream_data\<rparr>))"

definition can_send :: "SendFlowControl \<Rightarrow> u64 \<Rightarrow> u64 \<Rightarrow> usize \<Rightarrow> bool" where
  "can_send f i off len = (case sfc_stream f i of
     None \<Rightarrow> False
   | Some s \<Rightarrow>
       let e = sat_add64 off len; new_bytes = e - ss_sent s
       in e \<le> ss_max_data s \<and> sat_add64 (sent_data f) new_bytes \<le> sf_max_data f)"

definition reserve :: "u64 \<Rightarrow> u64 \<Rightarrow> usize \<Rightarrow> SendFlowControl \<Rightarrow> SendFlowControl result" where
  "reserve i off len f =
     (if \<not> can_send f i off len then Inl error.FlowControl
      else bindE (ok_or Invalid (sfc_stream f i)) (\<lambda>s.
        let e = sat_add64 off len; new_bytes = e - ss_sent s
        in Inr (f\<lparr>
          sf_streams := update_first (\<lambda>s. ss_id s = i) (\<lambda>s. s\<lparr>ss_sent := max (ss_sent s) e,
            ss_finished := (if new_bytes \<noteq> 0 then False else ss_finished s)\<rparr>) (sf_streams f),
          sent_data := sat_add64 (sent_data f) new_bytes\<rparr>)))"

definition extend_connection :: "u64 \<Rightarrow> SendFlowControl \<Rightarrow> SendFlowControl" where
  "extend_connection max_data f = f\<lparr>sf_max_data := max (sf_max_data f) max_data\<rparr>"

definition extend_stream :: "u64 \<Rightarrow> u64 \<Rightarrow> SendFlowControl \<Rightarrow> SendFlowControl result" where
  "extend_stream i max_data f = bindE (ok_or Invalid (sfc_stream f i)) (\<lambda>_.
     Inr (f\<lparr>sf_streams := update_first (\<lambda>s. ss_id s = i) (\<lambda>s. s\<lparr>ss_max_data := max (ss_max_data s) max_data\<rparr>) (sf_streams f)\<rparr>))"

definition finish_stream :: "u64 \<Rightarrow> SendFlowControl \<Rightarrow> SendFlowControl result" where
  "finish_stream i f = bindE (ok_or Invalid (sfc_stream f i)) (\<lambda>_.
     Inr (f\<lparr>sf_streams := update_first (\<lambda>s. ss_id s = i) (\<lambda>s. s\<lparr>ss_finished := True\<rparr>) (sf_streams f)\<rparr>))"

definition is_finished :: "SendFlowControl \<Rightarrow> u64 \<Rightarrow> bool" where
  "is_finished f i = (case sfc_stream f i of None \<Rightarrow> False | Some s \<Rightarrow> ss_finished s)"

definition sfc_remove_stream :: "u64 \<Rightarrow> SendFlowControl \<Rightarrow> SendFlowControl \<times> bool" where
  "sfc_remove_stream i f =
     (if sfc_stream f i = None then (f, False)
      else (f\<lparr>sf_streams := remove_first (\<lambda>s. ss_id s = i) (sf_streams f)\<rparr>, True))"

definition available :: "SendFlowControl \<Rightarrow> u64 \<Rightarrow> u64 \<Rightarrow> u64 option" where
  "available f i off = (case sfc_stream f i of
     None \<Rightarrow> None
   | Some s \<Rightarrow>
       let connection_end = sat_add64 (ss_sent s) (sf_max_data f - sent_data f)
       in Some (min (ss_max_data s) connection_end - off))"

section \<open>One receiving stream\<close>

record StreamState =
  st_id :: u64
  st_max_data :: u64
  st_received :: u64
  st_consumed :: u64
  st_finished :: bool

definition st_new :: "u64 \<Rightarrow> u64 \<Rightarrow> StreamState" where
  "st_new i max_data = \<lparr>st_id = i, st_max_data = max_data, st_received = 0, st_consumed = 0, st_finished = False\<rparr>"

definition st_accept :: "u64 \<Rightarrow> usize \<Rightarrow> bool \<Rightarrow> StreamState \<Rightarrow> StreamState result" where
  "st_accept off len fin s = bindE (ok_or error.FlowControl (checked_add u64_max off len)) (\<lambda>e.
     if e > st_max_data s then Inl error.FlowControl
     else Inr (s\<lparr>st_received := max (st_received s) e, st_finished := (st_finished s \<or> fin)\<rparr>))"

definition st_consume :: "u64 \<Rightarrow> StreamState \<Rightarrow> StreamState" where
  "st_consume n s = s\<lparr>st_consumed := min (st_received s) (sat_add64 (st_consumed s) n)\<rparr>"

definition st_extend :: "u64 \<Rightarrow> StreamState \<Rightarrow> StreamState" where
  "st_extend credit s = s\<lparr>st_max_data := max (st_max_data s) (sat_add64 (st_consumed s) credit)\<rparr>"

section \<open>The receiving association\<close>

record ConnectionState =
  cs_role :: Role
  cs_connection :: FlowControl
  cs_limits :: ConnectionLimits
  received_data :: u64
  cs_streams :: "StreamState list"
  retired_streams :: "(u64 \<times> u64) list"

definition cs_new :: "Role \<Rightarrow> ConnectionLimits \<Rightarrow> ConnectionState" where
  "cs_new role lim = \<lparr>cs_role = role, cs_connection = fc_new (lim_max_data lim), cs_limits = lim,
     received_data = 0, cs_streams = [], retired_streams = []\<rparr>"

definition stream_kind :: "u64 \<Rightarrow> bool \<times> bool" where
  "stream_kind i = (i AND 1 \<noteq> 0, i AND 2 \<noteq> 0)"

definition stream_ordinal :: "u64 \<Rightarrow> u64" where
  "stream_ordinal i =
     (if i \<ge> FIRST_CLIENT_BIDI_STREAM_ID \<and> i AND 3 = 0 then (i - FIRST_CLIENT_BIDI_STREAM_ID) div 4
      else i div 4)"

definition is_local :: "ConnectionState \<Rightarrow> u64 \<Rightarrow> bool" where
  "is_local cs i \<longleftrightarrow> (fst (stream_kind i) = (cs_role cs = Server))"

definition cs_find :: "ConnectionState \<Rightarrow> u64 \<Rightarrow> StreamState option" where
  "cs_find cs i = find (\<lambda>s. st_id s = i) (cs_streams cs)"

definition insert_stream :: "bool \<Rightarrow> u64 \<Rightarrow> ConnectionState \<Rightarrow> ConnectionState result" where
  "insert_stream mem i cs =
     (if \<not> mem then Inl StreamLimit
      else Inr (cs\<lparr>cs_streams := cs_streams cs @ [st_new i (lim_max_stream_data (cs_limits cs))]\<rparr>))"

definition cs_open :: "bool \<Rightarrow> u64 \<Rightarrow> ConnectionState \<Rightarrow> ConnectionState result" where
  "cs_open mem i cs =
     (if \<not> is_local cs i then Inl Invalid
      else if cs_find cs i \<noteq> None then Inr cs
      else insert_stream mem i cs)"

text \<open>The part of \<open>accept\<close> that finds or admits the stream.\<close>

definition admit_stream :: "bool \<Rightarrow> u64 \<Rightarrow> u64 \<Rightarrow> ConnectionState \<Rightarrow> ConnectionState result" where
  "admit_stream mem i e cs =
     (if cs_find cs i \<noteq> None then Inr cs
      else if is_local cs i then Inl Invalid
      else
        let limit = (if snd (stream_kind i) then max_streams_uni (cs_limits cs) else max_streams_bidi (cs_limits cs))
        in if stream_ordinal i \<ge> limit then Inl StreamLimit
           else if \<not> fc_can_receive (cs_connection cs) (sat_add64 (received_data cs) e) then Inl error.FlowControl
           else insert_stream mem i cs)"

definition cs_accept :: "bool \<Rightarrow> u64 \<Rightarrow> u64 \<Rightarrow> usize \<Rightarrow> bool \<Rightarrow> ConnectionState
    \<Rightarrow> ConnectionState \<times> StreamState result" where
  "cs_accept mem i off len fin cs = (case checked_add u64_max off len of
     None \<Rightarrow> (cs, Inl error.FlowControl)
   | Some e \<Rightarrow> (case admit_stream mem i e cs of
       Inl err \<Rightarrow> (cs, Inl err)
     | Inr cs1 \<Rightarrow> (case cs_find cs1 i of
         None \<Rightarrow> (cs1, Inl Invalid)
       | Some s \<Rightarrow>
           let delta = e - st_received s in
           if \<not> fc_can_receive (cs_connection cs1) (sat_add64 (received_data cs1) delta)
           then (cs1, Inl error.FlowControl)
           else (case st_accept off len fin s of
             Inl err \<Rightarrow> (cs1, Inl err)
           | Inr s' \<Rightarrow>
               (cs1\<lparr>cs_streams := update_first (\<lambda>s. st_id s = i) (\<lambda>_. s') (cs_streams cs1),
                    received_data := sat_add64 (received_data cs1) delta\<rparr>, Inr s')))))"

definition is_retired :: "ConnectionState \<Rightarrow> u64 \<Rightarrow> bool" where
  "is_retired cs i \<longleftrightarrow> (\<exists>(first, last) \<in> set (retired_streams cs). first \<le> i \<and> i \<le> last \<and> (i - first) mod 4 = 0)"

text \<open>The merge loop of \<open>retire_stream\<close>: ranges of the same class that touch are absorbed.\<close>

fun merge_retired :: "u64 \<Rightarrow> u64 \<Rightarrow> u64 \<Rightarrow> (u64 \<times> u64) list \<Rightarrow> (u64 \<times> u64) list \<times> u64 \<times> u64" where
  "merge_retired cls first lst [] = ([], first, lst)"
| "merge_retired cls first lst ((range_first, range_last) # rest) =
     (if range_first AND 3 = cls \<and> sat_add64 range_last 4 \<ge> first \<and> sat_add64 lst 4 \<ge> range_first
      then merge_retired cls (min first range_first) (max lst range_last) rest
      else
        let (kept, f, l) = merge_retired cls first lst rest
        in ((range_first, range_last) # kept, f, l))"

definition retire_stream :: "u64 \<Rightarrow> ConnectionState \<Rightarrow> ConnectionState \<times> bool" where
  "retire_stream i cs =
     (if cs_find cs i = None then (cs, False)
      else
        let (kept, first, lst) = merge_retired (i AND 3) i i (retired_streams cs)
        in (cs\<lparr>cs_streams := remove_first (\<lambda>s. st_id s = i) (cs_streams cs),
               retired_streams := sort_key fst (kept @ [(first, lst)])\<rparr>, True))"

definition cs_consume :: "u64 \<Rightarrow> u64 \<Rightarrow> ConnectionState \<Rightarrow> ConnectionState result" where
  "cs_consume i n cs = bindE (ok_or Invalid (cs_find cs i)) (\<lambda>_.
     Inr (cs\<lparr>cs_streams := update_first (\<lambda>s. st_id s = i) (st_consume n) (cs_streams cs),
             cs_connection := fc_consume n (cs_connection cs)\<rparr>))"

definition is_complete :: "ConnectionState \<Rightarrow> u64 \<Rightarrow> bool" where
  "is_complete cs i = (case cs_find cs i of
     None \<Rightarrow> False
   | Some s \<Rightarrow> st_finished s \<and> st_consumed s = st_received s)"

definition is_complete_or_retired :: "ConnectionState \<Rightarrow> u64 \<Rightarrow> bool" where
  "is_complete_or_retired cs i \<longleftrightarrow> is_retired cs i \<or> is_complete cs i"

definition cs_remove_stream :: "u64 \<Rightarrow> ConnectionState \<Rightarrow> ConnectionState \<times> bool" where
  "cs_remove_stream i cs =
     (if cs_find cs i = None then (cs, False)
      else (cs\<lparr>cs_streams := remove_first (\<lambda>s. st_id s = i) (cs_streams cs)\<rparr>, True))"

definition is_peer_initiated :: "ConnectionState \<Rightarrow> u64 \<Rightarrow> bool" where
  "is_peer_initiated cs i \<longleftrightarrow> (fst (stream_kind i) \<noteq> (cs_role cs = Server))"

definition stream_max_data :: "ConnectionState \<Rightarrow> u64 \<Rightarrow> u64 option" where
  "stream_max_data cs i = map_option st_max_data (cs_find cs i)"

definition extend_connection_credit :: "u64 \<Rightarrow> ConnectionState \<Rightarrow> ConnectionState" where
  "extend_connection_credit credit cs = cs\<lparr>cs_connection := fc_extend credit (cs_connection cs)\<rparr>"

definition extend_stream_credit :: "u64 \<Rightarrow> u64 \<Rightarrow> ConnectionState \<Rightarrow> ConnectionState result" where
  "extend_stream_credit i credit cs = bindE (ok_or Invalid (cs_find cs i)) (\<lambda>_.
     Inr (cs\<lparr>cs_streams := update_first (\<lambda>s. st_id s = i) (st_extend credit) (cs_streams cs)\<rparr>))"

definition prepare_local_bidi_receive :: "bool \<Rightarrow> u64 \<Rightarrow> ConnectionState \<Rightarrow> ConnectionState result" where
  "prepare_local_bidi_receive mem i cs =
     (if cs_find cs i \<noteq> None then Inr cs
      else if \<not> is_local cs i \<or> snd (stream_kind i) then Inl Invalid
      else insert_stream mem i cs)"

section \<open>The sender never exceeds its credit\<close>

definition sfc_inv :: "SendFlowControl \<Rightarrow> bool" where
  "sfc_inv f \<longleftrightarrow> distinct (map ss_id (sf_streams f))
     \<and> sum_list (map ss_sent (sf_streams f)) \<le> sent_data f
     \<and> sent_data f \<le> sf_max_data f \<and> sf_max_data f < u64_max
     \<and> (\<forall>s \<in> set (sf_streams f). ss_sent s \<le> ss_max_data s \<and> ss_max_data s \<le> u64_max)
     \<and> initial_stream_max_data f \<le> u64_max"

text \<open>
  The operations the endpoint performs on the sender's credit. The credit of the association comes
  from a variable-length integer and is below \<open>2 ^ 62\<close>; all that matters is that it is not the
  largest \<open>u64\<close>, at which the saturating comparison would admit everything.
\<close>

inductive sfc_step :: "SendFlowControl \<Rightarrow> SendFlowControl \<Rightarrow> bool" where
  Open: "open_stream mem i m f = Inr f' \<Longrightarrow> sfc_step f f'"
| SetInitial: "m < u64_max \<Longrightarrow> ms \<le> u64_max \<Longrightarrow> set_initial_limits m ms f = Inr f' \<Longrightarrow> sfc_step f f'"
| Reserve: "reserve i off len f = Inr f' \<Longrightarrow> sfc_step f f'"
| ExtendConnection: "m < u64_max \<Longrightarrow> sfc_step f (extend_connection m f)"
| ExtendStream: "m \<le> u64_max \<Longrightarrow> extend_stream i m f = Inr f' \<Longrightarrow> sfc_step f f'"
| Finish: "finish_stream i f = Inr f' \<Longrightarrow> sfc_step f f'"
| Remove: "sfc_remove_stream i f = (f', b) \<Longrightarrow> sfc_step f f'"

definition sfc_start :: "SendFlowControl \<Rightarrow> bool" where
  "sfc_start f \<longleftrightarrow> (\<exists>m ms. m < u64_max \<and> ms \<le> u64_max \<and> f = sfc_new m ms)"

lemma sfc_inv_stream: "sfc_inv f \<Longrightarrow> sfc_stream f i = Some s \<Longrightarrow>
    s \<in> set (sf_streams f) \<and> ss_id s = i \<and> ss_sent s \<le> sent_data f \<and> ss_sent s \<le> ss_max_data s \<and> ss_max_data s \<le> u64_max"
  using member_le_sum_list_map [of s "sf_streams f" ss_sent] find_key_SomeD [of ss_id i "sf_streams f" s]
  by (fastforce simp: sfc_inv_def sfc_stream_def)

lemma can_send_exact:
  assumes "sfc_inv f" "sfc_stream f i = Some s"
  shows "can_send f i off len \<longleftrightarrow>
    sat_add64 off len \<le> ss_max_data s \<and> sent_data f + (sat_add64 off len - ss_sent s) \<le> sf_max_data f"
proof -
  have "sat_add64 (sent_data f) n \<le> sf_max_data f \<longleftrightarrow> sent_data f + n \<le> sf_max_data f" for n
    using assms(1) by (auto simp: sat_add_def sfc_inv_def)
  then show ?thesis using assms by (simp add: can_send_def Let_def)
qed

lemma reserve_eq:
  assumes "sfc_inv f" "reserve i off len f = Inr f'"
  obtains s e where "sfc_stream f i = Some s" "e = sat_add64 off len" "e \<le> ss_max_data s"
    "sent_data f + (e - ss_sent s) \<le> sf_max_data f"
    "f' = f\<lparr>sf_streams := update_first (\<lambda>s. ss_id s = i) (\<lambda>s. s\<lparr>ss_sent := max (ss_sent s) e,
        ss_finished := (if e - ss_sent (the (sfc_stream f i)) \<noteq> 0 then False else ss_finished s)\<rparr>) (sf_streams f),
      sent_data := sent_data f + (e - ss_sent s)\<rparr>"
proof -
  from assms(2) have c: "can_send f i off len" by (auto simp: reserve_def split: if_splits)
  then obtain s where s: "sfc_stream f i = Some s" by (auto simp: can_send_def split: option.splits)
  note x = c [unfolded can_send_exact [OF assms(1) s]]
  have "sat_add64 (sent_data f) (sat_add64 off len - ss_sent s) = sent_data f + (sat_add64 off len - ss_sent s)"
    using x assms(1) by (intro sat_add_exact) (auto simp: sfc_inv_def)
  with assms(2) c s x show ?thesis by (intro that [OF s refl]) (auto simp: reserve_def Let_def not_le)
qed

lemma sfc_inv_update:
  assumes "sfc_inv f" "sfc_stream f i = Some s" "ss_id (g s) = i" "ss_sent (g s) \<le> ss_max_data (g s)" "ss_max_data (g s) \<le> u64_max"
    and "\<And>x. ss_id (g x) = ss_id x" "sent_data f + ss_sent (g s) \<le> n + ss_sent s" "n \<le> sf_max_data f"
  shows "sfc_inv (f\<lparr>sf_streams := update_first (\<lambda>s. ss_id s = i) g (sf_streams f), sent_data := n\<rparr>)"
proof -
  let ?u = "update_first (\<lambda>s. ss_id s = i) g (sf_streams f)"
  have d: "distinct (map ss_id (sf_streams f))" using assms(1) by (simp add: sfc_inv_def)
  have "map ss_id ?u = map ss_id (sf_streams f)" using assms(6) by (rule map_key_update_first)
  then have "distinct (map ss_id ?u)" using d by simp
  moreover have "sum_list (map ss_sent ?u) + ss_sent s = sum_list (map ss_sent (sf_streams f)) + ss_sent (g s)"
    using assms(2) unfolding sfc_stream_def by (rule sum_update_first)
  then have "sum_list (map ss_sent ?u) \<le> n" using assms(1,7) by (simp add: sfc_inv_def)
  moreover have "ss_sent y \<le> ss_max_data y \<and> ss_max_data y \<le> u64_max" if "y \<in> set ?u" for y
  proof -
    have "x = s" if "x \<in> set (sf_streams f)" "ss_id x = i" for x
      using find_key_unique [OF d that(1)] that(2) assms(2) by (simp add: sfc_stream_def)
    with set_update_first [OF that] assms(1,4,5) show ?thesis by (auto simp: sfc_inv_def)
  qed
  ultimately show ?thesis using assms(1,8) by (simp add: sfc_inv_def)
qed

lemma sfc_step_inv:
  assumes "sfc_inv f" "sfc_step f f'"
  shows "sfc_inv f'"
  using assms(2,1)
proof cases
  case (Open mem i m)
  then show ?thesis using assms(1)
    by (auto simp: open_stream_def sfc_inv_def split: if_splits)
next
  case (SetInitial m ms)
  then show ?thesis using assms(1) by (auto simp: set_initial_limits_def sfc_inv_def split: if_splits)
next
  case (Reserve i off len)
  from assms(1) Reserve obtain s e where r: "sfc_stream f i = Some s" "e = sat_add64 off len" "e \<le> ss_max_data s"
    "sent_data f + (e - ss_sent s) \<le> sf_max_data f"
    "f' = f\<lparr>sf_streams := update_first (\<lambda>s. ss_id s = i) (\<lambda>s. s\<lparr>ss_sent := max (ss_sent s) e,
        ss_finished := (if e - ss_sent (the (sfc_stream f i)) \<noteq> 0 then False else ss_finished s)\<rparr>) (sf_streams f),
      sent_data := sent_data f + (e - ss_sent s)\<rparr>"
    by (rule reserve_eq)
  show ?thesis unfolding r(5)
    using r(3,4) sfc_inv_stream [OF assms(1) r(1)] by (intro sfc_inv_update [OF assms(1) r(1)]) auto
next
  case (ExtendConnection m)
  then show ?thesis using assms(1) by (auto simp: extend_connection_def sfc_inv_def)
next
  case (ExtendStream m i)
  then obtain s where s: "sfc_stream f i = Some s" and
    f': "f' = f\<lparr>sf_streams := update_first (\<lambda>s. ss_id s = i) (\<lambda>s. s\<lparr>ss_max_data := max (ss_max_data s) m\<rparr>) (sf_streams f),
      sent_data := sent_data f\<rparr>"
    by (auto simp: extend_stream_def)
  show ?thesis unfolding f'
    using ExtendStream(1) sfc_inv_stream [OF assms(1) s] assms(1)
    by (intro sfc_inv_update [OF assms(1) s]) (auto simp: sfc_inv_def)
next
  case (Finish i)
  then obtain s where s: "sfc_stream f i = Some s" and
    f': "f' = f\<lparr>sf_streams := update_first (\<lambda>s. ss_id s = i) (\<lambda>s. s\<lparr>ss_finished := True\<rparr>) (sf_streams f),
      sent_data := sent_data f\<rparr>"
    by (auto simp: finish_stream_def)
  show ?thesis unfolding f'
    using sfc_inv_stream [OF assms(1) s] assms(1)
    by (intro sfc_inv_update [OF assms(1) s]) (auto simp: sfc_inv_def)
next
  case (Remove i b)
  have "sum_list (map ss_sent (remove_first (\<lambda>s. ss_id s = i) (sf_streams f))) \<le> sent_data f"
    using sum_remove_first [of ss_sent] assms(1) le_trans by (fastforce simp: sfc_inv_def)
  with Remove assms(1) show ?thesis
    by (auto simp: sfc_remove_stream_def sfc_inv_def distinct_remove_first dest!: set_remove_first split: if_splits)
qed

interpretation send_flow: stateful sfc_start sfc_step sfc_inv
proof
  show "sfc_inv f" if "sfc_start f" for f using that by (auto simp: sfc_start_def sfc_new_def sfc_inv_def)
qed (rule sfc_step_inv)

text \<open>
  Claim C18. Whatever streams are opened, extended, finished and removed and whatever is
  reserved, in any order: the bytes the sender counted never exceed the peer's credit for the
  association, no stream runs past its own credit, and the streams together never carried more
  bytes than were counted.
\<close>

theorem send_credit_safe:
  assumes "m < u64_max" "ms \<le> u64_max" "sfc_step\<^sup>*\<^sup>* (sfc_new m ms) f"
  shows "sent_data f \<le> sf_max_data f
    \<and> (\<forall>s \<in> set (sf_streams f). ss_sent s \<le> ss_max_data s)
    \<and> sum_list (map ss_sent (sf_streams f)) \<le> sent_data f"
proof -
  have "sfc_start (sfc_new m ms)" using assms(1,2) by (auto simp: sfc_start_def)
  from send_flow.inv_reachable [OF this assms(3)] show ?thesis by (simp add: sfc_inv_def)
qed

definition example_sender :: SendFlowControl where
  "example_sender = \<lparr>sf_max_data = 100, initial_stream_max_data = 50, sent_data = 30,
     sf_streams = [\<lparr>ss_id = 4, ss_max_data = 50, ss_sent = 30, ss_finished = False\<rparr>]\<rparr>"

lemma example_sender_reachable: "sfc_step\<^sup>*\<^sup>* (sfc_new 100 50) example_sender"
proof -
  let ?mid = "\<lparr>sf_max_data = 100, initial_stream_max_data = 50, sent_data = 0,
     sf_streams = [\<lparr>ss_id = 4, ss_max_data = 50, ss_sent = 0, ss_finished = False\<rparr>]\<rparr>"
  have "open_stream True 4 80 (sfc_new 100 50) = Inr ?mid" "reserve 4 0 30 ?mid = Inr example_sender"
    by code_simp+
  then have "sfc_step (sfc_new 100 50) ?mid" "sfc_step ?mid example_sender"
    by (auto intro: sfc_step.intros)
  then show ?thesis by (meson converse_rtranclp_into_rtranclp r_into_rtranclp)
qed

lemma send_credit_safe_witness: "sent_data example_sender \<le> sf_max_data example_sender"
  using send_credit_safe [OF _ _ example_sender_reachable] by simp

text \<open>
  The capacity an application is told is exact: a non-empty write at an offset fits
  the sender's credit if and only if it is no longer than what \<open>available\<close> reports there.
\<close>

lemma available_iff_can_send:
  assumes "sfc_inv f" "sfc_stream f i = Some s" "0 < len" "off + len \<le> u64_max"
  shows "can_send f i off len \<longleftrightarrow> (\<exists>n. available f i off = Some n \<and> len \<le> n)"
proof -
  note st = sfc_inv_stream [OF assms(1,2)]
  have e: "sat_add64 off len = off + len" using assms(4) by (rule sat_add_exact)
  have c: "sat_add64 (ss_sent s) (sf_max_data f - sent_data f) = ss_sent s + (sf_max_data f - sent_data f)"
    using st assms(1) by (intro sat_add_exact) (auto simp: sfc_inv_def)
  have "sent_data f \<le> sf_max_data f" using assms(1) by (simp add: sfc_inv_def)
  then have "sent_data f + (off + len - ss_sent s) \<le> sf_max_data f \<longleftrightarrow>
      off + len \<le> ss_sent s + (sf_max_data f - sent_data f)" by linarith
  then show ?thesis
    using assms(3) by (auto simp: can_send_exact [OF assms(1,2)] e available_def assms(2) c)
qed

lemma available_iff_can_send_witness: "can_send example_sender 4 30 20 \<and> \<not> can_send example_sender 4 30 21"
proof -
  have h: "sfc_inv example_sender" "sfc_stream example_sender 4 =
      Some \<lparr>ss_id = 4, ss_max_data = 50, ss_sent = 30, ss_finished = False\<rparr>"
    "available example_sender 4 30 = Some 20" by code_simp+
  show ?thesis
    using available_iff_can_send [OF h(1,2), of 20 30] available_iff_can_send [OF h(1,2), of 21 30] h(3) by simp
qed

section \<open>The receiver enforces its credit\<close>

definition cs_inv :: "ConnectionState \<Rightarrow> bool" where
  "cs_inv cs \<longleftrightarrow> distinct (map st_id (cs_streams cs))
     \<and> sum_list (map st_received (cs_streams cs)) \<le> received_data cs
     \<and> received_data cs \<le> fc_max_data (cs_connection cs) \<and> fc_max_data (cs_connection cs) < u64_max
     \<and> (\<forall>s \<in> set (cs_streams cs). st_received s \<le> st_max_data s \<and> st_consumed s \<le> st_received s)"

lemma cs_inv_find: "cs_inv cs \<Longrightarrow> cs_find cs i = Some s \<Longrightarrow>
    s \<in> set (cs_streams cs) \<and> st_id s = i \<and> st_received s \<le> received_data cs \<and> st_received s \<le> st_max_data s
    \<and> st_consumed s \<le> st_received s"
  using member_le_sum_list_map [of s "cs_streams cs" st_received] find_key_SomeD [of st_id i "cs_streams cs" s]
  by (fastforce simp: cs_inv_def cs_find_def)

lemma can_receive_exact: "cs_inv cs \<Longrightarrow>
    fc_can_receive (cs_connection cs) (sat_add64 (received_data cs) n) \<longleftrightarrow>
    received_data cs + n \<le> fc_max_data (cs_connection cs)"
  by (auto simp: fc_can_receive_def sat_add_def cs_inv_def)

lemma insert_stream_inv: "cs_inv cs \<Longrightarrow> cs_find cs i = None \<Longrightarrow> insert_stream mem i cs = Inr cs' \<Longrightarrow> cs_inv cs'"
  by (auto simp: insert_stream_def cs_inv_def st_new_def cs_find_def find_None_iff split: if_splits)

lemma admit_stream_cases:
  assumes "admit_stream mem i e cs = Inr cs'"
  obtains s where "cs_find cs i = Some s" "cs' = cs"
  | "cs_find cs i = None" "\<not> is_local cs i" "insert_stream mem i cs = Inr cs'"
    "stream_ordinal i < (if snd (stream_kind i) then max_streams_uni (cs_limits cs) else max_streams_bidi (cs_limits cs))"
    "fc_can_receive (cs_connection cs) (sat_add64 (received_data cs) e)"
  using assms by (cases "cs_find cs i") (auto simp: admit_stream_def Let_def split: if_splits)

lemma admit_stream_inv: "cs_inv cs \<Longrightarrow> admit_stream mem i e cs = Inr cs' \<Longrightarrow> cs_inv cs'"
  by (erule admit_stream_cases) (auto intro: insert_stream_inv)

lemma cs_inv_update:
  assumes "cs_inv cs" "cs_find cs i = Some s" "\<And>x. st_id x = i \<Longrightarrow> st_id (g x) = st_id x"
    and "st_received (g s) \<le> st_max_data (g s)" "st_consumed (g s) \<le> st_received (g s)"
    and "received_data cs + st_received (g s) \<le> n + st_received s" "n \<le> fc_max_data (cs_connection cs)"
  shows "cs_inv (cs\<lparr>cs_streams := update_first (\<lambda>s. st_id s = i) g (cs_streams cs), received_data := n\<rparr>)"
proof -
  let ?u = "update_first (\<lambda>s. st_id s = i) g (cs_streams cs)"
  have d: "distinct (map st_id (cs_streams cs))" using assms(1) by (simp add: cs_inv_def)
  have "map st_id ?u = map st_id (cs_streams cs)" using assms(3) by (rule map_key_update_first)
  then have "distinct (map st_id ?u)" using d by simp
  moreover have "sum_list (map st_received ?u) + st_received s = sum_list (map st_received (cs_streams cs)) + st_received (g s)"
    using assms(2) unfolding cs_find_def by (rule sum_update_first)
  then have "sum_list (map st_received ?u) \<le> n" using assms(1,6) by (simp add: cs_inv_def)
  moreover have "st_received y \<le> st_max_data y \<and> st_consumed y \<le> st_received y" if "y \<in> set ?u" for y
  proof -
    have "x = s" if "x \<in> set (cs_streams cs)" "st_id x = i" for x
      using find_key_unique [OF d that(1)] that(2) assms(2) by (simp add: cs_find_def)
    with set_update_first [OF that] assms(1,4,5) show ?thesis by (auto simp: cs_inv_def)
  qed
  ultimately show ?thesis using assms(1,7) by (simp add: cs_inv_def)
qed

text \<open>What a successful \<open>accept\<close> did.\<close>

lemma cs_accept_okE:
  assumes "cs_inv cs" "cs_accept mem i off len fin cs = (cs', Inr s')"
  obtains cs1 s where "admit_stream mem i (off + len) cs = Inr cs1" "cs_inv cs1" "off + len \<le> u64_max"
    "cs_find cs1 i = Some s" "off + len \<le> st_max_data s"
    "received_data cs + (off + len - st_received s) \<le> fc_max_data (cs_connection cs)"
    "s' = s\<lparr>st_received := max (st_received s) (off + len), st_finished := (st_finished s \<or> fin)\<rparr>"
    "cs' = cs1\<lparr>cs_streams := update_first (\<lambda>s. st_id s = i) (\<lambda>_. s') (cs_streams cs1),
       received_data := received_data cs + (off + len - st_received s)\<rparr>"
    "received_data cs1 = received_data cs" "cs_connection cs1 = cs_connection cs"
proof -
  from assms(2) obtain cs1 s where a: "off + len \<le> u64_max" "admit_stream mem i (off + len) cs = Inr cs1"
      "cs_find cs1 i = Some s" "fc_can_receive (cs_connection cs1) (sat_add64 (received_data cs1) (off + len - st_received s))"
      "st_accept off len fin s = Inr s'"
      "cs' = cs1\<lparr>cs_streams := update_first (\<lambda>s. st_id s = i) (\<lambda>_. s') (cs_streams cs1),
         received_data := sat_add64 (received_data cs1) (off + len - st_received s)\<rparr>"
    by (auto simp: cs_accept_def checked_add_def Let_def split: option.splits sum.splits if_splits)
  have inv1: "cs_inv cs1" using assms(1) a(2) by (rule admit_stream_inv)
  have same: "received_data cs1 = received_data cs" "cs_connection cs1 = cs_connection cs"
    using a(2) by (auto elim!: admit_stream_cases simp: insert_stream_def split: if_splits)
  have r: "received_data cs1 + (off + len - st_received s) \<le> fc_max_data (cs_connection cs1)"
    using a(4) can_receive_exact [OF inv1] by simp
  have "sat_add64 (received_data cs1) (off + len - st_received s) = received_data cs1 + (off + len - st_received s)"
    using r inv1 by (intro sat_add_exact) (auto simp: cs_inv_def)
  with a r same inv1 show ?thesis
    by (intro that [OF a(2) inv1]) (auto simp: st_accept_def checked_add_def split: if_splits)
qed

lemma insert_stream_find: "cs_find cs i = None \<Longrightarrow> insert_stream mem i cs = Inr cs' \<Longrightarrow>
    cs_find cs' i = Some (st_new i (lim_max_stream_data (cs_limits cs)))
    \<and> (\<forall>j. j \<noteq> i \<longrightarrow> cs_find cs' j = cs_find cs j)"
  by (auto simp: insert_stream_def cs_find_def find_app st_new_def split: if_splits option.splits)

text \<open>What a failing \<open>accept\<close> did: nothing, or it left an empty stream behind.\<close>

lemma cs_accept_errorE:
  assumes "cs_accept mem i off len fin cs = (cs', Inl err)"
  obtains "cs' = cs"
  | "cs_find cs i = None" "\<not> is_local cs i" "insert_stream mem i cs = Inr cs'"
    "cs_find cs' i = Some (st_new i (lim_max_stream_data (cs_limits cs)))"
    "err = error.FlowControl" "lim_max_stream_data (cs_limits cs) < off + len"
proof (cases "checked_add u64_max off len")
  case None
  with assms that(1) show ?thesis by (simp add: cs_accept_def)
next
  case (Some e)
  then have e: "e = off + len" "off + len \<le> u64_max" by simp_all
  show ?thesis
  proof (cases "admit_stream mem i e cs")
    case (Inl x)
    with assms that(1) Some show ?thesis by (simp add: cs_accept_def)
  next
    case (Inr cs1)
    then show ?thesis
    proof (rule admit_stream_cases)
      fix s
      assume "cs_find cs i = Some s" "cs1 = cs"
      with assms Inr Some that(1) show ?thesis
        by (auto simp: cs_accept_def Let_def split: sum.splits if_splits)
    next
      assume n: "cs_find cs i = None" "\<not> is_local cs i" "insert_stream mem i cs = Inr cs1"
        "fc_can_receive (cs_connection cs) (sat_add64 (received_data cs) e)"
      note f = insert_stream_find [OF n(1,3)]
      have same: "received_data cs1 = received_data cs" "cs_connection cs1 = cs_connection cs"
        using n(3) by (auto simp: insert_stream_def split: if_splits)
      have "cs' = cs1 \<and> err = error.FlowControl \<and> lim_max_stream_data (cs_limits cs) < off + len"
        using assms Inr Some f n(4) same e
        by (auto simp: cs_accept_def Let_def st_new_def st_accept_def checked_add_def split: if_splits)
      with that(2) n f show ?thesis by blast
    qed
  qed
qed

lemma cs_accept_inv:
  assumes "cs_inv cs"
  shows "cs_inv (fst (cs_accept mem i off len fin cs))"
proof (cases "cs_accept mem i off len fin cs")
  case (Pair cs' r)
  show ?thesis
  proof (cases r)
    case (Inl err)
    show ?thesis
      using Pair [unfolded Inl] assms by (elim cs_accept_errorE) (auto simp: Pair intro: insert_stream_inv)
  next
    case (Inr s')
    from assms Pair [unfolded Inr] obtain cs1 s where c: "cs_inv cs1" "cs_find cs1 i = Some s" "off + len \<le> st_max_data s"
      "received_data cs + (off + len - st_received s) \<le> fc_max_data (cs_connection cs)"
      "s' = s\<lparr>st_received := max (st_received s) (off + len), st_finished := (st_finished s \<or> fin)\<rparr>"
      "cs' = cs1\<lparr>cs_streams := update_first (\<lambda>s. st_id s = i) (\<lambda>_. s') (cs_streams cs1),
         received_data := received_data cs + (off + len - st_received s)\<rparr>"
      "received_data cs1 = received_data cs" "cs_connection cs1 = cs_connection cs"
      by (rule cs_accept_okE)
    have "cs_inv cs'" unfolding c(6)
      using cs_inv_find [OF c(1,2)] c(3-5,7,8) by (intro cs_inv_update [OF c(1,2)]) auto
    then show ?thesis using Pair by simp
  qed
qed

text \<open>The operations the endpoint performs on its receive accounting.\<close>

inductive cs_step :: "ConnectionState \<Rightarrow> ConnectionState \<Rightarrow> bool" where
  Open: "cs_open mem i cs = Inr cs' \<Longrightarrow> cs_step cs cs'"
| Accept: "cs_accept mem i off len fin cs = (cs', r) \<Longrightarrow> cs_step cs cs'"
| Retire: "retire_stream i cs = (cs', b) \<Longrightarrow> cs_step cs cs'"
| Consume: "cs_consume i n cs = Inr cs' \<Longrightarrow> cs_step cs cs'"
| Remove: "cs_remove_stream i cs = (cs', b) \<Longrightarrow> cs_step cs cs'"
| ExtendConnection: "sat_add64 (fc_consumed (cs_connection cs)) credit < u64_max \<Longrightarrow>
    cs_step cs (extend_connection_credit credit cs)"
| ExtendStream: "extend_stream_credit i credit cs = Inr cs' \<Longrightarrow> cs_step cs cs'"
| PrepareLocal: "prepare_local_bidi_receive mem i cs = Inr cs' \<Longrightarrow> cs_step cs cs'"

definition cs_start :: "ConnectionState \<Rightarrow> bool" where
  "cs_start cs \<longleftrightarrow> (\<exists>role lim. lim_max_data lim < u64_max \<and> cs = cs_new role lim)"

lemma cs_inv_remove:
  assumes "cs_inv cs"
  shows "cs_inv (cs\<lparr>cs_streams := remove_first P (cs_streams cs)\<rparr>)"
    "cs_inv (cs\<lparr>cs_streams := remove_first P (cs_streams cs), retired_streams := rr\<rparr>)"
proof -
  have "sum_list (map st_received (remove_first P (cs_streams cs))) \<le> received_data cs"
    using sum_remove_first [of st_received] assms le_trans by (fastforce simp: cs_inv_def)
  with assms show "cs_inv (cs\<lparr>cs_streams := remove_first P (cs_streams cs)\<rparr>)"
    "cs_inv (cs\<lparr>cs_streams := remove_first P (cs_streams cs), retired_streams := rr\<rparr>)"
    by (auto simp: cs_inv_def distinct_remove_first dest!: set_remove_first)
qed

lemma cs_step_inv:
  assumes "cs_inv cs" "cs_step cs cs'"
  shows "cs_inv cs'"
  using assms(2)
proof cases
  case (Open mem i)
  then show ?thesis using assms(1)
    by (auto simp: cs_open_def intro: insert_stream_inv split: if_splits)
next
  case (Accept mem i off len fin r)
  then show ?thesis using cs_accept_inv [OF assms(1), of mem i off len fin] by simp
next
  case (Retire i b)
  then show ?thesis using cs_inv_remove(2) [OF assms(1)] assms(1)
    by (auto simp: retire_stream_def Let_def split: if_splits prod.splits)
next
  case (Consume i n)
  then obtain s where s: "cs_find cs i = Some s" and
    cs': "cs' = cs\<lparr>cs_streams := update_first (\<lambda>s. st_id s = i) (st_consume n) (cs_streams cs), received_data := received_data cs\<rparr>
      \<lparr>cs_connection := fc_consume n (cs_connection cs)\<rparr>"
    by (auto simp: cs_consume_def)
  have "cs_inv (cs\<lparr>cs_streams := update_first (\<lambda>s. st_id s = i) (st_consume n) (cs_streams cs), received_data := received_data cs\<rparr>)"
    using cs_inv_find [OF assms(1) s] assms(1)
    by (intro cs_inv_update [OF assms(1) s]) (auto simp: st_consume_def cs_inv_def)
  then show ?thesis unfolding cs' by (simp add: cs_inv_def fc_consume_def)
next
  case (Remove i b)
  then show ?thesis using cs_inv_remove(1) [OF assms(1)] assms(1) by (auto simp: cs_remove_stream_def split: if_splits)
next
  case (ExtendConnection credit)
  then show ?thesis using assms(1) by (auto simp: extend_connection_credit_def fc_extend_def cs_inv_def)
next
  case (ExtendStream i credit)
  then obtain s where s: "cs_find cs i = Some s" and
    cs': "cs' = cs\<lparr>cs_streams := update_first (\<lambda>s. st_id s = i) (st_extend credit) (cs_streams cs), received_data := received_data cs\<rparr>"
    by (auto simp: extend_stream_credit_def)
  show ?thesis unfolding cs'
    using cs_inv_find [OF assms(1) s] assms(1)
    by (intro cs_inv_update [OF assms(1) s]) (auto simp: st_extend_def cs_inv_def)
next
  case (PrepareLocal mem i)
  then show ?thesis using assms(1)
    by (auto simp: prepare_local_bidi_receive_def intro: insert_stream_inv split: if_splits)
qed

interpretation receive_flow: stateful cs_start cs_step cs_inv
proof
  show "cs_inv cs" if "cs_start cs" for cs using that by (auto simp: cs_start_def cs_new_def cs_inv_def fc_new_def)
qed (rule cs_step_inv)

section \<open>Retired streams\<close>

definition progression :: "u64 \<times> u64 \<Rightarrow> u64 set" where
  "progression r = {i. fst r \<le> i \<and> i \<le> snd r \<and> (i - fst r) mod 4 = 0}"

definition retired_ok :: "(u64 \<times> u64) list \<Rightarrow> bool" where
  "retired_ok rs \<longleftrightarrow> (\<forall>(f, l) \<in> set rs. f \<le> l \<and> (l - f) mod 4 = 0 \<and> l + 4 \<le> u64_max)"

definition retired_set :: "(u64 \<times> u64) list \<Rightarrow> u64 set" where
  "retired_set rs = (\<Union>r \<in> set rs. progression r)"

lemma and_three: "(i :: nat) AND 3 = i mod 4"
  using take_bit_eq_mask [of 2 i] by (simp add: mask_eq_exp_minus_1 take_bit_eq_mod)

lemma diff_mod_4: "f \<le> i \<Longrightarrow> (i - f) mod 4 = 0 \<longleftrightarrow> i mod 4 = (f :: nat) mod 4"
  by presburger

lemma progression_iff: "i \<in> progression (f, l) \<longleftrightarrow> f \<le> i \<and> i \<le> l \<and> i mod 4 = f mod 4"
  using diff_mod_4 [of f i] by (cases "f \<le> i") (simp_all only: progression_def mem_Collect_eq fst_conv snd_conv simp_thms)

lemma progression_single [simp]: "progression (i, i) = {i}"
  by (auto simp: progression_def)

lemma next_in_class: "a < b \<Longrightarrow> b mod 4 = (a :: nat) mod 4 \<Longrightarrow> a + 4 \<le> b"
  using mod_eq_dvd_iff_nat [of a b 4] dvd_imp_le [of 4 "b - a"] by simp

text \<open>Two progressions of the same class that touch are one.\<close>

lemma progression_merge:
  assumes "f \<le> l" "l mod 4 = f mod 4" "f' \<le> l'" "l' mod 4 = f' mod 4" "f' mod 4 = f mod 4"
    and "f \<le> l' + 4" "f' \<le> l + 4"
  shows "progression (min f f', max l l') = progression (f, l) \<union> progression (f', l')"
proof (rule set_eqI)
  fix i
  have "min f f' mod 4 = f mod 4" using assms(5) by (simp add: min_def)
  moreover have "min f f' \<le> i \<and> i \<le> max l l' \<longleftrightarrow> f \<le> i \<and> i \<le> l \<or> f' \<le> i \<and> i \<le> l'" if "i mod 4 = f mod 4"
  proof -
    have "i \<le> l \<or> l + 4 \<le> i" "i \<le> l' \<or> l' + 4 \<le> i"
      using next_in_class [of l i] next_in_class [of l' i] assms(2,4,5) that by force+
    then show ?thesis using assms(1,3,6,7) by linarith
  qed
  ultimately show "i \<in> progression (min f f', max l l') \<longleftrightarrow> i \<in> progression (f, l) \<union> progression (f', l')"
    using assms(5) by (auto simp: progression_iff)
qed

lemma merge_retired_correct:
  assumes "retired_ok rs" "first \<le> lst" "lst mod 4 = first mod 4" "lst + 4 \<le> u64_max" "cls = first mod 4"
    and "merge_retired cls first lst rs = (kept, f, l)"
  shows "retired_ok kept \<and> f \<le> l \<and> l mod 4 = f mod 4 \<and> l + 4 \<le> u64_max
    \<and> retired_set kept \<union> progression (f, l) = retired_set rs \<union> progression (first, lst)"
  using assms
proof (induction cls first lst rs arbitrary: kept f l rule: merge_retired.induct)
  case (1 cls first lst)
  then show ?case by (simp add: retired_ok_def)
next
  case (2 cls first lst rf rl rest)
  have r: "rf \<le> rl" "rl mod 4 = rf mod 4" "rl + 4 \<le> u64_max" "retired_ok rest"
    using "2.prems"(1) diff_mod_4 [of rf rl] by (auto simp: retired_ok_def)
  have set: "retired_set ((rf, rl) # rest) = progression (rf, rl) \<union> retired_set rest" by (simp add: retired_set_def)
  show ?case
  proof (cases "rf AND 3 = cls \<and> sat_add64 rl 4 \<ge> first \<and> sat_add64 lst 4 \<ge> rf")
    case True
    then have t: "rf mod 4 = first mod 4" "first \<le> rl + 4" "rf \<le> lst + 4"
      using r(3) "2.prems"(4,5) by (auto simp: and_three sat_add_exact)
    have m: "progression (min first rf, max lst rl) = progression (first, lst) \<union> progression (rf, rl)"
      using "2.prems"(2,3) r t by (intro progression_merge) auto
    have "retired_ok kept \<and> f \<le> l \<and> l mod 4 = f mod 4 \<and> l + 4 \<le> u64_max
      \<and> retired_set kept \<union> progression (f, l) = retired_set rest \<union> progression (min first rf, max lst rl)"
      using "2.prems" r t True by (intro "2.IH"(1) [OF True]) (auto simp: min_def max_def)
    then show ?thesis unfolding set m by blast
  next
    case False
    then obtain kept' where k: "merge_retired cls first lst rest = (kept', f, l)" "kept = (rf, rl) # kept'"
      using "2.prems"(6) by (auto split: prod.splits)
    have "retired_ok kept' \<and> f \<le> l \<and> l mod 4 = f mod 4 \<and> l + 4 \<le> u64_max
      \<and> retired_set kept' \<union> progression (f, l) = retired_set rest \<union> progression (first, lst)"
      using "2.prems" r k by (intro "2.IH"(2) [OF False]) auto
    then show ?thesis using "2.prems"(1) unfolding set k(2) by (auto simp: retired_ok_def retired_set_def)
  qed
qed

lemma is_retired_iff: "is_retired cs i \<longleftrightarrow> i \<in> retired_set (retired_streams cs)"
  by (simp add: is_retired_def retired_set_def progression_def split_beta)

section \<open>What the receive accounting promises\<close>

lemma find_update_const:
  "find (\<lambda>x. key x = i) xs = Some x \<Longrightarrow> key y = i \<Longrightarrow>
    find (\<lambda>x. key x = j) (update_first (\<lambda>x. key x = i) (\<lambda>_. y) xs) = (if j = i then Some y else find (\<lambda>x. key x = j) xs)"
  by (induction xs) (auto split: if_splits)

text \<open>
  Claim C17. Whatever frames arrive and whatever the application reads, retires and grants, in
  any order: the bytes counted never exceed the credit granted for the association, no stream
  received more than its own credit or was read past what it received, and the live streams
  together hold no more than was counted.
\<close>

theorem receive_credit_safe:
  assumes "lim_max_data lim < u64_max" "cs_step\<^sup>*\<^sup>* (cs_new role lim) cs"
  shows "received_data cs \<le> fc_max_data (cs_connection cs)
    \<and> (\<forall>s \<in> set (cs_streams cs). st_consumed s \<le> st_received s \<and> st_received s \<le> st_max_data s)
    \<and> sum_list (map st_received (cs_streams cs)) \<le> received_data cs"
proof -
  have "cs_start (cs_new role lim)" using assms(1) by (auto simp: cs_start_def)
  from receive_flow.inv_reachable [OF this assms(2)] show ?thesis by (simp add: cs_inv_def)
qed

definition example_receiver :: ConnectionState where
  "example_receiver = (cs_new Server (with_receive_window 4096))\<lparr>received_data := 700,
     cs_streams := [\<lparr>st_id = 4, st_max_data = 1100, st_received = 700, st_consumed = 0, st_finished = False\<rparr>]\<rparr>"

lemma receive_credit_safe_witness:
  "received_data example_receiver \<le> fc_max_data (cs_connection example_receiver)"
proof -
  have "cs_accept True 4 200 500 False (cs_new Server (with_receive_window 4096)) =
      (example_receiver, Inr \<lparr>st_id = 4, st_max_data = 1100, st_received = 700, st_consumed = 0, st_finished = False\<rparr>)"
    by code_simp
  then have "cs_step\<^sup>*\<^sup>* (cs_new Server (with_receive_window 4096)) example_receiver"
    by (intro r_into_rtranclp cs_step.Accept)
  moreover have "lim_max_data (with_receive_window 4096) < u64_max" by code_simp
  ultimately show ?thesis using receive_credit_safe by blast
qed

text \<open>
  A stream frame that is accepted belongs to a known stream or to a new one the peer
  may open, stays within both credits, raises the stream's high-water mark to its end and counts
  exactly the bytes beyond the old mark; a retransmission therefore costs nothing, and no other
  stream changes.
\<close>

theorem cs_accept_exact:
  assumes "cs_inv cs" "cs_accept mem i off len fin cs = (cs', Inr s')"
  shows "\<exists>s. (cs_find cs i = Some s \<or> cs_find cs i = None \<and> is_peer_initiated cs i \<and> s = st_new i (lim_max_stream_data (cs_limits cs)))
    \<and> s' = s\<lparr>st_received := max (st_received s) (off + len), st_finished := (st_finished s \<or> fin)\<rparr>
    \<and> cs_find cs' i = Some s' \<and> (\<forall>j. j \<noteq> i \<longrightarrow> cs_find cs' j = cs_find cs j)
    \<and> received_data cs' = received_data cs + (off + len - st_received s)
    \<and> received_data cs' \<le> fc_max_data (cs_connection cs) \<and> off + len \<le> st_max_data s"
proof -
  from assms obtain cs1 s where c: "admit_stream mem i (off + len) cs = Inr cs1" "cs_inv cs1"
    "cs_find cs1 i = Some s" "off + len \<le> st_max_data s"
    "received_data cs + (off + len - st_received s) \<le> fc_max_data (cs_connection cs)"
    "s' = s\<lparr>st_received := max (st_received s) (off + len), st_finished := (st_finished s \<or> fin)\<rparr>"
    "cs' = cs1\<lparr>cs_streams := update_first (\<lambda>s. st_id s = i) (\<lambda>_. s') (cs_streams cs1),
       received_data := received_data cs + (off + len - st_received s)\<rparr>"
    by (rule cs_accept_okE)
  have sid: "st_id s' = i" using c(3,6) find_key_SomeD [of st_id i "cs_streams cs1" s] by (simp add: cs_find_def)
  have "cs_find cs' j = (if j = i then Some s' else cs_find cs1 j)" for j
    using find_update_const [of st_id i "cs_streams cs1" s s' j] c(3) sid by (simp add: c(7) cs_find_def)
  moreover have "(cs_find cs i = Some s \<or> cs_find cs i = None \<and> is_peer_initiated cs i \<and> s = st_new i (lim_max_stream_data (cs_limits cs)))
      \<and> (\<forall>j. j \<noteq> i \<longrightarrow> cs_find cs1 j = cs_find cs j)"
    using c(1,3) by (elim admit_stream_cases)
      (auto dest: insert_stream_find simp: is_local_def is_peer_initiated_def)
  ultimately show ?thesis using c(4-7) by auto
qed

lemma cs_accept_exact_witness:
  "received_data (fst (cs_accept True 4 0 700 False example_receiver)) = 700
   \<and> received_data (fst (cs_accept True 4 600 300 True example_receiver)) = 900"
proof -
  have inv: "cs_inv example_receiver" by code_simp
  have f: "cs_find example_receiver 4 =
      Some \<lparr>st_id = 4, st_max_data = 1100, st_received = 700, st_consumed = 0, st_finished = False\<rparr>"
    "received_data example_receiver = 700" by code_simp+
  have ok: "isOk (snd (cs_accept True 4 0 700 False example_receiver))"
    "isOk (snd (cs_accept True 4 600 300 True example_receiver))" by code_simp+
  have a: "\<exists>c s. cs_accept True 4 0 700 False example_receiver = (c, Inr s)"
    "\<exists>c s. cs_accept True 4 600 300 True example_receiver = (c, Inr s)"
    using ok by (auto simp: isOk_def prod_eq_iff split: sum.splits)
  show ?thesis using a cs_accept_exact [OF inv] f by fastforce
qed

text \<open>
  Claim C40. A rejected stream frame costs nothing: the bytes counted, the credit and every
  stream already known stay as they were, and nothing at all changes when the stream was known.
\<close>

theorem cs_accept_rejected:
  assumes "cs_accept mem i off len fin cs = (cs', Inl err)"
  shows "received_data cs' = received_data cs \<and> cs_connection cs' = cs_connection cs
    \<and> retired_streams cs' = retired_streams cs
    \<and> (\<forall>j. cs_find cs j \<noteq> None \<or> j \<noteq> i \<longrightarrow> cs_find cs' j = cs_find cs j)
    \<and> (cs_find cs i \<noteq> None \<longrightarrow> cs' = cs)"
  using assms
proof (rule cs_accept_errorE)
  assume n: "cs_find cs i = None" "insert_stream mem i cs = Inr cs'"
  have "received_data cs' = received_data cs \<and> cs_connection cs' = cs_connection cs
      \<and> retired_streams cs' = retired_streams cs"
    using n(2) by (auto simp: insert_stream_def split: if_splits)
  then show ?thesis using insert_stream_find [OF n] n(1) by (metis option.distinct(1))
qed simp

lemma cs_accept_rejected_witness:
  "fst (cs_accept True 4 1000 200 False example_receiver) = example_receiver"
proof -
  have "\<not> isOk (snd (cs_accept True 4 1000 200 False example_receiver))" "cs_find example_receiver 4 \<noteq> None"
    by code_simp+
  then obtain cs' err where "cs_accept True 4 1000 200 False example_receiver = (cs', Inl err)"
    by (cases "cs_accept True 4 1000 200 False example_receiver") (auto simp: isOk_def split: sum.splits)
  from cs_accept_rejected [OF this] \<open>cs_find example_receiver 4 \<noteq> None\<close> this show ?thesis by simp
qed

text \<open>
  The exception to a clean rejection: the first fragment of a new peer stream that
  fits the credit of the association but not the stream's own credit is refused, and yet leaves
  the empty stream in the table. The code checks only the credit of the association before it
  inserts the stream.
\<close>

theorem rejected_first_fragment_leaves_stream:
  assumes "cs_find cs i = None" "is_peer_initiated cs i" "off + len \<le> u64_max"
    and "stream_ordinal i < (if snd (stream_kind i) then max_streams_uni (cs_limits cs) else max_streams_bidi (cs_limits cs))"
    and "fc_can_receive (cs_connection cs) (sat_add64 (received_data cs) (off + len))"
    and "lim_max_stream_data (cs_limits cs) < off + len"
  shows "snd (cs_accept True i off len fin cs) = Inl error.FlowControl
    \<and> cs_find (fst (cs_accept True i off len fin cs)) i = Some (st_new i (lim_max_stream_data (cs_limits cs)))"
proof -
  obtain cs1 where i: "insert_stream True i cs = Inr cs1" by (simp add: insert_stream_def)
  have a: "admit_stream True i (off + len) cs = Inr cs1"
    using assms i by (simp add: admit_stream_def is_local_def is_peer_initiated_def)
  have f: "cs_find cs1 i = Some (st_new i (lim_max_stream_data (cs_limits cs)))"
    using insert_stream_find [OF assms(1) i] by blast
  have same: "received_data cs1 = received_data cs" "cs_connection cs1 = cs_connection cs"
    using i by (auto simp: insert_stream_def)
  have sa: "st_accept off len fin (st_new i (lim_max_stream_data (cs_limits cs))) = Inl error.FlowControl"
    using assms(3,6) by (simp add: st_accept_def checked_add_def st_new_def)
  have "cs_accept True i off len fin cs = (cs1, Inl error.FlowControl)"
    using assms(3,5) a f same sa by (simp add: cs_accept_def checked_add_exact st_new_def)
  with f show ?thesis by simp
qed

lemma rejected_first_fragment_leaves_stream_witness:
  "cs_find (fst (cs_accept True 4 1000 101 False (cs_new Server (with_receive_window 4096)))) 4 \<noteq> None"
proof -
  let ?c = "cs_new Server (with_receive_window 4096)"
  have "cs_find ?c 4 = None" "is_peer_initiated ?c 4" "1000 + 101 \<le> u64_max"
    "stream_ordinal 4 < (if snd (stream_kind 4) then max_streams_uni (cs_limits ?c) else max_streams_bidi (cs_limits ?c))"
    "fc_can_receive (cs_connection ?c) (sat_add64 (received_data ?c) (1000 + 101))"
    "lim_max_stream_data (cs_limits ?c) < 1000 + 101"
    by code_simp+
  from rejected_first_fragment_leaves_stream [OF this] show ?thesis by simp
qed

text \<open>
  Retiring a live stream removes it from the stream table and adds exactly its
  identifier to the retired ones: merging ranges never retires a stream that was not finished, and
  never forgets one that was.
\<close>

theorem retire_stream_exact:
  assumes "cs_find cs i = Some s" "distinct (map st_id (cs_streams cs))" "retired_ok (retired_streams cs)" "i + 4 \<le> u64_max"
    and "retire_stream i cs = (cs', b)"
  shows "b \<and> (\<forall>j. is_retired cs' j \<longleftrightarrow> is_retired cs j \<or> j = i)
    \<and> (\<forall>j. cs_find cs' j = (if j = i then None else cs_find cs j)) \<and> retired_ok (retired_streams cs')"
proof -
  obtain kept f l where m: "merge_retired (i AND 3) i i (retired_streams cs) = (kept, f, l)"
    by (cases "merge_retired (i AND 3) i i (retired_streams cs)")
  have c: "retired_ok kept \<and> f \<le> l \<and> l mod 4 = f mod 4 \<and> l + 4 \<le> u64_max
    \<and> retired_set kept \<union> progression (f, l) = retired_set (retired_streams cs) \<union> progression (i, i)"
    using assms(4) by (intro merge_retired_correct [OF assms(3) _ _ _ _ m]) (auto simp: and_three)
  have cs': "cs' = cs\<lparr>cs_streams := remove_first (\<lambda>s. st_id s = i) (cs_streams cs),
      retired_streams := sort_key fst (kept @ [(f, l)])\<rparr>" "b"
    using assms(1,5) by (auto simp: retire_stream_def m)
  have "retired_set (retired_streams cs') = retired_set (retired_streams cs) \<union> {i}"
    using c by (simp add: cs'(1) retired_set_def Un_commute)
  moreover have "retired_ok (retired_streams cs')"
    using c diff_mod_4 [of f l] by (simp add: cs'(1) retired_ok_def)
  moreover have "cs_find cs' j = (if j = i then None else cs_find cs j)" for j
    using find_remove_first [OF assms(2), of j i] by (simp add: cs'(1) cs_find_def)
  ultimately show ?thesis using cs'(2) by (auto simp: is_retired_iff)
qed

lemma retire_stream_exact_witness:
  "is_retired (fst (retire_stream 8 (example_receiver\<lparr>cs_streams := [st_new 8 100], retired_streams := [(4, 4), (12, 20)]\<rparr>))) 8
   \<and> \<not> is_retired (fst (retire_stream 8 (example_receiver\<lparr>cs_streams := [st_new 8 100], retired_streams := [(4, 4), (12, 20)]\<rparr>))) 24"
proof -
  let ?c = "example_receiver\<lparr>cs_streams := [st_new 8 100], retired_streams := [(4, 4), (12, 20)]\<rparr>"
  have h: "cs_find ?c 8 = Some (st_new 8 100)" "distinct (map st_id (cs_streams ?c))" "retired_ok (retired_streams ?c)"
    "8 + 4 \<le> u64_max" "\<not> is_retired ?c 24" by code_simp+
  from retire_stream_exact [OF h(1-4) prod.collapse [symmetric]] h(5) show ?thesis by simp
qed

end
