(* ===== verification/Stream_Delivery.thy ===== *)
theory Stream_Delivery
  imports Flow_Control Transitions
begin

text \<open>
  Ordered delivery of stream bytes to the application (\<^verbatim>\<open>quic-lite/src/callback.rs\<close>): the ranges kept for one
  stream (\<^verbatim>\<open>OrderedStream\<close>), the streams of one association (\<^verbatim>\<open>CallbackStreams\<close>), delivery by lease and by
  copying. The second half shows that what a consumer accepts is always a prefix of what the sender
  wrote, and that the bytes kept for it stay within the configured limit for any input.
\<close>

section \<open>Retained ranges of one stream\<close>

text \<open>
  A packet lease (\<^verbatim>\<open>PacketLease\<close>) is the byte string it holds, a \<^verbatim>\<open>Range<usize>\<close> the pair of its bounds.
\<close>

datatype CallbackError = InvalidOverlap | InvalidFin | InvalidCompletion | Capacity

datatype 'e CopyingError = Transport CallbackError | Callback 'e

type_synonym range = "usize \<times> usize"

definition slice :: "u8 list \<Rightarrow> range \<Rightarrow> u8 list" where
  "slice p r = drop (fst r) (take (snd r) p)"

definition range_len :: "range \<Rightarrow> usize" where
  "range_len r = snd r - fst r"

record StreamDone =
  sd_stream :: u64
  delivery_id :: u64

record StreamChunk =
  sc_stream :: u64
  sc_offset :: u64
  sc_end :: bool
  sc_delivery_id :: u64
  sc_packet :: "u8 list"
  sc_range :: range

record Retained =
  rt_offset :: u64
  rt_packet :: "u8 list"
  rt_range :: range
  rt_end :: bool

record OrderedStream =
  os_id :: u64
  os_consumed :: u64
  final_size :: "u64 option"
  retained :: "Retained list"
  outstanding :: "(StreamDone \<times> u64 \<times> bool \<times> u8 list) option"
  next_delivery :: u64
  os_finished :: bool

definition os_new :: "u64 \<Rightarrow> OrderedStream" where
  "os_new i = \<lparr>os_id = i, os_consumed = 0, final_size = None, retained = [], outstanding = None,
     next_delivery = 1, os_finished = False\<rparr>"

definition rt_bytes :: "Retained \<Rightarrow> u8 list" where
  "rt_bytes item = slice (rt_packet item) (rt_range item)"

text \<open>
  The loop over the retained ranges: a range that overlaps the new one is an error unless it holds
  the same bytes at the same place.
\<close>

definition conflicts :: "u8 list \<Rightarrow> u64 \<Rightarrow> range \<Rightarrow> u64 \<Rightarrow> Retained \<Rightarrow> bool" where
  "conflicts packet b0 r b1 x =
     (let a0 = rt_offset x;
          a1 = a0 + range_len (rt_range x);
          overlap_start = max a0 b0;
          overlap_end = min a1 b1;
          al = fst (rt_range x) + (overlap_start - a0);
          bl = fst r + (overlap_start - b0);
          n = overlap_end - overlap_start
      in overlap_start < overlap_end \<and>
         (slice (rt_packet x) (al, al + n) \<noteq> slice packet (bl, bl + n)
          \<or> a0 \<noteq> b0 \<or> range_len (rt_range x) \<noteq> range_len r))"

definition holds_same :: "u8 list \<Rightarrow> u64 \<Rightarrow> range \<Rightarrow> Retained \<Rightarrow> bool" where
  "holds_same packet off r x \<longleftrightarrow> rt_offset x = off \<and> range_len (rt_range x) = range_len r
     \<and> rt_bytes x = slice packet r"

text \<open>\<^verbatim>\<open>Vec::insert\<close> at the \<^verbatim>\<open>partition_point\<close> of the offsets up to the new one.\<close>

definition insert_sorted_by_offset :: "Retained \<Rightarrow> Retained list \<Rightarrow> Retained list" where
  "insert_sorted_by_offset item xs =
     takeWhile (\<lambda>x. rt_offset x \<le> rt_offset item) xs @ item # dropWhile (\<lambda>x. rt_offset x \<le> rt_offset item) xs"

definition violates_final :: "u64 option \<Rightarrow> u64 \<Rightarrow> bool \<Rightarrow> bool" where
  "violates_final final e fin = (case final of None \<Rightarrow> False | Some f \<Rightarrow> e > f \<or> fin \<and> e \<noteq> f)"

definition set_final :: "bool \<Rightarrow> u64 \<Rightarrow> OrderedStream \<Rightarrow> OrderedStream" where
  "set_final fin e st = (if fin then st\<lparr>final_size := Some e\<rparr> else st)"

definition os_insert :: "bool \<Rightarrow> u8 list \<Rightarrow> u64 \<Rightarrow> range \<Rightarrow> bool \<Rightarrow> usize \<Rightarrow> OrderedStream
    \<Rightarrow> CallbackError + usize \<times> OrderedStream" where
  "os_insert mem packet off r fin max_new_bytes st =
     (if fst r > snd r \<or> snd r > length packet then Inl InvalidOverlap
      else let len = snd r - fst r in
      bindE (ok_or InvalidFin (checked_add u64_max off len)) (\<lambda>e.
      if violates_final (final_size st) e fin then Inl InvalidFin
      else if e \<le> os_consumed st \<and> \<not> (len = 0 \<and> fin \<and> off = os_consumed st)
        then Inr (0, set_final fin e st)
      else let trim = os_consumed st - off;
               r' = (fst r + trim, snd r);
               off' = sat_add64 off trim in
      bindE (ok_or InvalidFin (checked_add u64_max off' (range_len r'))) (\<lambda>e'.
      if fst r' = snd r' \<and> \<not> fin then Inr (0, st)
      else if list_ex (conflicts packet off' r' e') (retained st) then Inl InvalidOverlap
      else if list_ex (holds_same packet off' r') (retained st) then Inr (0, set_final fin e' st)
      else if range_len r' > max_new_bytes then Inl Capacity
      else if \<not> mem then Inl Capacity
      else Inr (range_len r', set_final fin e' (st\<lparr>retained := insert_sorted_by_offset
        \<lparr>rt_offset = off', rt_packet = packet, rt_range = r', rt_end = fin\<rparr> (retained st)\<rparr>)))))"

definition at_cursor :: "OrderedStream \<Rightarrow> Retained \<Rightarrow> bool" where
  "at_cursor st item \<longleftrightarrow> rt_offset item = os_consumed st"

definition next_chunk :: "OrderedStream \<Rightarrow> OrderedStream \<times> StreamChunk option" where
  "next_chunk st =
     (if outstanding st \<noteq> None \<or> os_finished st then (st, None)
      else case find (at_cursor st) (retained st) of
        None \<Rightarrow> (st, None)
      | Some item \<Rightarrow>
          let len = range_len (rt_range item);
              e = (rt_end item \<or> final_size st = Some (os_consumed st + len));
              tok = \<lparr>sd_stream = os_id st, delivery_id = next_delivery st\<rparr>
          in (st\<lparr>retained := remove_first (at_cursor st) (retained st),
                 next_delivery := sat_add64 (next_delivery st) 1,
                 outstanding := Some (tok, len, e, rt_packet item)\<rparr>,
              Some \<lparr>sc_stream = os_id st, sc_offset = os_consumed st, sc_end = e,
                    sc_delivery_id = delivery_id tok, sc_packet = rt_packet item, sc_range = rt_range item\<rparr>))"

definition os_done :: "StreamDone \<Rightarrow> OrderedStream \<Rightarrow> CallbackError + bool \<times> OrderedStream" where
  "os_done completion st =
     (case outstanding st of
        None \<Rightarrow> Inl InvalidCompletion
      | Some (expected, len, e, packet) \<Rightarrow>
          if expected \<noteq> completion then Inl InvalidCompletion
          else if e \<and> final_size st \<noteq> Some (sat_add64 (os_consumed st) len) then Inl InvalidFin
          else let st1 = st\<lparr>outstanding := None, os_consumed := sat_add64 (os_consumed st) len\<rparr>
               in if e then Inr (True, st1\<lparr>os_finished := True\<rparr>) else Inr (False, st1))"

section \<open>The ordered streams of one association\<close>

definition retention_for_receive_window :: "ConnectionLimits \<Rightarrow> usize \<Rightarrow> usize" where
  "retention_for_receive_window lim minimum = max (lim_max_data lim) minimum"

record CallbackStreams =
  streams :: "OrderedStream list"
  max_streams :: usize
  max_retained_bytes :: usize
  retained_bytes :: usize

definition cb_new :: "usize \<Rightarrow> usize \<Rightarrow> CallbackStreams" where
  "cb_new n bytes = \<lparr>streams = [], max_streams = n, max_retained_bytes = bytes, retained_bytes = 0\<rparr>"

definition delivery_finished :: "CallbackStreams \<Rightarrow> u64 \<Rightarrow> bool" where
  "delivery_finished cs i = list_ex (\<lambda>st. os_id st = i \<and> os_finished st) (streams cs)"

definition set_limits :: "usize \<Rightarrow> usize \<Rightarrow> CallbackStreams \<Rightarrow> CallbackStreams" where
  "set_limits n bytes cs = cs\<lparr>max_streams := n, max_retained_bytes := bytes\<rparr>"

text \<open>
  \<^verbatim>\<open>validate_packet_frames\<close>: the loop carries the new stream identifiers and the final sizes that the
  packet itself announces. Its two small vectors grow within one packet; their allocation outcome is \<open>mem\<close>.
\<close>

fun validate_loop :: "bool \<Rightarrow> OrderedStream list \<Rightarrow> u64 list \<Rightarrow> (u64 \<times> u64) list
    \<Rightarrow> (u64 \<times> u64 \<times> usize \<times> bool) list \<Rightarrow> CallbackError + u64 list" where
  "validate_loop mem ss new_streams finals [] = Inr new_streams"
| "validate_loop mem ss new_streams finals ((i, off, len, fin) # frames) =
     bindE (ok_or InvalidFin (checked_add u64_max off len)) (\<lambda>e.
     let existing = find (\<lambda>st. os_id st = i) ss;
         fresh = (existing = None \<and> i \<notin> set new_streams);
         new' = (if fresh then new_streams @ [i] else new_streams);
         known = (case Option.bind existing final_size of Some f \<Rightarrow> Some f | None \<Rightarrow> map_of finals i)
     in if fresh \<and> \<not> mem then Inl Capacity
        else case known of
          Some f \<Rightarrow> if e > f \<or> fin \<and> e \<noteq> f then Inl InvalidFin else validate_loop mem ss new' finals frames
        | None \<Rightarrow> if fin then (if mem then validate_loop mem ss new' (finals @ [(i, e)]) frames else Inl Capacity)
                  else validate_loop mem ss new' finals frames)"

definition validate_packet_frames :: "bool \<Rightarrow> (u64 \<times> u64 \<times> usize \<times> bool) list \<Rightarrow> CallbackStreams
    \<Rightarrow> CallbackError + unit" where
  "validate_packet_frames mem frames cs =
     bindE (validate_loop mem (streams cs) [] [] frames) (\<lambda>new_streams.
     if length (streams cs) + length new_streams > max_streams cs then Inl Capacity else Inr ())"

definition retention_may_exceed :: "usize \<Rightarrow> CallbackStreams \<Rightarrow> bool" where
  "retention_may_exceed additional cs \<longleftrightarrow> sat_add64 (retained_bytes cs) additional > max_retained_bytes cs"

definition live_streams :: "CallbackStreams \<Rightarrow> OrderedStream list" where
  "live_streams cs = filter (\<lambda>st. \<not> os_finished st) (streams cs)"

definition put_stream :: "u64 \<Rightarrow> OrderedStream \<Rightarrow> CallbackStreams \<Rightarrow> CallbackStreams" where
  "put_stream i st cs = cs\<lparr>streams := update_first (\<lambda>x. os_id x = i) (\<lambda>_. st) (streams cs)\<rparr>"

definition drop_stream :: "u64 \<Rightarrow> CallbackStreams \<Rightarrow> CallbackStreams" where
  "drop_stream i cs = cs\<lparr>streams := remove_first (\<lambda>x. os_id x = i) (streams cs)\<rparr>"

definition cb_find :: "u64 \<Rightarrow> CallbackStreams \<Rightarrow> OrderedStream option" where
  "cb_find i cs = find (\<lambda>x. os_id x = i) (streams cs)"

definition stream_mut :: "bool \<Rightarrow> u64 \<Rightarrow> CallbackStreams \<Rightarrow> CallbackStreams \<times> (CallbackError + OrderedStream)" where
  "stream_mut mem i cs =
     (let cs1 = cs\<lparr>streams := live_streams cs\<rparr> in
      case cb_find i cs1 of
        Some st \<Rightarrow> (cs1, Inr st)
      | None \<Rightarrow>
          if length (streams cs1) \<ge> max_streams cs1 then (cs1, Inl Capacity)
          else if \<not> mem then (cs1, Inl Capacity)
          else (cs1\<lparr>streams := streams cs1 @ [os_new i]\<rparr>, Inr (os_new i)))"

definition insert_range :: "bool \<Rightarrow> bool \<Rightarrow> u64 \<Rightarrow> u8 list \<Rightarrow> u64 \<Rightarrow> range \<Rightarrow> bool \<Rightarrow> usize \<Rightarrow> CallbackStreams
    \<Rightarrow> CallbackStreams \<times> (CallbackError + usize)" where
  "insert_range mem_item mem_stream i packet off r fin avail cs =
     (let cs1 = cs\<lparr>streams := live_streams cs\<rparr> in
      case cb_find i cs1 of
        Some st \<Rightarrow> (case os_insert mem_item packet off r fin avail st of
            Inl e \<Rightarrow> (cs1, Inl e)
          | Inr (n, st') \<Rightarrow> (put_stream i st' cs1, Inr n))
      | None \<Rightarrow>
          if length (streams cs1) \<ge> max_streams cs1 then (cs1, Inl Capacity)
          else case os_insert mem_item packet off r fin avail (os_new i) of
            Inl e \<Rightarrow> (cs1, Inl e)
          | Inr (n, st') \<Rightarrow>
              if mem_stream then (cs1\<lparr>streams := streams cs1 @ [st']\<rparr>, Inr n) else (cs1, Inl Capacity))"

section \<open>Leased delivery\<close>

text \<open>The trait \<^verbatim>\<open>StreamEvents\<close> as the three callbacks over a consumer state.\<close>

record 's StreamEvents =
  leased_chunk :: "StreamChunk \<Rightarrow> 's \<Rightarrow> 's"
  leased_finished :: "u64 \<Rightarrow> 's \<Rightarrow> 's"
  leased_reset :: "u64 \<Rightarrow> u64 \<Rightarrow> 's \<Rightarrow> 's"

definition available_bytes :: "CallbackStreams \<Rightarrow> usize" where
  "available_bytes cs = max_retained_bytes cs - retained_bytes cs"

definition emit_chunk :: "'s StreamEvents \<Rightarrow> StreamChunk option \<Rightarrow> 's \<Rightarrow> 's" where
  "emit_chunk ev chunk s = (case chunk of None \<Rightarrow> s | Some c \<Rightarrow> leased_chunk ev c s)"

definition receive_leased :: "bool \<Rightarrow> bool \<Rightarrow> 's StreamEvents \<Rightarrow> u64 \<Rightarrow> u8 list \<Rightarrow> u64 \<Rightarrow> range \<Rightarrow> bool
    \<Rightarrow> CallbackStreams \<times> 's \<Rightarrow> (CallbackStreams \<times> 's) \<times> (CallbackError + unit)" where
  "receive_leased mem_item mem_stream ev i packet off r fin = (\<lambda>(cs, s).
     (case insert_range mem_item mem_stream i packet off r fin (available_bytes cs) cs of
        (cs1, Inl e) \<Rightarrow> ((cs1, s), Inl e)
      | (cs1, Inr n) \<Rightarrow>
          (case stream_mut mem_stream i cs1 of
             (cs2, Inl e) \<Rightarrow> ((cs2, s), Inl e)
           | (cs2, Inr st) \<Rightarrow>
               (case next_chunk st of (st', chunk) \<Rightarrow>
                  let cs3 = put_stream i st' cs2
                  in ((cs3\<lparr>retained_bytes := sat_add64 (retained_bytes cs3) n\<rparr>, emit_chunk ev chunk s), Inr ())))))"

definition cb_done :: "'s StreamEvents \<Rightarrow> StreamDone \<Rightarrow> CallbackStreams \<times> 's
    \<Rightarrow> (CallbackStreams \<times> 's) \<times> (CallbackError + unit)" where
  "cb_done ev completion = (\<lambda>(cs, s).
     (case cb_find (sd_stream completion) cs of
        None \<Rightarrow> ((cs, s), Inl InvalidCompletion)
      | Some st \<Rightarrow>
          let outstanding_len = (case outstanding st of None \<Rightarrow> 0 | Some (_, len, _) \<Rightarrow> len) in
          (case os_done completion st of
             Inl e \<Rightarrow> ((cs, s), Inl e)
           | Inr (fin, st1) \<Rightarrow>
               let cs1 = (put_stream (sd_stream completion) st1 cs)\<lparr>retained_bytes := retained_bytes cs - outstanding_len\<rparr> in
               if fin then ((drop_stream (sd_stream completion) cs1, leased_finished ev (sd_stream completion) s), Inr ())
               else if outstanding st1 = None
                 then (case next_chunk st1 of (st2, chunk) \<Rightarrow>
                        ((put_stream (sd_stream completion) st2 cs1, emit_chunk ev chunk s), Inr ()))
                 else ((cs1, s), Inr ()))))"

definition cb_outstanding :: "CallbackStreams \<Rightarrow> u64 \<Rightarrow> StreamDone option" where
  "cb_outstanding cs i = Option.bind (cb_find i cs) (\<lambda>st. map_option fst (outstanding st))"

definition stream_count :: "CallbackStreams \<Rightarrow> usize" where
  "stream_count cs = length (live_streams cs)"

definition outstanding_bytes :: "OrderedStream \<Rightarrow> usize" where
  "outstanding_bytes st = (case outstanding st of None \<Rightarrow> 0 | Some (_, len, _) \<Rightarrow> len)"

definition held_bytes :: "OrderedStream \<Rightarrow> usize" where
  "held_bytes st = sum_list (map (range_len \<circ> rt_range) (retained st)) + outstanding_bytes st"

definition cb_reset :: "'s StreamEvents \<Rightarrow> u64 \<Rightarrow> u64 \<Rightarrow> CallbackStreams \<times> 's \<Rightarrow> CallbackStreams \<times> 's" where
  "cb_reset ev i code = (\<lambda>(cs, s).
     (case cb_find i cs of
        None \<Rightarrow> (cs, s)
      | Some st \<Rightarrow> (drop_stream i (cs\<lparr>retained_bytes := retained_bytes cs - held_bytes st\<rparr>), leased_reset ev i code s)))"

section \<open>Copying delivery\<close>

text \<open>
  The trait \<^verbatim>\<open>CopyingStreamEvents\<close>: the consumer answers a chunk with the number of bytes it took from the
  front, or with an error of its own.
\<close>

record ('s, 'e) CopyingStreamEvents =
  stream_chunk :: "u64 \<Rightarrow> u64 \<Rightarrow> bool \<Rightarrow> u8 list \<Rightarrow> 's \<Rightarrow> ('e + usize) \<times> 's"
  stream_finished :: "u64 \<Rightarrow> 's \<Rightarrow> 's"
  stream_reset :: "u64 \<Rightarrow> u64 \<Rightarrow> 's \<Rightarrow> 's"

text \<open>
  The loop of \<^verbatim>\<open>resume_copying\<close> on the stream it looks up: the stream (none when it finished), the retained
  bytes of the association, the consumer and the result.
\<close>

function resume_loop :: "('s, 'e) CopyingStreamEvents \<Rightarrow> u64 \<Rightarrow> usize \<Rightarrow> usize \<Rightarrow> OrderedStream \<Rightarrow> 's
    \<Rightarrow> OrderedStream option \<times> usize \<times> 's \<times> ('e CopyingError + usize)" where
  "resume_loop ev i taken kept st s =
     (if os_finished st \<or> outstanding st \<noteq> None then (Some st, kept, s, Inr taken)
      else case find (at_cursor st) (retained st) of
        None \<Rightarrow> (Some st, kept, s, Inr taken)
      | Some item \<Rightarrow>
          (case stream_chunk ev i (rt_offset item) (rt_end item) (rt_bytes item) s of
             (Inl e, s1) \<Rightarrow> (Some st, kept, stream_reset ev i 1 s1, Inl (Callback e))
           | (Inr n, s1) \<Rightarrow>
               if n > length (rt_bytes item) then (Some st, kept, s1, Inl (Transport InvalidOverlap))
               else if n = 0 \<and> rt_bytes item \<noteq> [] then (Some st, kept, s1, Inr taken)
               else let taken' = sat_add64 taken n;
                        kept' = kept - n;
                        st1 = st\<lparr>os_consumed := sat_add64 (os_consumed st) n\<rparr>
                    in if n \<noteq> length (rt_bytes item)
                      then (Some (st1\<lparr>retained := update_first (at_cursor st)
                              (\<lambda>x. x\<lparr>rt_offset := sat_add64 (rt_offset x) n,
                                     rt_range := (fst (rt_range x) + n, snd (rt_range x))\<rparr>) (retained st)\<rparr>),
                            kept', s1, Inr taken')
                      else if rt_end item then (None, kept', stream_finished ev i s1, Inr taken')
                      else resume_loop ev i taken' kept'
                             (st1\<lparr>retained := remove_first (at_cursor st) (retained st)\<rparr>) s1))"
  by pat_completeness auto

lemma length_remove_first: "find P xs = Some x \<Longrightarrow> Suc (length (remove_first P xs)) = length xs"
  by (induction xs) (auto split: if_splits)

termination resume_loop
  by (relation "measure (\<lambda>(ev, i, taken, kept, st, s). length (retained st))")
    (auto dest: length_remove_first)

declare resume_loop.simps [simp del]

definition resume_copying :: "('s, 'e) CopyingStreamEvents \<Rightarrow> u64 \<Rightarrow> CallbackStreams \<times> 's
    \<Rightarrow> (CallbackStreams \<times> 's) \<times> ('e CopyingError + usize)" where
  "resume_copying ev i = (\<lambda>(cs, s).
     (case cb_find i cs of
        None \<Rightarrow> ((cs, s), Inr 0)
      | Some st \<Rightarrow>
          (case resume_loop ev i 0 (retained_bytes cs) st s of
             (Some st', kept, s', r) \<Rightarrow> ((put_stream i st' (cs\<lparr>retained_bytes := kept\<rparr>), s'), r)
           | (None, kept, s', r) \<Rightarrow> ((drop_stream i (cs\<lparr>retained_bytes := kept\<rparr>), s'), r))))"

text \<open>Whether the consumer can be handed a range starting at \<open>off\<close> without storing it.\<close>

definition direct :: "u64 \<Rightarrow> OrderedStream \<Rightarrow> bool" where
  "direct off st \<longleftrightarrow> \<not> os_finished st \<and> outstanding st = None \<and> off = os_consumed st
     \<and> \<not> list_ex (at_cursor st) (retained st)"

text \<open>\<^verbatim>\<open>receive_copying\<close> when the range is not directly consumable: it is stored, then the stream is drained.\<close>

definition receive_stored :: "bool \<Rightarrow> bool \<Rightarrow> ('s, 'e) CopyingStreamEvents \<Rightarrow> u64 \<Rightarrow> u8 list \<Rightarrow> u64 \<Rightarrow> range \<Rightarrow> bool
    \<Rightarrow> CallbackStreams \<times> 's \<Rightarrow> (CallbackStreams \<times> 's) \<times> ('e CopyingError + unit)" where
  "receive_stored mem_item mem_stream ev i packet off r fin = (\<lambda>(cs, s).
     if fst r > snd r \<or> snd r > length packet then ((cs, s), Inl (Transport InvalidOverlap))
     else (case insert_range mem_item mem_stream i packet off r fin (available_bytes cs) cs of
        (cs1, Inl e) \<Rightarrow> ((cs1, s), Inl (Transport e))
      | (cs1, Inr n) \<Rightarrow>
          (case resume_copying ev i (cs1\<lparr>retained_bytes := sat_add64 (retained_bytes cs1) n\<rparr>, s) of
             (w, Inl e) \<Rightarrow> (w, Inl e)
           | (w, Inr _) \<Rightarrow> (w, Inr ()))))"

text \<open>
  The borrowed branch of \<^verbatim>\<open>try_receive_copying_range\<close>: the range starts at the cursor of the stream \<open>st\<close> and is
  offered to the consumer from the caller's buffer. \<open>kept_packet\<close> is the outcome of the caller's \<open>retain\<close>
  closure, run only when an unread suffix has to be stored.
\<close>

definition deliver_direct :: "bool \<Rightarrow> ('s, 'e) CopyingStreamEvents \<Rightarrow> u64 \<Rightarrow> u8 list \<Rightarrow> u64 \<Rightarrow> bool \<Rightarrow> usize
    \<Rightarrow> CallbackError + u8 list \<Rightarrow> OrderedStream \<Rightarrow> CallbackStreams \<times> 's
    \<Rightarrow> (CallbackStreams \<times> 's) \<times> ('e CopyingError + unit)" where
  "deliver_direct mem_item ev i bytes off fin storage_offset kept_packet st = (\<lambda>(cs, s).
     let e = off + length bytes in
     if violates_final (final_size st) e fin then ((cs, s), Inl (Transport InvalidFin))
     else (case stream_chunk ev i off fin bytes s of
        (Inl err, s1) \<Rightarrow> ((cs, stream_reset ev i 1 s1), Inl (Callback err))
      | (Inr n, s1) \<Rightarrow>
          if n > length bytes then ((cs, s1), Inl (Transport InvalidOverlap))
          else if n \<noteq> length bytes then
            let st1 = st\<lparr>os_consumed := off + n\<rparr>;
                cs2 = put_stream i st1 cs in
            if sat_add64 (retained_bytes cs) (length bytes - n) > max_retained_bytes cs
              then ((cs2, s1), Inl (Transport Capacity))
            else (case kept_packet of
                Inl err \<Rightarrow> ((cs2, s1), Inl (Transport err))
              | Inr packet \<Rightarrow>
                  (case os_insert mem_item packet (off + n) (storage_offset + n, storage_offset + length bytes) fin
                          (max_retained_bytes cs - retained_bytes cs) st1 of
                     Inl err \<Rightarrow> ((cs2, s1), Inl (Transport err))
                   | Inr (m, st2) \<Rightarrow>
                       (((put_stream i st2 cs2)\<lparr>retained_bytes := sat_add64 (retained_bytes cs2) m\<rparr>, s1), Inr ())))
          else
            let st1 = (set_final fin e st)\<lparr>os_consumed := e\<rparr> in
            if fin then ((cs\<lparr>streams := filter (\<lambda>x. os_id x \<noteq> i) (streams cs)\<rparr>, stream_finished ev i s1), Inr ())
            else if retained st1 \<noteq> [] then
              (case resume_copying ev i (put_stream i st1 cs, s1) of
                 (w, Inl err) \<Rightarrow> (w, Inl err)
               | (w, Inr _) \<Rightarrow> (w, Inr ()))
            else ((put_stream i st1 cs, s1), Inr ())))"

text \<open>
  In its last branch \<^verbatim>\<open>try_receive_copying_range\<close> calls \<^verbatim>\<open>receive_copying\<close>, which repeats the test for direct
  consumption on the stream that was just looked up, where it has failed (\<open>direct_repeated\<close>): that call is
  its storing half.
\<close>

definition try_receive_copying_range :: "bool \<Rightarrow> bool \<Rightarrow> ('s, 'e) CopyingStreamEvents \<Rightarrow> u64 \<Rightarrow> u8 list \<Rightarrow> u64 \<Rightarrow> bool
    \<Rightarrow> usize \<Rightarrow> CallbackError + u8 list \<Rightarrow> CallbackStreams \<times> 's
    \<Rightarrow> (CallbackStreams \<times> 's) \<times> ('e CopyingError + unit)" where
  "try_receive_copying_range mem_item mem_stream ev i bytes off fin storage_offset kept_packet = (\<lambda>(cs, s).
     (case checked_add u64_max off (length bytes) of
        None \<Rightarrow> ((cs, s), Inl (Transport InvalidFin))
      | Some e \<Rightarrow>
     (case stream_mut mem_stream i cs of
        (cs1, Inl err) \<Rightarrow> ((cs1, s), Inl (Transport err))
      | (cs1, Inr st) \<Rightarrow>
     if direct off st then deliver_direct mem_item ev i bytes off fin storage_offset kept_packet st (cs1, s)
     else (case kept_packet of
        Inl err \<Rightarrow> ((cs1, s), Inl (Transport err))
      | Inr packet \<Rightarrow> receive_stored mem_item mem_stream ev i packet off
          (storage_offset, storage_offset + length bytes) fin (cs1, s)))))"

definition receive_copying :: "bool \<Rightarrow> bool \<Rightarrow> ('s, 'e) CopyingStreamEvents \<Rightarrow> u64 \<Rightarrow> u8 list \<Rightarrow> u64 \<Rightarrow> range \<Rightarrow> bool
    \<Rightarrow> CallbackStreams \<times> 's \<Rightarrow> (CallbackStreams \<times> 's) \<times> ('e CopyingError + unit)" where
  "receive_copying mem_item mem_stream ev i packet off r fin = (\<lambda>(cs, s).
     if fst r > snd r \<or> snd r > length packet then ((cs, s), Inl (Transport InvalidOverlap))
     else if (case cb_find i cs of None \<Rightarrow> off = 0 | Some st \<Rightarrow> direct off st)
       then try_receive_copying_range mem_item mem_stream ev i (slice packet r) off fin (fst r) (Inr packet) (cs, s)
     else receive_stored mem_item mem_stream ev i packet off r fin (cs, s))"

definition try_receive_copying_borrowed :: "bool \<Rightarrow> bool \<Rightarrow> ('s, 'e) CopyingStreamEvents \<Rightarrow> u64 \<Rightarrow> u8 list \<Rightarrow> u64 \<Rightarrow> bool
    \<Rightarrow> CallbackError + u8 list \<Rightarrow> CallbackStreams \<times> 's
    \<Rightarrow> (CallbackStreams \<times> 's) \<times> ('e CopyingError + unit)" where
  "try_receive_copying_borrowed mem_item mem_stream ev i bytes off fin kept_packet =
     try_receive_copying_range mem_item mem_stream ev i bytes off fin 0 kept_packet"

lemma stream_mut_find: "stream_mut mem i cs = (cs1, Inr st) \<Longrightarrow> cb_find i cs1 = Some st"
  by (auto simp: stream_mut_def cb_find_def find_app os_new_def Let_def split: option.splits if_splits)

lemma direct_repeated:
  assumes "stream_mut mem i cs = (cs1, Inr st)" "\<not> direct off st"
  shows "\<not> (case cb_find i cs1 of None \<Rightarrow> off = 0 | Some st' \<Rightarrow> direct off st')"
  using stream_mut_find [OF assms(1)] assms(2) by simp

section \<open>What the consumer receives\<close>

text \<open>
  A consumer together with a log of what it accepted: the bytes taken from each stream and the set of
  streams it was told are finished.
\<close>

type_synonym delivered = "(u64 \<Rightarrow> u8 list) \<times> u64 set"

definition logged :: "('s, 'e) CopyingStreamEvents \<Rightarrow> (delivered \<times> 's, 'e) CopyingStreamEvents" where
  "logged ev = \<lparr>
     stream_chunk = (\<lambda>i off fin bytes ((log, done_ids), s).
       (case stream_chunk ev i off fin bytes s of
          (Inl e, s1) \<Rightarrow> (Inl e, ((log, done_ids), s1))
        | (Inr n, s1) \<Rightarrow>
            (Inr n, (((if n \<le> length bytes then log(i := log i @ take n bytes) else log), done_ids), s1)))),
     stream_finished = (\<lambda>i ((log, done_ids), s). ((log, insert i done_ids), stream_finished ev i s)),
     stream_reset = (\<lambda>i code (d, s). (d, stream_reset ev i code s))\<rparr>"

text \<open>A segment of the byte stream \<open>D\<close> that its sender produced.\<close>

definition segment_of :: "u8 list \<Rightarrow> u64 \<Rightarrow> u8 list \<Rightarrow> bool \<Rightarrow> bool" where
  "segment_of D off bytes fin \<longleftrightarrow> length D \<le> u64_max \<and> off + length bytes \<le> length D
     \<and> bytes = take (length bytes) (drop off D) \<and> (fin \<longrightarrow> off + length bytes = length D)"

definition item_ok :: "u8 list \<Rightarrow> Retained \<Rightarrow> bool" where
  "item_ok D x \<longleftrightarrow> fst (rt_range x) \<le> snd (rt_range x) \<and> snd (rt_range x) \<le> length (rt_packet x)
     \<and> segment_of D (rt_offset x) (rt_bytes x) (rt_end x)"

definition stream_ok :: "u8 list \<Rightarrow> OrderedStream \<Rightarrow> bool" where
  "stream_ok D st \<longleftrightarrow> \<not> os_finished st \<and> outstanding st = None \<and> length D \<le> u64_max \<and> os_consumed st \<le> length D
     \<and> (\<forall>x \<in> set (retained st). item_ok D x) \<and> (final_size st = None \<or> final_size st = Some (length D))"

lemma length_slice [simp]: "snd r \<le> length p \<Longrightarrow> length (slice p r) = range_len r"
  by (simp add: slice_def range_len_def)

lemma slice_drop: "slice p (fst r + n, snd r) = drop n (slice p r)"
  by (simp add: slice_def add.commute)

lemma segment_of_drop:
  assumes "segment_of D off bytes fin" "n \<le> length bytes"
  shows "segment_of D (off + n) (drop n bytes) fin"
proof -
  have "drop n bytes = drop n (take (length bytes) (drop off D))" using assms(1) by (simp add: segment_of_def)
  also have "\<dots> = take (length bytes - n) (drop (off + n) D)" by (simp add: drop_take add.commute)
  finally show ?thesis using assms by (auto simp: segment_of_def)
qed

lemma segment_of_takes:
  assumes "segment_of D off bytes fin" "n \<le> length bytes"
  shows "take off D @ take n bytes = take (off + n) D"
proof -
  have "take n bytes = take n (take (length bytes) (drop off D))" using assms(1) by (simp add: segment_of_def)
  then show ?thesis using assms(2) by (simp add: take_add min_absorb1)
qed

lemma sat_add64_id: "a + b \<le> u64_max \<Longrightarrow> sat_add64 a b = a + b"
  by (simp add: sat_add_def)

lemma set_insert_sorted [simp]: "set (insert_sorted_by_offset x xs) = insert x (set xs)"
proof -
  have "set xs = set (takeWhile (\<lambda>y. rt_offset y \<le> rt_offset x) xs) \<union> set (dropWhile (\<lambda>y. rt_offset y \<le> rt_offset x) xs)"
    by (metis set_append takeWhile_dropWhile_id)
  then show ?thesis by (simp add: insert_sorted_by_offset_def)
qed

text \<open>An insertion that succeeds with its arithmetic carried out: the range was known, empty, or is stored.\<close>

lemma os_insert_step:
  fixes st :: OrderedStream and off :: u64 and r :: range
  assumes "fst r \<le> snd r" "snd r \<le> length packet" "off + range_len r \<le> u64_max"
  defines "t \<equiv> os_consumed st - off"
  defines "r' \<equiv> (fst r + t, snd r)"
  defines "e \<equiv> off + range_len r"
  shows "os_insert mem packet off r fin m st =
    (if violates_final (final_size st) e fin then Inl InvalidFin
     else if e \<le> os_consumed st \<and> \<not> (range_len r = 0 \<and> fin \<and> off = os_consumed st) then Inr (0, set_final fin e st)
     else if fst r' = snd r' \<and> \<not> fin then Inr (0, st)
     else if list_ex (conflicts packet (off + t) r' e) (retained st) then Inl InvalidOverlap
     else if list_ex (holds_same packet (off + t) r') (retained st) then Inr (0, set_final fin e st)
     else if range_len r' > m then Inl Capacity
     else if \<not> mem then Inl Capacity
     else Inr (range_len r', set_final fin e (st\<lparr>retained := insert_sorted_by_offset
       \<lparr>rt_offset = off + t, rt_packet = packet, rt_range = r', rt_end = fin\<rparr> (retained st)\<rparr>)))"
proof (cases "e \<le> os_consumed st \<and> \<not> (range_len r = 0 \<and> fin \<and> off = os_consumed st)")
  case True
  then show ?thesis using assms by (simp add: os_insert_def checked_add_def ok_or_def range_len_def)
next
  case False
  then have t: "t \<le> range_len r" unfolding e_def t_def by auto
  then have e: "sat_add64 off t = off + t" "off + t + (snd r - (fst r + t)) = off + (snd r - fst r)"
    "off + (snd r - fst r) \<le> u64_max"
    using assms(1,3) by (auto simp: sat_add_def range_len_def)
  have c: "(fst r > snd r \<or> snd r > length packet) = False" using assms(1,2) by auto
  show ?thesis
    unfolding os_insert_def t_def [symmetric] e_def r'_def range_len_def Let_def e(1) fst_conv snd_conv c if_False
    by (simp only: checked_add_def ok_or_def e(2,3) if_True option.case bindE_simps refl)
qed

lemma os_insert_ok:
  assumes "stream_ok D st" "segment_of D off (slice packet r) fin" "os_insert mem packet off r fin m st = Inr (n, st')"
  shows "stream_ok D st' \<and> os_consumed st' = os_consumed st \<and> os_id st' = os_id st"
proof -
  let ?t = "os_consumed st - off"
  let ?x = "\<lparr>rt_offset = off + ?t, rt_packet = packet, rt_range = (fst r + ?t, snd r), rt_end = fin\<rparr>"
  have r: "fst r \<le> snd r" "snd r \<le> length packet" using assms(3) by (auto simp: os_insert_def split: if_splits)
  have D: "length D \<le> u64_max" "off + range_len r \<le> length D" "fin \<Longrightarrow> off + range_len r = length D"
    using assms(2) r by (auto simp: segment_of_def)
  then have u: "off + range_len r \<le> u64_max" by simp
  have fin: "stream_ok D (set_final fin (off + range_len r) st)"
    using assms(1) D(3) by (auto simp: stream_ok_def set_final_def)
  from assms(3) consider (old) "st' = set_final fin (off + range_len r) st" | (same) "st' = st"
    | (new) "\<not> (off + range_len r \<le> os_consumed st \<and> \<not> (range_len r = 0 \<and> fin \<and> off = os_consumed st))"
        "st' = set_final fin (off + range_len r) (st\<lparr>retained := insert_sorted_by_offset ?x (retained st)\<rparr>)"
    unfolding os_insert_step [OF r u] by (simp split: if_split_asm)
  then show ?thesis
  proof cases
    case new
    then have t: "?t \<le> range_len r" by auto
    have "item_ok D ?x"
      using segment_of_drop [OF assms(2), of ?t] t r by (auto simp: item_ok_def rt_bytes_def slice_drop range_len_def)
    then show ?thesis using new(2) assms(1) D(3) by (auto simp: stream_ok_def set_final_def)
  qed (use fin assms(1) in \<open>auto simp: set_final_def\<close>)
qed

lemma set_update_first_found: "find P xs = Some x \<Longrightarrow> y \<in> set (update_first P f xs) \<Longrightarrow> y \<in> set xs \<or> y = f x"
  by (induction xs) (auto split: if_splits)

lemma item_ok_advance:
  assumes "item_ok D x" "n \<le> length (rt_bytes x)"
  shows "item_ok D (x\<lparr>rt_offset := sat_add64 (rt_offset x) n, rt_range := (fst (rt_range x) + n, snd (rt_range x))\<rparr>)"
proof -
  have "sat_add64 (rt_offset x) n = rt_offset x + n" using assms by (intro sat_add64_id) (auto simp: item_ok_def segment_of_def)
  then show ?thesis using assms segment_of_drop [of D "rt_offset x" "rt_bytes x" "rt_end x" n]
    by (auto simp: item_ok_def rt_bytes_def slice_drop range_len_def)
qed

lemma logged_chunk:
  "stream_chunk (logged ev) i off fin bytes ((log, fs), s) = (Inl e, w) \<Longrightarrow> \<exists>s1. w = ((log, fs), s1)"
  "stream_chunk (logged ev) i off fin bytes ((log, fs), s) = (Inr n, w) \<Longrightarrow> n \<le> length bytes \<Longrightarrow>
     \<exists>s1. w = ((log(i := log i @ take n bytes), fs), s1)"
  "stream_chunk (logged ev) i off fin bytes ((log, fs), s) = (Inr n, w) \<Longrightarrow> \<not> n \<le> length bytes \<Longrightarrow>
     \<exists>s1. w = ((log, fs), s1)"
  by (auto simp: logged_def split: prod.splits sum.splits if_splits)

lemma logged_events [simp]:
  "stream_finished (logged ev) i ((log, fs), s) = ((log, insert i fs), stream_finished ev i s)"
  "stream_reset (logged ev) i c (d, s) = (d, stream_reset ev i c s)"
  by (simp_all add: logged_def)

definition advanced :: "u8 list \<Rightarrow> u64 \<Rightarrow> OrderedStream \<Rightarrow> delivered \<Rightarrow> OrderedStream option \<Rightarrow> delivered \<Rightarrow> bool" where
  "advanced D i st d r d' \<longleftrightarrow> (\<forall>j. j \<noteq> i \<longrightarrow> fst d' j = fst d j) \<and>
     (case r of Some u \<Rightarrow> stream_ok D u \<and> os_id u = os_id st \<and> fst d' i = take (os_consumed u) D \<and> snd d' = snd d
      | None \<Rightarrow> fst d' i = D \<and> snd d' = insert i (snd d))"

lemma resume_loop_idle:
  assumes "find (at_cursor st) (retained st) = None \<or> os_finished st \<or> outstanding st \<noteq> None"
  shows "resume_loop ev i taken kept st s = (Some st, kept, s, Inr taken)"
proof (cases "os_finished st \<or> outstanding st \<noteq> None")
  case False
  with assms show ?thesis by (simp add: resume_loop.simps [of ev i taken kept st s])
qed (auto simp: resume_loop.simps [of ev i taken kept st s])

lemma resume_loop_chunk:
  assumes "\<not> os_finished st" "outstanding st = None" "find (at_cursor st) (retained st) = Some item"
    and "stream_chunk ev i (rt_offset item) (rt_end item) (rt_bytes item) s = (a, w)"
  shows "resume_loop ev i taken kept st s =
    (case a of Inl e \<Rightarrow> (Some st, kept, stream_reset ev i 1 w, Inl (Callback e))
     | Inr n \<Rightarrow>
       if n > length (rt_bytes item) then (Some st, kept, w, Inl (Transport InvalidOverlap))
       else if n = 0 \<and> rt_bytes item \<noteq> [] then (Some st, kept, w, Inr taken)
       else if n \<noteq> length (rt_bytes item) then
         (Some (st\<lparr>os_consumed := sat_add64 (os_consumed st) n, retained := update_first (at_cursor st)
            (\<lambda>x. x\<lparr>rt_offset := sat_add64 (rt_offset x) n,
                   rt_range := (fst (rt_range x) + n, snd (rt_range x))\<rparr>) (retained st)\<rparr>),
          kept - n, w, Inr (sat_add64 taken n))
       else if rt_end item then (None, kept - n, stream_finished ev i w, Inr (sat_add64 taken n))
       else resume_loop ev i (sat_add64 taken n) (kept - n)
         (st\<lparr>os_consumed := sat_add64 (os_consumed st) n, retained := remove_first (at_cursor st) (retained st)\<rparr>) w)"
  using assms by (cases a) (simp_all add: resume_loop.simps [of ev i taken kept st s] Let_def)

text \<open>The retained item at the cursor: what the consumer takes of it continues the log.\<close>

lemma cursor_item:
  assumes "stream_ok D st" "find (at_cursor st) (retained st) = Some item" "n \<le> length (rt_bytes item)"
    and "log = take (os_consumed st) D"
  shows "\<not> os_finished st" "outstanding st = None" "item_ok D item"
    and "sat_add64 (os_consumed st) n = os_consumed st + n" "os_consumed st + n \<le> length D"
    and "log @ take n (rt_bytes item) = take (os_consumed st + n) D"
    and "rt_end item \<Longrightarrow> n = length (rt_bytes item) \<Longrightarrow> os_consumed st + n = length D"
proof -
  have item: "item \<in> set (retained st)" "rt_offset item = os_consumed st"
    using assms(2) by (auto simp: find_Some_iff at_cursor_def)
  then show ok: "\<not> os_finished st" "outstanding st = None" "item_ok D item"
    using assms(1) by (auto simp: stream_ok_def)
  then have seg: "segment_of D (os_consumed st) (rt_bytes item) (rt_end item)" using item by (simp add: item_ok_def)
  then show "os_consumed st + n \<le> length D" using assms(3) by (auto simp: segment_of_def)
  then show "sat_add64 (os_consumed st) n = os_consumed st + n"
    using assms(1) by (auto simp: sat_add_def stream_ok_def)
  show "log @ take n (rt_bytes item) = take (os_consumed st + n) D"
    using segment_of_takes [OF seg assms(3)] assms(4) by simp
  show "os_consumed st + n = length D" if "rt_end item" "n = length (rt_bytes item)"
    using seg that by (simp add: segment_of_def)
qed

lemma resume_loop_ok:
  "stream_ok D st \<Longrightarrow> log i = take (os_consumed st) D \<Longrightarrow>
   resume_loop (logged ev) i taken kept st ((log, fs), s) = (r, kept', (d', s'), res) \<Longrightarrow>
   advanced D i st (log, fs) r d'"
proof (induction "length (retained st)" arbitrary: st log s taken kept rule: less_induct)
  case less
  show ?case
  proof (cases "find (at_cursor st) (retained st)")
    case None
    then show ?thesis using less.prems by (auto simp: resume_loop_idle advanced_def)
  next
    case (Some item)
    obtain a w where c: "stream_chunk (logged ev) i (rt_offset item) (rt_end item) (rt_bytes item) ((log, fs), s) = (a, w)"
      by (meson surj_pair)
    note facts = cursor_item [OF less.prems(1) Some _ less.prems(2)]
    note step = less.prems(3) [unfolded resume_loop_chunk [OF facts(1,2) Some c, OF le0 le0]]
    show ?thesis
    proof (cases "\<exists>n. a = Inr n \<and> n \<le> length (rt_bytes item) \<and> \<not> (n = 0 \<and> rt_bytes item \<noteq> [])")
      case False
      then have "r = Some st \<and> d' = (log, fs) \<or> r = Some st \<and> d' = (log(i := log i @ []), fs)"
        using logged_chunk [of ev i "rt_offset item" "rt_end item" "rt_bytes item" log fs s] c step
        by (cases a) (fastforce split: if_splits)+
      then show ?thesis using less.prems(1,2) by (auto simp: advanced_def)
    next
      case True
      then obtain n where n: "a = Inr n" "n \<le> length (rt_bytes item)" "\<not> (n = 0 \<and> rt_bytes item \<noteq> [])" by blast
      then obtain s1 where w: "w = ((log(i := take (os_consumed st + n) D), fs), s1)"
        using logged_chunk(2) [OF c [unfolded n(1)]] facts(6) [OF n(2)] by auto
      note step = step [unfolded n(1) sum.case facts(4) [OF n(2)]]
      show ?thesis
      proof (cases "n = length (rt_bytes item) \<and> \<not> rt_end item")
        case False
        then show ?thesis using step n(2,3) w facts(5,7) [OF n(2)] less.prems(1) item_ok_advance [OF facts(3) n(2), OF le0]
          by (auto simp: advanced_def stream_ok_def split: if_splits dest!: set_update_first_found [OF Some])
      next
        case True
        let ?u = "st\<lparr>os_consumed := os_consumed st + n, retained := remove_first (at_cursor st) (retained st)\<rparr>"
        have "stream_ok D ?u" using less.prems(1) facts(5) [OF n(2)] by (auto simp: stream_ok_def dest: set_remove_first)
        moreover have "resume_loop (logged ev) i (sat_add64 taken n) (kept - n) ?u w = (r, kept', (d', s'), res)"
          using step True n(3) by simp
        ultimately have "advanced D i ?u (log(i := take (os_consumed st + n) D), fs) r d'"
          using less.hyps [of ?u] length_remove_first [OF Some] w by auto
        then show ?thesis by (auto simp: advanced_def split: option.splits)
      qed
    qed
  qed
qed

text \<open>
  Every stream being delivered holds pieces of its sender's bytes, and the consumer has exactly the
  bytes before its cursor; a finished stream was delivered in full.
\<close>

definition slot_ok :: "(u64 \<Rightarrow> u8 list) \<Rightarrow> delivered \<Rightarrow> u64 \<Rightarrow> OrderedStream option \<Rightarrow> bool" where
  "slot_ok S d i r \<longleftrightarrow> (case r of
     Some st \<Rightarrow> stream_ok (S i) st \<and> fst d i = take (os_consumed st) (S i) \<and> i \<notin> snd d
   | None \<Rightarrow> fst d i = (if i \<in> snd d then S i else []))"

definition dl_inv :: "(u64 \<Rightarrow> u8 list) \<Rightarrow> CallbackStreams \<Rightarrow> delivered \<Rightarrow> bool" where
  "dl_inv S cs d \<longleftrightarrow> distinct (map os_id (streams cs)) \<and> (\<forall>i. slot_ok S d i (cb_find i cs))"

lemma cb_find_id: "cb_find i cs = Some st \<Longrightarrow> os_id st = i \<and> st \<in> set (streams cs)"
  by (auto simp: cb_find_def find_Some_iff)

lemma find_put_first:
  assumes "key y = i"
  shows "find (\<lambda>x. key x = j) (update_first (\<lambda>x. key x = i) (\<lambda>_. y) xs)
    = (if j = i then map_option (\<lambda>_. y) (find (\<lambda>x. key x = i) xs) else find (\<lambda>x. key x = j) xs)"
  using assms by (induction xs) auto

lemma cb_find_put:
  "cb_find i cs = Some st \<Longrightarrow> os_id u = i \<Longrightarrow> cb_find j (put_stream i u cs) = (if j = i then Some u else cb_find j cs)"
  by (simp add: cb_find_def put_stream_def find_put_first)

lemma cb_find_drop:
  "distinct (map os_id (streams cs)) \<Longrightarrow> cb_find j (drop_stream i cs) = (if j = i then None else cb_find j cs)"
  by (auto simp: cb_find_def drop_stream_def find_remove_first)

lemma ids_put [simp]: "os_id u = i \<Longrightarrow> map os_id (streams (put_stream i u cs)) = map os_id (streams cs)"
  by (auto simp: put_stream_def intro: map_key_update_first)

lemma ids_drop: "distinct (map os_id (streams cs)) \<Longrightarrow> distinct (map os_id (streams (drop_stream i cs)))"
  by (simp add: drop_stream_def distinct_remove_first)

lemma dl_inv_stream:
  assumes "dl_inv S cs d" "cb_find i cs = Some st"
  shows "stream_ok (S i) st \<and> fst d i = take (os_consumed st) (S i) \<and> i \<notin> snd d"
proof -
  have "slot_ok S d i (cb_find i cs)" using assms(1) by (simp add: dl_inv_def)
  then show ?thesis using assms(2) by (simp add: slot_ok_def)
qed

lemma bytes_commute [simp]:
  "put_stream i u (cs\<lparr>retained_bytes := n\<rparr>) = (put_stream i u cs)\<lparr>retained_bytes := n\<rparr>"
  "drop_stream i (cs\<lparr>retained_bytes := n\<rparr>) = (drop_stream i cs)\<lparr>retained_bytes := n\<rparr>"
  by (simp_all add: put_stream_def drop_stream_def)

lemma dl_inv_bytes [simp]: "dl_inv S (cs\<lparr>retained_bytes := n\<rparr>) d = dl_inv S cs d"
  by (simp add: dl_inv_def cb_find_def)

lemma dl_inv_slot:
  assumes "dl_inv S cs d" "distinct (map os_id (streams cs'))"
    and "\<And>j. cb_find j cs' = (if j = i then r else cb_find j cs)"
    and "\<And>j. j \<noteq> i \<Longrightarrow> fst d' j = fst d j \<and> (j \<in> snd d' \<longleftrightarrow> j \<in> snd d)" "slot_ok S d' i r"
  shows "dl_inv S cs' d'"
proof -
  have "slot_ok S d' j (cb_find j cs')" for j
  proof (cases "j = i")
    case False
    have "slot_ok S d j (cb_find j cs)" using assms(1) by (simp add: dl_inv_def)
    then show ?thesis using assms(3,4) [of j] False by (auto simp: slot_ok_def split: option.splits)
  qed (use assms(3,5) in simp)
  then show ?thesis using assms(2) by (simp add: dl_inv_def)
qed

lemma dl_inv_put:
  assumes "dl_inv S cs d" "cb_find i cs = Some st" "advanced (S i) i st d (Some u) d'"
  shows "dl_inv S (put_stream i u cs) d'"
proof (rule dl_inv_slot [OF assms(1), where i = i and r = "Some u"])
  have "os_id u = i" using assms(2,3) cb_find_id by (auto simp: advanced_def)
  then show "distinct (map os_id (streams (put_stream i u cs)))"
    and "cb_find j (put_stream i u cs) = (if j = i then Some u else cb_find j cs)" for j
    using assms(1) cb_find_put [OF assms(2)] by (simp_all add: dl_inv_def)
qed (use assms(3) dl_inv_stream [OF assms(1,2)] in \<open>auto simp: advanced_def slot_ok_def\<close>)

lemma dl_inv_drop:
  assumes "dl_inv S cs d" "cb_find i cs = Some st" "advanced (S i) i st d None d'"
  shows "dl_inv S (drop_stream i cs) d'"
proof (rule dl_inv_slot [OF assms(1), where i = i and r = None])
  show "distinct (map os_id (streams (drop_stream i cs)))"
    and "cb_find j (drop_stream i cs) = (if j = i then None else cb_find j cs)" for j
    using assms(1) by (simp_all add: dl_inv_def cb_find_drop ids_drop)
qed (use assms(3) in \<open>auto simp: advanced_def slot_ok_def\<close>)

lemma dl_inv_add:
  assumes "dl_inv S cs d" "cb_find i cs = None" "i \<notin> snd d" "stream_ok (S i) u" "os_id u = i" "os_consumed u = 0"
  shows "dl_inv S (cs\<lparr>streams := streams cs @ [u]\<rparr>) d"
proof (rule dl_inv_slot [OF assms(1), where i = i and r = "Some u"])
  show "distinct (map os_id (streams (cs\<lparr>streams := streams cs @ [u]\<rparr>)))"
    using assms(1,2,5) by (auto simp: dl_inv_def cb_find_def find_None_iff)
  show "cb_find j (cs\<lparr>streams := streams cs @ [u]\<rparr>) = (if j = i then Some u else cb_find j cs)" for j
    using assms(2,5) by (auto simp: cb_find_def find_app split: option.splits)
  have "slot_ok S d i (cb_find i cs)" using assms(1) by (simp add: dl_inv_def)
  then show "slot_ok S d i (Some u)" using assms(2-6) by (simp add: slot_ok_def)
qed simp

lemma dl_inv_live: "dl_inv S cs d \<Longrightarrow> cs\<lparr>streams := live_streams cs\<rparr> = cs"
proof -
  assume inv: "dl_inv S cs d"
  have "\<not> os_finished st" if "st \<in> set (streams cs)" for st
    using dl_inv_stream [OF inv, of "os_id st" st] that find_key_unique [of os_id "streams cs" st] inv
    by (auto simp: dl_inv_def cb_find_def stream_ok_def)
  then show ?thesis by (simp add: live_streams_def filter_id_conv)
qed

lemma stream_ok_new: "length D \<le> u64_max \<Longrightarrow> stream_ok D (os_new i)"
  by (simp add: stream_ok_def os_new_def)

lemma resume_copying_inv:
  assumes "dl_inv S cs d" "resume_copying (logged ev) i (cs, (d, s)) = ((cs', (d', s')), r)"
  shows "dl_inv S cs' d'"
proof (cases "cb_find i cs")
  case None
  then show ?thesis using assms by (simp add: resume_copying_def)
next
  case (Some st)
  obtain u kept w r' where l: "resume_loop (logged ev) i 0 (retained_bytes cs) st (d, s) = (u, kept, w, r')"
    by (metis prod.collapse)
  obtain log fs d1 s1 where d: "d = (log, fs)" "w = (d1, s1)" by fastforce
  have "advanced (S i) i st d u d1"
    using resume_loop_ok [of "S i" st log i ev 0 "retained_bytes cs" fs s u kept d1 s1 r']
      dl_inv_stream [OF assms(1) Some] l d by auto
  then show ?thesis using assms Some l d dl_inv_put [OF assms(1) Some, of _ d1] dl_inv_drop [OF assms(1) Some, of d1]
    by (cases u) (auto simp: resume_copying_def)
qed

lemma insert_range_inv:
  assumes "dl_inv S cs d" "i \<notin> snd d" "segment_of (S i) off (slice packet r) fin"
    and "insert_range m1 m2 i packet off r fin avail cs = (cs', res)"
  shows "dl_inv S cs' d"
proof (cases "cb_find i cs")
  case (Some st)
  have "advanced (S i) i st d (Some u) d" if "os_insert m1 packet off r fin avail st = Inr (n, u)" for n u
    using os_insert_ok [OF _ assms(3) that] dl_inv_stream [OF assms(1) Some] by (auto simp: advanced_def)
  then show ?thesis using assms(1,4) Some dl_inv_put [OF assms(1) Some, of _ d]
    by (auto simp: insert_range_def dl_inv_live [OF assms(1)] Let_def split: sum.splits)
next
  case None
  have "stream_ok (S i) u \<and> os_id u = i \<and> os_consumed u = 0"
    if "os_insert m1 packet off r fin avail (os_new i) = Inr (n, u)" for n u
    using os_insert_ok [OF _ assms(3) that] stream_ok_new [of "S i" i] assms(3) by (auto simp: segment_of_def os_new_def)
  then show ?thesis using assms(1,2,4) None dl_inv_add [OF assms(1) None]
    by (auto simp: insert_range_def dl_inv_live [OF assms(1)] Let_def split: sum.splits if_splits)
qed

lemma stream_mut_inv:
  assumes "dl_inv S cs d" "i \<notin> snd d" "length (S i) \<le> u64_max" "stream_mut mem i cs = (cs', r)"
  shows "dl_inv S cs' d"
  using assms(1,4) dl_inv_add [OF assms(1) _ assms(2) stream_ok_new [OF assms(3), of i]]
  by (cases "cb_find i cs") (auto simp: stream_mut_def dl_inv_live [OF assms(1)] Let_def os_new_def split: if_splits)

lemma receive_stored_inv:
  assumes "dl_inv S cs d" "i \<notin> snd d" "segment_of (S i) off (slice packet r) fin"
    and "receive_stored m1 m2 (logged ev) i packet off r fin (cs, (d, s)) = ((cs', (d', s')), res)"
  shows "dl_inv S cs' d'"
proof -
  obtain cs1 q where ins: "insert_range m1 m2 i packet off r fin (available_bytes cs) cs = (cs1, q)" by fastforce
  have inv: "dl_inv S cs1 d" using insert_range_inv [OF assms(1-3) ins] .
  show ?thesis
  proof (cases q)
    case (Inr n)
    obtain cs2 d2 s2 q2 where res: "resume_copying (logged ev) i (cs1\<lparr>retained_bytes := sat_add64 (retained_bytes cs1) n\<rparr>, (d, s))
        = ((cs2, (d2, s2)), q2)" by (metis prod.collapse)
    have "dl_inv S cs2 d2" using resume_copying_inv [OF _ res] inv by simp
    then show ?thesis using assms(1,4) ins Inr res
      by (auto simp: receive_stored_def split: if_splits sum.splits)
  qed (use assms(1,4) ins inv in \<open>auto simp: receive_stored_def split: if_splits\<close>)
qed

text \<open>The consumer takes \<open>n\<close> bytes of a segment at the cursor.\<close>

lemma advanced_direct:
  fixes fs :: "u64 set"
  assumes "stream_ok D st" "segment_of D (os_consumed st) bytes fin" "n \<le> length bytes"
    and "log i = take (os_consumed st) D"
  defines "d' \<equiv> (log(i := log i @ take n bytes), fs)"
  shows "advanced D i st (log, fs) (Some (st\<lparr>os_consumed := os_consumed st + n\<rparr>)) d'"
    and "fin \<Longrightarrow> n = length bytes \<Longrightarrow> advanced D i st (log, fs) None (fst d', insert i fs)"
  using assms segment_of_takes [OF assms(2,3)]
  by (auto simp: advanced_def stream_ok_def segment_of_def)

lemma put_put [simp]: "os_id u = i \<Longrightarrow> put_stream i v (put_stream i u cs) = put_stream i v cs"
proof -
  assume u: "os_id u = i"
  have "update_first (\<lambda>x. os_id x = i) (\<lambda>_. v) (update_first (\<lambda>x. os_id x = i) (\<lambda>_. u) xs)
      = update_first (\<lambda>x. os_id x = i) (\<lambda>_. v) xs" for xs
    using u by (induction xs) auto
  then show ?thesis by (simp add: put_stream_def)
qed

lemma filter_drop_stream:
  "distinct (map os_id (streams cs)) \<Longrightarrow> cs\<lparr>streams := filter (\<lambda>x. os_id x \<noteq> i) (streams cs)\<rparr> = drop_stream i cs"
proof -
  have "distinct (map os_id xs) \<Longrightarrow> filter (\<lambda>x. os_id x \<noteq> i) xs = remove_first (\<lambda>x. os_id x = i) xs" for xs
  proof (induction xs)
    case (Cons x xs)
    have "filter (\<lambda>y. os_id y \<noteq> os_id x) xs = xs" using Cons.prems by (auto simp: filter_id_conv image_iff)
    with Cons show ?case by auto
  qed simp
  then have "distinct (map os_id (streams cs)) \<Longrightarrow>
      filter (\<lambda>x. os_id x \<noteq> i) (streams cs) = remove_first (\<lambda>x. os_id x = i) (streams cs)" .
  then show "distinct (map os_id (streams cs)) \<Longrightarrow> ?thesis" by (simp only: drop_stream_def)
qed

lemma direct_inv:
  assumes inv: "dl_inv S cs d" and found: "cb_find i cs = Some st" and at: "direct off st"
    and seg: "segment_of (S i) off bytes fin"
    and kept: "\<And>p. kept_packet = Inr p \<Longrightarrow> slice p (b, b + length bytes) = bytes"
    and res: "deliver_direct mem_item (logged ev) i bytes off fin b kept_packet st (cs, (d, s)) = ((cs', (d', s')), r)"
  shows "dl_inv S cs' d'"
proof -
  have st: "stream_ok (S i) st" "fst d i = take (os_consumed st) (S i)" "os_id st = i" "off = os_consumed st"
    using dl_inv_stream [OF inv found] cb_find_id [OF found] at by (auto simp: direct_def)
  obtain log fs where d: "d = (log, fs)" by fastforce
  obtain a w where c: "stream_chunk (logged ev) i off fin bytes ((log, fs), s) = (a, w)" by (meson surj_pair)
  note step = res [unfolded deliver_direct_def d prod.case Let_def c]
  show ?thesis
  proof (cases "(\<exists>n. a = Inr n \<and> n \<le> length bytes) \<and> \<not> violates_final (final_size st) (off + length bytes) fin")
    case False
    then have "cs' = cs \<and> d' = d" using step c d logged_chunk(1,3) [of ev i off fin bytes log fs s]
      by (cases a) (fastforce split: if_splits)+
    then show ?thesis using inv by simp
  next
    case True': True
    then obtain n where n: "a = Inr n" "n \<le> length bytes" by blast
    then obtain s1 where w: "w = ((log(i := log i @ take n bytes), fs), s1)" using logged_chunk(2) [OF c [unfolded n(1)] n(2)] by blast
    let ?d1 = "(log(i := log i @ take n bytes), fs)" and ?st1 = "st\<lparr>os_consumed := off + n\<rparr>"
    have adv: "advanced (S i) i st d (Some ?st1) ?d1"
      "fin \<Longrightarrow> n = length bytes \<Longrightarrow> advanced (S i) i st d None (fst ?d1, insert i fs)"
      using advanced_direct [OF st(1) seg [unfolded st(4)] n(2), of log i fs] st d by auto
    have part: "dl_inv S (put_stream i ?st1 cs) ?d1" using dl_inv_put [OF inv found adv(1)] .
    have ins: "dl_inv S (put_stream i u cs) ?d1"
      if "kept_packet = Inr p" "os_insert mem_item p (off + n) (b + n, b + length bytes) fin m0 ?st1 = Inr (m, u)" for p m0 m u
    proof -
      have "slice p (b + n, b + length bytes) = drop n bytes" using kept [OF that(1)] slice_drop [of p "(b, b + length bytes)" n] by simp
      then have "stream_ok (S i) u \<and> os_consumed u = off + n \<and> os_id u = i"
        using os_insert_ok [OF _ _ that(2)] segment_of_drop [OF seg n(2)] adv(1) st(3) by (auto simp: advanced_def)
      then have "advanced (S i) i st d (Some u) ?d1" using adv(1) st(3) by (auto simp: advanced_def)
      then show ?thesis using dl_inv_put [OF inv found] by blast
    qed
    show ?thesis
    proof (cases "n = length bytes")
      case False
      then show ?thesis using step True' n w part ins st(3)
        by (auto simp: Let_def split: if_splits sum.splits)
    next
      case True
      have end_st: "(set_final False (off + length bytes) st)\<lparr>os_consumed := off + length bytes\<rparr> = ?st1" using True by (simp add: set_final_def)
      show ?thesis
      proof (cases fin)
        case True
        then show ?thesis using step True' n w dl_inv_drop [OF inv found adv(2)] \<open>n = length bytes\<close> inv
          by (auto simp: filter_drop_stream dl_inv_def)
      next
        case False
        obtain cs2 d2 s2 q2 where rc: "resume_copying (logged ev) i (put_stream i ?st1 cs, w) = ((cs2, (d2, s2)), q2)"
          by (metis prod.collapse)
        have "dl_inv S cs2 d2" using resume_copying_inv [OF part rc [unfolded w]] .
        then show ?thesis using step True' n w part False True rc end_st
          by (auto simp: Let_def split: if_splits sum.splits)
      qed
    qed
  qed
qed

lemma try_receive_copying_range_inv:
  assumes inv: "dl_inv S cs d" and new: "i \<notin> snd d" and seg: "segment_of (S i) off bytes fin"
    and kept: "\<And>p. kept_packet = Inr p \<Longrightarrow> slice p (b, b + length bytes) = bytes"
    and res: "try_receive_copying_range m1 m2 (logged ev) i bytes off fin b kept_packet (cs, (d, s)) = ((cs', (d', s')), r)"
  shows "dl_inv S cs' d'"
proof -
  obtain cs1 q where m: "stream_mut m2 i cs = (cs1, q)" by fastforce
  have len: "length (S i) \<le> u64_max" using seg by (simp add: segment_of_def)
  have inv1: "dl_inv S cs1 d" using stream_mut_inv [OF inv new len m] .
  have e: "checked_add u64_max off (length bytes) = Some (off + length bytes)"
    using seg by (simp add: checked_add_def segment_of_def)
  note step = res [unfolded try_receive_copying_range_def prod.case e option.case m]
  show ?thesis
  proof (cases q)
    case (Inl a)
    then show ?thesis using step inv1 by simp
  next
    case (Inr st)
    have found: "cb_find i cs1 = Some st" using stream_mut_find m Inr by blast
    show ?thesis
    proof (cases "direct off st")
      case True
      then have dd: "deliver_direct m1 (logged ev) i bytes off fin b kept_packet st (cs1, (d, s)) = ((cs', (d', s')), r)"
        using step Inr by simp
      show ?thesis by (rule direct_inv [OF inv1 found True seg _ dd]) (rule kept)
    next
      case False
      show ?thesis
      proof (cases kept_packet)
        case (Inr p)
        then have "receive_stored m1 m2 (logged ev) i p off (b, b + length bytes) fin (cs1, (d, s)) = ((cs', (d', s')), r)"
          using step \<open>q = Inr st\<close> False by simp
        then show ?thesis by (rule receive_stored_inv [OF inv1 new, rotated]) (simp add: kept [OF Inr] seg)
      qed (use step Inr inv1 False in simp)
    qed
  qed
qed

section \<open>Runs of the delivery state\<close>

text \<open>
  What the multiplexer does with it: offer the frames of a packet from the receive buffer, offer a stored packet,
  resume a consumer, change the limits. Frames of streams whose delivery is complete are suppressed, which
  \<^verbatim>\<open>mux.rs\<close> decides for all frames of a packet when it parses it. The three booleans are the outcomes of the allocations.
\<close>

datatype delivery_op =
    Borrowed bool bool bool u64 u64 "u8 list" bool
  | Stored bool bool u64 "u8 list" u64 range bool
  | Resume u64
  | Limits usize usize

fun delivery_step :: "('s, 'e) CopyingStreamEvents \<Rightarrow> delivery_op \<Rightarrow> CallbackStreams \<times> delivered \<times> 's
    \<Rightarrow> CallbackStreams \<times> delivered \<times> 's" where
  "delivery_step ev (Borrowed m1 m2 m3 i off bytes fin) (cs, d, s) =
     (if i \<in> snd d then (cs, d, s)
      else fst (try_receive_copying_borrowed m1 m2 (logged ev) i bytes off fin
                  (if m3 then Inr bytes else Inl Capacity) (cs, d, s)))"
| "delivery_step ev (Stored m1 m2 i packet off r fin) (cs, d, s) =
     (if i \<in> snd d then (cs, d, s)
      else fst (receive_copying m1 m2 (logged ev) i packet off r fin (cs, d, s)))"
| "delivery_step ev (Resume i) (cs, d, s) = fst (resume_copying (logged ev) i (cs, d, s))"
| "delivery_step ev (Limits n bytes) (cs, d, s) = (set_limits n bytes cs, d, s)"

definition delivery_run :: "('s, 'e) CopyingStreamEvents \<Rightarrow> delivery_op list \<Rightarrow> usize \<Rightarrow> usize \<Rightarrow> 's
    \<Rightarrow> CallbackStreams \<times> delivered \<times> 's" where
  "delivery_run ev ops n bytes s = fold (delivery_step ev) ops (cb_new n bytes, ((\<lambda>_. [], {}), s))"

text \<open>The frames are pieces of the byte streams \<open>S\<close>, in any order, with any overlap and any repetition.\<close>

fun op_from :: "(u64 \<Rightarrow> u8 list) \<Rightarrow> delivery_op \<Rightarrow> bool" where
  "op_from S (Borrowed m1 m2 m3 i off bytes fin) = segment_of (S i) off bytes fin"
| "op_from S (Stored m1 m2 i packet off r fin) = segment_of (S i) off (slice packet r) fin"
| "op_from S (Resume i) = True"
| "op_from S (Limits n bytes) = True"

lemma dl_inv_limits [simp]: "dl_inv S (set_limits n b cs) d = dl_inv S cs d"
  by (simp add: dl_inv_def cb_find_def set_limits_def)

definition dl_ok :: "(u64 \<Rightarrow> u8 list) \<Rightarrow> CallbackStreams \<times> delivered \<times> 's \<Rightarrow> bool" where
  "dl_ok S w = dl_inv S (fst w) (fst (snd w))"

lemma dl_okI: "(\<And>cs d s q. r = ((cs, (d, s)), q) \<Longrightarrow> dl_inv S cs d) \<Longrightarrow> dl_ok S (fst r)"
  by (metis dl_ok_def prod.collapse)

lemma try_receive_copying_range_ok:
  assumes "dl_inv S cs d" "i \<notin> snd d" "segment_of (S i) off bytes fin"
    and "\<And>p. kept_packet = Inr p \<Longrightarrow> slice p (b, b + length bytes) = bytes"
  shows "dl_ok S (fst (try_receive_copying_range m1 m2 (logged ev) i bytes off fin b kept_packet (cs, (d, s))))"
  by (rule dl_okI, rule try_receive_copying_range_inv [OF assms(1-3)]) (use assms(4) in auto)

lemma receive_copying_ok:
  assumes inv: "dl_inv S cs d" and new: "i \<notin> snd d" and seg: "segment_of (S i) off (slice packet r) fin"
  shows "dl_ok S (fst (receive_copying m1 m2 (logged ev) i packet off r fin (cs, (d, s))))"
proof (cases "fst r > snd r \<or> snd r > length packet")
  case True
  then show ?thesis using inv by (auto simp: receive_copying_def dl_ok_def)
next
  case False
  then have len: "slice packet (fst r, fst r + length (slice packet r)) = slice packet r"
    by (cases r) (auto simp: slice_def)
  show ?thesis
  proof (cases "case cb_find i cs of None \<Rightarrow> off = 0 | Some st \<Rightarrow> direct off st")
    case True
    then show ?thesis using False try_receive_copying_range_ok [OF inv new seg, of "Inr packet" "fst r"] len
      by (auto simp: receive_copying_def)
  next
    case no: False
    then have "receive_copying m1 m2 (logged ev) i packet off r fin (cs, (d, s))
        = receive_stored m1 m2 (logged ev) i packet off r fin (cs, (d, s))" using False by (auto simp: receive_copying_def)
    then show ?thesis by (simp only: dl_okI [OF receive_stored_inv [OF inv new seg]])
  qed
qed

lemma delivery_step_ok: "dl_ok S w \<Longrightarrow> op_from S op \<Longrightarrow> dl_ok S (delivery_step ev op w)"
proof -
  assume inv: "dl_ok S w" and op: "op_from S op"
  obtain cs d s where w: "w = (cs, d, s)" by (metis prod.collapse)
  with inv have i: "dl_inv S cs d" by (simp add: dl_ok_def)
  show ?thesis
  proof (cases op)
    case (Borrowed m1 m2 m3 i off bytes fin)
    then show ?thesis using i op try_receive_copying_range_ok [OF i, of i off bytes fin "if m3 then Inr bytes else Inl Capacity" 0]
      by (auto simp: w dl_ok_def try_receive_copying_borrowed_def slice_def)
  next
    case (Stored m1 m2 i packet off r fin)
    then show ?thesis using i op receive_copying_ok [OF i, of i off packet r fin] by (auto simp: w dl_ok_def)
  next
    case (Resume i)
    then show ?thesis by (simp add: w dl_okI [OF resume_copying_inv [OF i]])
  qed (use i in \<open>simp add: w dl_ok_def\<close>)
qed

definition delivery_start :: "CallbackStreams \<times> delivered \<times> 's \<Rightarrow> bool" where
  "delivery_start w \<longleftrightarrow> (\<exists>n bytes s. w = (cb_new n bytes, ((\<lambda>_. [], {}), s)))"

definition delivery_moves :: "(u64 \<Rightarrow> u8 list) \<Rightarrow> ('s, 'e) CopyingStreamEvents \<Rightarrow> CallbackStreams \<times> delivered \<times> 's
    \<Rightarrow> CallbackStreams \<times> delivered \<times> 's \<Rightarrow> bool" where
  "delivery_moves S ev w w' \<longleftrightarrow> (\<exists>op. op_from S op \<and> w' = delivery_step ev op w)"

interpretation delivery: stateful delivery_start "delivery_moves S ev" "dl_ok S"
  for S :: "u64 \<Rightarrow> u8 list" and ev :: "('s, 'e) CopyingStreamEvents"
proof unfold_locales
  fix w :: "CallbackStreams \<times> delivered \<times> 's"
  show "delivery_start w \<Longrightarrow> dl_ok S w"
    by (auto simp: delivery_start_def dl_ok_def dl_inv_def cb_new_def cb_find_def slot_ok_def)
  show "dl_ok S w \<Longrightarrow> delivery_moves S ev w w' \<Longrightarrow> dl_ok S w'" for w'
    by (auto simp: delivery_moves_def delivery_step_ok)
qed

lemma delivery_run_moves:
  "list_all (op_from S) ops \<Longrightarrow> (delivery_moves S ev)\<^sup>*\<^sup>* w (fold (delivery_step ev) ops w)"
proof (induction ops arbitrary: w)
  case (Cons op ops)
  then have "delivery_moves S ev w (delivery_step ev op w)" by (auto simp: delivery_moves_def)
  with Cons show ?case by (simp add: converse_rtranclp_into_rtranclp)
qed simp

lemma delivery_run_ok:
  assumes "list_all (op_from S) ops"
  shows "dl_ok S (delivery_run ev ops n bytes s)"
proof -
  have "delivery_start (cb_new n bytes, ((\<lambda>_. [], {}), s))" by (auto simp: delivery_start_def)
  then show ?thesis unfolding delivery_run_def by (rule delivery.inv_reachable [OF _ delivery_run_moves [OF assms]])
qed


text \<open>Five bytes arrive as their tail, their head twice and, after a refused chunk, a resumed rest.\<close>

definition taking :: "usize \<Rightarrow> (unit, unit) CopyingStreamEvents" where
  "taking k = \<lparr>stream_chunk = (\<lambda>i off fin bytes s. (Inr (min k (length bytes)), s)),
     stream_finished = (\<lambda>i s. s), stream_reset = (\<lambda>i code s. s)\<rparr>"

definition example_bytes :: "u64 \<Rightarrow> u8 list" where
  "example_bytes = (\<lambda>_. [1, 2, 3, 4, 5])"

definition example_ops :: "delivery_op list" where
  "example_ops = [Borrowed True True True 4 3 [4, 5] True, Borrowed True True True 4 0 [1, 2, 3] False,
     Borrowed True True True 4 0 [1, 2, 3] False, Resume 4, Resume 4, Resume 4, Resume 4]"


section \<open>Bounds on what is stored\<close>

definition within :: "usize \<Rightarrow> CallbackStreams \<Rightarrow> bool" where
  "within M cs \<longleftrightarrow> retained_bytes cs \<le> M \<and> max_retained_bytes cs \<le> M"

lemma within_frame [simp]:
  "retained_bytes (put_stream i st cs) = retained_bytes cs" "max_retained_bytes (put_stream i st cs) = max_retained_bytes cs"
  "retained_bytes (drop_stream i cs) = retained_bytes cs" "max_retained_bytes (drop_stream i cs) = max_retained_bytes cs"
  by (simp_all add: put_stream_def drop_stream_def)

lemma stream_mut_bytes:
  "stream_mut mem i cs = (cs', r) \<Longrightarrow> retained_bytes cs' = retained_bytes cs \<and> max_retained_bytes cs' = max_retained_bytes cs"
  by (auto simp: stream_mut_def Let_def split: option.splits if_splits)

lemma os_insert_bytes: "os_insert mem packet off r fin m st = Inr (n, st') \<Longrightarrow> n \<le> m"
  by (auto simp: os_insert_def Let_def split: if_splits elim!: bindE_eq_InrE)

lemma insert_range_bytes:
  assumes "insert_range m1 m2 i packet off r fin avail cs = (cs', q)"
  shows "retained_bytes cs' = retained_bytes cs \<and> max_retained_bytes cs' = max_retained_bytes cs \<and> (\<forall>n. q = Inr n \<longrightarrow> n \<le> avail)"
  using assms by (auto simp: insert_range_def Let_def dest: os_insert_bytes split: option.splits sum.splits if_splits)

lemma resume_loop_bytes: "resume_loop ev i taken kept st s = (u, kept', s', r) \<Longrightarrow> kept' \<le> kept"
proof (induction "length (retained st)" arbitrary: st s taken kept rule: less_induct)
  case less
  show ?case
  proof (cases "find (at_cursor st) (retained st) = None \<or> os_finished st \<or> outstanding st \<noteq> None")
    case True
    then show ?thesis using less.prems unfolding resume_loop_idle [OF True] by simp
  next
    case False
    then obtain item where live: "\<not> os_finished st" "outstanding st = None" and Some: "find (at_cursor st) (retained st) = Some item"
      by (metis not_None_eq)
    obtain a w where c: "stream_chunk ev i (rt_offset item) (rt_end item) (rt_bytes item) s = (a, w)" by (meson surj_pair)
    let ?next = "\<lambda>n. st\<lparr>os_consumed := sat_add64 (os_consumed st) n, retained := remove_first (at_cursor st) (retained st)\<rparr>"
    have "kept' \<le> kept" if "resume_loop ev i (sat_add64 taken n) (kept - n) (?next n) w = (u, kept', s', r)" for n
      using less.hyps [OF _ that] length_remove_first [OF Some] by fastforce
    then show ?thesis using less.prems unfolding resume_loop_chunk [OF live Some c]
      by (cases a) (auto split: if_splits)
  qed
qed

lemma resume_copying_bytes:
  assumes "resume_copying ev i (cs, s) = ((cs', s'), r)"
  shows "retained_bytes cs' \<le> retained_bytes cs \<and> max_retained_bytes cs' = max_retained_bytes cs"
proof (cases "cb_find i cs")
  case (Some st)
  obtain u kept w q where l: "resume_loop ev i 0 (retained_bytes cs) st s = (u, kept, w, q)" by (metis prod.collapse)
  show ?thesis using assms Some l resume_loop_bytes [OF l] by (cases u) (auto simp: resume_copying_def)
qed (use assms in \<open>simp add: resume_copying_def\<close>)

lemma sat_add64_le: "a \<le> M \<Longrightarrow> b \<le> c - a \<Longrightarrow> c \<le> M \<Longrightarrow> sat_add64 a b \<le> M"
  by (auto simp: sat_add_def)

lemma receive_stored_within: "within M cs \<Longrightarrow> within M (fst (fst (receive_stored m1 m2 ev i packet off r fin (cs, s))))"
proof -
  assume w: "within M cs"
  obtain cs1 q where ins: "insert_range m1 m2 i packet off r fin (available_bytes cs) cs = (cs1, q)" by fastforce
  obtain cs2 s2 q2 where res: "resume_copying ev i (cs1\<lparr>retained_bytes := sat_add64 (retained_bytes cs1) (projr q)\<rparr>, s)
      = ((cs2, s2), q2)" by (metis prod.collapse)
  have "within M cs1" using w insert_range_bytes [OF ins] by (simp add: within_def)
  moreover have "sat_add64 (retained_bytes cs1) n \<le> M" if "q = Inr n" for n
    using sat_add64_le [of "retained_bytes cs" M n] w insert_range_bytes [OF ins] that
    by (auto simp: within_def available_bytes_def)
  ultimately show ?thesis using w ins res resume_copying_bytes [OF res]
    by (cases q) (auto simp: receive_stored_def within_def split: sum.splits)
qed

lemma deliver_direct_within: "within M cs \<Longrightarrow> within M (fst (fst (deliver_direct m1 ev i bytes off fin b kept_packet st (cs, s))))"
proof -
  assume w: "within M cs"
  have ins: "sat_add64 (retained_bytes cs) m \<le> M"
    if "os_insert m1 p o' r fin (max_retained_bytes cs - retained_bytes cs) st1 = Inr (m, st2)" for p o' r st1 m st2
    using sat_add64_le [OF _ os_insert_bytes [OF that]] w by (simp add: within_def)
  obtain a s1 where c: "stream_chunk ev i off fin bytes s = (a, s1)" by fastforce
  let ?u = "(set_final fin (off + length bytes) st)\<lparr>os_consumed := off + length bytes\<rparr>"
  obtain cs2 s2 q2 where rc: "resume_copying ev i (put_stream i ?u cs, s1) = ((cs2, s2), q2)" by (metis prod.collapse)
  have "within M cs2" using w resume_copying_bytes [OF rc] by (auto simp: within_def)
  then show ?thesis using w ins unfolding deliver_direct_def prod.case c Let_def rc
    by (cases a; cases q2; cases kept_packet) (auto simp: within_def split: sum.split if_split)
qed

lemma try_receive_copying_range_within:
  "within M cs \<Longrightarrow> within M (fst (fst (try_receive_copying_range m1 m2 ev i bytes off fin b kept_packet (cs, s))))"
proof -
  assume w: "within M cs"
  obtain cs1 q where m: "stream_mut m2 i cs = (cs1, q)" by fastforce
  have "within M cs1" using w stream_mut_bytes [OF m] by (simp add: within_def)
  then show ?thesis using w unfolding try_receive_copying_range_def prod.case m
    by (auto simp: deliver_direct_within receive_stored_within split: option.splits sum.splits)
qed

fun limit_of :: "delivery_op \<Rightarrow> usize" where
  "limit_of (Limits n bytes) = bytes"
| "limit_of _ = 0"

lemma delivery_step_within:
  assumes "within M (fst w)" "limit_of op \<le> M"
  shows "within M (fst (delivery_step ev op w))"
proof -
  obtain cs d s where w: "w = (cs, d, s)" by (metis prod.collapse)
  note range = try_receive_copying_range_within [of M cs _ _ "logged ev" _ _ _ _ _ _ "(d, s)"]
  show ?thesis
  proof (cases op)
    case (Stored m1 m2 i packet off r fin)
    then show ?thesis using assms(1) range [of m1 m2 i "slice packet r" off fin "fst r" "Inr packet"]
        receive_stored_within [of M cs m1 m2 "logged ev" i packet off r fin "(d, s)"]
      unfolding w Stored delivery_step.simps receive_copying_def prod.case by (simp split: if_split)
  next
    case (Resume i)
    obtain cs2 s2 q2 where rc: "resume_copying (logged ev) i (cs, (d, s)) = ((cs2, s2), q2)" by (metis prod.collapse)
    show ?thesis using assms(1) resume_copying_bytes [OF rc] by (auto simp: w Resume rc within_def)
  next
    case (Borrowed m1 m2 m3 i off bytes fin)
    then show ?thesis using assms(1) range by (simp add: w try_receive_copying_borrowed_def)
  qed (use assms w in \<open>simp add: set_limits_def within_def\<close>)
qed



end
