(* ===== verification/Stream_Completion.thy ===== *)
theory Stream_Completion
  imports Stream_Delivery
begin

text \<open>
  What becomes of a stream whose frames all arrive: it is delivered completely whatever the order and the
  repetitions. The last section records two inputs after which bytes stay on the account of an
  association although nothing will ever release them.
\<close>

section \<open>Complete delivery\<close>

text \<open>
  The sender cuts its bytes into \<open>parts\<close>, one frame each, of which only the last may be empty (a separate
  FIN). The frames of a stream are numbered by the position of their part.
\<close>

definition well_cut :: "u8 list list \<Rightarrow> bool" where
  "well_cut parts \<longleftrightarrow> parts \<noteq> [] \<and> length (concat parts) \<le> u64_max \<and> list_all (\<lambda>p. p \<noteq> []) (butlast parts)"

definition part_offset :: "u8 list list \<Rightarrow> nat \<Rightarrow> u64" where
  "part_offset parts k = length (concat (take k parts))"

definition part_frame :: "u8 list list \<Rightarrow> u64 \<Rightarrow> nat \<Rightarrow> delivery_op" where
  "part_frame parts i k = Borrowed True True True i (part_offset parts k) (parts ! k) (k = length parts - 1)"

definition accepts_all :: "('s, 'e) CopyingStreamEvents \<Rightarrow> bool" where
  "accepts_all ev \<longleftrightarrow> (\<forall>i off fin bytes s. fst (stream_chunk ev i off fin bytes s) = Inr (length bytes))"

lemma part_offset_Suc: "k < length parts \<Longrightarrow> part_offset parts (Suc k) = part_offset parts k + length (parts ! k)"
  by (simp add: part_offset_def take_Suc_conv_app_nth)

lemma part_offset_mono: "j \<le> k \<Longrightarrow> part_offset parts j \<le> part_offset parts k"
proof -
  assume "j \<le> k"
  then obtain m where k: "k = j + m" by (metis le_add_diff_inverse)
  show ?thesis unfolding part_offset_def k take_add by simp
qed

lemma part_offset_end: "k < length parts \<Longrightarrow> part_offset parts k + length (parts ! k) \<le> length (concat parts)"
  using part_offset_mono [of "Suc k" "length parts" parts] part_offset_Suc [of k parts] by (simp add: part_offset_def)

lemma part_nonempty: "well_cut parts \<Longrightarrow> Suc k < length parts \<Longrightarrow> parts ! k \<noteq> []"
  by (auto simp: well_cut_def list_all_length nth_butlast)

lemma part_offset_less:
  assumes "well_cut parts" "j < k" "k < length parts"
  shows "part_offset parts j < part_offset parts k" "part_offset parts j + length (parts ! j) \<le> part_offset parts k"
proof -
  have "part_offset parts (Suc j) \<le> part_offset parts k" using assms(2) by (intro part_offset_mono) simp
  then show "part_offset parts j + length (parts ! j) \<le> part_offset parts k" using part_offset_Suc [of j parts] assms by simp
  then show "part_offset parts j < part_offset parts k" using part_nonempty [OF assms(1), of j] assms(2,3) by (cases "parts ! j") auto
qed

lemma part_offset_inj:
  assumes "well_cut parts" "j < length parts" "k < length parts" "part_offset parts j = part_offset parts k"
  shows "j = k"
  using part_offset_less [OF assms(1)] assms(2-4) by (metis less_irrefl linorder_less_linear)

lemma part_segment:
  assumes "well_cut parts" "k < length parts"
  shows "segment_of (concat parts) (part_offset parts k) (parts ! k) (k = length parts - 1)"
proof -
  have split: "concat parts = concat (take k parts) @ parts ! k @ concat (drop (Suc k) parts)"
    using id_take_nth_drop [OF assms(2)] by (metis concat.simps(2) concat_append)
  have "parts ! k = take (length (parts ! k)) (drop (part_offset parts k) (concat parts))"
    by (subst split) (simp add: part_offset_def)
  moreover have "k = length parts - 1 \<Longrightarrow> part_offset parts k + length (parts ! k) = length (concat parts)"
    using part_offset_Suc [OF assms(2)] assms(2) by (auto simp: part_offset_def)
  ultimately show ?thesis using assms part_offset_end [OF assms(2)] by (simp add: segment_of_def well_cut_def)
qed

text \<open>The stored ranges are exactly the parts in \<open>A\<close>.\<close>

definition is_part :: "u8 list list \<Rightarrow> nat \<Rightarrow> Retained \<Rightarrow> bool" where
  "is_part parts j x \<longleftrightarrow> rt_offset x = part_offset parts j \<and> rt_bytes x = parts ! j \<and> rt_end x = (j = length parts - 1)
     \<and> fst (rt_range x) \<le> snd (rt_range x) \<and> snd (rt_range x) \<le> length (rt_packet x)"

definition stores :: "u8 list list \<Rightarrow> nat set \<Rightarrow> OrderedStream \<Rightarrow> bool" where
  "stores parts A st \<longleftrightarrow> A \<subseteq> {..<length parts} \<and> distinct (map rt_offset (retained st))
     \<and> (\<forall>x \<in> set (retained st). \<exists>j \<in> A. is_part parts j x) \<and> (\<forall>j \<in> A. \<exists>x \<in> set (retained st). is_part parts j x)"

definition part_bytes :: "u8 list list \<Rightarrow> nat set \<Rightarrow> nat" where
  "part_bytes parts A = (\<Sum>j \<in> A. length (parts ! j))"

lemma part_bytes_le: "A \<subseteq> {..<length parts} \<Longrightarrow> part_bytes parts A \<le> length (concat parts)"
proof -
  assume "A \<subseteq> {..<length parts}"
  then have "part_bytes parts A \<le> part_bytes parts {..<length parts}" unfolding part_bytes_def by (intro sum_mono2) auto
  also have "\<dots> = length (concat parts)" unfolding part_bytes_def length_concat by (simp add: sum_list_sum_nth atLeast0LessThan)
  finally show ?thesis .
qed

lemma stores_at_cursor:
  assumes "well_cut parts" "stores parts A st" "os_consumed st = part_offset parts k" "k < length parts"
  shows "k \<notin> A \<Longrightarrow> find (at_cursor st) (retained st) = None"
    and "k \<in> A \<Longrightarrow> \<exists>x. find (at_cursor st) (retained st) = Some x \<and> is_part parts k x"
proof -
  have only: "j = k" if "x \<in> set (retained st)" "at_cursor st x" "is_part parts j x" "j \<in> A" for x j
    using part_offset_inj [OF assms(1), of j k] that assms(2-4) by (auto simp: at_cursor_def is_part_def stores_def)
  show "find (at_cursor st) (retained st) = None" if "k \<notin> A"
    using only that assms(2) unfolding find_None_iff stores_def by blast
  show "\<exists>x. find (at_cursor st) (retained st) = Some x \<and> is_part parts k x" if "k \<in> A"
  proof (cases "find (at_cursor st) (retained st)")
    case None
    then show ?thesis using assms(2,3) that by (auto simp: find_None_iff stores_def at_cursor_def is_part_def)
  next
    case (Some x)
    then have x: "x \<in> set (retained st)" "at_cursor st x" by (auto simp: find_Some_iff)
    then obtain j where "j \<in> A" "is_part parts j x" using assms(2) by (auto simp: stores_def)
    with only [OF x] Some show ?thesis by auto
  qed
qed

lemma stores_remove:
  assumes "well_cut parts" "stores parts A st" "os_consumed st = part_offset parts k" "k < length parts"
  shows "stores parts (A - {k}) (st\<lparr>os_consumed := c, retained := remove_first (at_cursor st) (retained st)\<rparr>)"
proof -
  let ?rest = "remove_first (at_cursor st) (retained st)"
  have rest: "x \<in> set ?rest \<longleftrightarrow> x \<in> set (retained st) \<and> rt_offset x \<noteq> part_offset parts k" for x
  proof -
    have "distinct (map rt_offset xs) \<Longrightarrow> x \<in> set (remove_first (\<lambda>y. rt_offset y = c) xs) \<longleftrightarrow> x \<in> set xs \<and> rt_offset x \<noteq> c" for xs c
      by (induction xs) (auto simp: image_iff)
    then show ?thesis using assms(2,3) unfolding at_cursor_def stores_def by simp
  qed
  have "distinct (map rt_offset ?rest)" using assms(2) by (simp add: stores_def distinct_remove_first)
  moreover have "\<exists>j \<in> A - {k}. is_part parts j x" if "x \<in> set ?rest" for x
    using that assms(2) rest by (auto simp: stores_def is_part_def)
  moreover have "\<exists>x \<in> set ?rest. is_part parts j x" if j: "j \<in> A" "j \<noteq> k" for j
  proof -
    obtain x where x: "x \<in> set (retained st)" "is_part parts j x" using j assms(2) by (auto simp: stores_def)
    have "j < length parts" using j(1) assms(2) by (auto simp: stores_def)
    then have "rt_offset x \<noteq> part_offset parts k" using part_offset_inj [OF assms(1) _ assms(4)] j(2) x(2) by (auto simp: is_part_def)
    then show ?thesis using x rest by blast
  qed
  ultimately show ?thesis using assms(2) by (auto simp: stores_def)
qed

lemma accepts_all_logged:
  "accepts_all ev \<Longrightarrow> \<exists>log' s'. stream_chunk (logged ev) i off fin bytes ((log, fs), s) = (Inr (length bytes), ((log', fs), s'))"
proof -
  assume "accepts_all ev"
  then obtain s' where "stream_chunk ev i off fin bytes s = (Inr (length bytes), s')"
    by (metis accepts_all_def prod.collapse)
  then show ?thesis by (simp add: logged_def)
qed

text \<open>The stream at part \<open>k\<close> with the parts \<open>A\<close> stored.\<close>

definition stands :: "u8 list list \<Rightarrow> u64 \<Rightarrow> nat \<Rightarrow> nat set \<Rightarrow> OrderedStream \<Rightarrow> bool" where
  "stands parts i k A st \<longleftrightarrow> \<not> os_finished st \<and> outstanding st = None \<and> os_id st = i \<and> k < length parts
     \<and> os_consumed st = part_offset parts k \<and> stores parts A st
     \<and> (final_size st = None \<or> final_size st = Some (length (concat parts)))"

lemma part_bytes_remove:
  assumes "k \<in> A" "A \<subseteq> {..<length parts}"
  shows "part_bytes parts A - length (parts ! k) = part_bytes parts (A - {k})"
proof -
  have "finite A" using assms(2) finite_subset by blast
  then show ?thesis using assms(1) by (simp add: part_bytes_def sum.remove [of A k])
qed

text \<open>From part \<open>k\<close> on, the stored parts up to the first missing one are delivered, or the stream is finished.\<close>

definition drained :: "u8 list list \<Rightarrow> u64 \<Rightarrow> nat \<Rightarrow> nat set \<Rightarrow> OrderedStream option \<Rightarrow> usize \<Rightarrow> u64 set \<Rightarrow> u64 set \<Rightarrow> bool" where
  "drained parts i k A r kept fs fs' \<longleftrightarrow>
     (\<exists>m u. k \<le> m \<and> {k..<m} \<subseteq> A \<and> m \<notin> A \<and> r = Some u \<and> stands parts i m (A - {k..<m}) u
       \<and> kept = part_bytes parts (A - {k..<m}) \<and> fs' = fs)
     \<or> {k..<length parts} \<subseteq> A \<and> r = None \<and> fs' = insert i fs"

lemma drained_Suc:
  assumes "k \<in> A" "drained parts i (Suc k) (A - {k}) r kept fs fs'"
  shows "drained parts i k A r kept fs fs'"
proof -
  have up: "{k..<m} \<subseteq> A" if "{Suc k..<m} \<subseteq> A - {k}" for m
  proof -
    have "{k..<m} \<subseteq> insert k {Suc k..<m}" by auto
    then show ?thesis using that assms(1) by blast
  qed
  consider (some) m u where "Suc k \<le> m" "{Suc k..<m} \<subseteq> A - {k}" "m \<notin> A - {k}" "r = Some u"
      "stands parts i m (A - {k} - {Suc k..<m}) u" "kept = part_bytes parts (A - {k} - {Suc k..<m})" "fs' = fs"
    | (all) "{Suc k..<length parts} \<subseteq> A - {k}" "r = None" "fs' = insert i fs"
    using assms(2) unfolding drained_def by blast
  then show ?thesis
  proof cases
    case (some m u)
    have "A - {k} - {Suc k..<m} = A - {k..<m}" using some(1) by auto
    then show ?thesis using some up [OF some(2)] unfolding drained_def
      by (intro disjI1 exI [of _ m] exI [of _ u]) auto
  qed (use up in \<open>auto simp: drained_def\<close>)
qed

lemma resume_drains:
  assumes "well_cut parts" "accepts_all ev"
  shows "stands parts i k A st \<Longrightarrow> A \<subseteq> {k..<length parts} \<Longrightarrow>
    resume_loop (logged ev) i taken (part_bytes parts A) st ((log, fs), s) = (r, kept, ((log', fs'), s'), q) \<Longrightarrow>
    drained parts i k A r kept fs fs'"
proof (induction "length parts - k" arbitrary: k A st taken log s rule: less_induct)
  case less
  note st = less.prems(1) [unfolded stands_def]
  show ?case
  proof (cases "k \<in> A")
    case False
    then have "find (at_cursor st) (retained st) = None" using stores_at_cursor(1) [OF assms(1)] st by blast
    then show ?thesis using less.prems False unfolding drained_def
      by (intro disjI1 exI [of _ k]) (auto simp: resume_loop_idle)
  next
    case True
    then obtain x where x: "find (at_cursor st) (retained st) = Some x" "is_part parts k x"
      using stores_at_cursor(2) [OF assms(1)] st by blast
    obtain l1 s1 where c: "stream_chunk (logged ev) i (rt_offset x) (rt_end x) (rt_bytes x) ((log, fs), s)
        = (Inr (length (rt_bytes x)), ((l1, fs), s1))" using accepts_all_logged [OF assms(2)] by blast
    have cursor: "sat_add64 (os_consumed st) (length (parts ! k)) = part_offset parts (Suc k)"
      using st part_offset_Suc [of k parts] part_offset_end [of k parts] assms(1) by (auto simp: sat_add_def well_cut_def)
    show ?thesis
    proof (cases "Suc k < length parts")
      case False
      then have "k = length parts - 1" "{k..<length parts} = {k}" using st by auto
      moreover from this have "r = None \<and> fs' = insert i fs" using less.prems(3) st x c
        by (auto simp: resume_loop_chunk is_part_def)
      ultimately show ?thesis using True by (simp add: drained_def)
    next
      case k: True
      let ?u = "st\<lparr>os_consumed := part_offset parts (Suc k), retained := remove_first (at_cursor st) (retained st)\<rparr>"
      have "stands parts i (Suc k) (A - {k}) ?u" using st k stores_remove [OF assms(1)] by (auto simp: stands_def)
      moreover have "A - {k} \<subseteq> {Suc k..<length parts}" using less.prems(2) by auto
      moreover have "resume_loop (logged ev) i (sat_add64 taken (length (parts ! k))) (part_bytes parts (A - {k})) ?u ((l1, fs), s1)
          = (r, kept, ((log', fs'), s'), q)"
        using less.prems(3) st x c k cursor part_bytes_remove [OF True, of parts] less.prems(2)
        by (auto simp: resume_loop_chunk is_part_def subset_eq)
      ultimately have "drained parts i (Suc k) (A - {k}) r kept fs fs'" using less.hyps [of "Suc k" "A - {k}" ?u] k by auto
      then show ?thesis by (rule drained_Suc [OF True])
    qed
  qed
qed

lemma slice_all [simp]: "slice p (0, length p) = p"
  by (simp add: slice_def)

lemma range_len_0 [simp]: "range_len (0, n) = n"
  by (simp add: range_len_def)

lemma part_no_conflict:
  assumes "well_cut parts" "j < length parts" "m < length parts" "is_part parts m x"
  shows "\<not> conflicts (parts ! j) (part_offset parts j) (0, length (parts ! j)) (part_offset parts j + length (parts ! j)) x"
proof -
  have x: "rt_offset x = part_offset parts m" "range_len (rt_range x) = length (parts ! m)" "slice (rt_packet x) (rt_range x) = parts ! m"
    "snd (rt_range x) = fst (rt_range x) + length (parts ! m)"
    using assms(4) length_slice [of "rt_range x" "rt_packet x"] by (auto simp: is_part_def rt_bytes_def range_len_def)
  consider "m < j" | "m = j" | "j < m" by linarith
  then show ?thesis
  proof cases
    case 2
    have "slice (rt_packet x) (fst (rt_range x), fst (rt_range x) + length (parts ! j)) = parts ! j"
      using x(3,4) 2 by (metis prod.collapse)
    then show ?thesis using x 2 by (simp add: conflicts_def Let_def)
  qed (use part_offset_less(2) [OF assms(1)] assms(2,3) x in \<open>fastforce simp: conflicts_def Let_def\<close>)+
qed

lemma distinct_insert_sorted:
  "distinct (map rt_offset (insert_sorted_by_offset x xs)) \<longleftrightarrow> rt_offset x \<notin> rt_offset ` set xs \<and> distinct (map rt_offset xs)"
proof -
  have "distinct (map rt_offset (a @ x # b)) \<longleftrightarrow> rt_offset x \<notin> rt_offset ` set (a @ b) \<and> distinct (map rt_offset (a @ b))" for a b
    by auto
  from this [of "takeWhile (\<lambda>y. rt_offset y \<le> rt_offset x) xs" "dropWhile (\<lambda>y. rt_offset y \<le> rt_offset x) xs"]
  show ?thesis unfolding takeWhile_dropWhile_id insert_sorted_by_offset_def .
qed

lemma stores_insert:
  assumes "well_cut parts" "stores parts A st" "j < length parts" "j \<notin> A" "is_part parts j x"
  shows "stores parts (insert j A) (st\<lparr>retained := insert_sorted_by_offset x (retained st)\<rparr>)"
proof -
  have "rt_offset x \<noteq> rt_offset y" if y: "y \<in> set (retained st)" for y
  proof -
    obtain m where m: "m \<in> A" "is_part parts m y" using assms(2) y by (auto simp: stores_def)
    then have "m < length parts" "m \<noteq> j" using assms(2,4) by (auto simp: stores_def)
    then show ?thesis using part_offset_inj [OF assms(1) _ assms(3)] m(2) assms(5) by (auto simp: is_part_def)
  qed
  then show ?thesis using assms(2,3,5) by (auto simp: stores_def distinct_insert_sorted)
qed

text \<open>Storing a part that is not the next one.\<close>

lemma insert_part:
  assumes wc: "well_cut parts" and st: "stands parts i k A st" and A: "A \<subseteq> {k<..<length parts}"
    and j: "j < length parts" "j \<noteq> k" and cap: "j < k \<or> j \<in> A \<or> length (parts ! j) \<le> m"
  shows "\<exists>u. os_insert True (parts ! j) (part_offset parts j) (0, length (parts ! j)) (j = length parts - 1) m st
      = Inr (if j < k \<or> j \<in> A then 0 else length (parts ! j), u) \<and> stands parts i k (if j < k then A else insert j A) u"
proof -
  let ?p = "parts ! j" and ?o = "part_offset parts j" and ?fin = "j = length parts - 1"
  have seg: "segment_of (concat parts) ?o ?p ?fin" using part_segment [OF wc j(1)] .
  have st': "\<not> os_finished st" "k < length parts" "os_consumed st = part_offset parts k" "stores parts A st"
    "final_size st = None \<or> final_size st = Some (length (concat parts))" using st by (auto simp: stands_def)
  have fin: "\<not> violates_final (final_size st) (?o + length ?p) ?fin"
    using st'(5) seg by (auto simp: violates_final_def segment_of_def)
  have final: "stands parts i k B u \<Longrightarrow> stands parts i k B (set_final ?fin (?o + length ?p) u)" for B u
    using seg by (auto simp: stands_def set_final_def stores_def segment_of_def)
  have u64: "?o + range_len (0, length ?p) \<le> u64_max" using seg by (simp add: segment_of_def)
  note step = os_insert_step [of "(0, length ?p)" ?p ?o True ?fin m st, OF _ _ u64]
  show ?thesis
  proof (cases "j < k")
    case True
    have "?o + length ?p \<le> os_consumed st" using part_offset_less(2) [OF wc True st'(2)] st'(3) by simp
    moreover have "\<not> ?fin" using True st'(2) by auto
    ultimately show ?thesis using step fin True st by (simp add: set_final_def)
  next
    case False
    then have later: "k < j" using j(2) by simp
    have new: "os_consumed st < ?o" using part_offset_less(1) [OF wc later j(1)] st'(3) by simp
    have ne: "length ?p = 0 \<Longrightarrow> ?fin" using part_nonempty [OF wc, of j] j(1) by (cases "Suc j < length parts") auto
    have free: "\<not> list_ex (conflicts ?p ?o (0, length ?p) (?o + length ?p)) (retained st)"
      using part_no_conflict [OF wc j(1)] st'(4) by (fastforce simp: list_ex_iff stores_def)
    have same: "list_ex (holds_same ?p ?o (0, length ?p)) (retained st) \<longleftrightarrow> j \<in> A"
    proof
      assume "list_ex (holds_same ?p ?o (0, length ?p)) (retained st)"
      then obtain x where "x \<in> set (retained st)" "rt_offset x = ?o" by (auto simp: list_ex_iff holds_same_def)
      moreover from this obtain a where "a \<in> A" "is_part parts a x" using st'(4) by (auto simp: stores_def)
      ultimately show "j \<in> A" using part_offset_inj [OF wc j(1), of a] st'(4) by (auto simp: is_part_def stores_def)
    next
      assume "j \<in> A"
      then obtain x where x: "x \<in> set (retained st)" "is_part parts j x" using st'(4) by (auto simp: stores_def)
      moreover have "range_len (rt_range x) = length ?p"
        using x(2) length_slice [of "rt_range x" "rt_packet x"] by (simp add: is_part_def rt_bytes_def)
      ultimately show "list_ex (holds_same ?p ?o (0, length ?p)) (retained st)"
        by (auto simp: list_ex_iff holds_same_def is_part_def)
    qed
    have "stands parts i k (insert j A) (st\<lparr>retained := insert_sorted_by_offset
        \<lparr>rt_offset = ?o, rt_packet = ?p, rt_range = (0, length ?p), rt_end = ?fin\<rparr> (retained st)\<rparr>)" if "j \<notin> A"
      using stores_insert [OF wc st'(4) j(1) that] st by (auto simp: stands_def is_part_def rt_bytes_def)
    then show ?thesis using step fin new ne free same cap later final st by (auto simp: insert_absorb)
  qed
qed

text \<open>
  The parts in \<open>R\<close> have arrived: the stream stands at the first missing part with the later ones stored, or
  it is finished because none is missing.
\<close>

definition waits_at :: "u8 list list \<Rightarrow> u64 \<Rightarrow> nat set \<Rightarrow> nat \<Rightarrow> CallbackStreams \<Rightarrow> bool" where
  "waits_at parts i R k cs \<longleftrightarrow> {..<k} \<subseteq> R \<and> k \<notin> R \<and> 0 < max_streams cs \<and> length (concat parts) \<le> max_retained_bytes cs
     \<and> retained_bytes cs = part_bytes parts (R \<inter> {k<..})
     \<and> (\<exists>st. stands parts i k (R \<inter> {k<..}) st \<and> (streams cs = [st] \<or> streams cs = [] \<and> st = os_new i))"

definition awaiting :: "u8 list list \<Rightarrow> u64 \<Rightarrow> nat set \<Rightarrow> CallbackStreams \<times> delivered \<times> 's \<Rightarrow> bool" where
  "awaiting parts i R = (\<lambda>(cs, d, s). R \<subseteq> {..<length parts} \<and>
     (if {..<length parts} \<subseteq> R then i \<in> snd d else i \<notin> snd d \<and> (\<exists>k. waits_at parts i R k cs)))"

lemma put_only [simp]: "streams cs = [st] \<Longrightarrow> os_id st = i \<Longrightarrow> put_stream i u cs = cs\<lparr>streams := [u]\<rparr>"
  by (simp add: put_stream_def)

lemma stream_mut_waits:
  assumes "stands parts i k A st" "streams cs = [st] \<or> streams cs = [] \<and> st = os_new i" "0 < max_streams cs"
  shows "stream_mut True i cs = (cs\<lparr>streams := [st]\<rparr>, Inr st)"
  using assms by (auto simp: stream_mut_def live_streams_def cb_find_def stands_def Let_def)

lemma part_bytes_insert: "finite A \<Longrightarrow> j \<notin> A \<Longrightarrow> part_bytes parts (insert j A) = part_bytes parts A + length (parts ! j)"
  by (simp add: part_bytes_def)

lemma later_part:
  assumes wc: "well_cut parts" and R: "R \<subseteq> {..<length parts}" and w: "waits_at parts i R k cs" and j: "j < length parts" "j \<noteq> k"
    and st: "stands parts i k (R \<inter> {k<..}) st" "streams cs = [st]"
    and res: "receive_stored True True ev i (parts ! j) (part_offset parts j) (0, length (parts ! j)) (j = length parts - 1) (cs, s)
      = ((cs', s'), q)"
  shows "waits_at parts i (insert j R) k cs' \<and> s' = s"
proof -
  let ?A = "R \<inter> {k<..}" and ?B = "insert j R \<inter> {k<..}"
  have A: "?A \<subseteq> {k<..<length parts}" "finite ?A" using R finite_subset [of ?A "{..<length parts}"] by auto
  have B: "?B = (if j < k then ?A else insert j ?A)" using j(2) by auto
  have sub: "?B \<subseteq> {..<length parts}" using R j(1) by auto
  have known: "j < k \<Longrightarrow> j \<in> R" using w by (auto simp: waits_at_def)
  have size: "part_bytes parts ?B = part_bytes parts ?A + (if j < k \<or> j \<in> ?A then 0 else length (parts ! j))"
    using part_bytes_insert [OF A(2)] B by (auto simp: insert_absorb)
  have fits: "part_bytes parts ?B \<le> length (concat parts)" using part_bytes_le [OF sub] .
  have "j < k \<or> j \<in> ?A \<or> length (parts ! j) \<le> available_bytes cs"
    using w size fits by (auto simp: waits_at_def available_bytes_def)
  from insert_part [OF wc st(1) A(1) j this] obtain u where
    u: "os_insert True (parts ! j) (part_offset parts j) (0, length (parts ! j)) (j = length parts - 1) (available_bytes cs) st
        = Inr (if j < k \<or> j \<in> ?A then 0 else length (parts ! j), u)" "stands parts i k ?B u" unfolding B by blast
  have live: "live_streams cs = [st]" "cb_find i cs = Some st" "os_id st = i" "os_id u = i"
    using st u(2) by (auto simp: live_streams_def cb_find_def stands_def)
  have "sat_add64 (retained_bytes cs) (if j < k \<or> j \<in> ?A then 0 else length (parts ! j)) = part_bytes parts ?B"
    using w size fits wc by (auto simp: sat_add_def waits_at_def well_cut_def)
  moreover have "find (at_cursor u) (retained u) = None"
    using stores_at_cursor(1) [OF wc, of ?B u k] u(2) by (auto simp: stands_def)
  ultimately have "cs' = cs\<lparr>streams := [u], retained_bytes := part_bytes parts ?B\<rparr> \<and> s' = s"
    using res st(2) live u(1)
    by (auto simp: receive_stored_def insert_range_def resume_copying_def resume_loop_idle cb_find_def Let_def)
  then show ?thesis using w u(2) j(2) by (auto simp: waits_at_def)
qed

text \<open>After a chunk taken whole, the direct branch leaves what draining the stream leaves.\<close>

lemma direct_then_drain:
  assumes "stream_chunk ev i off False bytes s = (Inr (length bytes), s1)" "\<not> violates_final (final_size st) (off + length bytes) False"
    and "streams cs = [st]" "os_id st = i"
  shows "fst (deliver_direct m1 ev i bytes off False b kept_packet st (cs, s))
    = fst (resume_copying ev i (cs\<lparr>streams := [st\<lparr>os_consumed := off + length bytes\<rparr>]\<rparr>, s1))"
proof (cases "retained st = []")
  case True
  then show ?thesis using assms by (simp add: deliver_direct_def set_final_def resume_copying_def cb_find_def resume_loop_idle)
next
  case False
  obtain w q where r: "resume_copying ev i (cs\<lparr>streams := [st\<lparr>os_consumed := off + length bytes\<rparr>]\<rparr>, s1) = (w, q)" by fastforce
  then show ?thesis using assms False by (cases q) (simp_all add: deliver_direct_def set_final_def)
qed

lemma resume_copying_only:
  assumes "streams cs = [st]" "os_id st = i" "resume_loop ev i 0 (retained_bytes cs) st s = (r, kept, s', q)"
  shows "fst (resume_copying ev i (cs, s)) = (cs\<lparr>streams := (case r of Some u \<Rightarrow> [u] | None \<Rightarrow> []), retained_bytes := kept\<rparr>, s')"
  using assms by (cases r) (simp_all add: resume_copying_def cb_find_def drop_stream_def)

lemma drained_awaiting:
  assumes "R \<subseteq> {..<length parts}" "waits_at parts i R k cs" "Suc k < length parts" "i \<notin> fs"
    and "drained parts i (Suc k) (R \<inter> {k<..}) r kept fs fs'"
  shows "awaiting parts i (insert k R)
    (cs\<lparr>streams := (case r of Some u \<Rightarrow> [u] | None \<Rightarrow> []), retained_bytes := kept\<rparr>, (log, fs'), s)"
proof -
  have R: "{..<k} \<subseteq> R" "k \<notin> R" using assms(2) by (auto simp: waits_at_def)
  have below: "{..<m} \<subseteq> insert k R" if "{Suc k..<m} \<subseteq> R \<inter> {k<..}" for m
  proof
    fix x assume "x \<in> {..<m}"
    then show "x \<in> insert k R" using that R by (cases x k rule: linorder_cases) auto
  qed
  consider (some) m u where "Suc k \<le> m" "{Suc k..<m} \<subseteq> R \<inter> {k<..}" "m \<notin> R \<inter> {k<..}" "r = Some u"
      "stands parts i m (R \<inter> {k<..} - {Suc k..<m}) u" "kept = part_bytes parts (R \<inter> {k<..} - {Suc k..<m})" "fs' = fs"
    | (all) "{Suc k..<length parts} \<subseteq> R \<inter> {k<..}" "r = None" "fs' = insert i fs"
    using assms(5) unfolding drained_def by blast
  then show ?thesis
  proof cases
    case (some m u)
    have m: "m < length parts" "m \<notin> insert k R" using some(1,3,5) by (auto simp: stands_def)
    have "R \<inter> {k<..} - {Suc k..<m} = insert k R \<inter> {m<..}" using some(1) m(2) by (auto simp: not_less le_less) (metis Suc_lessI)
    then have "waits_at parts i (insert k R) m (cs\<lparr>streams := [u], retained_bytes := kept\<rparr>)"
      using some(5,6) below [OF some(2)] m(2) assms(2) by (auto simp: waits_at_def)
    then show ?thesis using m assms(1,3,4) some(4,7) by (auto simp: awaiting_def)
  next
    case all
    then show ?thesis using below [OF all(1)] assms(1,3) by (auto simp: awaiting_def)
  qed
qed

lemma next_part:
  assumes wc: "well_cut parts" and R: "R \<subseteq> {..<length parts}" and w: "waits_at parts i R k cs" and acc: "accepts_all ev"
    and st: "stands parts i k (R \<inter> {k<..}) st" "streams cs = [st]" and d: "i \<notin> fs"
  shows "awaiting parts i (insert k R) (fst (deliver_direct True (logged ev) i (parts ! k) (part_offset parts k)
    (k = length parts - 1) 0 (Inr (parts ! k)) st (cs, (log, fs), s)))"
proof -
  have st': "k < length parts" "os_id st = i" using st(1) by (auto simp: stands_def)
  have fin: "\<not> violates_final (final_size st) (part_offset parts k + length (parts ! k)) (k = length parts - 1)"
    using st(1) part_segment [OF wc st'(1)] by (auto simp: violates_final_def segment_of_def stands_def)
  obtain l1 s1 where c: "stream_chunk (logged ev) i (part_offset parts k) (k = length parts - 1) (parts ! k) ((log, fs), s)
      = (Inr (length (parts ! k)), ((l1, fs), s1))" using accepts_all_logged [OF acc] by blast
  show ?thesis
  proof (cases "k = length parts - 1")
    case True
    have "{..<length parts} = insert k {..<k}" using True st'(1) by auto
    then have "{..<length parts} \<subseteq> insert k R" using w by (auto simp: waits_at_def)
    then show ?thesis using R fin c True st'(1) by (auto simp: awaiting_def deliver_direct_def)
  next
    case False
    then have k: "Suc k < length parts" using st'(1) by simp
    let ?u = "st\<lparr>os_consumed := part_offset parts (Suc k)\<rparr>"
    have "stands parts i (Suc k) (R \<inter> {k<..}) ?u" using st(1) k by (simp add: stands_def stores_def)
    moreover have "R \<inter> {k<..} \<subseteq> {Suc k..<length parts}" using R by auto
    moreover obtain r kept w2 q2 where l: "resume_loop (logged ev) i 0 (retained_bytes cs) ?u ((l1, fs), s1) = (r, kept, w2, q2)"
      by (metis prod.collapse)
    moreover obtain log2 fs2 s2 where w2: "w2 = ((log2, fs2), s2)" by (metis prod.collapse)
    ultimately have "drained parts i (Suc k) (R \<inter> {k<..}) r kept fs fs2"
      using resume_drains [OF wc acc] w by (simp add: waits_at_def)
    then show ?thesis using drained_awaiting [OF R w k d] l w2 False fin st(2) st'(2)
        direct_then_drain [of "logged ev" i "part_offset parts k" "parts ! k" "((log, fs), s)" "((l1, fs), s1)" st cs True 0 "Inr (parts ! k)"]
        resume_copying_only [of "cs\<lparr>streams := [?u]\<rparr>" ?u i "logged ev" "((l1, fs), s1)"] c part_offset_Suc [OF st'(1)]
      by simp
  qed
qed

lemma part_arrives:
  assumes wc: "well_cut parts" and acc: "accepts_all ev" and j: "j < length parts" and w: "awaiting parts i R w"
  shows "awaiting parts i (insert j R) (delivery_step ev (part_frame parts i j) w)"
proof -
  obtain cs log fs s where ww: "w = (cs, (log, fs), s)" by (metis prod.collapse)
  show ?thesis
  proof (cases "{..<length parts} \<subseteq> R")
    case True
    then show ?thesis using w j by (auto simp: ww awaiting_def part_frame_def)
  next
    case False
    then obtain k where R: "R \<subseteq> {..<length parts}" and new: "i \<notin> fs" and k: "waits_at parts i R k cs"
      using w by (auto simp: ww awaiting_def)
    then obtain st where st: "stands parts i k (R \<inter> {k<..}) st" "streams cs = [st] \<or> streams cs = [] \<and> st = os_new i"
      by (auto simp: waits_at_def)
    let ?cs = "cs\<lparr>streams := [st]\<rparr>"
    have k1: "waits_at parts i R k ?cs" using k st(1) by (auto simp: waits_at_def)
    have m: "stream_mut True i cs = (?cs, Inr st)" using stream_mut_waits [OF st] k by (simp add: waits_at_def)
    have cursor: "os_consumed st = part_offset parts k" "k < length parts" using st(1) by (auto simp: stands_def)
    have e: "checked_add u64_max (part_offset parts j) (length (parts ! j)) = Some (part_offset parts j + length (parts ! j))"
      using part_segment [OF wc j] by (simp add: checked_add_def segment_of_def)
    have step: "delivery_step ev (part_frame parts i j) w =
      fst (if direct (part_offset parts j) st
           then deliver_direct True (logged ev) i (parts ! j) (part_offset parts j) (j = length parts - 1) 0 (Inr (parts ! j)) st
             (?cs, (log, fs), s)
           else receive_stored True True (logged ev) i (parts ! j) (part_offset parts j) (0, length (parts ! j))
             (j = length parts - 1) (?cs, (log, fs), s))"
      unfolding ww part_frame_def delivery_step.simps try_receive_copying_borrowed_def try_receive_copying_range_def prod.case e m
      using new by simp
    show ?thesis
    proof (cases "j = k")
      case True
      have "direct (part_offset parts k) st"
        using st(1) stores_at_cursor(1) [OF wc, of "R \<inter> {k<..}" st k]
        by (auto simp: direct_def stands_def find_None_iff list_ex_iff)
      then show ?thesis using next_part [OF wc R k1 acc st(1) _ new] True step by simp
    next
      case False
      obtain cs' s' q where r: "receive_stored True True (logged ev) i (parts ! j) (part_offset parts j) (0, length (parts ! j))
          (j = length parts - 1) (?cs, (log, fs), s) = ((cs', s'), q)" by (metis prod.collapse)
      have "\<not> direct (part_offset parts j) st" using part_offset_inj [OF wc j cursor(2)] False cursor(1) by (auto simp: direct_def)
      then have "delivery_step ev (part_frame parts i j) w = (cs', (log, fs), s)"
        using later_part [OF wc R k1 j False st(1) _ r] r by (simp add: step)
      moreover have "k \<notin> insert j R" using k False by (auto simp: waits_at_def)
      ultimately show ?thesis using later_part [OF wc R k1 j False st(1) _ r] R j new cursor(2)
        by (auto simp: awaiting_def)
    qed
  qed
qed


definition greedy :: "(unit, unit) CopyingStreamEvents" where
  "greedy = \<lparr>stream_chunk = (\<lambda>i off fin bytes s. (Inr (length bytes), s)),
     stream_finished = (\<lambda>i s. s), stream_reset = (\<lambda>i code s. s)\<rparr>"


section \<open>Where the account of stored bytes is lost\<close>

text \<open>
  A range that arrives again while its first copy is out on lease is stored as new; completing the lease
  moves the cursor past it, so that it is neither delivered nor released.
\<close>

definition ignore_leases :: "unit StreamEvents" where
  "ignore_leases = \<lparr>leased_chunk = (\<lambda>c s. s), leased_finished = (\<lambda>i s. s), leased_reset = (\<lambda>i code s. s)\<rparr>"

definition leased_twice :: CallbackStreams where
  "leased_twice =
     (let receive = (\<lambda>w. fst (receive_leased True True ignore_leases 4 [1, 2] 0 (0, 2) False w));
          w = receive (receive (cb_new 4 64, ()))
      in fst (fst (cb_done ignore_leases \<lparr>sd_stream = 4, delivery_id = 1\<rparr> w)))"

theorem leased_retransmission_leaks:
  "retained_bytes leased_twice = 2 \<and> map os_consumed (streams leased_twice) = [2]
   \<and> map (map rt_offset \<circ> retained) (streams leased_twice) = [[0]] \<and> map outstanding (streams leased_twice) = [None]"
  by code_simp

text \<open>
  A borrowed range that reaches into a stored one moves the cursor into it; when the stream then finishes, it is
  dropped while the bytes of the stored range stay on the association's account.
\<close>

definition overlapped :: CallbackStreams where
  "overlapped = fst (delivery_run (taking 100)
     [Borrowed True True True 4 3 [4, 5] False, Borrowed True True True 4 0 [1, 2, 3, 4] False,
      Borrowed True True True 4 4 [5] True] 4 64 ())"

theorem borrowed_overlap_leaks: "streams overlapped = [] \<and> retained_bytes overlapped = 2"
  by code_simp

end
