(* ===== verification/Congestion.thy ===== *)
theory Congestion
  imports Transitions
begin

text \<open>
  Path estimators and pacing arithmetic of \<^verbatim>\<open>quic-lite/src/lib.rs\<close>: the round-trip estimator, the
  NewReno congestion controller, and the two fixed-point routines that refill the pacing budgets
  and compute the wait for a deficit, each with its narrow and its wide path.
\<close>

section \<open>Round-trip times\<close>

record RttEstimator =
  latest_rtt :: "u64 option"
  smoothed_rtt :: "u64 option"
  rttvar :: u64
  min_rtt :: "u64 option"
  min_rtt_sampled_at_us :: "u64 option"
  minimum_age_window_us :: u64

definition rtt_default :: RttEstimator where
  "rtt_default = \<lparr>latest_rtt = None, smoothed_rtt = None, rttvar = 0, min_rtt = None,
     min_rtt_sampled_at_us = None, minimum_age_window_us = 60000000\<rparr>"

definition INITIAL_PTO :: u64 where "INITIAL_PTO = 500000"
definition GRANULARITY :: u64 where "GRANULARITY = 1000"

definition set_minimum_age_window_us :: "u64 \<Rightarrow> RttEstimator \<Rightarrow> RttEstimator" where
  "set_minimum_age_window_us window_us r = r\<lparr>minimum_age_window_us := max window_us 1\<rparr>"

definition abs_diff :: "nat \<Rightarrow> nat \<Rightarrow> nat" where
  "abs_diff a b = (if a < b then b - a else a - b)"

definition rtt_update_at :: "u64 \<Rightarrow> u64 \<Rightarrow> RttEstimator \<Rightarrow> RttEstimator" where
  "rtt_update_at sample now_us r =
     (let minimum_expired = (case min_rtt_sampled_at_us r of
            None \<Rightarrow> True | Some sampled_at \<Rightarrow> now_us - sampled_at \<ge> minimum_age_window_us r);
          r1 = r\<lparr>latest_rtt := Some sample\<rparr>;
          r2 = (if minimum_expired \<or> (case min_rtt r1 of None \<Rightarrow> True | Some m \<Rightarrow> sample < m)
                then r1\<lparr>min_rtt := Some sample, min_rtt_sampled_at_us := Some now_us\<rparr> else r1)
      in (case smoothed_rtt r2 of
            None \<Rightarrow> r2\<lparr>smoothed_rtt := Some sample, rttvar := sample div 2\<rparr>
          | Some smoothed \<Rightarrow>
              let variation = abs_diff smoothed sample
              in r2\<lparr>rttvar := sat_add64 (sat_mul64 (rttvar r2) 3) variation div 4,
                    smoothed_rtt := Some (sat_add64 (sat_mul64 smoothed 7) sample div 8)\<rparr>))"

definition minimum_at :: "u64 \<Rightarrow> RttEstimator \<Rightarrow> u64 option" where
  "minimum_at now_us r = (case min_rtt_sampled_at_us r of
     None \<Rightarrow> None
   | Some sampled_at \<Rightarrow> if now_us - sampled_at < minimum_age_window_us r then min_rtt r else None)"

definition rtt_pto :: "RttEstimator \<Rightarrow> u64" where
  "rtt_pto r = (case smoothed_rtt r of
     None \<Rightarrow> INITIAL_PTO
   | Some smoothed \<Rightarrow> max (sat_add64 smoothed (max (sat_mul64 (rttvar r) 4) GRANULARITY)) GRANULARITY)"

section \<open>NewReno\<close>

record CongestionController =
  max_packet_size :: u64
  congestion_window :: u64
  slow_start_threshold :: u64
  bytes_in_flight :: u64
  recovery_start_packet :: "u32 option"

definition cc_new :: "u64 \<Rightarrow> CongestionController" where
  "cc_new max_packet =
     (let mds = max max_packet 1;
          initial_window = min (wrap_mul u64_max 10 mds) (max (wrap_mul u64_max 2 mds) 14720)
      in \<lparr>max_packet_size = mds, congestion_window = initial_window, slow_start_threshold = u64_max,
          bytes_in_flight = 0, recovery_start_packet = None\<rparr>)"

definition reset_for_resumption :: "CongestionController \<Rightarrow> CongestionController" where
  "reset_for_resumption c = c\<lparr>congestion_window := wrap_mul u64_max 2 (max_packet_size c),
     slow_start_threshold := u64_max, bytes_in_flight := 0, recovery_start_packet := None\<rparr>"

definition cc_can_send :: "CongestionController \<Rightarrow> u64 \<Rightarrow> bool" where
  "cc_can_send c bytes \<longleftrightarrow> sat_add64 (bytes_in_flight c) bytes \<le> congestion_window c"

definition on_packet_sent :: "u64 \<Rightarrow> CongestionController \<Rightarrow> CongestionController \<times> bool" where
  "on_packet_sent bytes c =
     (if \<not> cc_can_send c bytes then (c, False)
      else (c\<lparr>bytes_in_flight := sat_add64 (bytes_in_flight c) bytes\<rparr>, True))"

definition on_retransmission_sent :: "u64 \<Rightarrow> CongestionController \<Rightarrow> CongestionController" where
  "on_retransmission_sent bytes c = c\<lparr>bytes_in_flight := sat_add64 (bytes_in_flight c) bytes\<rparr>"

definition on_ack_with_growth :: "u64 \<Rightarrow> bool \<Rightarrow> CongestionController \<Rightarrow> CongestionController" where
  "on_ack_with_growth acked_bytes allow_growth c =
     (let acked = min acked_bytes (bytes_in_flight c);
          c1 = c\<lparr>bytes_in_flight := bytes_in_flight c - acked\<rparr>
      in if acked = 0 \<or> \<not> allow_growth then c1
         else if congestion_window c1 < slow_start_threshold c1
         then c1\<lparr>congestion_window := sat_add64 (congestion_window c1) acked\<rparr>
         else
           let increase = max (sat_mul64 (max_packet_size c1) acked div max (congestion_window c1) 1) 1
           in c1\<lparr>congestion_window := sat_add64 (congestion_window c1) increase\<rparr>)"

definition on_ack :: "u64 \<Rightarrow> CongestionController \<Rightarrow> CongestionController" where
  "on_ack acked_bytes c = on_ack_with_growth acked_bytes True c"

definition remove_in_flight :: "u64 \<Rightarrow> CongestionController \<Rightarrow> CongestionController" where
  "remove_in_flight bytes c = c\<lparr>bytes_in_flight := bytes_in_flight c - bytes\<rparr>"

definition on_packet_lost :: "u64 \<Rightarrow> u32 \<Rightarrow> u32 \<Rightarrow> CongestionController \<Rightarrow> CongestionController" where
  "on_packet_lost lost_bytes lost_packet_number largest_sent_packet c =
     (if lost_bytes = 0 then c
      else
        let c1 = c\<lparr>bytes_in_flight := bytes_in_flight c - lost_bytes\<rparr>
        in if (case recovery_start_packet c1 of None \<Rightarrow> False | Some start \<Rightarrow> lost_packet_number \<le> start) then c1
           else
             let reduced = congestion_window c1 div 2;
                 threshold = max reduced (wrap_mul u64_max 2 (max_packet_size c1))
             in c1\<lparr>slow_start_threshold := threshold, congestion_window := threshold,
                   recovery_start_packet := Some largest_sent_packet\<rparr>)"

definition on_persistent_congestion :: "u32 \<Rightarrow> CongestionController \<Rightarrow> CongestionController" where
  "on_persistent_congestion largest_sent_packet c =
     c\<lparr>congestion_window := wrap_mul u64_max 2 (max_packet_size c), recovery_start_packet := Some largest_sent_packet\<rparr>"

section \<open>Pacing arithmetic\<close>

definition pacing_refill_tokens :: "u64 \<Rightarrow> u64 \<Rightarrow> u64 \<Rightarrow> u64 \<Rightarrow> u64 \<times> u64" where
  "pacing_refill_tokens elapsed window rtt mss =
     (let rtt = max rtt 1; mss = max mss 1
      in (case (case checked_mul u64_max elapsed window of
                  None \<Rightarrow> None | Some n \<Rightarrow> checked_mul u64_max n (push_bit 16 1)) of
            Some numerator \<Rightarrow> let bytes = numerator div rtt in (bytes, bytes div mss)
          | None \<Rightarrow>
              let bytes = sat_mul128 (sat_mul128 elapsed window) (push_bit 16 1) div rtt
              in (min bytes u64_max, min (bytes div mss) u64_max)))"

definition wide_pacing_wait_us :: "u64 \<Rightarrow> u128 \<Rightarrow> u128 \<Rightarrow> u64" where
  "wide_pacing_wait_us deficit scale denominator =
     min (sat_add128 (sat_mul128 deficit scale) (denominator - 1) div denominator) u64_max"

definition pacing_wait_us :: "u64 \<Rightarrow> u128 \<Rightarrow> u128 \<Rightarrow> u64" where
  "pacing_wait_us deficit scale denominator =
     (let denominator = max denominator 1
      in if deficit = 0 then 0
         else (case
             (if scale \<le> u64_max \<and> denominator \<le> u64_max
              then (case checked_mul u64_max deficit scale of
                      None \<Rightarrow> None | Some value \<Rightarrow> checked_add u64_max value (denominator - 1))
              else None) of
           Some numerator \<Rightarrow> numerator div denominator
         | None \<Rightarrow> wide_pacing_wait_us deficit scale denominator))"

section \<open>The estimator stays within its samples\<close>

definition rtt_run :: "(u64 \<times> u64) list \<Rightarrow> RttEstimator \<Rightarrow> RttEstimator" where
  "rtt_run samples r = fold (\<lambda>(sample, now). rtt_update_at sample now) samples r"

definition rtt_within :: "u64 \<Rightarrow> u64 \<Rightarrow> RttEstimator \<Rightarrow> bool" where
  "rtt_within lo hi r \<longleftrightarrow> rttvar r \<le> hi
     \<and> (\<forall>s. smoothed_rtt r = Some s \<longrightarrow> lo \<le> s \<and> s \<le> hi)
     \<and> (\<forall>m. min_rtt r = Some m \<longrightarrow> lo \<le> m \<and> m \<le> hi)
     \<and> (\<forall>m. latest_rtt r = Some m \<longrightarrow> lo \<le> m \<and> m \<le> hi)"

lemma rtt_update_within:
  assumes "rtt_within lo hi r" "lo \<le> sample" "sample \<le> hi" "8 * hi \<le> u64_max"
  shows "rtt_within lo hi (rtt_update_at sample now r) \<and> smoothed_rtt (rtt_update_at sample now r) \<noteq> None"
proof (cases "smoothed_rtt r")
  case None
  with assms show ?thesis
    by (auto simp: rtt_update_at_def rtt_within_def Let_def split: option.splits)
next
  case (Some s)
  have s: "lo \<le> s" "s \<le> hi" "rttvar r \<le> hi" using assms(1) Some by (auto simp: rtt_within_def)
  have "sat_add64 (sat_mul64 s 7) sample = s * 7 + sample" "sat_add64 (sat_mul64 (rttvar r) 3) (abs_diff s sample)
      = rttvar r * 3 + abs_diff s sample"
    using s assms(2-4) by (auto simp: sat_add_def sat_mul_def abs_diff_def)
  moreover have "lo \<le> (s * 7 + sample) div 8" "(s * 7 + sample) div 8 \<le> hi" using s assms(2,3) by linarith+
  moreover have "abs_diff s sample \<le> hi" using s assms(2,3) by (auto simp: abs_diff_def)
  then have "(rttvar r * 3 + abs_diff s sample) div 4 \<le> hi" using s(3) by linarith
  ultimately show ?thesis
    using assms(1-3) Some by (auto simp: rtt_update_at_def rtt_within_def Let_def)
qed

lemma rtt_run_within:
  assumes "rtt_within lo hi r" "\<forall>(sample, now) \<in> set samples. lo \<le> sample \<and> sample \<le> hi" "8 * hi \<le> u64_max"
  shows "rtt_within lo hi (rtt_run samples r) \<and> (samples \<noteq> [] \<longrightarrow> smoothed_rtt (rtt_run samples r) \<noteq> None)"
  using assms(1,2)
proof (induction samples arbitrary: r)
  case (Cons x xs)
  obtain sample now where x: "x = (sample, now)" by (cases x)
  have u: "rtt_within lo hi (rtt_update_at sample now r) \<and> smoothed_rtt (rtt_update_at sample now r) \<noteq> None"
    using Cons.prems x assms(3) by (intro rtt_update_within) auto
  have "rtt_within lo hi (rtt_run xs (rtt_update_at sample now r))
      \<and> (xs \<noteq> [] \<longrightarrow> smoothed_rtt (rtt_run xs (rtt_update_at sample now r)) \<noteq> None)"
    using Cons.prems u by (intro Cons.IH) auto
  then show ?case using u by (cases "xs = []") (auto simp: rtt_run_def x)
qed (simp add: rtt_run_def)

text \<open>
  After any non-empty sequence of round-trip samples between \<open>lo\<close> and \<open>hi\<close>
  microseconds, whatever the clock did, the smoothed and the minimum round trip lie between
  \<open>lo\<close> and \<open>hi\<close>, and the probe timeout is at least one millisecond and the smoothed time and at most
  five times the largest sample plus one millisecond.
\<close>

lemma rtt_estimate_bounded:
  assumes "samples \<noteq> []" "\<forall>(sample, now) \<in> set samples. lo \<le> sample \<and> sample \<le> hi" "8 * hi \<le> u64_max"
  shows "\<exists>s. smoothed_rtt (rtt_run samples rtt_default) = Some s \<and> lo \<le> s \<and> s \<le> hi
    \<and> max s GRANULARITY \<le> rtt_pto (rtt_run samples rtt_default)
    \<and> rtt_pto (rtt_run samples rtt_default) \<le> 5 * hi + GRANULARITY
    \<and> (\<forall>m. minimum_at now' (rtt_run samples rtt_default) = Some m \<longrightarrow> lo \<le> m \<and> m \<le> hi)"
proof -
  let ?r = "rtt_run samples rtt_default"
  have "rtt_within lo hi rtt_default" by (simp add: rtt_within_def rtt_default_def)
  from rtt_run_within [OF this assms(2,3)] assms(1)
  obtain s where w: "rtt_within lo hi ?r" and s: "smoothed_rtt ?r = Some s" by auto
  have b: "lo \<le> s" "s \<le> hi" "rttvar ?r \<le> hi" using w s by (auto simp: rtt_within_def)
  have "sat_add64 s (max (sat_mul64 (rttvar ?r) 4) GRANULARITY) = s + max (rttvar ?r * 4) GRANULARITY"
    using b assms(3) by (auto simp: sat_add_def sat_mul_def GRANULARITY_def)
  then have "rtt_pto ?r = s + max (rttvar ?r * 4) GRANULARITY"
    by (simp add: rtt_pto_def s)
  then show ?thesis using s b w by (auto simp: minimum_at_def rtt_within_def split: option.splits if_splits)
qed

lemma rtt_estimate_bounded_witness:
  "\<exists>s. smoothed_rtt (rtt_run [(20000, 1), (80000, 5), (40000, 90)] rtt_default) = Some s \<and> 20000 \<le> s \<and> s \<le> 80000"
  using rtt_estimate_bounded [of "[(20000, 1), (80000, 5), (40000, 90)]" 20000 80000] by auto

section \<open>The congestion window\<close>

definition cc_inv :: "CongestionController \<Rightarrow> bool" where
  "cc_inv c \<longleftrightarrow> 1 \<le> max_packet_size c \<and> 10 * max_packet_size c \<le> u64_max
     \<and> 2 * max_packet_size c \<le> congestion_window c \<and> congestion_window c \<le> u64_max"

inductive cc_step :: "CongestionController \<Rightarrow> CongestionController \<Rightarrow> bool" where
  Sent: "on_packet_sent bytes c = (c', b) \<Longrightarrow> cc_step c c'"
| Retransmission: "cc_step c (on_retransmission_sent bytes c)"
| Ack: "cc_step c (on_ack_with_growth bytes growth c)"
| RemoveInFlight: "cc_step c (remove_in_flight bytes c)"
| Lost: "cc_step c (on_packet_lost bytes pn largest c)"
| Persistent: "cc_step c (on_persistent_congestion largest c)"
| Resumption: "cc_step c (reset_for_resumption c)"

definition cc_start :: "CongestionController \<Rightarrow> bool" where
  "cc_start c \<longleftrightarrow> (\<exists>mss. 10 * mss \<le> u64_max \<and> c = cc_new mss)"

lemma wrap_mul_exact: "a * b \<le> m \<Longrightarrow> wrap_mul m a b = a * b"
  by (simp add: wrap_mul_def)

interpretation congestion: stateful cc_start cc_step cc_inv
proof
  show "cc_inv c" if "cc_start c" for c
    using that by (auto simp: cc_start_def cc_new_def Let_def cc_inv_def wrap_mul_def)
  show "cc_inv c'" if "cc_inv c" "cc_step c c'" for c c'
    using that(2,1)
    by cases (auto simp: cc_inv_def on_packet_sent_def on_retransmission_sent_def on_ack_with_growth_def
        remove_in_flight_def on_packet_lost_def on_persistent_congestion_def reset_for_resumption_def
        wrap_mul_def sat_add_def Let_def split: if_splits)
qed

text \<open>
  Whatever is sent, acknowledged, lost or declared persistently congested, in any
  order, the congestion window never falls below two packets; so a path with nothing in flight
  can always send a full packet, and loss cannot silence it.
\<close>

theorem congestion_window_floor:
  assumes "10 * mss \<le> u64_max" "cc_step\<^sup>*\<^sup>* (cc_new mss) c"
  shows "2 * max_packet_size c \<le> congestion_window c \<and> 1 \<le> max_packet_size c
    \<and> (bytes_in_flight c = 0 \<longrightarrow> cc_can_send c (max_packet_size c))"
proof -
  have "cc_start (cc_new mss)" using assms(1) by (auto simp: cc_start_def)
  from congestion.inv_reachable [OF this assms(2)] show ?thesis
    by (auto simp: cc_inv_def cc_can_send_def sat_add_def)
qed

lemma congestion_window_floor_witness:
  "2 * 1100 \<le> congestion_window (on_persistent_congestion 9 (cc_new 1100))"
proof -
  have "cc_step\<^sup>*\<^sup>* (cc_new 1100) (on_persistent_congestion 9 (cc_new 1100))"
    by (intro r_into_rtranclp cc_step.Persistent)
  from congestion_window_floor [OF _ this] show ?thesis
    by (simp add: on_persistent_congestion_def cc_new_def Let_def)
qed

text \<open>
  One flight halves the window at most once: after the first loss beyond the old
  recovery boundary, further losses of packets sent before that loss was declared release their
  bytes but leave the window at half its former size, or two packets.
\<close>

theorem one_reduction_per_flight:
  assumes "0 < bytes" "\<forall>start. recovery_start_packet c = Some start \<longrightarrow> start < pn" "cc_inv c"
    and "\<forall>(b, p, l) \<in> set losses. p \<le> largest"
  shows "congestion_window (fold (\<lambda>(b, p, l). on_packet_lost b p l) losses (on_packet_lost bytes pn largest c))
    = max (congestion_window c div 2) (2 * max_packet_size c)"
proof -
  let ?c = "on_packet_lost bytes pn largest c"
  have first: "congestion_window ?c = max (congestion_window c div 2) (2 * max_packet_size c)"
    "recovery_start_packet ?c = Some largest"
    using assms(1-3) by (auto simp: on_packet_lost_def Let_def wrap_mul_def cc_inv_def split: option.splits)
  have "congestion_window (fold (\<lambda>(b, p, l). on_packet_lost b p l) losses d) = congestion_window d"
    if "recovery_start_packet d = Some largest" for d
    using that assms(4)
  proof (induction losses arbitrary: d)
    case (Cons x xs)
    obtain b p l where x: "x = (b, p, l)" by (cases x)
    have "recovery_start_packet (on_packet_lost b p l d) = Some largest
        \<and> congestion_window (on_packet_lost b p l d) = congestion_window d"
      using Cons.prems x by (auto simp: on_packet_lost_def Let_def)
    then show ?case using Cons x by auto
  qed simp
  with first show ?thesis by simp
qed

lemma one_reduction_per_flight_witness:
  "congestion_window (fold (\<lambda>(b, p, l). on_packet_lost b p l) [(1100, 4, 12), (1100, 9, 13)]
     (on_packet_lost 1100 7 10 (cc_new 1100))) = 5500"
proof -
  have "cc_inv (cc_new 1100)" "recovery_start_packet (cc_new 1100) = None"
    "max (congestion_window (cc_new 1100) div 2) (2 * max_packet_size (cc_new 1100)) = 5500" by code_simp+
  with one_reduction_per_flight [of 1100 "cc_new 1100" 7 "[(1100, 4, 12), (1100, 9, 13)]" 10] show ?thesis by simp
qed

text \<open>
  An acknowledgement opens the window by no more than the bytes that really left the
  flight, never below its old size, and not at all when nothing was in flight or growth is not
  allowed; the bytes in flight never go negative.
\<close>

theorem ack_growth_bounded:
  assumes "cc_inv c"
  shows "congestion_window c \<le> congestion_window (on_ack_with_growth n growth c)
    \<and> congestion_window (on_ack_with_growth n growth c)
        \<le> congestion_window c + (bytes_in_flight c - bytes_in_flight (on_ack_with_growth n growth c))
    \<and> bytes_in_flight (on_ack_with_growth n growth c) = bytes_in_flight c - n
    \<and> (\<not> growth \<or> bytes_in_flight c = 0 \<longrightarrow> congestion_window (on_ack_with_growth n growth c) = congestion_window c)"
proof -
  let ?a = "min n (bytes_in_flight c)" and ?w = "congestion_window c" and ?m = "max_packet_size c"
  have w: "?m \<le> ?w" "0 < ?w" "?w \<le> u64_max" using assms by (auto simp: cc_inv_def)
  have "max ?w 1 = ?w" using w(2) by simp
  then have "sat_mul64 ?m ?a div max ?w 1 \<le> ?m * ?a div ?w" by (simp add: sat_mul_def div_le_mono)
  also have "?m * ?a div ?w \<le> ?w * ?a div ?w" using w(1) by (intro div_le_mono mult_le_mono1)
  finally have inc: "max (sat_mul64 ?m ?a div max ?w 1) 1 \<le> ?a" if "?a \<noteq> 0" using that w(2) by simp
  have grow: "sat_add64 ?w k \<le> ?w + ?a" if "k \<le> ?a" for k using that unfolding sat_add_def by linarith
  have "?w \<le> sat_add64 ?w k" for k using w(3) by (simp add: sat_add_def)
  then show ?thesis
    using grow [OF inc] grow [OF order_refl] unfolding on_ack_with_growth_def Let_def by auto
qed

lemma ack_growth_bounded_witness:
  "congestion_window (on_ack_with_growth 3000 True (on_retransmission_sent 2000 (cc_new 1100))) \<le> 13000"
proof -
  let ?c = "on_retransmission_sent 2000 (cc_new 1100)"
  have h: "cc_inv ?c" "congestion_window ?c = 11000" "bytes_in_flight ?c = 2000" by code_simp+
  have "congestion_window (on_ack_with_growth 3000 True ?c)
      \<le> congestion_window ?c + (bytes_in_flight ?c - bytes_in_flight (on_ack_with_growth 3000 True ?c))"
    using ack_growth_bounded [OF h(1)] by blast
  also have "\<dots> \<le> 13000" unfolding h(2,3) by simp
  finally show ?thesis .
qed

section \<open>The narrow routines compute what the wide ones do\<close>

text \<open>
  The wait for a pacing deficit does not depend on which width was used to compute
  it: the 64-bit path, taken when the product and the rounding fit, agrees with the saturating
  128-bit ceiling for every input.
\<close>

lemma pacing_wait_narrow_eq_wide:
  "pacing_wait_us deficit scale denominator = wide_pacing_wait_us deficit scale (max denominator 1)"
proof -
  define d where "d = max denominator 1"
  have d: "0 < d" by (simp add: d_def)
  have "pacing_wait_us deficit scale denominator = wide_pacing_wait_us deficit scale d"
  proof (cases "deficit = 0")
    case True
    have "min u128_max (d - 1) div d = 0" using d by (intro div_less) linarith
    then show ?thesis using True
      unfolding pacing_wait_us_def wide_pacing_wait_us_def Let_def d_def [symmetric] by (simp add: sat_mul_def sat_add_def)
  next
    case False
    show ?thesis
    proof (cases "scale \<le> u64_max \<and> d \<le> u64_max \<and> deficit * scale + (d - 1) \<le> u64_max")
      case True
      have "sat_add128 (sat_mul128 deficit scale) (d - 1) = deficit * scale + (d - 1)"
        using True by (simp add: sat_mul_def sat_add_def)
      moreover have "(deficit * scale + (d - 1)) div d \<le> u64_max"
        using True by (meson div_le_dividend le_trans)
      ultimately show ?thesis using False True
        unfolding pacing_wait_us_def wide_pacing_wait_us_def Let_def d_def [symmetric]
        by (simp add: checked_mul_def checked_add_def)
    next
      case wide: False
      then show ?thesis using False
        unfolding pacing_wait_us_def Let_def d_def [symmetric] by (auto simp: checked_mul_def checked_add_def)
    qed
  qed
  then show ?thesis by (simp only: d_def)
qed

text \<open>
  Both pacing budgets are refilled from one quotient: whichever width is used, and as
  long as the product of time and window fits 128 bits, the tokens are the exact byte and packet
  rates rounded down, capped at 64 bits.
\<close>

lemma pacing_refill_exact:
  assumes "elapsed * window * 65536 \<le> u128_max"
  shows "pacing_refill_tokens elapsed window rtt mss =
    (min (elapsed * window * 65536 div max rtt 1) u64_max,
     min (elapsed * window * 65536 div (max rtt 1 * max mss 1)) u64_max)"
proof -
  define r m n where "r = max rtt 1" and "m = max mss 1" and "n = elapsed * window * 65536"
  have q: "n div (r * m) = n div r div m" by (simp add: div_mult2_eq)
  have "pacing_refill_tokens elapsed window rtt mss = (min (n div r) u64_max, min (n div (r * m)) u64_max)"
  proof (cases "n \<le> u64_max")
    case True
    have "checked_mul u64_max elapsed window = Some (elapsed * window)"
      "checked_mul u64_max (elapsed * window) (push_bit 16 1) = Some n"
      using True by (auto simp: n_def checked_mul_def)
    moreover have "n div r \<le> u64_max" "n div r div m \<le> u64_max" using True by (meson div_le_dividend le_trans)+
    ultimately show ?thesis
      unfolding pacing_refill_tokens_def Let_def r_def [symmetric] m_def [symmetric] q by (simp del: checked_mul_Some)
  next
    case False
    have "sat_mul128 (sat_mul128 elapsed window) (push_bit 16 1) = n"
      using assms by (simp add: sat_mul_def n_def)
    moreover have "(case checked_mul u64_max elapsed window of None \<Rightarrow> None | Some n \<Rightarrow> checked_mul u64_max n (push_bit 16 1)) = None"
      using False by (auto simp: checked_mul_def n_def)
    ultimately show ?thesis
      unfolding pacing_refill_tokens_def Let_def r_def [symmetric] m_def [symmetric] q by simp
  qed
  then show ?thesis by (simp only: r_def m_def n_def)
qed

lemma pacing_refill_exact_witness: "pacing_refill_tokens 1000 11000 50000 1100 = (14417920, 13107)"
  using pacing_refill_exact [of 1000 11000 50000 1100] by simp

end
