(* ===== verification/Path_State.thy ===== *)
theory Path_State
  imports Flow_Control Congestion
begin

text \<open>
  \<open>PathState\<close> of \<^verbatim>\<open>quic-lite/src/lib.rs\<close>: one network path of an association, with its pacing
  budgets, loss adaptation, delivery estimator, circuit status machine, probes and known
  addresses; the linked congestion increase over several paths; and the timer heads of the
  transmission ledger. The two configuration records are those of \<^verbatim>\<open>quic-lite/src/node.rs\<close>.
\<close>

section \<open>State\<close>

record PathEstimatorConfig =
  minimum_rtt_age_window_us :: u64
  delivery_horizon_packets :: nat
  rtt_step_threshold_percent :: u16
  rtt_step_consecutive_samples :: nat
  loss_step_consecutive_packets :: nat
  step_conservative_duration_us :: u64
  step_cost_multiplier_q16 :: u32

definition Q16_ONE :: u32 where "Q16_ONE = push_bit 16 1"

definition estimator_default_config :: PathEstimatorConfig where
  "estimator_default_config = \<lparr>minimum_rtt_age_window_us = 60000000, delivery_horizon_packets = 8,
     rtt_step_threshold_percent = 50, rtt_step_consecutive_samples = 3, loss_step_consecutive_packets = 3,
     step_conservative_duration_us = 5000000, step_cost_multiplier_q16 = Q16_ONE * 2\<rparr>"

definition estimator_is_valid :: "PathEstimatorConfig \<Rightarrow> bool" where
  "estimator_is_valid c \<longleftrightarrow> minimum_rtt_age_window_us c \<noteq> 0
     \<and> delivery_horizon_packets c \<noteq> 0 \<and> delivery_horizon_packets c \<le> 64
     \<and> rtt_step_threshold_percent c \<noteq> 0 \<and> rtt_step_threshold_percent c \<le> 1000
     \<and> rtt_step_consecutive_samples c \<noteq> 0 \<and> loss_step_consecutive_packets c \<noteq> 0
     \<and> step_conservative_duration_us c \<noteq> 0
     \<and> step_cost_multiplier_q16 c \<ge> Q16_ONE \<and> step_cost_multiplier_q16 c \<le> Q16_ONE * 16"

record PacingConfig =
  enabled :: bool
  max_burst_packets :: u16
  max_burst_bytes :: u32

definition pacing_host :: PacingConfig where
  "pacing_host = \<lparr>enabled = True, max_burst_packets = 8, max_burst_bytes = DEFAULT_MAX_PACKET_SIZE * 8\<rparr>"

definition pacing_embedded :: PacingConfig where
  "pacing_embedded = \<lparr>enabled = True, max_burst_packets = 4, max_burst_bytes = DEFAULT_MAX_PACKET_SIZE * 4\<rparr>"

definition pacing_is_valid :: "PacingConfig \<Rightarrow> bool" where
  "pacing_is_valid c \<longleftrightarrow> max_burst_packets c \<noteq> 0 \<and> max_burst_packets c \<le> 256
     \<and> max_burst_bytes c \<ge> DEFAULT_MAX_PACKET_SIZE \<and> max_burst_bytes c \<le> 1048576"

datatype CircuitStatus = COpening | CProbing | CActive | CStandby | CSuspended | CFailed | CClosed

record CongestionHistoryPacket =
  ch_packet_number :: u32
  ch_sent_at :: u64
  ch_accepted :: bool
  ch_acked :: bool
  ch_lost :: bool
  ch_had_rtt_sample :: bool
  ch_excluded :: bool

text \<open>A bearer handle and the bearer-local peer handle (\<open>BearerId(u16)\<close>, \<open>PeerL2Address(u64)\<close>).\<close>

type_synonym Address = "u16 \<times> u64"

record PathState =
  congestion :: CongestionController
  pacing_config :: PacingConfig
  pacing_byte_tokens_q16 :: u64
  pacing_packet_tokens_q16 :: u64
  pacing_last_refill_us :: u64
  pacing_deadline_us :: "u64 option"
  ca_remainder_q32 :: u32
  congestion_history :: "CongestionHistoryPacket list"
  persistent_congestion_end :: "u32 option"
  send_clock :: u64
  rtt :: RttEstimator
  last_pto_probe_at :: "u64 option"
  pto_backoff :: nat
  largest_acked_packet :: "u32 option"
  largest_acked_send_order :: "u64 option"
  largest_sent_packet :: "u32 option"
  next_send_order :: u64
  ack_pending :: bool
  ack_packets :: nat
  ack_immediate :: bool
  ack_started_at :: u64
  largest_received_packet :: "u32 option"
  largest_received_at :: u64
  local_cid :: "ConnectionId option"
  peer_cid :: "ConnectionId option"
  first_hop :: "Address option"
  active_address :: "Address option"
  known_addresses :: "Address list"
  circuit_key :: "CircuitKey option"
  transaction_id :: "u64 option"
  local_circuit_id :: u64
  join_attempts :: nat
  packets_sent :: u64
  retransmitted_packets :: u64
  ack_ranges_dropped :: u64
  packets_acked :: u64
  packets_lost :: u64
  spurious_losses :: u64
  packet_reordering_threshold :: u64
  loss_time_ratio_q16 :: u64
  packets_duplicated :: u64
  duplicate_bytes_prepared :: u64
  probe_bytes_prepared :: u64
  probe_bytes_budgeted :: u64
  probe_bytes_idle_exempt :: u64
  delivery_success_q16 :: u32
  estimator_config :: PathEstimatorConfig
  rtt_step_streak :: nat
  loss_step_streak :: nat
  step_conservative_until_us :: u64
  estimator_step_events :: u64
  last_ack_us :: u64
  next_probe_at_us :: "u64 option"
  pending_probe :: "(u64 \<times> u64) option"
  last_peer_probe_response :: "(u64 \<times> u64) option"
  probing :: bool
  suspended :: bool
  validated :: bool
  peer_standby :: bool
  peer_abandoned :: bool
  peer_status_sequence :: u64
  local_status_sequence :: u64
  pending_local_status :: "(u64 \<times> PathStatusKind) option"
  status_retry_at_us :: "u64 option"
  locally_abandoned :: bool

section \<open>Loss adaptation\<close>

definition MAX_PATH_STATES :: usize where "MAX_PATH_STATES = 4"
definition MAX_PATH_JOIN_ATTEMPTS :: nat where "MAX_PATH_JOIN_ATTEMPTS = 5"

definition loss_base_rtt_us :: "PathState \<Rightarrow> u64" where
  "loss_base_rtt_us p =
     max (max (case latest_rtt (rtt p) of None \<Rightarrow> 25000 | Some r \<Rightarrow> r)
              (case smoothed_rtt (rtt p) of None \<Rightarrow> 25000 | Some r \<Rightarrow> r)) 1"

definition record_spurious_loss_ack :: "u64 \<Rightarrow> u64 \<Rightarrow> PathState \<Rightarrow> PathState" where
  "record_spurious_loss_ack send_order sent_at p =
     (let p1 = p\<lparr>spurious_losses := sat_add64 (spurious_losses p) 1\<rparr>;
          distance = sat_add64 ((case largest_acked_send_order p1 of None \<Rightarrow> send_order | Some o' \<Rightarrow> o') - send_order) 1;
          p2 = p1\<lparr>packet_reordering_threshold := max (packet_reordering_threshold p1) (min distance 128)\<rparr>;
          elapsed = send_clock p2 - sent_at;
          ratio = div_ceil (sat_mul64 elapsed (9 * push_bit 16 1)) (sat_mul64 (loss_base_rtt_us p2) 8)
      in p2\<lparr>loss_time_ratio_q16 := max (loss_time_ratio_q16 p2) (min ratio (4 * push_bit 16 1))\<rparr>)"

definition loss_delay_us :: "u64 \<Rightarrow> PathState \<Rightarrow> u64" where
  "loss_delay_us max_ack_delay_us p =
     sat_add64 (div_ceil (sat_mul64 (loss_base_rtt_us p) (loss_time_ratio_q16 p)) (push_bit 16 1)) max_ack_delay_us"

section \<open>Construction\<close>

definition path_new :: "u64 \<Rightarrow> PathState" where
  "path_new max_packet =
     \<lparr>congestion = cc_new max_packet, pacing_config = pacing_host,
      pacing_byte_tokens_q16 = push_bit 16 (max_burst_bytes pacing_host),
      pacing_packet_tokens_q16 = push_bit 16 (max_burst_packets pacing_host),
      pacing_last_refill_us = 0, pacing_deadline_us = None, ca_remainder_q32 = 0,
      congestion_history = [], persistent_congestion_end = None, send_clock = 0,
      rtt = rtt_default, last_pto_probe_at = None, pto_backoff = 0,
      largest_acked_packet = None, largest_acked_send_order = None, largest_sent_packet = None,
      next_send_order = 0, ack_pending = False, ack_packets = 0, ack_immediate = False,
      ack_started_at = 0, largest_received_packet = None, largest_received_at = 0,
      local_cid = None, peer_cid = None, first_hop = None, active_address = None,
      known_addresses = [], circuit_key = None, transaction_id = None, local_circuit_id = 0,
      join_attempts = 0, packets_sent = 0, retransmitted_packets = 0, ack_ranges_dropped = 0,
      packets_acked = 0, packets_lost = 0, spurious_losses = 0, packet_reordering_threshold = 3,
      loss_time_ratio_q16 = 9 * push_bit 16 1 div 8, packets_duplicated = 0,
      duplicate_bytes_prepared = 0, probe_bytes_prepared = 0, probe_bytes_budgeted = 0,
      probe_bytes_idle_exempt = 0, delivery_success_q16 = push_bit 15 1,
      estimator_config = estimator_default_config, rtt_step_streak = 0, loss_step_streak = 0,
      step_conservative_until_us = 0, estimator_step_events = 0, last_ack_us = 0,
      next_probe_at_us = None, pending_probe = None, last_peer_probe_response = None,
      probing = False, suspended = False, validated = True, peer_standby = False,
      peer_abandoned = False, peer_status_sequence = 0, local_status_sequence = 0,
      pending_local_status = None, status_retry_at_us = None, locally_abandoned = False\<rparr>"

section \<open>Pacing\<close>

definition set_pacing_config :: "PacingConfig \<Rightarrow> PathState \<Rightarrow> PathState" where
  "set_pacing_config config p = p\<lparr>pacing_config := config,
     pacing_byte_tokens_q16 := push_bit 16 (max_burst_bytes config),
     pacing_packet_tokens_q16 := push_bit 16 (max_burst_packets config),
     pacing_last_refill_us := send_clock p, pacing_deadline_us := None\<rparr>"

text \<open>The refill half of \<open>can_send_paced\<close>, and its deadline for a deficit.\<close>

definition smoothed_or :: "u64 \<Rightarrow> PathState \<Rightarrow> u64" where
  "smoothed_or d p = max (case smoothed_rtt (rtt p) of None \<Rightarrow> d | Some r \<Rightarrow> r) 1"

definition pacing_refill :: "u64 \<Rightarrow> PathState \<Rightarrow> PathState" where
  "pacing_refill now_us p =
     (let window = max (congestion_window (congestion p)) 1;
          rtt' = smoothed_or 100000 p;
          mss = max (max_packet_size (congestion p)) 1;
          elapsed = now_us - pacing_last_refill_us p
      in if elapsed \<noteq> 0 then
           let byte_cap = push_bit 16 (max_burst_bytes (pacing_config p));
               packet_cap = push_bit 16 (max_burst_packets (pacing_config p));
               (byte_refill, packet_refill) = pacing_refill_tokens elapsed window rtt' mss
           in p\<lparr>pacing_byte_tokens_q16 := min (sat_add64 (pacing_byte_tokens_q16 p) byte_refill) byte_cap,
                pacing_packet_tokens_q16 := min (sat_add64 (pacing_packet_tokens_q16 p) packet_refill) packet_cap,
                pacing_last_refill_us := now_us\<rparr>
         else p)"

definition pacing_wait :: "u64 \<Rightarrow> u64 \<Rightarrow> PathState \<Rightarrow> u64" where
  "pacing_wait byte_deficit packet_deficit p =
     (let window = max (congestion_window (congestion p)) 1;
          rtt' = smoothed_or 100000 p;
          mss = max (max_packet_size (congestion p)) 1;
          byte_denominator = max (sat_mul128 window (push_bit 16 1)) 1;
          byte_wait = pacing_wait_us byte_deficit rtt' byte_denominator;
          packet_denominator = max (sat_mul128 rtt' mss) 1;
          packet_wait = (if packet_deficit = 0 then 0
                         else pacing_wait_us packet_deficit packet_denominator byte_denominator)
      in max (max byte_wait packet_wait) 1)"

definition can_send_paced :: "u64 \<Rightarrow> u64 \<Rightarrow> PathState \<Rightarrow> PathState \<times> bool" where
  "can_send_paced bytes now_us p =
     (if \<not> enabled (pacing_config p) then (p\<lparr>pacing_deadline_us := None\<rparr>, True)
      else
        let p1 = pacing_refill now_us p;
            needed_bytes = sat_mul64 bytes (push_bit 16 1);
            needed_packet = push_bit 16 1;
            byte_deficit = needed_bytes - pacing_byte_tokens_q16 p1;
            packet_deficit = needed_packet - pacing_packet_tokens_q16 p1
        in if byte_deficit \<noteq> 0 \<or> packet_deficit \<noteq> 0
           then (p1\<lparr>pacing_deadline_us := Some (sat_add64 now_us (pacing_wait byte_deficit packet_deficit p1))\<rparr>, False)
           else (p1\<lparr>pacing_deadline_us := None\<rparr>, True))"

definition try_reserve_pacing :: "u64 \<Rightarrow> u64 \<Rightarrow> PathState \<Rightarrow> PathState \<times> bool" where
  "try_reserve_pacing bytes now_us p =
     (let (p1, allowed) = can_send_paced bytes now_us p
      in if \<not> allowed then (p1, False)
         else if enabled (pacing_config p1)
         then (p1\<lparr>pacing_byte_tokens_q16 := pacing_byte_tokens_q16 p1 - sat_mul64 bytes (push_bit 16 1),
                  pacing_packet_tokens_q16 := pacing_packet_tokens_q16 p1 - push_bit 16 1\<rparr>, True)
         else (p1, True))"

section \<open>Addresses\<close>

text \<open>
  \<open>mem\<close> is whether \<^verbatim>\<open>try_reserve\<close> obtained memory.
\<close>

definition remember_address :: "bool \<Rightarrow> Address \<Rightarrow> PathState \<Rightarrow> PathState" where
  "remember_address mem address p =
     (let p1 = p\<lparr>first_hop := Some (case first_hop p of None \<Rightarrow> address | Some hop \<Rightarrow> hop)\<rparr>
      in if (case known_addresses p1 of [] \<Rightarrow> None | known # _ \<Rightarrow> Some known) \<noteq> Some address
         then
           if address \<in> set (known_addresses p1)
           then p1\<lparr>known_addresses := take 4 (address # remove_first (\<lambda>known. known = address) (known_addresses p1)),
                   active_address := Some address\<rparr>
           else if \<not> mem then p1\<lparr>active_address := Some address\<rparr>
           else p1\<lparr>known_addresses := take 4 (address # known_addresses p1), active_address := Some address\<rparr>
         else p1\<lparr>active_address := Some address\<rparr>)"

definition remove_bearer :: "u16 \<Rightarrow> PathState \<Rightarrow> PathState" where
  "remove_bearer i p =
     (let p1 = p\<lparr>known_addresses := filter (\<lambda>(bearer, _). bearer \<noteq> i) (known_addresses p)\<rparr>
      in if (case active_address p1 of None \<Rightarrow> False | Some (bearer, _) \<Rightarrow> bearer = i)
         then p1\<lparr>active_address := (case known_addresses p1 of [] \<Rightarrow> None | known # _ \<Rightarrow> Some known)\<rparr>
         else p1)"

section \<open>Estimators\<close>

definition measured_send_cost_us :: "PathState \<Rightarrow> u64" where
  "measured_send_cost_us p =
     (let rtt_us = smoothed_or 500000 p;
          window = max (congestion_window (congestion p)) 1;
          queued = sat_mul128 rtt_us (min (bytes_in_flight (congestion p)) window) div window;
          delivery_probability = max (delivery_success_q16 p) 1;
          cost = sat_mul128 (sat_add128 rtt_us queued) (push_bit 16 1) div delivery_probability;
          conservative = (if send_clock p < step_conservative_until_us p
                          then sat_mul128 cost (step_cost_multiplier_q16 (estimator_config p)) div push_bit 16 1
                          else cost)
      in min conservative u64_max)"

definition set_estimator_config :: "PathEstimatorConfig \<Rightarrow> PathState \<Rightarrow> PathState" where
  "set_estimator_config config p = p\<lparr>estimator_config := config,
     rtt := set_minimum_age_window_us (minimum_rtt_age_window_us config) (rtt p),
     rtt_step_streak := 0, loss_step_streak := 0\<rparr>"

definition is_probe_eligible :: "PathState \<Rightarrow> bool" where
  "is_probe_eligible p \<longleftrightarrow> \<not> suspended p \<and> \<not> peer_abandoned p \<and> \<not> locally_abandoned p \<and> (validated p \<or> probing p)"

definition trigger_estimator_step :: "u64 \<Rightarrow> PathState \<Rightarrow> PathState" where
  "trigger_estimator_step now_us p =
     (if now_us < step_conservative_until_us p then p
      else
        let p1 = p\<lparr>step_conservative_until_us := sat_add64 now_us (step_conservative_duration_us (estimator_config p)),
                   estimator_step_events := sat_add64 (estimator_step_events p) 1\<rparr>
        in if pending_probe p1 = None \<and> is_probe_eligible p1 then p1\<lparr>next_probe_at_us := Some now_us\<rparr> else p1)"

definition update_rtt :: "u64 \<Rightarrow> u64 \<Rightarrow> PathState \<Rightarrow> PathState" where
  "update_rtt sample now_us p =
     (let baseline = max (case minimum_at now_us (rtt p) of
                            Some m \<Rightarrow> m
                          | None \<Rightarrow> (case smoothed_rtt (rtt p) of Some s \<Rightarrow> s | None \<Rightarrow> sample)) 1;
          threshold = sat_add u16_max 100 (rtt_step_threshold_percent (estimator_config p));
          elevated = sat_mul128 sample 100 \<ge> sat_mul128 baseline threshold;
          p1 = p\<lparr>rtt_step_streak := (if elevated then sat_add u8_max (rtt_step_streak p) 1 else 0)\<rparr>;
          p2 = p1\<lparr>rtt := rtt_update_at sample now_us (rtt p1)\<rparr>
      in if rtt_step_streak p2 \<ge> rtt_step_consecutive_samples (estimator_config p2)
         then trigger_estimator_step now_us (p2\<lparr>rtt_step_streak := 0\<rparr>)
         else p2)"

text \<open>
  A valid configuration has a positive horizon; with the horizon zero the division of the source
  panics, so the horizon is a precondition of this operation.
\<close>

definition record_delivery_outcome :: "bool \<Rightarrow> u64 \<Rightarrow> PathState \<Rightarrow> PathState" where
  "record_delivery_outcome delivered now_us p =
     (let sample = (if delivered then push_bit 16 1 else 0);
          horizon = delivery_horizon_packets (estimator_config p);
          p1 = p\<lparr>delivery_success_q16 :=
                  sat_add u32_max (sat_mul u32_max (delivery_success_q16 p) (horizon - 1)) sample div horizon\<rparr>;
          p2 = p1\<lparr>delivery_success_q16 := max (delivery_success_q16 p1) 1\<rparr>
      in if delivered then p2\<lparr>loss_step_streak := 0\<rparr>
         else
           let p3 = p2\<lparr>loss_step_streak := sat_add u8_max (loss_step_streak p2) 1\<rparr>
           in if loss_step_streak p3 \<ge> loss_step_consecutive_packets (estimator_config p3)
              then trigger_estimator_step now_us (p3\<lparr>loss_step_streak := 0\<rparr>)
              else p3)"

section \<open>Status of the circuit\<close>

definition is_usable_for_data :: "PathState \<Rightarrow> bool" where
  "is_usable_for_data p \<longleftrightarrow> validated p \<and> \<not> suspended p \<and> \<not> peer_abandoned p \<and> \<not> locally_abandoned p"

definition is_closed :: "PathState \<Rightarrow> bool" where
  "is_closed p \<longleftrightarrow> locally_abandoned p \<or> peer_abandoned p"

definition pending_status :: "u64 \<Rightarrow> PathState \<Rightarrow> (CircuitKey \<times> u64 \<times> PathStatusKind) option" where
  "pending_status now_us p =
     (case pending_local_status p of
        None \<Rightarrow> None
      | Some (sequence, status) \<Rightarrow>
          if (case status_retry_at_us p of None \<Rightarrow> False | Some deadline \<Rightarrow> deadline > now_us) then None
          else (case circuit_key p of None \<Rightarrow> None | Some key \<Rightarrow> Some (key, sequence, status)))"

definition queue_status :: "PathStatusKind \<Rightarrow> PathState \<Rightarrow> PathState \<times> u64 result" where
  "queue_status status p =
     (if circuit_key p = None then (p, Inl Invalid)
      else if locally_abandoned p \<and> status \<noteq> Abandon then (p, Inl Invalid)
      else (case checked_add u64_max (local_status_sequence p) 1 of
          None \<Rightarrow> (p, Inl PacketNumberExhausted)
        | Some sequence \<Rightarrow>
            if \<not> sequence < push_bit 62 1 then (p, Inl PacketNumberExhausted)
            else
              let p1 = p\<lparr>local_status_sequence := sequence\<rparr>;
                  p2 = (if status = Abandon
                        then p1\<lparr>locally_abandoned := True, validated := False, probing := False,
                                pending_probe := None, next_probe_at_us := None\<rparr>
                        else p1)
              in (p2\<lparr>pending_local_status := Some (sequence, status), status_retry_at_us := Some (send_clock p2)\<rparr>,
                  Inr sequence)))"

definition status_is :: "u64 \<Rightarrow> PathState \<Rightarrow> bool" where
  "status_is sequence p = (case pending_local_status p of None \<Rightarrow> False | Some (pending, _) \<Rightarrow> pending = sequence)"

definition status_sent :: "u64 \<Rightarrow> u64 \<Rightarrow> PathState \<Rightarrow> PathState" where
  "status_sent sequence retry_at_us p =
     (if status_is sequence p then p\<lparr>status_retry_at_us := Some retry_at_us\<rparr> else p)"

definition acknowledge_status :: "u64 \<Rightarrow> PathState \<Rightarrow> PathState" where
  "acknowledge_status sequence p =
     (if status_is sequence p then p\<lparr>pending_local_status := None, status_retry_at_us := None\<rparr> else p)"

definition receive_status :: "u64 \<Rightarrow> PathStatusKind \<Rightarrow> PathState \<Rightarrow> PathState \<times> bool" where
  "receive_status sequence status p =
     (if sequence \<le> peer_status_sequence p \<or> peer_abandoned p then (p, False)
      else
        let p1 = p\<lparr>peer_status_sequence := sequence\<rparr>
        in ((case status of
               Available \<Rightarrow> p1\<lparr>peer_standby := False\<rparr>
             | Standby \<Rightarrow> p1\<lparr>peer_standby := True\<rparr>
             | Abandon \<Rightarrow> p1\<lparr>peer_abandoned := True, peer_standby := False\<rparr>), True))"

definition local_abandon_complete :: "PathState \<Rightarrow> bool" where
  "local_abandon_complete p \<longleftrightarrow> locally_abandoned p \<and> pending_local_status p = None"

definition local_abandon_pending :: "PathState \<Rightarrow> bool" where
  "local_abandon_pending p \<longleftrightarrow> locally_abandoned p \<and> pending_local_status p \<noteq> None"

definition circuit_status :: "PathState \<Rightarrow> CircuitStatus" where
  "circuit_status p =
     (if is_closed p then CClosed
      else if suspended p then CSuspended
      else if probing p then CProbing
      else if peer_standby p then CStandby
      else if validated p then CActive
      else COpening)"

definition set_circuit :: "CircuitKey \<Rightarrow> u64 \<Rightarrow> u64 \<Rightarrow> PathState \<Rightarrow> PathState" where
  "set_circuit key transaction circuit p = p\<lparr>circuit_key := Some key, transaction_id := Some transaction,
     local_circuit_id := circuit, join_attempts := 1, validated := False\<rparr>"

definition record_join_retry :: "PathState \<Rightarrow> PathState \<times> bool" where
  "record_join_retry p =
     (if join_attempts p \<ge> MAX_PATH_JOIN_ATTEMPTS then (p, False)
      else (p\<lparr>join_attempts := join_attempts p + 1\<rparr>, True))"

definition mark_validated :: "PathState \<Rightarrow> PathState" where
  "mark_validated p = p\<lparr>validated := True, probing := False, suspended := False\<rparr>"

definition mark_probing :: "PathState \<Rightarrow> PathState" where
  "mark_probing p = p\<lparr>validated := False, probing := True, suspended := False, pending_probe := None\<rparr>"

definition mark_suspended :: "PathState \<Rightarrow> PathState" where
  "mark_suspended p = p\<lparr>validated := False, probing := False, suspended := True, pending_probe := None,
     next_probe_at_us := None\<rparr>"

definition mark_unvalidated :: "PathState \<Rightarrow> PathState" where
  "mark_unvalidated p = p\<lparr>validated := False\<rparr>"

definition reset_recovery_for_resumption :: "PathState \<Rightarrow> PathState" where
  "reset_recovery_for_resumption p = p\<lparr>congestion := reset_for_resumption (congestion p), pto_backoff := 0,
     last_pto_probe_at := None, persistent_congestion_end := None\<rparr>"

section \<open>Probes\<close>

definition schedule_probe :: "u64 \<Rightarrow> PathState \<Rightarrow> PathState" where
  "schedule_probe deadline_us p = p\<lparr>next_probe_at_us := Some deadline_us\<rparr>"

definition can_respond_to_peer_probe :: "u64 \<Rightarrow> u64 \<Rightarrow> u64 \<Rightarrow> PathState \<Rightarrow> bool" where
  "can_respond_to_peer_probe token now_us interval_us p =
     (case last_peer_probe_response p of
        None \<Rightarrow> True
      | Some (last_token, last_at) \<Rightarrow> last_token \<noteq> token \<and> now_us - last_at \<ge> interval_us)"

definition record_peer_probe_response :: "u64 \<Rightarrow> u64 \<Rightarrow> PathState \<Rightarrow> PathState" where
  "record_peer_probe_response token now_us p = p\<lparr>last_peer_probe_response := Some (token, now_us)\<rparr>"

definition assign_send_order :: "PathState \<Rightarrow> PathState \<times> u64 result" where
  "assign_send_order p =
     (let order = next_send_order p
      in (case checked_add u64_max order 1 of
            None \<Rightarrow> (p, Inl HistoryFull)
          | Some next \<Rightarrow> (p\<lparr>next_send_order := next\<rparr>, Inr order)))"

definition begin_probe :: "u64 \<Rightarrow> u64 \<Rightarrow> u64 \<Rightarrow> PathState \<Rightarrow> PathState" where
  "begin_probe token now_us interval_us p = p\<lparr>pending_probe := Some (token, now_us),
     next_probe_at_us := Some (sat_add64 now_us interval_us)\<rparr>"

definition complete_probe :: "u64 \<Rightarrow> u64 \<Rightarrow> PathState \<Rightarrow> PathState \<times> u64 option" where
  "complete_probe token now_us p =
     (case pending_probe p of
        None \<Rightarrow> (p, None)
      | Some (pending, sent_at_us) \<Rightarrow>
          if pending \<noteq> token then (p, None)
          else
            let p1 = p\<lparr>pending_probe := None\<rparr>;
                sample = now_us - sent_at_us;
                p2 = update_rtt sample now_us p1
            in (p2\<lparr>step_conservative_until_us := 0\<rparr>, Some sample))"

definition update_probe_submission_time :: "u64 \<Rightarrow> u64 \<Rightarrow> PathState \<Rightarrow> PathState" where
  "update_probe_submission_time token sent_at_us p =
     (case pending_probe p of
        Some (pending, _) \<Rightarrow> if pending = token then p\<lparr>pending_probe := Some (token, sent_at_us)\<rparr> else p
      | None \<Rightarrow> p)"

section \<open>The pacing budget\<close>

lemma pacing_refill_pending [simp]:
  "pacing_config (pacing_refill now p) = pacing_config p" "congestion (pacing_refill now p) = congestion p"
  "rtt (pacing_refill now p) = rtt p"
  by (simp_all add: pacing_refill_def Let_def split_beta)

lemma can_send_paced_keeps [simp]:
  "pacing_config (fst (can_send_paced b now p)) = pacing_config p"
  "congestion (fst (can_send_paced b now p)) = congestion p" "rtt (fst (can_send_paced b now p)) = rtt p"
  by (simp_all add: can_send_paced_def Let_def)

lemma try_reserve_pacing_keeps [simp]:
  "pacing_config (fst (try_reserve_pacing b now p)) = pacing_config p"
  "congestion (fst (try_reserve_pacing b now p)) = congestion p" "rtt (fst (try_reserve_pacing b now p)) = rtt p"
  by (simp_all add: try_reserve_pacing_def split_beta)

lemma pacing_refill_tokens_le:
  "fst (pacing_refill_tokens elapsed window r mss) * max r 1 \<le> elapsed * window * 65536"
proof -
  define d where "d = max r 1"
  have "n div d * d \<le> n" for n by (simp add: div_times_less_eq_dividend)
  moreover have "sat_mul128 (sat_mul128 elapsed window) 65536 \<le> elapsed * window * 65536"
  proof -
    have "sat_mul128 elapsed window \<le> elapsed * window" by (simp add: sat_mul_def)
    then have "sat_mul128 elapsed window * 65536 \<le> elapsed * window * 65536" by simp
    then show ?thesis by (simp add: sat_mul_def)
  qed
  ultimately have w: "min (sat_mul128 (sat_mul128 elapsed window) 65536 div d) u64_max * d \<le> elapsed * window * 65536"
    by (meson le_trans min.cobounded1 mult_le_mono1)
  show ?thesis
    unfolding pacing_refill_tokens_def Let_def d_def [symmetric]
    using w \<open>\<And>n. n div d * d \<le> n\<close> by (auto simp: checked_mul_def)
qed

text \<open>
  The rate of a path and what a sequence of attempts is granted: each attempt is a packet length
  and the time of the attempt.
\<close>

definition pacing_window :: "PathState \<Rightarrow> u64" where
  "pacing_window p = max (congestion_window (congestion p)) 1"

fun pacing_run :: "(u64 \<times> u64) list \<Rightarrow> PathState \<Rightarrow> PathState \<times> nat" where
  "pacing_run [] p = (p, 0)"
| "pacing_run ((bytes, now) # attempts) p =
     (let (p1, ok) = try_reserve_pacing bytes now p; (p2, granted) = pacing_run attempts p1
      in (p2, (if ok then bytes else 0) + granted))"

lemma smoothed_or_pos [simp]: "0 < smoothed_or d p"
  by (simp add: smoothed_or_def)

lemma smoothed_or_cong: "rtt p = rtt q \<Longrightarrow> smoothed_or d p = smoothed_or d q"
  by (simp add: smoothed_or_def)

lemma pacing_refill_rate:
  "pacing_byte_tokens_q16 (pacing_refill now p) * smoothed_or 100000 p
     \<le> pacing_byte_tokens_q16 p * smoothed_or 100000 p
        + (pacing_last_refill_us (pacing_refill now p) - pacing_last_refill_us p) * pacing_window p * 65536
   \<and> pacing_last_refill_us p \<le> pacing_last_refill_us (pacing_refill now p)
   \<and> pacing_last_refill_us (pacing_refill now p) \<le> max now (pacing_last_refill_us p)"
proof (cases "now - pacing_last_refill_us p = 0")
  case False
  define e r w m where "e = now - pacing_last_refill_us p" and "r = smoothed_or 100000 p"
    and "w = pacing_window p" and "m = max (max_packet_size (congestion p)) 1"
  have r: "max r 1 = r" by (simp add: r_def smoothed_or_def)
  have "pacing_byte_tokens_q16 (pacing_refill now p) \<le> pacing_byte_tokens_q16 p + fst (pacing_refill_tokens e w r m)"
    "pacing_last_refill_us (pacing_refill now p) = now"
    using False unfolding pacing_refill_def Let_def
    by (simp_all add: split_beta e_def r_def w_def m_def pacing_window_def sat_add_def min.coboundedI1 min.coboundedI2 del: One_nat_def)
  moreover from this(1) have "pacing_byte_tokens_q16 (pacing_refill now p) * r
      \<le> (pacing_byte_tokens_q16 p + fst (pacing_refill_tokens e w r m)) * r"
    by (rule mult_le_mono1)
  moreover have "now - pacing_last_refill_us p = e" "pacing_last_refill_us p \<le> now" using False by (simp_all add: e_def)
  ultimately show ?thesis
    using pacing_refill_tokens_le [of e w r m] unfolding r r_def [symmetric] w_def [symmetric]
    by (auto simp: add_mult_distrib)
qed (simp add: pacing_refill_def Let_def)

lemma try_reserve_pacing_rate:
  assumes "enabled (pacing_config p)" "bytes * 65536 \<le> u64_max"
  shows "(pacing_byte_tokens_q16 (fst (try_reserve_pacing bytes now p))
            + (if snd (try_reserve_pacing bytes now p) then bytes * 65536 else 0)) * smoothed_or 100000 p
     \<le> pacing_byte_tokens_q16 p * smoothed_or 100000 p
        + (pacing_last_refill_us (fst (try_reserve_pacing bytes now p)) - pacing_last_refill_us p) * pacing_window p * 65536
   \<and> pacing_last_refill_us p \<le> pacing_last_refill_us (fst (try_reserve_pacing bytes now p))
   \<and> pacing_last_refill_us (fst (try_reserve_pacing bytes now p)) \<le> max now (pacing_last_refill_us p)"
proof -
  let ?r = "pacing_refill now p"
  have "pacing_last_refill_us (fst (try_reserve_pacing bytes now p)) = pacing_last_refill_us ?r"
    using assms(1) by (simp add: try_reserve_pacing_def can_send_paced_def Let_def split_beta)
  moreover have "pacing_byte_tokens_q16 (fst (try_reserve_pacing bytes now p))
      + (if snd (try_reserve_pacing bytes now p) then bytes * 65536 else 0) = pacing_byte_tokens_q16 ?r"
    using assms by (simp add: try_reserve_pacing_def can_send_paced_def Let_def split_beta sat_mul_def)
  ultimately show ?thesis using pacing_refill_rate [of now p] by simp
qed

lemma pacing_run_rate:
  assumes "enabled (pacing_config p)" "\<forall>(bytes, now) \<in> set attempts. now \<le> t \<and> bytes * 65536 \<le> u64_max"
    "pacing_run attempts p = (q, granted)"
  shows "(pacing_byte_tokens_q16 q + granted * 65536) * smoothed_or 100000 p
     \<le> pacing_byte_tokens_q16 p * smoothed_or 100000 p
        + (pacing_last_refill_us q - pacing_last_refill_us p) * pacing_window p * 65536
   \<and> pacing_last_refill_us p \<le> pacing_last_refill_us q \<and> pacing_last_refill_us q \<le> max t (pacing_last_refill_us p)"
  using assms
proof (induction attempts arbitrary: p q granted)
  case (Cons x xs)
  obtain bytes now where x: "x = (bytes, now)" by (cases x)
  obtain p1 ok where s: "try_reserve_pacing bytes now p = (p1, ok)" by (cases "try_reserve_pacing bytes now p")
  obtain g where r: "pacing_run xs p1 = (q, g)" and g: "granted = (if ok then bytes else 0) + g"
    using Cons.prems(3) s by (auto simp: x split_beta Let_def prod_eq_iff)
  have k: "pacing_config p1 = pacing_config p" "congestion p1 = congestion p" "rtt p1 = rtt p"
    using try_reserve_pacing_keeps [of bytes now p] s by simp_all
  have w: "smoothed_or 100000 p1 = smoothed_or 100000 p" "pacing_window p1 = pacing_window p"
    using k by (simp_all add: pacing_window_def cong: smoothed_or_cong)
  have IH: "(pacing_byte_tokens_q16 q + g * 65536) * smoothed_or 100000 p
     \<le> pacing_byte_tokens_q16 p1 * smoothed_or 100000 p
        + (pacing_last_refill_us q - pacing_last_refill_us p1) * pacing_window p * 65536
    \<and> pacing_last_refill_us p1 \<le> pacing_last_refill_us q \<and> pacing_last_refill_us q \<le> max t (pacing_last_refill_us p1)"
    using Cons.IH [of p1, OF _ _ r] Cons.prems(1,2) k w by simp
  have st: "(pacing_byte_tokens_q16 p1 + (if ok then bytes * 65536 else 0)) * smoothed_or 100000 p
     \<le> pacing_byte_tokens_q16 p * smoothed_or 100000 p
        + (pacing_last_refill_us p1 - pacing_last_refill_us p) * pacing_window p * 65536
    \<and> pacing_last_refill_us p \<le> pacing_last_refill_us p1 \<and> pacing_last_refill_us p1 \<le> max now (pacing_last_refill_us p)"
    using try_reserve_pacing_rate [of p bytes now] Cons.prems(1,2) s x by auto
  have "now \<le> t" using Cons.prems(2) x by simp
  moreover have "(pacing_last_refill_us q - pacing_last_refill_us p) * pacing_window p * 65536
     = (pacing_last_refill_us q - pacing_last_refill_us p1) * pacing_window p * 65536
       + (pacing_last_refill_us p1 - pacing_last_refill_us p) * pacing_window p * 65536"
    using IH st by (simp add: add_mult_distrib [symmetric])
  ultimately show ?case using IH st unfolding g by (auto simp: add_mult_distrib)
qed simp



lemma pacing_window_pos [simp]: "0 < pacing_window p"
  by (simp add: pacing_window_def)

lemma wide_wait_covers:
  assumes "deficit * scale + d \<le> u128_max" "0 < d" "wide_pacing_wait_us deficit scale d < u64_max"
  shows "deficit * scale \<le> wide_pacing_wait_us deficit scale d * d"
proof -
  let ?n = "deficit * scale + (d - 1)"
  have "sat_add128 (sat_mul128 deficit scale) (d - 1) = ?n"
    using assms(1,2) by (simp add: sat_add_def sat_mul_def)
  with assms(3) have "wide_pacing_wait_us deficit scale d = ?n div d" by (simp add: wide_pacing_wait_us_def)
  moreover have "?n < (?n div d + 1) * d" using assms(2) by (simp add: dividend_less_times_div mult.commute)
  then have "?n < ?n div d * d + d" by simp
  then have "deficit * scale \<le> ?n div d * d" using assms(2) by linarith
  ultimately show ?thesis by simp
qed

lemma wait_covers:
  assumes "deficit * scale + d \<le> u128_max" "0 < d" "pacing_wait_us deficit scale d \<le> w" "w < u64_max"
  shows "deficit * scale \<le> w * d"
proof -
  have "pacing_wait_us deficit scale d = wide_pacing_wait_us deficit scale d"
    using pacing_wait_narrow_eq_wide [of deficit scale d] assms(2) by (simp add: max.absorb1)
  with assms wide_wait_covers [of deficit scale d] have "deficit * scale \<le> pacing_wait_us deficit scale d * d" by simp
  also have "\<dots> \<le> w * d" using assms(3) by (rule mult_le_mono1)
  finally show ?thesis .
qed

lemma pacing_wait_covers:
  assumes "bd * smoothed_or 100000 p + pacing_window p * 65536 \<le> u128_max"
    "pd * (smoothed_or 100000 p * max (max_packet_size (congestion p)) 1) + pacing_window p * 65536 \<le> u128_max"
    "smoothed_or 100000 p * max (max_packet_size (congestion p)) 1 \<le> u128_max"
    "pacing_wait bd pd p \<le> w" "w < u64_max"
  shows "bd * smoothed_or 100000 p \<le> w * (pacing_window p * 65536)
    \<and> pd * (smoothed_or 100000 p * max (max_packet_size (congestion p)) 1) \<le> w * (pacing_window p * 65536)"
proof -
  define r m v where "r = smoothed_or 100000 p" and "m = max (max_packet_size (congestion p)) 1" and "v = pacing_window p"
  have pos: "0 < r" "0 < m" "0 < v" by (simp_all add: r_def m_def v_def pacing_window_def)
  have d: "max (sat_mul128 v (push_bit 16 1)) 1 = v * 65536" "max (sat_mul128 r m) 1 = r * m"
    using assms(1,3) pos unfolding r_def [symmetric] v_def [symmetric] m_def [symmetric] by (simp_all add: sat_mul_def)
  have w: "pacing_wait_us bd r (v * 65536) \<le> w"
    "pd = 0 \<or> pacing_wait_us pd (r * m) (v * 65536) \<le> w"
    using assms(4) unfolding pacing_wait_def Let_def r_def [symmetric] m_def [symmetric] pacing_window_def [symmetric]
      v_def [symmetric] d by (auto split: if_splits)
  show ?thesis
    using wait_covers [OF _ _ w(1)] wait_covers [of pd "r * m" "v * 65536" w] w(2) assms(1,2,5) pos
    unfolding r_def [symmetric] m_def [symmetric] v_def [symmetric] by auto
qed

lemma pacing_refill_reaches:
  fixes now p
  defines "e \<equiv> now - pacing_last_refill_us p" and "m \<equiv> max (max_packet_size (congestion p)) 1"
  assumes "bd * smoothed_or 100000 p \<le> e * (pacing_window p * 65536)" "bd \<le> u64_max"
    "pd * (smoothed_or 100000 p * m) \<le> e * (pacing_window p * 65536)" "pd \<le> u64_max"
    "e * pacing_window p * 65536 \<le> u128_max" "e \<noteq> 0"
  shows "min (pacing_byte_tokens_q16 p + bd) (min u64_max (push_bit 16 (max_burst_bytes (pacing_config p))))
      \<le> pacing_byte_tokens_q16 (pacing_refill now p)
    \<and> min (pacing_packet_tokens_q16 p + pd) (min u64_max (push_bit 16 (max_burst_packets (pacing_config p))))
      \<le> pacing_packet_tokens_q16 (pacing_refill now p)"
proof -
  define r v where "r = smoothed_or 100000 p" and "v = pacing_window p"
  have pos: "0 < r" "0 < m" by (simp_all add: r_def m_def)
  have t: "pacing_refill_tokens e v r m = (min (e * v * 65536 div r) u64_max, min (e * v * 65536 div (r * m)) u64_max)"
    using pacing_refill_exact [of e v r m] assms(7) pos by (simp add: v_def max.absorb1)
  have "bd \<le> e * v * 65536 div r" "pd \<le> e * v * 65536 div (r * m)"
    using assms(3,5) pos by (simp_all add: less_eq_div_iff_mult_less_eq r_def v_def mult.assoc)
  then have "bd \<le> fst (pacing_refill_tokens e v r m)" "pd \<le> snd (pacing_refill_tokens e v r m)"
    using assms(4,6) by (simp_all add: t)
  then show ?thesis
    using assms(8) unfolding pacing_refill_def Let_def e_def [symmetric] r_def [symmetric] m_def [symmetric]
      pacing_window_def [symmetric] v_def [symmetric]
    by (simp add: split_beta sat_add_def min_le_iff_disj)
qed

lemma pacing_wait_pos: "0 < pacing_wait bd pd p"
  by (simp add: pacing_wait_def Let_def)

text \<open>
  Claim C21. A packet that pacing refuses is not starved: whoever retries at the deadline the
  refusal announced, or later, with the window and the round trip unchanged, is granted, provided
  the packet fits the burst limits. The bounds exclude only values no clock, window or round trip
  of a running node reaches.
\<close>

theorem pacing_deadline_sufficient:
  assumes "can_send_paced bytes now p = (p', False)" "pacing_deadline_us p' = Some deadline"
    and "deadline < u64_max" "deadline \<le> now'" "now' \<le> u64_max" "pacing_last_refill_us p \<le> now"
    and "bytes \<le> max_burst_bytes (pacing_config p)" "1 \<le> max_burst_packets (pacing_config p)"
    and "max_burst_bytes (pacing_config p) \<le> u32_max" "max_burst_packets (pacing_config p) \<le> u16_max"
    and "pacing_window p \<le> 2 ^ 47" "smoothed_or 100000 p \<le> 2 ^ 47" "max_packet_size (congestion p) \<le> 2 ^ 32"
  shows "snd (can_send_paced bytes now' p')"
proof -
  define p1 where "p1 = pacing_refill now p"
  define bd pd where "bd = bytes * 65536 - pacing_byte_tokens_q16 p1" and "pd = 65536 - pacing_packet_tokens_q16 p1"
  define r m v where "r = smoothed_or 100000 p" and "m = max (max_packet_size (congestion p)) 1" and "v = pacing_window p"
  have en: "enabled (pacing_config p)" using assms(1) by (auto simp: can_send_paced_def split: if_splits)
  have b: "bytes * 65536 \<le> u64_max" "sat_mul64 bytes (push_bit 16 1) = bytes * 65536"
    using assms(7,9) by (simp_all add: sat_mul_def)
  have p': "p' = p1\<lparr>pacing_deadline_us := Some (sat_add64 now (pacing_wait bd pd p1))\<rparr>"
    using assms(1) en b unfolding can_send_paced_def Let_def p1_def [symmetric] bd_def pd_def
    by (auto split: if_splits)
  have k: "pacing_config p1 = pacing_config p" "congestion p1 = congestion p" "rtt p1 = rtt p"
    by (simp_all add: p1_def)
  have last: "pacing_last_refill_us p1 = now"
    using assms(6) by (auto simp: p1_def pacing_refill_def Let_def split_beta)
  have d: "deadline = now + pacing_wait bd pd p1" using assms(2,3) p' by (auto simp: sat_add_def)
  define e where "e = now' - now"
  have w: "pacing_wait bd pd p1 \<le> e" "e \<le> u64_max" "pacing_wait bd pd p1 < u64_max"
    using d assms(3-5) unfolding e_def by linarith+
  have e: "now' - pacing_last_refill_us p' = e" "e \<noteq> 0"
    using w(1) pacing_wait_pos [of bd pd p1] by (simp_all add: p' last e_def)
  have q: "smoothed_or 100000 p' = r" "smoothed_or 100000 p1 = r" "pacing_window p' = v" "pacing_window p1 = v"
    using k by (simp_all add: p' smoothed_or_def pacing_window_def r_def v_def)
  have bound: "bd \<le> u64_max" "pd \<le> 65536" using b(1) by (simp_all add: bd_def pd_def)
  have m: "m \<le> 2 ^ 32" "1 \<le> m" using assms(13) by (simp_all add: m_def)
  have rm: "r * m \<le> 2 ^ 47 * 2 ^ 32" "bd * r \<le> u64_max * 2 ^ 47" "pd * (r * m) \<le> 65536 * (2 ^ 47 * 2 ^ 32)"
    "e * v \<le> u64_max * 2 ^ 47"
    using bound w(2) m assms(11,12) unfolding r_def v_def by (intro mult_le_mono; simp)+
  have c: "bd * r \<le> pacing_wait bd pd p1 * (v * 65536)" "pd * (r * m) \<le> pacing_wait bd pd p1 * (v * 65536)"
    using pacing_wait_covers [of bd p1 pd "pacing_wait bd pd p1"] w(3) rm assms(11) unfolding q k m_def [symmetric] v_def
    by simp_all
  have c': "bd * r \<le> e * (v * 65536)" "pd * (r * m) \<le> e * (v * 65536)"
    using c mult_le_mono1 [OF w(1), of "v * 65536"] by linarith+
  have k': "congestion p' = congestion p" "pacing_config p' = pacing_config p"
    "pacing_byte_tokens_q16 p' = pacing_byte_tokens_q16 p1" "pacing_packet_tokens_q16 p' = pacing_packet_tokens_q16 p1"
    using k by (simp_all add: p')
  have "min (pacing_byte_tokens_q16 p1 + bd) (min u64_max (push_bit 16 (max_burst_bytes (pacing_config p))))
      \<le> pacing_byte_tokens_q16 (pacing_refill now' p')
    \<and> min (pacing_packet_tokens_q16 p1 + pd) (min u64_max (push_bit 16 (max_burst_packets (pacing_config p))))
      \<le> pacing_packet_tokens_q16 (pacing_refill now' p')"
    using pacing_refill_reaches [of bd p' now' pd] c' bound e(2) rm(4) unfolding e(1) q k' m_def [symmetric] by simp
  moreover have "bytes * 65536 \<le> push_bit 16 (max_burst_bytes (pacing_config p))"
    "65536 \<le> push_bit 16 (max_burst_packets (pacing_config p))"
    using assms(7,8) by (simp_all add: push_bit_eq_mult)
  ultimately have "bytes * 65536 \<le> pacing_byte_tokens_q16 (pacing_refill now' p')"
    "65536 \<le> pacing_packet_tokens_q16 (pacing_refill now' p')"
    using b(1) unfolding bd_def pd_def by linarith+
  then show ?thesis using en k' b(2) by (simp add: can_send_paced_def Let_def)
qed

lemma pacing_deadline_sufficient_witness:
  "snd (can_send_paced 1100 (the (pacing_deadline_us (fst (can_send_paced 1100 20
      (fst (pacing_run (replicate 8 (1100, 20)) (path_new 1100)))))))
     (fst (can_send_paced 1100 20 (fst (pacing_run (replicate 8 (1100, 20)) (path_new 1100))))))"
proof -
  let ?p = "fst (pacing_run (replicate 8 (1100, 20)) (path_new 1100))"
  let ?q = "fst (can_send_paced 1100 20 ?p)"
  have h: "\<not> snd (can_send_paced 1100 20 ?p)" "pacing_deadline_us ?q = Some (the (pacing_deadline_us ?q))"
    "the (pacing_deadline_us ?q) < u64_max" "pacing_last_refill_us ?p \<le> 20"
    "1100 \<le> max_burst_bytes (pacing_config ?p)" "1 \<le> max_burst_packets (pacing_config ?p)"
    "max_burst_bytes (pacing_config ?p) \<le> u32_max" "max_burst_packets (pacing_config ?p) \<le> u16_max"
    "pacing_window ?p \<le> 2 ^ 47" "smoothed_or 100000 ?p \<le> 2 ^ 47" "max_packet_size (congestion ?p) \<le> 2 ^ 32"
    by code_simp+
  have "can_send_paced 1100 20 ?p = (?q, False)" using h(1) by (simp add: prod_eq_iff)
  from pacing_deadline_sufficient [OF this h(2,3) order_refl _ h(4-11)] h(3) show ?thesis by simp
qed

section \<open>Status announcements converge\<close>

text \<open>
  The sequenced statuses one end queues, in order, and what the other end makes of the
  announcements it receives.
\<close>

fun queue_run :: "PathStatusKind list \<Rightarrow> PathState \<Rightarrow> PathState \<times> (u64 \<times> PathStatusKind) list" where
  "queue_run [] p = (p, [])"
| "queue_run (k # ks) p =
     (case queue_status k p of
        (p1, Inl e) \<Rightarrow> queue_run ks p1
      | (p1, Inr s) \<Rightarrow> (case queue_run ks p1 of (p2, sent) \<Rightarrow> (p2, (s, k) # sent)))"

definition receive_run :: "(u64 \<times> PathStatusKind) list \<Rightarrow> PathState \<Rightarrow> PathState" where
  "receive_run ms p = fold (\<lambda>(s, k) p. fst (receive_status s k p)) ms p"

definition announcement_order :: "u64 \<times> PathStatusKind \<Rightarrow> u64 \<times> PathStatusKind \<Rightarrow> bool" where
  "announcement_order a b \<longleftrightarrow> fst a < fst b \<and> (snd a = Abandon \<longrightarrow> snd b = Abandon)"

lemma queue_status_ok:
  "queue_status k p = (q, Inr s) \<Longrightarrow> s = local_status_sequence p + 1 \<and> local_status_sequence q = s
     \<and> (locally_abandoned p \<longrightarrow> k = Abandon) \<and> locally_abandoned q = (locally_abandoned p \<or> k = Abandon)
     \<and> s < 2 ^ 62"
  by (auto simp: queue_status_def Let_def checked_add_def split: if_splits)

lemma queue_status_err: "queue_status k p = (q, Inl e) \<Longrightarrow> q = p"
  by (auto simp: queue_status_def Let_def split: if_splits option.splits)

lemma queue_run_ordered:
  "queue_run ks p = (q, sent) \<Longrightarrow> sorted_wrt announcement_order sent
     \<and> (\<forall>(s, k) \<in> set sent. local_status_sequence p < s \<and> (locally_abandoned p \<longrightarrow> k = Abandon))"
proof (induction ks arbitrary: p sent)
  case (Cons k ks)
  obtain p1 r where q: "queue_status k p = (p1, r)" by (cases "queue_status k p")
  show ?case
  proof (cases r)
    case (Inl e)
    with Cons q queue_status_err [of k p p1 e] show ?thesis by simp
  next
    case (Inr s)
    obtain sent' where run: "queue_run ks p1 = (q, sent')" and sent: "sent = (s, k) # sent'"
      using Cons.prems q Inr by (auto split: prod.splits)
    have ok: "s = local_status_sequence p + 1" "local_status_sequence p1 = s"
      "locally_abandoned p \<longrightarrow> k = Abandon" "locally_abandoned p1 = (locally_abandoned p \<or> k = Abandon)"
      using queue_status_ok [of k p p1 s] q Inr by simp_all
    from Cons.IH [OF run] ok show ?thesis
      unfolding sent by (auto simp: announcement_order_def)
  qed
qed simp

lemma sorted_announcements:
  "sorted_wrt announcement_order l \<Longrightarrow> a \<in> set l \<Longrightarrow> b \<in> set l \<Longrightarrow>
     a = b \<or> announcement_order a b \<or> announcement_order b a"
  by (induction l) auto

lemma receive_run_latest:
  assumes "sorted_wrt announcement_order sent" "set ms \<subseteq> set sent" "ms \<noteq> []"
    "\<forall>(s, k) \<in> set sent. 0 < s" "peer_status_sequence p = 0" "\<not> peer_abandoned p"
  shows "\<exists>(s, k) \<in> set ms. (\<forall>(s', k') \<in> set ms. s' \<le> s) \<and> peer_standby (receive_run ms p) = (k = Standby)
    \<and> peer_abandoned (receive_run ms p) = (k = Abandon)
    \<and> (k \<noteq> Abandon \<longrightarrow> peer_status_sequence (receive_run ms p) = s)"
  using assms(2,3)
proof (induction ms rule: rev_induct)
  case (snoc x ms)
  obtain s1 k1 where x: "x = (s1, k1)" by (cases x)
  have step: "receive_run (ms @ [x]) p = fst (receive_status s1 k1 (receive_run ms p))"
    by (simp add: receive_run_def x)
  show ?case
  proof (cases "ms = []")
    case True
    have "0 < s1" using snoc.prems(1) assms(4) x by auto
    with True assms(5,6) show ?thesis
      by (cases k1) (auto simp: receive_run_def receive_status_def x)
  next
    case False
    let ?r = "receive_run ms p"
    obtain s k where m: "(s, k) \<in> set ms" "\<forall>(s', k') \<in> set ms. s' \<le> s" "peer_standby ?r = (k = Standby)"
      "peer_abandoned ?r = (k = Abandon)" "k \<noteq> Abandon \<longrightarrow> peer_status_sequence ?r = s"
      using snoc.IH False snoc.prems(1) by auto
    have o: "(s, k) = (s1, k1) \<or> announcement_order (s, k) (s1, k1) \<or> announcement_order (s1, k1) (s, k)"
      by (rule sorted_announcements [OF assms(1)]) (use m(1) snoc.prems(1) x in auto)
    show ?thesis
    proof (cases "s1 \<le> s")
      case True
      have "receive_status s1 k1 ?r = (?r, False)" using m True by (cases "k = Abandon") (auto simp: receive_status_def)
      then show ?thesis using m True x unfolding step by (intro bexI [of _ "(s, k)"]) auto
    next
      case larger: False
      have top: "\<forall>(s', k') \<in> set (ms @ [x]). s' \<le> s1" using m(2) larger x by auto
      have a: "k = Abandon \<longrightarrow> k1 = Abandon" using o larger by (auto simp: announcement_order_def)
      show ?thesis
        using m a top larger x unfolding step
        by (intro bexI [of _ "(s1, k1)"]; cases "k = Abandon"; cases k1) (auto simp: receive_status_def)
    qed
  qed
qed simp

text \<open>
  Claim C20. Path status announcements converge: whatever statuses one end queues, and in
  whatever order, however often and with whatever losses its announcements arrive, the other end
  holds the status of the latest one it received: on standby, abandoned or neither.
\<close>

theorem status_converges:
  assumes "queue_run ks p = (p', sent)" "set ms \<subseteq> set sent" "ms \<noteq> []"
    and "peer_status_sequence q = 0" "\<not> peer_abandoned q"
  shows "\<exists>(s, k) \<in> set ms. (\<forall>(s', k') \<in> set ms. s' \<le> s) \<and> peer_standby (receive_run ms q) = (k = Standby)
    \<and> peer_abandoned (receive_run ms q) = (k = Abandon)"
proof -
  have "sorted_wrt announcement_order sent \<and> (\<forall>(s, k) \<in> set sent. 0 < s)"
    using queue_run_ordered [OF assms(1)] by fastforce
  from receive_run_latest [of sent ms q] this assms(2-5) show ?thesis by (simp add: split_beta) blast
qed

lemma status_converges_witness:
  "\<exists>(s, k) \<in> set [(2 :: nat, Abandon), (1, Standby)]. (\<forall>(s', k') \<in> set [(2 :: nat, Abandon), (1, Standby)]. s' \<le> s)
    \<and> peer_standby (receive_run [(2, Abandon), (1, Standby)] (path_new 1100)) = (k = Standby)
    \<and> peer_abandoned (receive_run [(2, Abandon), (1, Standby)] (path_new 1100)) = (k = Abandon)"
proof -
  let ?p = "(path_new 1100)\<lparr>circuit_key := Some \<lparr>opener_role = Client, ck_sequence = 7\<rparr>\<rparr>"
  have "snd (queue_run [Standby, Abandon, Available] ?p) = [(1, Standby), (2, Abandon)]" by code_simp
  then have run: "queue_run [Standby, Abandon, Available] ?p
      = (fst (queue_run [Standby, Abandon, Available] ?p), [(1, Standby), (2, Abandon)])"
    by (simp add: prod_eq_iff)
  have "peer_status_sequence (path_new 1100) = 0" "\<not> peer_abandoned (path_new 1100)" by code_simp+
  then show ?thesis by (intro status_converges [OF run]) simp_all
qed

section \<open>Executions of a path\<close>

text \<open>
  Every operation of the path, in any order, with the congestion controller stepping and the
  clock moving between them as the endpoint drives them.
\<close>

inductive path_step :: "PathState \<Rightarrow> PathState \<Rightarrow> bool" where
  Clock: "path_step p (p\<lparr>send_clock := now\<rparr>)"
| Congest: "cc_step (congestion p) c \<Longrightarrow> path_step p (p\<lparr>congestion := c\<rparr>)"
| Acked: "path_step p (p\<lparr>largest_acked_send_order := order\<rparr>)"
| Spurious: "path_step p (record_spurious_loss_ack order at p)"
| Set_pacing: "path_step p (set_pacing_config pacing p)"
| Reserve: "path_step p (fst (try_reserve_pacing bytes now p))"
| Can_send: "path_step p (fst (can_send_paced bytes now p))"
| Remember: "path_step p (remember_address mem address p)"
| Remove: "path_step p (remove_bearer i p)"
| Set_estimator: "estimator_is_valid config \<Longrightarrow> path_step p (set_estimator_config config p)"
| Update_rtt: "path_step p (update_rtt sample now p)"
| Outcome: "path_step p (record_delivery_outcome delivered now p)"
| Queue: "path_step p (fst (queue_status status p))"
| Sent: "path_step p (status_sent sequence retry_at p)"
| Acknowledge: "path_step p (acknowledge_status sequence p)"
| Receive: "path_step p (fst (receive_status sequence status p))"
| Set_circuit: "path_step p (set_circuit key transaction circuit p)"
| Join_retry: "path_step p (fst (record_join_retry p))"
| Validated: "path_step p (mark_validated p)"
| Probing: "path_step p (mark_probing p)"
| Suspended: "path_step p (mark_suspended p)"
| Unvalidated: "path_step p (mark_unvalidated p)"
| Resume: "path_step p (reset_recovery_for_resumption p)"
| Schedule: "path_step p (schedule_probe deadline p)"
| Respond: "path_step p (record_peer_probe_response token now p)"
| Order: "path_step p (fst (assign_send_order p))"
| Begin_probe: "path_step p (begin_probe token now interval p)"
| Complete_probe: "path_step p (fst (complete_probe token now p))"
| Submission: "path_step p (update_probe_submission_time token at p)"

definition pacing_inv :: "PathState \<Rightarrow> bool" where
  "pacing_inv p \<longleftrightarrow> pacing_byte_tokens_q16 p \<le> push_bit 16 (max_burst_bytes (pacing_config p))
     \<and> pacing_packet_tokens_q16 p \<le> push_bit 16 (max_burst_packets (pacing_config p))"

definition estimate_inv :: "PathState \<Rightarrow> bool" where
  "estimate_inv p \<longleftrightarrow> 3 \<le> packet_reordering_threshold p \<and> packet_reordering_threshold p \<le> 128
     \<and> 73728 \<le> loss_time_ratio_q16 p \<and> loss_time_ratio_q16 p \<le> 262144
     \<and> 1 \<le> delivery_success_q16 p \<and> delivery_success_q16 p \<le> 65536 \<and> estimator_is_valid (estimator_config p)"

definition status_inv :: "PathState \<Rightarrow> bool" where
  "status_inv p \<longleftrightarrow> join_attempts p \<le> MAX_PATH_JOIN_ATTEMPTS \<and> local_status_sequence p < 2 ^ 62
     \<and> (\<forall>s k. pending_local_status p = Some (s, k) \<longrightarrow>
          s = local_status_sequence p \<and> (locally_abandoned p \<longrightarrow> k = Abandon))"

definition address_inv :: "PathState \<Rightarrow> bool" where
  "address_inv p \<longleftrightarrow> length (known_addresses p) \<le> 4 \<and> distinct (known_addresses p)
     \<and> (active_address p \<noteq> None \<longrightarrow> first_hop p \<noteq> None)"

definition path_inv :: "PathState \<Rightarrow> bool" where
  "path_inv p \<longleftrightarrow> pacing_inv p \<and> estimate_inv p \<and> status_inv p \<and> address_inv p \<and> cc_inv (congestion p)"

text \<open>What the estimator and the pacing operations leave alone.\<close>

lemma trigger_estimator_step_frame [simp]:
  "pacing_config (trigger_estimator_step now p) = pacing_config p"
  "pacing_byte_tokens_q16 (trigger_estimator_step now p) = pacing_byte_tokens_q16 p"
  "pacing_packet_tokens_q16 (trigger_estimator_step now p) = pacing_packet_tokens_q16 p"
  "packet_reordering_threshold (trigger_estimator_step now p) = packet_reordering_threshold p"
  "loss_time_ratio_q16 (trigger_estimator_step now p) = loss_time_ratio_q16 p"
  "delivery_success_q16 (trigger_estimator_step now p) = delivery_success_q16 p"
  "estimator_config (trigger_estimator_step now p) = estimator_config p"
  "join_attempts (trigger_estimator_step now p) = join_attempts p"
  "local_status_sequence (trigger_estimator_step now p) = local_status_sequence p"
  "pending_local_status (trigger_estimator_step now p) = pending_local_status p"
  "locally_abandoned (trigger_estimator_step now p) = locally_abandoned p"
  "peer_abandoned (trigger_estimator_step now p) = peer_abandoned p"
  "peer_status_sequence (trigger_estimator_step now p) = peer_status_sequence p"
  "known_addresses (trigger_estimator_step now p) = known_addresses p"
  "active_address (trigger_estimator_step now p) = active_address p"
  "first_hop (trigger_estimator_step now p) = first_hop p"
  "congestion (trigger_estimator_step now p) = congestion p"
  by (simp_all add: trigger_estimator_step_def Let_def)

lemma update_rtt_frame [simp]:
  "pacing_config (update_rtt sample now p) = pacing_config p"
  "pacing_byte_tokens_q16 (update_rtt sample now p) = pacing_byte_tokens_q16 p"
  "pacing_packet_tokens_q16 (update_rtt sample now p) = pacing_packet_tokens_q16 p"
  "packet_reordering_threshold (update_rtt sample now p) = packet_reordering_threshold p"
  "loss_time_ratio_q16 (update_rtt sample now p) = loss_time_ratio_q16 p"
  "delivery_success_q16 (update_rtt sample now p) = delivery_success_q16 p"
  "estimator_config (update_rtt sample now p) = estimator_config p"
  "join_attempts (update_rtt sample now p) = join_attempts p"
  "local_status_sequence (update_rtt sample now p) = local_status_sequence p"
  "pending_local_status (update_rtt sample now p) = pending_local_status p"
  "locally_abandoned (update_rtt sample now p) = locally_abandoned p"
  "peer_abandoned (update_rtt sample now p) = peer_abandoned p"
  "peer_status_sequence (update_rtt sample now p) = peer_status_sequence p"
  "known_addresses (update_rtt sample now p) = known_addresses p"
  "active_address (update_rtt sample now p) = active_address p"
  "first_hop (update_rtt sample now p) = first_hop p" "congestion (update_rtt sample now p) = congestion p"
  by (simp_all add: update_rtt_def Let_def)

lemma record_delivery_outcome_frame [simp]:
  "pacing_config (record_delivery_outcome delivered now p) = pacing_config p"
  "pacing_byte_tokens_q16 (record_delivery_outcome delivered now p) = pacing_byte_tokens_q16 p"
  "pacing_packet_tokens_q16 (record_delivery_outcome delivered now p) = pacing_packet_tokens_q16 p"
  "packet_reordering_threshold (record_delivery_outcome delivered now p) = packet_reordering_threshold p"
  "loss_time_ratio_q16 (record_delivery_outcome delivered now p) = loss_time_ratio_q16 p"
  "estimator_config (record_delivery_outcome delivered now p) = estimator_config p"
  "join_attempts (record_delivery_outcome delivered now p) = join_attempts p"
  "local_status_sequence (record_delivery_outcome delivered now p) = local_status_sequence p"
  "pending_local_status (record_delivery_outcome delivered now p) = pending_local_status p"
  "locally_abandoned (record_delivery_outcome delivered now p) = locally_abandoned p"
  "peer_abandoned (record_delivery_outcome delivered now p) = peer_abandoned p"
  "peer_status_sequence (record_delivery_outcome delivered now p) = peer_status_sequence p"
  "known_addresses (record_delivery_outcome delivered now p) = known_addresses p"
  "active_address (record_delivery_outcome delivered now p) = active_address p"
  "first_hop (record_delivery_outcome delivered now p) = first_hop p"
  "congestion (record_delivery_outcome delivered now p) = congestion p"
  by (simp_all add: record_delivery_outcome_def Let_def)

lemma complete_probe_frame [simp]:
  "pacing_config (fst (complete_probe token now p)) = pacing_config p"
  "pacing_byte_tokens_q16 (fst (complete_probe token now p)) = pacing_byte_tokens_q16 p"
  "pacing_packet_tokens_q16 (fst (complete_probe token now p)) = pacing_packet_tokens_q16 p"
  "packet_reordering_threshold (fst (complete_probe token now p)) = packet_reordering_threshold p"
  "loss_time_ratio_q16 (fst (complete_probe token now p)) = loss_time_ratio_q16 p"
  "delivery_success_q16 (fst (complete_probe token now p)) = delivery_success_q16 p"
  "estimator_config (fst (complete_probe token now p)) = estimator_config p"
  "join_attempts (fst (complete_probe token now p)) = join_attempts p"
  "local_status_sequence (fst (complete_probe token now p)) = local_status_sequence p"
  "pending_local_status (fst (complete_probe token now p)) = pending_local_status p"
  "locally_abandoned (fst (complete_probe token now p)) = locally_abandoned p"
  "peer_abandoned (fst (complete_probe token now p)) = peer_abandoned p"
  "peer_status_sequence (fst (complete_probe token now p)) = peer_status_sequence p"
  "known_addresses (fst (complete_probe token now p)) = known_addresses p"
  "active_address (fst (complete_probe token now p)) = active_address p"
  "first_hop (fst (complete_probe token now p)) = first_hop p"
  "congestion (fst (complete_probe token now p)) = congestion p"
  by (simp_all add: complete_probe_def Let_def split: option.split)

lemma pacing_refill_frame [simp]:
  "packet_reordering_threshold (pacing_refill now p) = packet_reordering_threshold p"
  "loss_time_ratio_q16 (pacing_refill now p) = loss_time_ratio_q16 p"
  "delivery_success_q16 (pacing_refill now p) = delivery_success_q16 p"
  "estimator_config (pacing_refill now p) = estimator_config p"
  "join_attempts (pacing_refill now p) = join_attempts p"
  "local_status_sequence (pacing_refill now p) = local_status_sequence p"
  "pending_local_status (pacing_refill now p) = pending_local_status p"
  "locally_abandoned (pacing_refill now p) = locally_abandoned p"
  "peer_abandoned (pacing_refill now p) = peer_abandoned p"
  "peer_status_sequence (pacing_refill now p) = peer_status_sequence p"
  "known_addresses (pacing_refill now p) = known_addresses p"
  "active_address (pacing_refill now p) = active_address p" "first_hop (pacing_refill now p) = first_hop p"
  by (simp_all add: pacing_refill_def Let_def split_beta)

lemma can_send_paced_frame [simp]:
  "packet_reordering_threshold (fst (can_send_paced bytes now p)) = packet_reordering_threshold p"
  "loss_time_ratio_q16 (fst (can_send_paced bytes now p)) = loss_time_ratio_q16 p"
  "delivery_success_q16 (fst (can_send_paced bytes now p)) = delivery_success_q16 p"
  "estimator_config (fst (can_send_paced bytes now p)) = estimator_config p"
  "join_attempts (fst (can_send_paced bytes now p)) = join_attempts p"
  "local_status_sequence (fst (can_send_paced bytes now p)) = local_status_sequence p"
  "pending_local_status (fst (can_send_paced bytes now p)) = pending_local_status p"
  "locally_abandoned (fst (can_send_paced bytes now p)) = locally_abandoned p"
  "peer_abandoned (fst (can_send_paced bytes now p)) = peer_abandoned p"
  "peer_status_sequence (fst (can_send_paced bytes now p)) = peer_status_sequence p"
  "known_addresses (fst (can_send_paced bytes now p)) = known_addresses p"
  "active_address (fst (can_send_paced bytes now p)) = active_address p"
  "first_hop (fst (can_send_paced bytes now p)) = first_hop p"
  by (simp_all add: can_send_paced_def Let_def)

lemma try_reserve_pacing_frame [simp]:
  "packet_reordering_threshold (fst (try_reserve_pacing bytes now p)) = packet_reordering_threshold p"
  "loss_time_ratio_q16 (fst (try_reserve_pacing bytes now p)) = loss_time_ratio_q16 p"
  "delivery_success_q16 (fst (try_reserve_pacing bytes now p)) = delivery_success_q16 p"
  "estimator_config (fst (try_reserve_pacing bytes now p)) = estimator_config p"
  "join_attempts (fst (try_reserve_pacing bytes now p)) = join_attempts p"
  "local_status_sequence (fst (try_reserve_pacing bytes now p)) = local_status_sequence p"
  "pending_local_status (fst (try_reserve_pacing bytes now p)) = pending_local_status p"
  "locally_abandoned (fst (try_reserve_pacing bytes now p)) = locally_abandoned p"
  "peer_abandoned (fst (try_reserve_pacing bytes now p)) = peer_abandoned p"
  "peer_status_sequence (fst (try_reserve_pacing bytes now p)) = peer_status_sequence p"
  "known_addresses (fst (try_reserve_pacing bytes now p)) = known_addresses p"
  "active_address (fst (try_reserve_pacing bytes now p)) = active_address p"
  "first_hop (fst (try_reserve_pacing bytes now p)) = first_hop p"
  by (simp_all add: try_reserve_pacing_def split_beta)

lemmas path_op_defs = record_spurious_loss_ack_def set_pacing_config_def remember_address_def remove_bearer_def
  set_estimator_config_def queue_status_def status_sent_def acknowledge_status_def receive_status_def set_circuit_def
  record_join_retry_def mark_validated_def mark_probing_def mark_suspended_def mark_unvalidated_def
  reset_recovery_for_resumption_def schedule_probe_def record_peer_probe_response_def assign_send_order_def
  begin_probe_def update_probe_submission_time_def

lemma pacing_inv_refill: "pacing_inv p \<Longrightarrow> pacing_inv (pacing_refill now p)"
  by (simp add: pacing_inv_def pacing_refill_def Let_def split_beta)

lemma pacing_inv_can_send: "pacing_inv p \<Longrightarrow> pacing_inv (fst (can_send_paced bytes now p))"
  using pacing_inv_refill [of p now] by (simp add: pacing_inv_def can_send_paced_def Let_def)

lemma pacing_inv_reserve: "pacing_inv p \<Longrightarrow> pacing_inv (fst (try_reserve_pacing bytes now p))"
  using pacing_inv_can_send [of p bytes now]
  by (simp add: pacing_inv_def try_reserve_pacing_def split_beta le_diff_conv trans_le_add1)

lemma pacing_inv_step: "path_step p q \<Longrightarrow> pacing_inv p \<Longrightarrow> pacing_inv q"
proof (induction rule: path_step.induct)
  case Reserve
  then show ?case by (rule pacing_inv_reserve)
next
  case Can_send
  then show ?case by (rule pacing_inv_can_send)
qed (simp_all add: pacing_inv_def path_op_defs Let_def split: option.split prod.split PathStatusKind.split)

lemma status_inv_step: "path_step p q \<Longrightarrow> status_inv p \<Longrightarrow> status_inv q"
  by (induction rule: path_step.induct)
    (simp_all add: status_inv_def path_op_defs Let_def checked_add_def MAX_PATH_JOIN_ATTEMPTS_def
      split: option.split prod.split PathStatusKind.split)

lemma delivery_bounded:
  assumes "x \<le> 65536" "sample \<le> 65536" "1 \<le> h" "h \<le> 64"
  shows "sat_add u32_max (sat_mul u32_max x (h - 1)) sample div h \<le> 65536"
proof -
  have "x * (h - 1) \<le> 65536 * (h - 1)" using assms(1) by (rule mult_le_mono1)
  moreover have "sat_add u32_max (sat_mul u32_max x (h - 1)) sample \<le> x * (h - 1) + sample"
    by (simp add: sat_add_def sat_mul_def)
  moreover have "65536 * (h - 1) + 65536 = 65536 * h" using assms(3) by (cases h) simp_all
  ultimately have "sat_add u32_max (sat_mul u32_max x (h - 1)) sample \<le> 65536 * h" using assms(2) by linarith
  then have "sat_add u32_max (sat_mul u32_max x (h - 1)) sample div h \<le> 65536 * h div h" by (rule div_le_mono)
  then show ?thesis using assms(3) by simp
qed

lemma delivery_success_outcome:
  "delivery_success_q16 (record_delivery_outcome delivered now p) =
     max (sat_add u32_max (sat_mul u32_max (delivery_success_q16 p) (delivery_horizon_packets (estimator_config p) - 1))
       (if delivered then 65536 else 0) div delivery_horizon_packets (estimator_config p)) 1"
  by (simp add: record_delivery_outcome_def Let_def)

lemma estimate_inv_step: "path_step p q \<Longrightarrow> estimate_inv p \<Longrightarrow> estimate_inv q"
proof (induction rule: path_step.induct)
  case (Outcome p delivered now)
  then have "sat_add u32_max (sat_mul u32_max (delivery_success_q16 p) (delivery_horizon_packets (estimator_config p) - 1))
       (if delivered then 65536 else 0) div delivery_horizon_packets (estimator_config p) \<le> 65536"
    by (intro delivery_bounded) (auto simp: estimate_inv_def estimator_is_valid_def)
  with Outcome show ?case by (simp add: estimate_inv_def delivery_success_outcome)
next
  case (Spurious p order at)
  then show ?case by (simp add: estimate_inv_def record_spurious_loss_ack_def Let_def le_max_iff_disj)
qed (simp_all add: estimate_inv_def path_op_defs Let_def split: option.split prod.split PathStatusKind.split)

lemma set_remove_first_subset: "set (remove_first P xs) \<subseteq> set xs"
  by (auto dest: set_remove_first)

lemma remove_first_known:
  "distinct xs \<Longrightarrow> a \<notin> set (remove_first (\<lambda>known. known = a) xs) \<and> distinct (remove_first (\<lambda>known. known = a) xs)"
  by (induction xs) (auto dest: set_remove_first)

lemma address_inv_remember:
  assumes "address_inv p"
  shows "address_inv (remember_address mem a p)"
proof -
  have d: "distinct (take 4 (a # remove_first (\<lambda>known. known = a) (known_addresses p)))"
    using assms remove_first_known [of "known_addresses p" a] by (intro distinct_take) (simp add: address_inv_def)
  have "distinct (take 4 (a # known_addresses p))" if "a \<notin> set (known_addresses p)"
    using assms that by (intro distinct_take) (simp add: address_inv_def)
  with d assms show ?thesis
    by (simp add: address_inv_def remember_address_def Let_def del: take_Cons_numeral take_Suc_Cons)
qed

lemma address_inv_step: "path_step p q \<Longrightarrow> address_inv p \<Longrightarrow> address_inv q"
proof (induction rule: path_step.induct)
  case Remember
  then show ?case by (intro address_inv_remember)
next
  case (Remove p i)
  have "length (filter P xs) \<le> 4" if "length xs \<le> 4" for P and xs :: "Address list"
    using that length_filter_le [of P xs] by linarith
  with Remove show ?case
    by (simp add: address_inv_def remove_bearer_def Let_def split: option.split)
qed (simp_all add: address_inv_def path_op_defs Let_def split: option.split prod.split PathStatusKind.split)

lemma cc_inv_path_step: "path_step p q \<Longrightarrow> cc_inv (congestion p) \<Longrightarrow> cc_inv (congestion q)"
proof (induction rule: path_step.induct)
  case Congest
  then show ?case by (auto intro: congestion.inv_step)
next
  case (Resume p)
  then show ?case
    using congestion.inv_step [of "congestion p"] cc_step.Resumption by (simp add: reset_recovery_for_resumption_def)
qed (simp_all add: path_op_defs Let_def split: option.split prod.split PathStatusKind.split)

definition path_start :: "PathState \<Rightarrow> bool" where
  "path_start p \<longleftrightarrow> (\<exists>mss. 10 * mss \<le> u64_max \<and> p = path_new mss)"

interpretation path: stateful path_start path_step path_inv
proof
  show "path_inv p" if "path_start p" for p
  proof -
    from that obtain mss where m: "10 * mss \<le> u64_max" "p = path_new mss" by (auto simp: path_start_def)
    then have "cc_inv (congestion p)"
      using congestion.inv_start [of "cc_new mss"] by (auto simp: path_new_def cc_start_def)
    with m show ?thesis
      by (simp add: path_inv_def pacing_inv_def estimate_inv_def status_inv_def address_inv_def path_new_def
          estimator_default_config_def estimator_is_valid_def Q16_ONE_def)
  qed
  show "path_inv q" if "path_inv p" "path_step p q" for p q
    using that pacing_inv_step estimate_inv_step status_inv_step address_inv_step cc_inv_path_step
    by (simp add: path_inv_def)
qed

lemma closed_step: "path_step p q \<Longrightarrow>
  (locally_abandoned p \<longrightarrow> locally_abandoned q) \<and> (peer_abandoned p \<longrightarrow> peer_abandoned q)"
  by (induction rule: path_step.induct)
    (simp_all add: path_op_defs Let_def split: option.split prod.split PathStatusKind.split)

lemma closed_run: "path_step\<^sup>*\<^sup>* p q \<Longrightarrow>
  (locally_abandoned p \<longrightarrow> locally_abandoned q) \<and> (peer_abandoned p \<longrightarrow> peer_abandoned q)"
  by (induction rule: rtranclp_induct) (auto dest: closed_step)



lemma div_ceil_ge: "0 < b \<Longrightarrow> a \<le> div_ceil a b * b"
  using div_ceil_le_iff [of b a "div_ceil a b"] by simp

lemma loss_delay_bounds:
  assumes "estimate_inv p" "loss_base_rtt_us p * 262144 \<le> u64_max"
    "4 * loss_base_rtt_us p + max_ack_delay \<le> u64_max"
  shows "loss_base_rtt_us p * 73728 + max_ack_delay * 65536 \<le> loss_delay_us max_ack_delay p * 65536
    \<and> loss_delay_us max_ack_delay p \<le> 4 * loss_base_rtt_us p + max_ack_delay"
proof -
  let ?b = "loss_base_rtt_us p" and ?t = "loss_time_ratio_q16 p"
  have t: "73728 \<le> ?t" "?t \<le> 262144" using assms(1) by (simp_all add: estimate_inv_def)
  have bt: "?b * ?t \<le> ?b * 262144" "?b * 73728 \<le> ?b * ?t" using t by simp_all
  have "?b * ?t \<le> u64_max" using bt(1) assms(2) by (rule le_trans)
  then have "sat_mul64 ?b ?t = ?b * ?t" by (rule sat_mul_exact)
  moreover have "div_ceil (?b * ?t) 65536 \<le> 4 * ?b" using bt by (simp add: div_ceil_le_iff)
  moreover have "?b * 73728 \<le> div_ceil (?b * ?t) 65536 * 65536"
    using bt(2) by (rule le_trans) (intro div_ceil_ge, simp)
  ultimately show ?thesis using assms(3) by (simp add: loss_delay_us_def sat_add_def)
qed

text \<open>
  Whatever happens on a path, its adaptive quantities stay within their limits: the
  pacing budgets within the configured bursts, the reordering threshold between 3 and 128 packets,
  the loss delay between 9/8 and four times the round trip plus the acknowledgement delay, the
  delivery estimate a probability that is never zero, the joins at most five, and the remembered
  addresses at most four and distinct.
\<close>

theorem path_bounds:
  assumes "10 * mss \<le> u64_max" "path_step\<^sup>*\<^sup>* (path_new mss) p"
  shows "pacing_byte_tokens_q16 p \<le> push_bit 16 (max_burst_bytes (pacing_config p))
    \<and> pacing_packet_tokens_q16 p \<le> push_bit 16 (max_burst_packets (pacing_config p))
    \<and> 3 \<le> packet_reordering_threshold p \<and> packet_reordering_threshold p \<le> 128
    \<and> (4 * loss_base_rtt_us p + max_ack_delay \<le> u64_max div 65536 \<longrightarrow>
        loss_base_rtt_us p * 9 div 8 + max_ack_delay \<le> loss_delay_us max_ack_delay p
        \<and> loss_delay_us max_ack_delay p \<le> 4 * loss_base_rtt_us p + max_ack_delay)
    \<and> 1 \<le> delivery_success_q16 p \<and> delivery_success_q16 p \<le> 65536
    \<and> join_attempts p \<le> MAX_PATH_JOIN_ATTEMPTS
    \<and> length (known_addresses p) \<le> 4 \<and> distinct (known_addresses p)"
proof -
  have i: "path_inv p"
    using path.inv_reachable [of "path_new mss" p] assms by (auto simp: path_start_def)
  have "loss_base_rtt_us p * 9 div 8 + max_ack_delay \<le> loss_delay_us max_ack_delay p
        \<and> loss_delay_us max_ack_delay p \<le> 4 * loss_base_rtt_us p + max_ack_delay"
    if h: "4 * loss_base_rtt_us p + max_ack_delay \<le> u64_max div 65536"
  proof -
    have "loss_base_rtt_us p * 73728 + max_ack_delay * 65536 \<le> loss_delay_us max_ack_delay p * 65536
        \<and> loss_delay_us max_ack_delay p \<le> 4 * loss_base_rtt_us p + max_ack_delay"
      using i h by (intro loss_delay_bounds) (simp_all add: path_inv_def)
    then show ?thesis by linarith
  qed
  with i show ?thesis
    by (simp add: path_inv_def pacing_inv_def estimate_inv_def status_inv_def address_inv_def)
qed

lemma path_bounds_witness:
  "packet_reordering_threshold (record_spurious_loss_ack 5 0 ((path_new 1100)\<lparr>largest_acked_send_order := Some 900\<rparr>)) \<le> 128"
proof -
  let ?p = "(path_new 1100)\<lparr>largest_acked_send_order := Some 900\<rparr>"
  have "path_step\<^sup>*\<^sup>* (path_new 1100) (record_spurious_loss_ack 5 0 ?p)"
    by (rule converse_rtranclp_into_rtranclp, rule path_step.Acked [where order = "Some 900"]) (intro r_into_rtranclp path_step.Spurious)
  from path_bounds [OF _ this] show ?thesis by simp
qed

end
