(* ===== verification/Path_Set.thy ===== *)
theory Path_Set
  imports Path_State
begin

text \<open>
  What \<^verbatim>\<open>quic-lite/src/lib.rs\<close> computes over all the paths of an association: the linked congestion
  increase of RFC 6356 in Q32 fixed point (\<open>linked_congestion_increase_q32\<close>), and the one pass over
  the transmission ledger that finds the timer candidates of every path (\<open>packet_timer_heads\<close>).
\<close>

section \<open>The linked increase\<close>

definition Q32 :: u128 where "Q32 = push_bit 32 1"

definition eligible :: "PathState \<Rightarrow> bool" where
  "eligible p \<longleftrightarrow> validated p \<and> \<not> suspended p \<and> \<not> peer_standby p \<and> \<not> peer_abandoned p
     \<and> \<not> locally_abandoned p \<and> (case smoothed_rtt (rtt p) of None \<Rightarrow> False | Some r \<Rightarrow> r > 0)"

text \<open>One round of the loop that accumulates \<open>sum(x_i * t_i)\<close> and \<open>max(x_i * t_i\<^sup>2)\<close>.\<close>

definition lia_step :: "u128 \<Rightarrow> u128 \<Rightarrow> PathState \<Rightarrow> u128 \<times> u128 \<Rightarrow> u128 \<times> u128" where
  "lia_step total_window min_rtt' path acc =
     (case smoothed_rtt (rtt path) of
        None \<Rightarrow> acc
      | Some r \<Rightarrow>
          if \<not> r > 0 then acc
          else
            let (sum_x_t_q32, max_x_t2_q32) = acc;
                x_q32 = sat_mul128 (congestion_window (congestion path)) Q32 div total_window;
                t_q32 = sat_mul128 min_rtt' Q32 div r;
                x_t_q32 = sat_mul128 x_q32 t_q32 div Q32;
                x_t2_q32 = sat_mul128 x_t_q32 t_q32 div Q32
            in (sat_add128 sum_x_t_q32 x_t_q32, max max_x_t2_q32 x_t2_q32))"

definition lia_min_rtt :: "PathState list \<Rightarrow> u128" where
  "lia_min_rtt paths =
     (case List.map_filter (\<lambda>path. smoothed_rtt (rtt path)) (filter eligible paths) of
        [] \<Rightarrow> max 1 1
      | r # rs \<Rightarrow> max (fold min rs r) 1)"

definition linked_congestion_increase_q32 :: "PathState list \<Rightarrow> usize \<Rightarrow> u64 \<Rightarrow> u128" where
  "linked_congestion_increase_q32 paths path_id acked_bytes =
     (if acked_bytes = 0 then 0
      else (case (if path_id < length paths \<and> eligible (paths ! path_id) then Some (paths ! path_id) else None) of
          None \<Rightarrow> 0
        | Some target \<Rightarrow>
            let total_window = sum_list (map (\<lambda>path. congestion_window (congestion path)) (filter eligible paths));
                mss = max_packet_size (congestion target)
            in if total_window = 0 then 0
               else if length paths = 1 then
                 (case (case checked_mul u64_max acked_bytes mss of
                          None \<Rightarrow> None | Some product \<Rightarrow> checked_mul u64_max product (push_bit 32 1)) of
                    Some numerator \<Rightarrow> numerator div congestion_window (congestion target)
                  | None \<Rightarrow> sat_mul128 (sat_mul128 acked_bytes mss) Q32 div total_window)
               else
                 let min_rtt' = lia_min_rtt paths;
                     (sum_x_t_q32, max_x_t2_q32) = fold (lia_step total_window min_rtt') (filter eligible paths) (0, 0)
                 in if sum_x_t_q32 = 0 then 0
                    else
                      let alpha_q32 = sat_mul128 (sat_mul128 max_x_t2_q32 Q32) Q32
                                        div max (sat_mul128 sum_x_t_q32 sum_x_t_q32) 1;
                          window = max (congestion_window (congestion target)) 1;
                          first = sat_mul128 (sat_mul128 alpha_q32 acked_bytes) mss div total_window;
                          second = sat_mul128 (sat_mul128 acked_bytes mss) Q32 div window
                      in min first second))"

section \<open>The timer heads of the transmission ledger\<close>

record SentPacket =
  sp_packet_number :: u32
  ack_largest_received :: "u32 option"
  path_id :: usize
  send_order :: u64
  sp_bytes :: u64
  sp_stream_id :: u64
  sp_offset :: u64
  sp_data_len :: usize
  sp_fin :: bool
  priority_stream :: bool
  path_probe :: bool
  probe_idle_exempt :: bool
  send_buffer_slot :: "usize option"
  probe_token :: "u64 option"
  path_status :: "(CircuitKey \<times> u64) option"
  rtt_eligible :: bool
  logical_packet_number :: u32
  duplication_charge :: u64
  duplication_budget_committed :: bool
  sent_at :: u64
  accepted :: bool
  window_limited :: bool
  lost :: bool
  inferred_lost :: bool
  data_delivered :: bool

definition older :: "u64 option \<Rightarrow> u64 \<Rightarrow> u64 option" where
  "older head t = Some (case head of None \<Rightarrow> t | Some old \<Rightarrow> min old t)"

text \<open>
  The arrays hold \<^const>\<open>MAX_PATH_STATES\<close> entries; \<open>None\<close> is the panic of an index beyond them.
\<close>

fun timer_heads_loop :: "PathState list \<Rightarrow> SentPacket list \<Rightarrow> u64 option list \<times> u64 option list \<times> bool
    \<Rightarrow> (u64 option list \<times> u64 option list \<times> bool) option" where
  "timer_heads_loop paths [] acc = Some acc"
| "timer_heads_loop paths (packet # packets) (earliest, loss, loss_candidate) =
     (if \<not> accepted packet then timer_heads_loop paths packets (earliest, loss, loss_candidate)
      else if lost packet
      then timer_heads_loop paths packets (earliest, loss, loss_candidate \<or> \<not> data_delivered packet \<or> sp_fin packet)
      else if \<not> path_id packet < length paths
      then timer_heads_loop paths packets (earliest, loss, loss_candidate)
      else if \<not> path_id packet < MAX_PATH_STATES then None
      else
        let i = path_id packet;
            earliest1 = earliest[i := older (earliest ! i) (sent_at packet)];
            loss1 = (if (case largest_acked_send_order (paths ! i) of None \<Rightarrow> False | Some order \<Rightarrow> send_order packet < order)
                     then loss[i := older (loss ! i) (sent_at packet)] else loss)
        in timer_heads_loop paths packets (earliest1, loss1, loss_candidate))"

definition packet_timer_heads :: "PathState list \<Rightarrow> SentPacket list
    \<Rightarrow> (u64 option list \<times> u64 option list \<times> bool) option" where
  "packet_timer_heads paths packets =
     timer_heads_loop paths packets (replicate MAX_PATH_STATES None, replicate MAX_PATH_STATES None, False)"

section \<open>The linked increase is never more aggressive than Reno\<close>

lemma sat_mul_mult_le: "sat_mul m (sat_mul m a b) c \<le> a * b * c"
proof -
  have "sat_mul m (sat_mul m a b) c \<le> sat_mul m a b * c" by (simp add: sat_mul_def)
  also have "\<dots> \<le> a * b * c" by (intro mult_le_mono1) (simp add: sat_mul_def)
  finally show ?thesis .
qed

lemma filter_singleton: "length xs = 1 \<Longrightarrow> i < length xs \<Longrightarrow> P (xs ! i) \<Longrightarrow> filter P xs = [xs ! i]"
  by (cases xs) auto

text \<open>
  Coupling does no harm: on every path, and whatever the other paths do, the linked
  increase is at most the one Reno would take alone, the acknowledged bytes times the packet size
  over the window; a path that is not eligible does not grow at all.
\<close>

theorem linked_increase_no_harm:
  assumes "i < length paths" "0 < congestion_window (congestion (paths ! i))"
  shows "linked_congestion_increase_q32 paths i acked
      \<le> acked * max_packet_size (congestion (paths ! i)) * Q32 div congestion_window (congestion (paths ! i))
    \<and> (\<not> eligible (paths ! i) \<longrightarrow> linked_congestion_increase_q32 paths i acked = 0)"
proof (cases "acked = 0 \<or> \<not> eligible (paths ! i)")
  case True
  then show ?thesis by (auto simp: linked_congestion_increase_q32_def)
next
  case False
  let ?w = "congestion_window (congestion (paths ! i))" and ?m = "max_packet_size (congestion (paths ! i))"
  have second: "sat_mul128 (sat_mul128 acked ?m) Q32 div ?w \<le> acked * ?m * Q32 div ?w"
    by (intro div_le_mono sat_mul_mult_le)
  have w: "max ?w 1 = ?w" using assms(2) by simp
  show ?thesis
  proof (cases "length paths = 1")
    case True
    with False assms second show ?thesis
      by (auto simp: linked_congestion_increase_q32_def Let_def filter_singleton [where P = eligible] checked_mul_def
          Q32_def split: option.split)
  next
    case multi: False
    have "linked_congestion_increase_q32 paths i acked \<le> sat_mul128 (sat_mul128 acked ?m) Q32 div ?w"
      using False multi assms unfolding linked_congestion_increase_q32_def Let_def w
      by (simp add: split_beta)
    with second False show ?thesis by simp
  qed
qed

lemma linked_increase_no_harm_witness:
  "linked_congestion_increase_q32 [mark_validated (update_rtt 30000 5 (path_new 1100)),
      mark_validated (update_rtt 90000 5 (path_new 1100))] 0 1100 \<le> 1100 * 1100 * Q32 div 11000"
proof -
  let ?ps = "[mark_validated (update_rtt 30000 5 (path_new 1100)), mark_validated (update_rtt 90000 5 (path_new 1100))]"
  have c: "congestion (?ps ! 0) = cc_new 1100" by (simp add: mark_validated_def path_new_def)
  have n: "congestion_window (cc_new 1100) = 11000" "max_packet_size (cc_new 1100) = 1100" by code_simp+
  show ?thesis using linked_increase_no_harm [of 0 ?ps 1100] unfolding c n by simp
qed

text \<open>
  With a single eligible path the linked increase is exactly Reno's, rounded down,
  whether it is the only path, where the shortcut is taken, or one of several, where the ratios
  are normalised and divided out again.
\<close>

theorem linked_increase_single:
  assumes "filter eligible paths = [paths ! i]" "i < length paths" "0 < congestion_window (congestion (paths ! i))"
    and "congestion_window (congestion (paths ! i)) \<le> u64_max" "smoothed_rtt (rtt (paths ! i)) = Some r" "r \<le> u64_max"
    and "acked * max_packet_size (congestion (paths ! i)) * Q32 \<le> u128_max" "0 < max_packet_size (congestion (paths ! i))"
  shows "linked_congestion_increase_q32 paths i acked
    = acked * max_packet_size (congestion (paths ! i)) * Q32 div congestion_window (congestion (paths ! i))"
proof -
  let ?w = "congestion_window (congestion (paths ! i))" and ?m = "max_packet_size (congestion (paths ! i))"
  have "paths ! i \<in> set (filter eligible paths)" by (simp add: assms(1))
  then have el: "eligible (paths ! i)" by simp
  then have r: "0 < r" using assms(5) by (simp add: eligible_def)
  have "acked * ?m \<le> acked * ?m * Q32" by (simp add: Q32_def)
  then have "acked * ?m \<le> u128_max" using assms(7) by (rule le_trans)
  then have s: "sat_mul128 (sat_mul128 acked ?m) Q32 = acked * ?m * Q32"
    using assms(7) by (simp add: sat_mul_exact)
  have q: "Q32 * acked \<le> acked * ?m * Q32" using assms(8) by simp
  then have "Q32 * acked \<le> u128_max" using assms(7) by (rule le_trans)
  then have "sat_mul128 Q32 acked = Q32 * acked" by (rule sat_mul_exact)
  moreover have "Q32 * acked * ?m = acked * ?m * Q32" by simp
  ultimately have f: "sat_mul128 (sat_mul128 Q32 acked) ?m = acked * ?m * Q32"
    using assms(7) by (simp only: sat_mul_exact)
  have wq: "sat_mul128 ?w Q32 div ?w = Q32" "sat_mul128 r Q32 div r = Q32"
    using assms(3,4,6) r by (simp_all add: sat_mul_def Q32_def)
  have min: "lia_min_rtt paths = r"
    using assms(1,5) r by (simp add: lia_min_rtt_def List.map_filter_simps max.absorb1)
  have acc: "fold (lia_step ?w r) [paths ! i] (0, 0) = (Q32, Q32)"
    using assms(5) r wq by (simp add: lia_step_def Let_def) (simp add: sat_mul_def sat_add_def Q32_def)
  have alpha: "sat_mul128 (sat_mul128 Q32 Q32) Q32 div max (sat_mul128 Q32 Q32) 1 = Q32" by (simp add: sat_mul_def Q32_def)
  have w: "max ?w 1 = ?w" using assms(3) by simp
  show ?thesis
  proof (cases "acked = 0")
    case False
    then show ?thesis
      using assms(2,3) el
      by (auto simp: linked_congestion_increase_q32_def Let_def assms(1) s min acc alpha f w checked_mul_def
          split: option.split simp del: fold.simps One_nat_def) (simp_all add: Q32_def)
  qed (simp add: linked_congestion_increase_q32_def)
qed

lemma linked_increase_single_witness:
  "linked_congestion_increase_q32 [mark_validated (update_rtt 30000 5 (path_new 1100)), mark_suspended (path_new 1100)] 0 1100
     = 1100 * 1100 * Q32 div 11000"
proof -
  let ?p = "mark_validated (update_rtt 30000 5 (path_new 1100))"
  let ?ps = "[?p, mark_suspended (path_new 1100)]"
  have c: "congestion (?ps ! 0) = cc_new 1100" by (simp add: mark_validated_def path_new_def)
  have n: "congestion_window (cc_new 1100) = 11000" "max_packet_size (cc_new 1100) = 1100" by code_simp+
  have "eligible ?p" "\<not> eligible (mark_suspended (path_new 1100))" "smoothed_rtt (rtt ?p) = Some 30000"
    by code_simp+
  then show ?thesis
    using linked_increase_single [of ?ps 0 30000 1100] unfolding c n by (simp add: Q32_def)
qed

section \<open>One pass finds the timer heads of every path\<close>

text \<open>The scan of the ledger for one path: the oldest send time among the packets that match.\<close>

definition oldest :: "(SentPacket \<Rightarrow> bool) \<Rightarrow> SentPacket list \<Rightarrow> u64 option" where
  "oldest P packets =
     (case map sent_at (filter P packets) of [] \<Rightarrow> None | t # ts \<Rightarrow> Some (Min (set (t # ts))))"

definition in_flight :: "PathState list \<Rightarrow> usize \<Rightarrow> SentPacket \<Rightarrow> bool" where
  "in_flight paths i packet \<longleftrightarrow> accepted packet \<and> \<not> lost packet \<and> path_id packet = i \<and> i < length paths"

definition overtaken :: "PathState list \<Rightarrow> usize \<Rightarrow> SentPacket \<Rightarrow> bool" where
  "overtaken paths i packet \<longleftrightarrow> in_flight paths i packet
     \<and> (\<exists>order. largest_acked_send_order (paths ! i) = Some order \<and> send_order packet < order)"

definition loss_candidate :: "SentPacket \<Rightarrow> bool" where
  "loss_candidate packet \<longleftrightarrow> accepted packet \<and> lost packet \<and> (\<not> data_delivered packet \<or> sp_fin packet)"

definition head_fold :: "(SentPacket \<Rightarrow> bool) \<Rightarrow> SentPacket list \<Rightarrow> u64 option \<Rightarrow> u64 option" where
  "head_fold P packets h = fold (\<lambda>packet h. if P packet then older h (sent_at packet) else h) packets h"

lemma head_fold_Some:
  "head_fold P packets (Some t) = Some (Min (insert t (sent_at ` set (filter P packets))))"
proof (induction packets arbitrary: t)
  case (Cons x xs)
  have "Min (insert (min t u) S) = Min (insert t (insert u S))" if "finite S" for u :: nat and S
    using that by (cases "S = {}") (simp_all add: min.assoc)
  with Cons show ?case by (simp add: head_fold_def older_def)
qed (simp add: head_fold_def)

lemma head_fold_oldest: "head_fold P packets None = oldest P packets"
proof (induction packets)
  case (Cons x xs)
  show ?case
  proof (cases "P x")
    case True
    have "head_fold P (x # xs) None = head_fold P xs (Some (sent_at x))"
      using True by (simp add: head_fold_def older_def)
    with True show ?thesis by (simp add: head_fold_Some oldest_def)
  next
    case False
    with Cons show ?thesis by (simp add: head_fold_def oldest_def)
  qed
qed (simp add: head_fold_def oldest_def)

lemma timer_heads_loop_eq:
  assumes "length paths \<le> MAX_PATH_STATES" "length e = MAX_PATH_STATES" "length l = MAX_PATH_STATES"
  shows "timer_heads_loop paths packets (e, l, c) =
    Some (map (\<lambda>i. head_fold (in_flight paths i) packets (e ! i)) [0..<MAX_PATH_STATES],
          map (\<lambda>i. head_fold (overtaken paths i) packets (l ! i)) [0..<MAX_PATH_STATES],
          c \<or> (\<exists>packet \<in> set packets. loss_candidate packet))"
  using assms(2,3)
proof (induction packets arbitrary: e l c)
  case Nil
  have "map (\<lambda>i. xs ! i) [0..<MAX_PATH_STATES] = xs" if "length xs = MAX_PATH_STATES" for xs :: "u64 option list"
    using that map_nth [of xs] by simp
  with Nil show ?case by (simp add: head_fold_def)
next
  case (Cons x xs)
  let ?i = "path_id x"
  have skip: "head_fold P (x # xs) h = head_fold P xs h" if "\<not> P x" for P h
    using that by (simp add: head_fold_def)
  have take: "head_fold P (x # xs) h = head_fold P xs (older h (sent_at x))" if "P x" for P h
    using that by (simp add: head_fold_def)
  show ?case
  proof (cases "accepted x \<and> \<not> lost x \<and> ?i < length paths")
    case False
    then have "\<not> in_flight paths i x" "\<not> overtaken paths i x" for i by (auto simp: in_flight_def overtaken_def)
    with False Cons show ?thesis by (auto simp: skip loss_candidate_def)
  next
    case True
    then have i: "?i < MAX_PATH_STATES" using assms(1) by simp
    have e: "head_fold (in_flight paths j) (x # xs) (e ! j)
        = head_fold (in_flight paths j) xs (e[?i := older (e ! ?i) (sent_at x)] ! j)"
      if "j < MAX_PATH_STATES" for j
      using True that Cons.prems by (cases "j = ?i") (auto simp: skip take in_flight_def)
    let ?late = "case largest_acked_send_order (paths ! ?i) of None \<Rightarrow> False | Some order \<Rightarrow> send_order x < order"
    have l: "head_fold (overtaken paths j) (x # xs) (l ! j)
        = head_fold (overtaken paths j) xs ((if ?late then l[?i := older (l ! ?i) (sent_at x)] else l) ! j)"
      if "j < MAX_PATH_STATES" for j
      using True that Cons.prems
      by (cases "j = ?i"; cases ?late) (auto simp: skip take in_flight_def overtaken_def split: option.splits)
    have "\<not> loss_candidate x" using True by (simp add: loss_candidate_def)
    with True i e l Cons show ?thesis by (simp add: Let_def)
  qed
qed

text \<open>
  Claim C39. The single pass over the transmission ledger gives, for each path, what two scans of
  the ledger for that path would: the oldest send time among its packets in flight, the oldest
  among those overtaken by an acknowledged one, and, over all paths, whether a lost packet still
  has something to repair. No index goes out of range.
\<close>

theorem packet_timer_heads_exact:
  assumes "length paths \<le> MAX_PATH_STATES"
  shows "packet_timer_heads paths packets =
    Some (map (\<lambda>i. oldest (in_flight paths i) packets) [0..<MAX_PATH_STATES],
          map (\<lambda>i. oldest (overtaken paths i) packets) [0..<MAX_PATH_STATES],
          \<exists>packet \<in> set packets. loss_candidate packet)"
  using timer_heads_loop_eq [OF assms, of "replicate MAX_PATH_STATES None" "replicate MAX_PATH_STATES None" packets False]
  by (simp add: packet_timer_heads_def head_fold_oldest [symmetric] cong: map_cong)

definition ledger_example :: "u64 \<Rightarrow> usize \<Rightarrow> SentPacket" where
  "ledger_example t i = \<lparr>sp_packet_number = 1, ack_largest_received = None, path_id = i, send_order = t, sp_bytes = 100,
     sp_stream_id = 0, sp_offset = 0, sp_data_len = 80, sp_fin = False, priority_stream = False, path_probe = False,
     probe_idle_exempt = False, send_buffer_slot = None, probe_token = None, path_status = None, rtt_eligible = True,
     logical_packet_number = 1, duplication_charge = 0, duplication_budget_committed = False, sent_at = t,
     accepted = True, window_limited = False, lost = False, inferred_lost = False, data_delivered = False\<rparr>"

lemma packet_timer_heads_exact_witness:
  "packet_timer_heads [path_new 1100, path_new 1100] [ledger_example 7 1, ledger_example 4 1]
     = Some ([None, Some 4, None, None], [None, None, None, None], False)"
proof -
  let ?ps = "[path_new 1100, path_new 1100]" and ?ls = "[ledger_example 7 1, ledger_example 4 1]"
  have "map (\<lambda>i. oldest (in_flight ?ps i) ?ls) [0..<MAX_PATH_STATES] = [None, Some 4, None, None]"
    by (simp add: MAX_PATH_STATES_def oldest_def in_flight_def ledger_example_def upt_rec)
  moreover have "map (\<lambda>i. oldest (overtaken ?ps i) ?ls) [0..<MAX_PATH_STATES] = [None, None, None, None]"
    by (simp add: MAX_PATH_STATES_def oldest_def overtaken_def in_flight_def ledger_example_def path_new_def upt_rec)
  moreover have "\<not> (\<exists>packet \<in> set ?ls. loss_candidate packet)" by (simp add: loss_candidate_def ledger_example_def)
  ultimately show ?thesis using packet_timer_heads_exact [of ?ps ?ls] by (simp add: MAX_PATH_STATES_def)
qed

end
