(* ===== verification/Send_Range.thy ===== *)
theory Send_Range
  imports Mesh_Prelude
begin

text \<open>
  \<open>RetainedSendRange\<close> of \<^verbatim>\<open>quic-lite/src/lib.rs\<close>: one transmitted stream range, kept for
  retransmission until every byte of it is acknowledged, with one acknowledgement bit per byte in
  64-bit words, and the payload compacted as its edges are acknowledged.

  The payload is either an owned vector whose first element is byte \<open>payload_start\<close>, or a pooled
  packet that is never moved; \<open>pool_payload\<close> holds the bytes of that packet.
\<close>

section \<open>Words\<close>

type_synonym word64 = "64 word"

definition trailing_zeros :: "word64 \<Rightarrow> nat" where
  "trailing_zeros w = (case find (bit w) [0..<64] of None \<Rightarrow> 64 | Some j \<Rightarrow> j)"

definition leading_zeros :: "word64 \<Rightarrow> nat" where
  "leading_zeros w = (case find (\<lambda>k. bit w (63 - k)) [0..<64] of None \<Rightarrow> 64 | Some k \<Rightarrow> k)"

text \<open>\<^verbatim>\<open>(u64::MAX << low) & (u64::MAX >> (63 - high))\<close>\<close>

definition span_mask :: "nat \<Rightarrow> nat \<Rightarrow> word64" where
  "span_mask low high = push_bit low (- 1) AND drop_bit (63 - high) (- 1)"

section \<open>The range\<close>

record PriorPacketLineage =
  pl_packet_number :: u32
  pl_offset :: u64
  pl_data_len :: usize
  pl_fin :: bool

record RetainedSendRange =
  rs_stream_id :: u64
  rs_offset :: u64
  rs_data_len :: usize
  rs_fin :: bool
  payload :: "u8 list option"
  pool_payload :: "u8 list option"
  payload_start :: usize
  payload_end :: usize
  acknowledged :: "word64 list"
  fin_acked :: bool
  rs_logical_packet_number :: u32
  prior_packets :: "PriorPacketLineage list"
  prior_packet_count :: nat

definition stored_end :: "RetainedSendRange \<Rightarrow> usize" where
  "stored_end r = (case payload r of None \<Rightarrow> payload_end r | Some p \<Rightarrow> payload_start r + length p)"

definition retained_len :: "RetainedSendRange \<Rightarrow> usize" where
  "retained_len r = stored_end r - payload_start r"

text \<open>\<^verbatim>\<open>slice.get(a..b)\<close>\<close>

definition get_range :: "'a list \<Rightarrow> usize \<Rightarrow> usize \<Rightarrow> 'a list option" where
  "get_range xs a b = (if a \<le> b \<and> b \<le> length xs then Some (drop a (take b xs)) else None)"

definition payload_range :: "RetainedSendRange \<Rightarrow> usize \<Rightarrow> usize \<Rightarrow> u8 list option" where
  "payload_range r start e =
     (if start < payload_start r \<or> e > stored_end r \<or> start > e then None
      else (case payload r of
        Some p \<Rightarrow> get_range p (start - payload_start r) (e - payload_start r)
      | None \<Rightarrow> (case pool_payload r of None \<Rightarrow> None | Some p \<Rightarrow> get_range p start e)))"

text \<open>
  The closures \<open>live_word\<close> and the body of \<open>first_bit\<close>: the bits of word \<open>index\<close> that lie in
  \<open>[start, e)\<close> and are acknowledged, or not.
\<close>

definition window_word :: "bool \<Rightarrow> word64 list \<Rightarrow> usize \<Rightarrow> usize \<Rightarrow> usize \<Rightarrow> word64" where
  "window_word acked ack start e index =
     (let low = (if index = start div 64 then start mod 64 else 0);
          high = (if index = (e - 1) div 64 then (e - 1) mod 64 else 63);
          word = (if index < length ack then ack ! index else 0)
      in (if acked then word else NOT word) AND span_mask low high)"

definition unacknowledged_bounds :: "RetainedSendRange \<Rightarrow> usize \<Rightarrow> usize \<Rightarrow> (usize \<times> usize) option" where
  "unacknowledged_bounds r start e =
     (if start \<ge> e then None
      else
        let live = window_word False (acknowledged r) start e in
        (case find (\<lambda>i. live i \<noteq> 0) [start div 64 ..< (e - 1) div 64 + 1] of
           None \<Rightarrow> None
         | Some first_word \<Rightarrow>
             (case find (\<lambda>i. live i \<noteq> 0) (rev [first_word ..< (e - 1) div 64 + 1]) of
                None \<Rightarrow> None
              | Some last_word \<Rightarrow>
                  Some (first_word * 64 + trailing_zeros (live first_word),
                        last_word * 64 + 64 - leading_zeros (live last_word)))))"

text \<open>Both return the payload vector when the range is done with it, for reuse.\<close>

definition compact_acknowledged_edges :: "RetainedSendRange \<Rightarrow> RetainedSendRange \<times> u8 list option" where
  "compact_acknowledged_edges r =
     (if payload r = None \<and> pool_payload r = None then (r, None)
      else (case unacknowledged_bounds r (payload_start r) (stored_end r) of
        None \<Rightarrow>
          (r\<lparr>payload_start := rs_data_len r, payload_end := rs_data_len r, pool_payload := None, payload := None\<rparr>,
           payload r)
      | Some (first_live, last_live_end) \<Rightarrow>
          let p' = map_option (\<lambda>p. take (last_live_end - first_live)
                     (if first_live > payload_start r then drop (first_live - payload_start r) p else p)) (payload r)
          in (r\<lparr>payload := p',
                payload_start := (if first_live > payload_start r then first_live else payload_start r),
                payload_end := last_live_end\<rparr>, None)))"

definition mark_words :: "usize \<Rightarrow> usize \<Rightarrow> word64 list \<Rightarrow> word64 list" where
  "mark_words first lst ack = fold (\<lambda>word_index ack.
     let low = (if word_index = first div 64 then first mod 64 else 0);
         high = (if word_index = lst div 64 then lst mod 64 else 63)
     in ack[word_index := ack ! word_index OR span_mask low high]) [first div 64 ..< lst div 64 + 1] ack"

definition mark_acknowledged :: "u64 \<Rightarrow> usize \<Rightarrow> RetainedSendRange \<Rightarrow> RetainedSendRange \<times> u8 list option" where
  "mark_acknowledged off len r =
     (let start = max off (rs_offset r);
          e = min (sat_add64 off len) (sat_add64 (rs_offset r) (rs_data_len r))
      in if start \<ge> e then (r, None)
         else if start = rs_offset r \<and> e = sat_add64 (rs_offset r) (rs_data_len r)
         then (r\<lparr>acknowledged := map (\<lambda>_. - 1) (acknowledged r), payload_start := rs_data_len r,
                  payload_end := rs_data_len r, pool_payload := None, payload := None\<rparr>, payload r)
         else
           let first = start - rs_offset r; lst = e - rs_offset r - 1
           in compact_acknowledged_edges (r\<lparr>acknowledged := mark_words first lst (acknowledged r)\<rparr>))"

definition is_byte_acknowledged :: "RetainedSendRange \<Rightarrow> usize \<Rightarrow> bool" where
  "is_byte_acknowledged r index \<longleftrightarrow> index div 64 < length (acknowledged r) \<and>
     acknowledged r ! (index div 64) AND push_bit (index mod 64) 1 \<noteq> 0"

definition all_data_acknowledged :: "RetainedSendRange \<Rightarrow> bool" where
  "all_data_acknowledged r \<longleftrightarrow> payload_start r = rs_data_len r"

definition first_bit :: "RetainedSendRange \<Rightarrow> usize \<Rightarrow> bool \<Rightarrow> usize option" where
  "first_bit r start acked =
     (if start \<ge> stored_end r then None
      else
        let bits = window_word acked (acknowledged r) start (stored_end r) in
        map_option (\<lambda>index. index * 64 + trailing_zeros (bits index))
          (find (\<lambda>index. bits index \<noteq> 0) [start div 64 ..< (stored_end r - 1) div 64 + 1]))"

definition first_unacknowledged_run :: "RetainedSendRange \<Rightarrow> (usize \<times> usize) option" where
  "first_unacknowledged_run r =
     (if payload r = None \<and> pool_payload r = None then None
      else (case first_bit r (payload_start r) False of
        None \<Rightarrow> None
      | Some start \<Rightarrow>
          Some (start, case first_bit r (start + 1) True of None \<Rightarrow> stored_end r | Some e \<Rightarrow> e)))"

definition acknowledged_payload_bytes :: "RetainedSendRange \<Rightarrow> usize" where
  "acknowledged_payload_bytes r =
     length (filter (\<lambda>index. \<not> is_byte_acknowledged r index) [0..<rs_data_len r])"

text \<open>The lineage array has 16 entries; the oldest is rotated out when it is full.\<close>

definition add_prior_packet :: "PriorPacketLineage \<Rightarrow> RetainedSendRange \<Rightarrow> RetainedSendRange" where
  "add_prior_packet lineage r =
     (let count = prior_packet_count r in
      if count < length (prior_packets r)
      then r\<lparr>prior_packets := (prior_packets r)[count := lineage], prior_packet_count := count + 1\<rparr>
      else r\<lparr>prior_packets := (rotate 1 (prior_packets r))[length (prior_packets r) - 1 := lineage]\<rparr>)"

section \<open>Bits of a window\<close>

lemma nonzero_bit: "(w :: word64) \<noteq> 0 \<Longrightarrow> \<exists>j < 64. bit w j"
  using bit_eq_iff [of w 0] bit_imp_le_length [of w] by auto

lemma trailing_zeros_spec:
  assumes "w \<noteq> 0"
  shows "trailing_zeros w < 64 \<and> bit w (trailing_zeros w) \<and> (\<forall>j < trailing_zeros w. \<not> bit w j)"
proof -
  from nonzero_bit [OF assms] obtain k where "find (bit w) [0..<64] = Some k"
    using find_upt_None [of "bit w" 0 64] by (cases "find (bit w) [0..<64]") auto
  then show ?thesis using find_upt_Some [of "bit w" 0 64 k] by (simp add: trailing_zeros_def)
qed

lemma leading_zeros_spec:
  assumes "w \<noteq> 0"
  shows "leading_zeros w < 64 \<and> bit w (63 - leading_zeros w) \<and> (\<forall>j. 63 - leading_zeros w < j \<longrightarrow> \<not> bit w j)"
proof -
  from nonzero_bit [OF assms] obtain j where j: "j < 64" "bit w j" by blast
  then have "63 - j < 64" "bit w (63 - (63 - j))" by auto
  then obtain k where f: "find (\<lambda>k. bit w (63 - k)) [0..<64] = Some k"
    using find_upt_None [of "\<lambda>k. bit w (63 - k)" 0 64] by (cases "find (\<lambda>k. bit w (63 - k)) [0..<64]") auto
  then have k: "k < 64" "bit w (63 - k)" "\<forall>m < k. \<not> bit w (63 - m)" "leading_zeros w = k"
    using find_upt_Some [of "\<lambda>k. bit w (63 - k)" 0 64 k] by (simp_all add: leading_zeros_def)
  have "\<not> bit w i" if "63 - k < i" for i
  proof
    assume b: "bit w i"
    then have "i < 64" using bit_imp_le_length [of w i] by simp
    then have "63 - i < k" "63 - (63 - i) = i" using that by auto
    with k(3) b show False by metis
  qed
  with k show ?thesis by simp
qed

lemma bit_span_mask: "high < 64 \<Longrightarrow> bit (span_mask low high) j \<longleftrightarrow> low \<le> j \<and> j \<le> high"
  by (auto simp: span_mask_def bit_simps)

lemma is_byte_acknowledged_bit: "is_byte_acknowledged r i \<longleftrightarrow>
    i div 64 < length (acknowledged r) \<and> bit (acknowledged r ! (i div 64)) (i mod 64)"
  using and_exp_eq_0_iff_not_bit [of "acknowledged r ! (i div 64)" "i mod 64"]
  by (simp add: is_byte_acknowledged_def push_bit_eq_mult)

text \<open>The bit offsets at the two ends of a window of positions \<open>start\<close> to \<open>lst\<close>.\<close>

lemma window_low:
  fixes start index j :: nat
  assumes "start div 64 \<le> index"
  shows "(if index = start div 64 then start mod 64 else 0) \<le> j \<longleftrightarrow> start \<le> index * 64 + j"
proof (cases "index = start div 64")
  case True
  have "start mod 64 \<le> j \<longleftrightarrow> start \<le> start div 64 * 64 + j" using div_mult_mod_eq [of start 64] by linarith
  with True show ?thesis by simp
next
  case False
  then have "start div 64 * 64 + 64 \<le> index * 64" using assms by simp
  with False show ?thesis using div_mult_mod_eq [of start 64] mod_less_divisor [of 64 start] by simp
qed

lemma window_high:
  fixes lst index j :: nat
  assumes "index \<le> lst div 64" "j < 64"
  shows "j \<le> (if index = lst div 64 then lst mod 64 else 63) \<longleftrightarrow> index * 64 + j \<le> lst"
proof (cases "index = lst div 64")
  case True
  have "j \<le> lst mod 64 \<longleftrightarrow> lst div 64 * 64 + j \<le> lst" using div_mult_mod_eq [of lst 64] by linarith
  with True show ?thesis by simp
next
  case False
  then have "index * 64 + 64 \<le> lst div 64 * 64" using assms(1) by simp
  then have "index * 64 + j \<le> lst" using assms(2) div_mult_mod_eq [of lst 64] by linarith
  with False assms(2) show ?thesis by simp
qed

lemma bit_window_word:
  assumes "start < e" "start div 64 \<le> index" "index \<le> (e - 1) div 64" "j < 64"
  shows "bit (window_word acked (acknowledged r) start e index) j \<longleftrightarrow>
    start \<le> index * 64 + j \<and> index * 64 + j < e \<and> is_byte_acknowledged r (index * 64 + j) = acked"
proof -
  define low where "low = (if index = start div 64 then start mod 64 else 0)"
  define high where "high = (if index = (e - 1) div 64 then (e - 1) mod 64 else 63)"
  define word where "word = (if index < length (acknowledged r) then acknowledged r ! index else 0)"
  have l: "low \<le> j \<longleftrightarrow> start \<le> index * 64 + j" unfolding low_def using assms(2) by (rule window_low)
  have "j \<le> high \<longleftrightarrow> index * 64 + j \<le> e - 1" unfolding high_def using assms(3,4) by (rule window_high)
  then have h: "j \<le> high \<longleftrightarrow> index * 64 + j < e" using assms(1) by linarith
  have "high < 64" by (simp add: high_def)
  moreover have "window_word acked (acknowledged r) start e index = (if acked then word else NOT word) AND span_mask low high"
    unfolding window_word_def Let_def low_def high_def word_def ..
  moreover have "is_byte_acknowledged r (index * 64 + j) \<longleftrightarrow> bit word j"
    using assms(4) by (simp add: is_byte_acknowledged_bit word_def)
  ultimately show ?thesis using l h assms(4) by (cases acked) (auto simp: bit_span_mask bit_and_iff bit_not_iff)
qed

text \<open>A position of the window sits in a word of the scanned range.\<close>

lemma window_word_member:
  assumes "start \<le> i" "i < e"
  shows "start div 64 \<le> i div 64" "i div 64 \<le> (e - 1) div 64"
    "bit (window_word acked (acknowledged r) start e (i div 64)) (i mod 64) \<longleftrightarrow> is_byte_acknowledged r i = acked"
proof -
  show w: "start div 64 \<le> i div 64" "i div 64 \<le> (e - 1) div 64" using assms by (auto intro: div_le_mono)
  have "i div 64 * 64 + i mod 64 = i" by simp
  with bit_window_word [OF _ w, of "i mod 64" acked r] assms
  show "bit (window_word acked (acknowledged r) start e (i div 64)) (i mod 64) \<longleftrightarrow> is_byte_acknowledged r i = acked"
    by simp
qed

lemma window_find_None:
  assumes "find (\<lambda>i. window_word acked (acknowledged r) start e i \<noteq> 0) [start div 64 ..< (e - 1) div 64 + 1] = None"
    and "start \<le> i" "i < e"
  shows "is_byte_acknowledged r i \<noteq> acked"
proof
  assume "is_byte_acknowledged r i = acked"
  then have "bit (window_word acked (acknowledged r) start e (i div 64)) (i mod 64)"
    using window_word_member(3) [OF assms(2,3)] by simp
  then have "window_word acked (acknowledged r) start e (i div 64) \<noteq> 0" by auto
  moreover have "i div 64 < (e - 1) div 64 + 1" using window_word_member(2) [OF assms(2,3)] by linarith
  ultimately show False
    using assms(1) window_word_member(1) [OF assms(2,3)] unfolding find_upt_None by blast
qed

lemma window_find_Some:
  assumes "find (\<lambda>i. window_word acked (acknowledged r) start e i \<noteq> 0) [start div 64 ..< (e - 1) div 64 + 1] = Some idx"
    and "start < e" "k = idx * 64 + trailing_zeros (window_word acked (acknowledged r) start e idx)"
  shows "start \<le> k \<and> k < e \<and> is_byte_acknowledged r k = acked \<and> (\<forall>i. start \<le> i \<and> i < k \<longrightarrow> is_byte_acknowledged r i \<noteq> acked)"
proof -
  let ?w = "window_word acked (acknowledged r) start e"
  from assms(1) have idx: "start div 64 \<le> idx" "idx \<le> (e - 1) div 64" "?w idx \<noteq> 0"
    and zero: "\<And>m. start div 64 \<le> m \<Longrightarrow> m < idx \<Longrightarrow> ?w m = 0"
    unfolding find_upt_Some by auto
  note tz = trailing_zeros_spec [OF idx(3)]
  have at: "start \<le> k \<and> k < e \<and> is_byte_acknowledged r k = acked"
    using bit_window_word [OF assms(2) idx(1,2), of "trailing_zeros (?w idx)" acked r] tz assms(3) by simp
  have "is_byte_acknowledged r i \<noteq> acked" if "start \<le> i" "i < k" for i
  proof
    assume a: "is_byte_acknowledged r i = acked"
    have ie: "i < e" using that at by simp
    have b: "bit (?w (i div 64)) (i mod 64)" using window_word_member(3) [OF that(1) ie] a by simp
    then have "?w (i div 64) \<noteq> 0" by auto
    with zero [OF window_word_member(1) [OF that(1) ie]] have "\<not> i div 64 < idx" by blast
    moreover have "i div 64 \<le> k div 64" using that by (simp add: div_le_mono)
    moreover have "k div 64 = idx" using tz assms(3) by simp
    ultimately have "i div 64 = idx" by simp
    moreover from this have "i mod 64 < trailing_zeros (?w idx)"
      using that assms(3) div_mult_mod_eq [of i 64] by linarith
    ultimately show False using b tz by auto
  qed
  with at show ?thesis by blast
qed

lemma window_rfind_Some:
  assumes "find (\<lambda>i. window_word acked (acknowledged r) start e i \<noteq> 0) (rev [lo ..< (e - 1) div 64 + 1]) = Some idx"
    and "start < e" "start div 64 \<le> lo" "k = idx * 64 + 64 - leading_zeros (window_word acked (acknowledged r) start e idx)"
  shows "start < k \<and> k \<le> e \<and> is_byte_acknowledged r (k - 1) = acked
    \<and> (\<forall>i. k \<le> i \<and> i < e \<longrightarrow> is_byte_acknowledged r i \<noteq> acked)"
proof -
  let ?w = "window_word acked (acknowledged r) start e"
  from assms(1,3) have idx: "start div 64 \<le> idx" "idx \<le> (e - 1) div 64" "?w idx \<noteq> 0"
    and zero: "\<And>m. idx < m \<Longrightarrow> m \<le> (e - 1) div 64 \<Longrightarrow> ?w m = 0"
    unfolding find_rev_upt_Some by auto
  define j where "j = 63 - leading_zeros (?w idx)"
  have j: "j < 64" "bit (?w idx) j" "\<And>m. j < m \<Longrightarrow> \<not> bit (?w idx) m"
    using leading_zeros_spec [OF idx(3)] by (auto simp: j_def)
  have "leading_zeros (?w idx) < 64" using leading_zeros_spec [OF idx(3)] by blast
  then have k: "k = idx * 64 + j + 1" unfolding assms(4) j_def by linarith
  have at: "start \<le> idx * 64 + j \<and> idx * 64 + j < e \<and> is_byte_acknowledged r (idx * 64 + j) = acked"
    using bit_window_word [OF assms(2) idx(1,2) j(1)] j(2) by blast
  have "is_byte_acknowledged r i \<noteq> acked" if "k \<le> i" "i < e" for i
  proof
    assume a: "is_byte_acknowledged r i = acked"
    have si: "start \<le> i" using that at k by simp
    have b: "bit (?w (i div 64)) (i mod 64)" using window_word_member(3) [OF si that(2)] a by simp
    then have "?w (i div 64) \<noteq> 0" by auto
    with zero window_word_member(2) [OF si that(2)] have "\<not> idx < i div 64" by blast
    moreover have "idx * 64 div 64 \<le> i div 64" using that k by (intro div_le_mono) simp
    ultimately have "i div 64 = idx" by simp
    moreover from this have "j < i mod 64" using that k div_mult_mod_eq [of i 64] by linarith
    ultimately show False using b j(3) by auto
  qed
  with at k show ?thesis by simp
qed

section \<open>Marking bytes\<close>

lemma fold_update_words:
  assumes "b \<le> length (ack :: word64 list)"
  shows "length (fold (\<lambda>w ack. ack[w := ack ! w OR m w]) [a..<b] ack) = length ack"
    "k < length ack \<Longrightarrow> fold (\<lambda>w ack. ack[w := ack ! w OR m w]) [a..<b] ack ! k
      = (if a \<le> k \<and> k < b then ack ! k OR m k else ack ! k)"
  using assms by (induction b) (auto simp: less_Suc_eq nth_list_update)

lemma mark_words_spec:
  assumes "first \<le> lst" "lst div 64 < length ack"
  shows "length (mark_words first lst ack) = length ack"
    "i div 64 < length ack \<Longrightarrow> bit (mark_words first lst ack ! (i div 64)) (i mod 64) \<longleftrightarrow>
      bit (ack ! (i div 64)) (i mod 64) \<or> first \<le> i \<and> i \<le> lst"
proof -
  define m where "m w = span_mask (if w = first div 64 then first mod 64 else 0) (if w = lst div 64 then lst mod 64 else 63)" for w
  have eq: "mark_words first lst ack = fold (\<lambda>w ack. ack[w := ack ! w OR m w]) [first div 64 ..< lst div 64 + 1] ack"
    by (simp add: mark_words_def m_def Let_def)
  have b: "lst div 64 + 1 \<le> length ack" using assms(2) by simp
  show "length (mark_words first lst ack) = length ack" unfolding eq by (rule fold_update_words(1) [OF b])
  assume i: "i div 64 < length ack"
  have hi: "(if i div 64 = lst div 64 then lst mod 64 else 63) < (64 :: nat)" by simp
  have im: "i mod 64 < 64" "i div 64 * 64 + i mod 64 = i" by simp_all
  show "bit (mark_words first lst ack ! (i div 64)) (i mod 64) \<longleftrightarrow>
      bit (ack ! (i div 64)) (i mod 64) \<or> first \<le> i \<and> i \<le> lst"
  proof (cases "first div 64 \<le> i div 64 \<and> i div 64 \<le> lst div 64")
    case True
    then have "bit (m (i div 64)) (i mod 64) \<longleftrightarrow> first \<le> i \<and> i \<le> lst"
      using window_low [of first "i div 64" "i mod 64"] window_high [of "i div 64" lst "i mod 64"] im
      unfolding m_def bit_span_mask [OF hi] by simp
    with True i show ?thesis unfolding eq fold_update_words(2) [OF b i] by (simp add: bit_or_iff)
  next
    case False
    then have "\<not> (first \<le> i \<and> i \<le> lst)" using div_le_mono [of first i 64] div_le_mono [of i lst 64] by auto
    with False i show ?thesis unfolding eq fold_update_words(2) [OF b i] by auto
  qed
qed

section \<open>What a retained range holds\<close>

text \<open>
  \<open>D\<close> are the bytes that were sent. Every byte not yet acknowledged is still stored, with its
  original value, whichever way the payload is held.
\<close>

definition holds :: "u8 list \<Rightarrow> RetainedSendRange \<Rightarrow> bool" where
  "holds D r \<longleftrightarrow> length D = rs_data_len r \<and> rs_data_len r \<le> 64 * length (acknowledged r)
     \<and> rs_offset r + rs_data_len r < u64_max
     \<and> payload_start r \<le> rs_data_len r \<and> stored_end r \<le> rs_data_len r
     \<and> (\<forall>p. payload r = Some p \<longrightarrow> pool_payload r = None \<and> p = take (length p) (drop (payload_start r) D))
     \<and> (\<forall>q. pool_payload r = Some q \<longrightarrow> q = D)
     \<and> (payload r = None \<and> pool_payload r = None \<longrightarrow>
          payload_start r = rs_data_len r \<and> (\<forall>i < rs_data_len r. is_byte_acknowledged r i))
     \<and> (\<forall>i < rs_data_len r. \<not> is_byte_acknowledged r i \<longrightarrow> payload_start r \<le> i \<and> i < stored_end r)"

definition rsr_inv :: "u8 list \<Rightarrow> RetainedSendRange \<Rightarrow> bool" where
  "rsr_inv D r \<longleftrightarrow> holds D r \<and> ((\<forall>i < rs_data_len r. is_byte_acknowledged r i) \<longrightarrow> payload_start r = rs_data_len r)"

lemma unacknowledged_bounds_spec:
  "unacknowledged_bounds r start e = None \<Longrightarrow> start \<le> i \<Longrightarrow> i < e \<Longrightarrow> is_byte_acknowledged r i"
  "unacknowledged_bounds r start e = Some (a, b) \<Longrightarrow> start \<le> a \<and> a < b \<and> b \<le> e
     \<and> \<not> is_byte_acknowledged r a
     \<and> (\<forall>i. start \<le> i \<and> i < e \<and> \<not> is_byte_acknowledged r i \<longrightarrow> a \<le> i \<and> i < b)"
proof -
  let ?live = "window_word False (acknowledged r) start e" and ?up = "[start div 64 ..< (e - 1) div 64 + 1]"
  have last_word: "find (\<lambda>i. ?live i \<noteq> 0) (rev [f ..< (e - 1) div 64 + 1]) \<noteq> None"
    if "find (\<lambda>i. ?live i \<noteq> 0) ?up = Some f" for f
  proof -
    have "f \<in> set (rev [f ..< (e - 1) div 64 + 1])" "?live f \<noteq> 0" using that unfolding find_upt_Some by auto
    then show ?thesis unfolding find_None_iff by blast
  qed
  show "is_byte_acknowledged r i" if "unacknowledged_bounds r start e = None" "start \<le> i" "i < e"
  proof -
    have "find (\<lambda>i. ?live i \<noteq> 0) ?up = None"
      using that last_word by (auto simp: unacknowledged_bounds_def Let_def simp del: upt_Suc split: option.splits)
    from window_find_None [OF this that(2,3)] show ?thesis by simp
  qed
  assume s: "unacknowledged_bounds r start e = Some (a, b)"
  then obtain f l where f: "start < e" "find (\<lambda>i. ?live i \<noteq> 0) ?up = Some f"
      "find (\<lambda>i. ?live i \<noteq> 0) (rev [f ..< (e - 1) div 64 + 1]) = Some l"
      "a = f * 64 + trailing_zeros (?live f)" "b = l * 64 + 64 - leading_zeros (?live l)"
    by (auto simp: unacknowledged_bounds_def Let_def simp del: upt_Suc split: if_splits option.splits)
  have lo: "start div 64 \<le> f" using f(2) unfolding find_upt_Some by blast
  note A = window_find_Some [OF f(2,1,4)] and B = window_rfind_Some [OF f(3,1) lo f(5)]
  have ab: "a < b"
  proof (rule ccontr)
    assume "\<not> a < b"
    with A B show False by auto
  qed
  then show "start \<le> a \<and> a < b \<and> b \<le> e \<and> \<not> is_byte_acknowledged r a
     \<and> (\<forall>i. start \<le> i \<and> i < e \<and> \<not> is_byte_acknowledged r i \<longrightarrow> a \<le> i \<and> i < b)"
    using A B by (metis not_le)
qed

lemma drop_take_slice:
  assumes "p = take (length p) (drop k D)" "k \<le> a" "a \<le> b" "b \<le> k + length p"
  shows "take (b - a) (drop (a - k) p) = take (b - a) (drop a D)"
proof -
  have "drop (a - k) p = take (length p - (a - k)) (drop (a - k) (drop k D))"
    by (subst assms(1)) (simp add: drop_take)
  also have "drop (a - k) (drop k D) = drop a D" using assms(2) by simp
  finally show ?thesis using assms by simp
qed

lemma compact_spec:
  assumes "holds D r" "compact_acknowledged_edges r = (r', out)"
  shows "rsr_inv D r' \<and> acknowledged r' = acknowledged r \<and> rs_offset r' = rs_offset r \<and> rs_data_len r' = rs_data_len r"
proof -
  have ack: "is_byte_acknowledged r' = is_byte_acknowledged r" if "acknowledged r' = acknowledged r"
    using that by (simp add: fun_eq_iff is_byte_acknowledged_def)
  show ?thesis
  proof (cases "payload r = None \<and> pool_payload r = None")
    case True
    then show ?thesis using assms by (auto simp: compact_acknowledged_edges_def rsr_inv_def holds_def)
  next
    case False
    note live = False
    show ?thesis
    proof (cases "unacknowledged_bounds r (payload_start r) (stored_end r)")
      case None
      have all: "is_byte_acknowledged r i" if "i < rs_data_len r" for i
        using assms(1) that unacknowledged_bounds_spec(1) [OF None] by (auto simp: holds_def)
      have r': "r' = r\<lparr>payload_start := rs_data_len r, payload_end := rs_data_len r, pool_payload := None, payload := None\<rparr>"
        using assms(2) None live by (auto simp: compact_acknowledged_edges_def)
      show ?thesis using assms(1) all ack r' by (auto simp: rsr_inv_def holds_def stored_end_def)
    next
      case (Some ab)
      obtain a b where ab: "ab = (a, b)" by (cases ab)
      note B = unacknowledged_bounds_spec(2) [OF Some [unfolded ab]]
      have r': "r' = r\<lparr>payload := map_option (\<lambda>p. take (b - a) (drop (a - payload_start r) p)) (payload r),
          payload_start := a, payload_end := b\<rparr>"
        using assms(2) Some ab live B by (auto simp: compact_acknowledged_edges_def Let_def intro!: option.map_cong)
      have "holds D r'"
      proof (cases "payload r")
        case None
        then show ?thesis using assms(1) B ack live by (auto simp: r' holds_def stored_end_def)
      next
        case (Some p)
        have p: "p = take (length p) (drop (payload_start r) D)" "pool_payload r = None"
          "b \<le> payload_start r + length p" "payload_start r + length p \<le> rs_data_len r"
          using assms(1) B Some by (auto simp: holds_def stored_end_def)
        let ?p = "take (b - a) (drop (a - payload_start r) p)"
        have slice: "?p = take (b - a) (drop a D)" using p B by (intro drop_take_slice) auto
        have len: "length ?p = b - a" using p(3) B by simp
        show ?thesis using assms(1) B ack Some p(2-4) slice len
          by (auto simp: r' holds_def stored_end_def simp del: length_take)
      qed
      moreover have "\<exists>i < rs_data_len r'. \<not> is_byte_acknowledged r' i"
        using B ack r' assms(1) by (auto simp: holds_def intro!: exI [of _ a])
      ultimately show ?thesis unfolding rsr_inv_def by (auto simp: r')
    qed
  qed
qed

section \<open>What the retained range promises\<close>

lemma stored_end_ack [simp]: "stored_end (r\<lparr>acknowledged := a\<rparr>) = stored_end r"
  by (simp add: stored_end_def split: option.split)

lemma index_word: "i < n \<Longrightarrow> n \<le> 64 * m \<Longrightarrow> i div 64 < (m :: nat)"
  by (simp add: less_mult_imp_div_less mult.commute)

lemma mark_acknowledged_spec:
  assumes "rsr_inv D r" "mark_acknowledged off len r = (r', out)"
  shows "rsr_inv D r'
    \<and> (\<forall>i < rs_data_len r. is_byte_acknowledged r' i \<longleftrightarrow>
        is_byte_acknowledged r i \<or> off \<le> rs_offset r + i \<and> rs_offset r + i < off + len)
    \<and> (all_data_acknowledged r' \<longleftrightarrow> (\<forall>i < rs_data_len r. is_byte_acknowledged r' i))"
proof -
  have h: "holds D r" "rs_offset r + rs_data_len r < u64_max" "rs_data_len r \<le> 64 * length (acknowledged r)"
    using assms(1) by (auto simp: rsr_inv_def holds_def)
  have done_iff: "all_data_acknowledged s \<longleftrightarrow> (\<forall>i < rs_data_len s. is_byte_acknowledged s i)" if "rsr_inv D s" for s
    using that by (force simp: rsr_inv_def holds_def all_data_acknowledged_def)
  define start e where "start = max off (rs_offset r)" and "e = min (sat_add64 off len) (rs_offset r + rs_data_len r)"
  have sat: "sat_add64 (rs_offset r) (rs_data_len r) = rs_offset r + rs_data_len r" using h(2) by (simp add: sat_add_def)
  have cover: "off \<le> rs_offset r + i \<and> rs_offset r + i < off + len \<longleftrightarrow> start \<le> rs_offset r + i \<and> rs_offset r + i < e"
    if "i < rs_data_len r" for i
    using that h(2) by (auto simp: start_def e_def sat_add_def)
  note m = assms(2) [unfolded mark_acknowledged_def Let_def sat, folded start_def e_def]
  consider (none) "start \<ge> e" | (full) "start < e" "start = rs_offset r" "e = rs_offset r + rs_data_len r"
    | (part) "start < e" "\<not> (start = rs_offset r \<and> e = rs_offset r + rs_data_len r)" by linarith
  then have "rsr_inv D r' \<and> rs_data_len r' = rs_data_len r
    \<and> (\<forall>i < rs_data_len r. is_byte_acknowledged r' i \<longleftrightarrow> is_byte_acknowledged r i \<or> start \<le> rs_offset r + i \<and> rs_offset r + i < e)"
  proof cases
    case none
    then show ?thesis using m assms(1) by auto
  next
    case full
    then have r': "r' = r\<lparr>acknowledged := map (\<lambda>_. - 1) (acknowledged r), payload_start := rs_data_len r,
        payload_end := rs_data_len r, pool_payload := None, payload := None\<rparr>" using m by auto
    have all: "is_byte_acknowledged r' i" if "i < rs_data_len r" for i
      using index_word [OF that h(3)] by (simp add: r' is_byte_acknowledged_bit)
    then have "rsr_inv D r'" using h(1) by (simp add: rsr_inv_def holds_def r' stored_end_def)
    then show ?thesis using all full by (simp add: r')
  next
    case part
    let ?f = "start - rs_offset r" and ?l = "e - rs_offset r - 1"
    let ?m = "r\<lparr>acknowledged := mark_words ?f ?l (acknowledged r)\<rparr>"
    have b: "rs_offset r \<le> start" "e \<le> rs_offset r + rs_data_len r" by (simp_all add: start_def e_def)
    have fl: "?f \<le> ?l" "?l < rs_data_len r" using part b by linarith+
    note w = mark_words_spec [OF fl(1) index_word [OF fl(2) h(3)]]
    have bits: "is_byte_acknowledged ?m i \<longleftrightarrow> is_byte_acknowledged r i \<or> start \<le> rs_offset r + i \<and> rs_offset r + i < e"
      if "i < rs_data_len r" for i
      using w(1) w(2) [OF index_word [OF that h(3)]] index_word [OF that h(3)] b part(1)
      by (auto simp: is_byte_acknowledged_bit)
    have "holds D ?m" using h(1) bits w(1) unfolding holds_def by simp
    moreover have "compact_acknowledged_edges ?m = (r', out)" using m part by (simp add: not_le)
    ultimately have "rsr_inv D r' \<and> acknowledged r' = acknowledged ?m \<and> rs_offset r' = rs_offset ?m \<and> rs_data_len r' = rs_data_len ?m"
      by (rule compact_spec)
    then show ?thesis using bits by (simp add: is_byte_acknowledged_def)
  qed
  then show ?thesis using cover done_iff [of r'] by simp
qed

text \<open>
  Claim C16. An acknowledgement of any stream interval, even one packed differently from the
  packet that carried this range, marks exactly the bytes of the range that it covers; every byte
  still unacknowledged stays stored with its original value, and the range reports completion
  exactly when nothing is left.
\<close>

theorem mark_acknowledged_exact:
  assumes "rsr_inv D r" "mark_acknowledged off len r = (r', out)"
  shows "rsr_inv D r'
    \<and> (\<forall>i < rs_data_len r. is_byte_acknowledged r' i \<longleftrightarrow>
        is_byte_acknowledged r i \<or> off \<le> rs_offset r + i \<and> rs_offset r + i < off + len)
    \<and> (all_data_acknowledged r' \<longleftrightarrow> (\<forall>i < rs_data_len r. is_byte_acknowledged r' i))"
  using assms by (rule mark_acknowledged_spec)

definition example_range :: RetainedSendRange where
  "example_range = \<lparr>rs_stream_id = 4, rs_offset = 17, rs_data_len = 70, rs_fin = False,
     payload = Some (map word_of_nat [0..<70]), pool_payload = None, payload_start = 0, payload_end = 70,
     acknowledged = [0, 0], fin_acked = False, rs_logical_packet_number = 1, prior_packets = [], prior_packet_count = 0\<rparr>"

lemma example_range_inv: "rsr_inv (map word_of_nat [0..<70]) example_range"
proof -
  have "\<not> is_byte_acknowledged example_range 0" by code_simp
  then show ?thesis
    by (auto simp: rsr_inv_def holds_def example_range_def stored_end_def intro!: exI [of _ "0 :: nat"])
qed

lemma mark_acknowledged_exact_witness:
  "is_byte_acknowledged (fst (mark_acknowledged 0 80 example_range)) 62
   \<and> \<not> is_byte_acknowledged (fst (mark_acknowledged 0 80 example_range)) 63"
proof -
  have n: "\<not> is_byte_acknowledged example_range 63" by code_simp
  have d: "rs_data_len example_range = 70" "rs_offset example_range = 17" by (simp_all add: example_range_def)
  show ?thesis
    using mark_acknowledged_exact [OF example_range_inv prod.collapse [symmetric], of 0 80] n by (simp add: d)
qed

lemma payload_range_holds:
  assumes "holds D r" "payload_start r \<le> s" "s \<le> e" "e \<le> stored_end r" "\<not> (payload r = None \<and> pool_payload r = None)"
  shows "payload_range r s e = Some (drop s (take e D))"
proof (cases "payload r")
  case None
  then obtain q where "pool_payload r = Some q" using assms(5) by auto
  with None assms show ?thesis by (auto simp: payload_range_def get_range_def holds_def)
next
  case (Some p)
  let ?k = "payload_start r"
  have p: "p = take (length p) (drop ?k D)" "stored_end r = ?k + length p"
    using assms(1) Some by (auto simp: holds_def stored_end_def)
  have "take (e - s) (drop (s - ?k) p) = take (e - s) (drop s D)" using p assms by (intro drop_take_slice) auto
  moreover have "drop (s - ?k) (take (e - ?k) p) = take (e - s) (drop (s - ?k) p)"
    using assms(2,3) by (simp add: drop_take)
  moreover have "drop s (take e D) = take (e - s) (drop s D)" by (simp add: drop_take)
  moreover have "s - ?k \<le> e - ?k" "e - ?k \<le> length p" using assms(3,4) p(2) by linarith+
  ultimately show ?thesis using Some assms p(2) by (simp add: payload_range_def get_range_def)
qed

lemma first_bit_spec:
  "first_bit r start flag = None \<Longrightarrow> start \<le> i \<Longrightarrow> i < stored_end r \<Longrightarrow> is_byte_acknowledged r i \<noteq> flag"
  "first_bit r start flag = Some k \<Longrightarrow> start \<le> k \<and> k < stored_end r \<and> is_byte_acknowledged r k = flag
     \<and> (\<forall>i. start \<le> i \<and> i < k \<longrightarrow> is_byte_acknowledged r i \<noteq> flag)"
proof -
  let ?w = "window_word flag (acknowledged r) start (stored_end r)"
  let ?f = "find (\<lambda>i. ?w i \<noteq> 0) [start div 64 ..< (stored_end r - 1) div 64 + 1]"
  show "is_byte_acknowledged r i \<noteq> flag" if "first_bit r start flag = None" "start \<le> i" "i < stored_end r"
  proof -
    have "?f = None" using that by (simp add: first_bit_def Let_def del: upt_Suc)
    from window_find_None [OF this that(2,3)] show ?thesis .
  qed
  assume "first_bit r start flag = Some k"
  then obtain idx where "start < stored_end r" "?f = Some idx" "k = idx * 64 + trailing_zeros (?w idx)"
    by (auto simp: first_bit_def Let_def simp del: upt_Suc split: if_splits)
  then show "start \<le> k \<and> k < stored_end r \<and> is_byte_acknowledged r k = flag
     \<and> (\<forall>i. start \<le> i \<and> i < k \<longrightarrow> is_byte_acknowledged r i \<noteq> flag)"
    using window_find_Some by blast
qed

text \<open>
  A retransmission sends what is needed and nothing else: the run it selects starts
  at the first byte not acknowledged, contains only such bytes, stops at the first acknowledged
  one or the end of the data, and its stored payload is the original data; there is no run exactly
  when everything is acknowledged.
\<close>

theorem first_unacknowledged_run_exact:
  assumes "rsr_inv D r"
  shows "(case first_unacknowledged_run r of
      None \<Rightarrow> \<forall>i < rs_data_len r. is_byte_acknowledged r i
    | Some (s, e) \<Rightarrow> s < e \<and> e \<le> rs_data_len r \<and> (\<forall>i < s. is_byte_acknowledged r i)
        \<and> (\<forall>i. s \<le> i \<and> i < e \<longrightarrow> \<not> is_byte_acknowledged r i) \<and> (e < rs_data_len r \<longrightarrow> is_byte_acknowledged r e)
        \<and> payload_range r s e = Some (drop s (take e D)))"
proof (cases "payload r = None \<and> pool_payload r = None")
  case True
  then show ?thesis using assms by (simp add: first_unacknowledged_run_def rsr_inv_def holds_def)
next
  case live: False
  have h: "holds D r" "stored_end r \<le> rs_data_len r"
    "\<And>i. i < rs_data_len r \<Longrightarrow> \<not> is_byte_acknowledged r i \<Longrightarrow> payload_start r \<le> i \<and> i < stored_end r"
    using assms by (auto simp: rsr_inv_def holds_def)
  show ?thesis
  proof (cases "first_bit r (payload_start r) False")
    case None
    have "\<forall>i < rs_data_len r. is_byte_acknowledged r i" using h(3) first_bit_spec(1) [OF None] by blast
    moreover have "first_unacknowledged_run r = None" using None live by (auto simp: first_unacknowledged_run_def)
    ultimately show ?thesis by simp
  next
    case (Some s)
    note S = first_bit_spec(2) [OF Some]
    define e where "e = (case first_bit r (s + 1) True of None \<Rightarrow> stored_end r | Some e \<Rightarrow> e)"
    have E: "s < e \<and> e \<le> stored_end r \<and> (\<forall>i. s + 1 \<le> i \<and> i < e \<longrightarrow> \<not> is_byte_acknowledged r i)
        \<and> (e < stored_end r \<longrightarrow> is_byte_acknowledged r e)"
    proof (cases "first_bit r (s + 1) True")
      case None
      then show ?thesis using first_bit_spec(1) [OF None] S by (auto simp: e_def)
    next
      case (Some k)
      then show ?thesis using first_bit_spec(2) [OF Some] by (auto simp: e_def)
    qed
    have "\<forall>i < s. is_byte_acknowledged r i"
    proof (intro allI impI, rule ccontr)
      fix i assume i: "i < s" "\<not> is_byte_acknowledged r i"
      have "i < rs_data_len r" using i(1) S h(2) by linarith
      with h(3) i(2) have "payload_start r \<le> i" by blast
      with S i show False by blast
    qed
    moreover have "\<forall>i. s \<le> i \<and> i < e \<longrightarrow> \<not> is_byte_acknowledged r i"
    proof (intro allI impI)
      fix i assume i: "s \<le> i \<and> i < e"
      show "\<not> is_byte_acknowledged r i"
      proof (cases "i = s")
        case False
        then have "s + 1 \<le> i" using i by linarith
        with i E show ?thesis by blast
      qed (use S in blast)
    qed
    moreover have "e < rs_data_len r \<longrightarrow> is_byte_acknowledged r e" using E h(3) by force
    moreover have "payload_range r s e = Some (drop s (take e D))"
      using S E live by (intro payload_range_holds [OF h(1)]) auto
    moreover have "first_unacknowledged_run r = Some (s, e)"
      using Some live by (auto simp: first_unacknowledged_run_def e_def)
    ultimately show ?thesis using E h(2) by simp
  qed
qed

lemma first_unacknowledged_run_exact_witness:
  "payload_range (example_range\<lparr>acknowledged := [6, 0]\<rparr>) 0 1 = Some (drop 0 (take 1 (map word_of_nat [0..<70])))"
proof -
  let ?r = "example_range\<lparr>acknowledged := [6, 0]\<rparr>"
  have run: "first_unacknowledged_run ?r = Some (0, 1)" by code_simp
  have "\<not> is_byte_acknowledged ?r 0" by code_simp
  then have inv: "rsr_inv (map word_of_nat [0..<70]) ?r"
    by (auto simp: rsr_inv_def holds_def example_range_def stored_end_def intro!: exI [of _ "0 :: nat"])
  show ?thesis using first_unacknowledged_run_exact [OF inv] unfolding run by simp
qed

text \<open>
  The count that \<open>acknowledged_payload_bytes\<close> returns is the number of bytes of the
  range that are still unacknowledged: together with the acknowledged ones they make up the range.
\<close>

lemma acknowledged_payload_bytes_counts_unacknowledged:
  "acknowledged_payload_bytes r + card {i. i < rs_data_len r \<and> is_byte_acknowledged r i} = rs_data_len r"
proof -
  have "acknowledged_payload_bytes r = card (set (filter (\<lambda>i. \<not> is_byte_acknowledged r i) [0..<rs_data_len r]))"
    unfolding acknowledged_payload_bytes_def by (rule distinct_card [symmetric]) simp
  also have "set (filter (\<lambda>i. \<not> is_byte_acknowledged r i) [0..<rs_data_len r])
      = {i. i < rs_data_len r} - {i. i < rs_data_len r \<and> is_byte_acknowledged r i}" by auto
  also have "card \<dots> = rs_data_len r - card {i. i < rs_data_len r \<and> is_byte_acknowledged r i}"
    by (subst card_Diff_subset) auto
  finally have "acknowledged_payload_bytes r = rs_data_len r - card {i. i < rs_data_len r \<and> is_byte_acknowledged r i}" .
  moreover have "card {i. i < rs_data_len r \<and> is_byte_acknowledged r i} \<le> card {i. i < rs_data_len r}"
    by (rule card_mono) auto
  ultimately show ?thesis by simp
qed

end
