(* ===== verification/Endpoint_State.thy ===== *)
theory Endpoint_State
  imports Path_Set Send_Range
begin

text \<open>
  The association endpoint of \<^verbatim>\<open>quic-lite/src/lib.rs\<close>, \<^verbatim>\<open>EndpointState\<close>: its state, its construction, identifiers
  and paths, the record of received packet numbers and the scheduling of acknowledgements, the policy
  setters, and the credit it grants for received streams. The ledger of transmissions, the packets it
  encodes and the packets it receives are in the theories that follow.

  The model is the default build, without the cargo feature \<^verbatim>\<open>packet-protection\<close>. The two scratch vectors
  \<^verbatim>\<open>reusable_send_payload\<close> and \<^verbatim>\<open>reusable_send_acknowledged\<close> only recycle allocations, are always empty between
  calls and are left out. Operations that fail after they changed something give the state and the error;
  \<open>None\<close> is a panic.
\<close>

section \<open>State\<close>

record TransportStats =
  ts_received_packets :: u64
  ts_ack_ranges_dropped :: u64
  ts_stream_packets :: u64
  ts_control_packets :: u64
  ts_duplicate_packets :: u64
  ts_out_of_order_packets :: u64
  ts_inferred_missing_packets :: u64
  ts_sent_packets :: u64
  ts_sent_stream_packets :: u64
  ts_sent_control_packets :: u64
  ts_retransmitted_packets :: u64
  ts_loss_packet_threshold_packets :: u64
  ts_loss_time_threshold_packets :: u64
  ts_loss_events :: u64
  ts_submission_failures :: u64
  ts_loss_retransmitted_packets :: u64
  ts_pto_retransmitted_packets :: u64
  ts_ack_frequency_received :: u64
  ts_ack_frequency_sent :: u64
  ts_ack_packets :: u64
  ts_ack_immediate_packets :: u64
  ts_ack_threshold_packets :: u64
  ts_ack_timer_packets :: u64
  ts_receive_interpacket_samples :: u64
  ts_receive_interpacket_total :: u64
  ts_receive_interpacket_min :: u64
  ts_receive_interpacket_max :: u64

definition stats_default :: TransportStats where
  "stats_default = \<lparr>ts_received_packets = 0, ts_ack_ranges_dropped = 0, ts_stream_packets = 0,
     ts_control_packets = 0, ts_duplicate_packets = 0, ts_out_of_order_packets = 0,
     ts_inferred_missing_packets = 0, ts_sent_packets = 0, ts_sent_stream_packets = 0,
     ts_sent_control_packets = 0, ts_retransmitted_packets = 0, ts_loss_packet_threshold_packets = 0,
     ts_loss_time_threshold_packets = 0, ts_loss_events = 0, ts_submission_failures = 0,
     ts_loss_retransmitted_packets = 0, ts_pto_retransmitted_packets = 0, ts_ack_frequency_received = 0,
     ts_ack_frequency_sent = 0, ts_ack_packets = 0, ts_ack_immediate_packets = 0,
     ts_ack_threshold_packets = 0, ts_ack_timer_packets = 0, ts_receive_interpacket_samples = 0,
     ts_receive_interpacket_total = 0, ts_receive_interpacket_min = 0, ts_receive_interpacket_max = 0\<rparr>"

record EndpointState =
  ep_peer_max_datagram_frame_size :: u64
  ep_send :: SendFlowControl
  ep_receive :: ConnectionState
  ep_paths :: "PathState list"
  ep_received_packets :: ack_ranges
  ep_receive_packet_floor :: u32
  ep_peer_ack_ranges :: ack_ranges
  ep_next_packet_number :: u32
  ep_duplication_budget_capacity :: u64
  ep_duplication_credit_bytes :: u64
  ep_duplication_credit_remainder :: nat
  ep_duplication_reserved_bytes :: u64
  ep_path_estimator_config :: PathEstimatorConfig
  ep_pacing_config :: PacingConfig
  ep_largest_acked_by_peer :: "u32 option"
  ep_sent_packets :: "SentPacket option list"
  ep_send_buffer :: "RetainedSendRange option list"
  ep_send_buffer_limit_bytes :: usize
  ep_transmission_limit :: usize
  ep_local_cid :: "ConnectionId option"
  ep_peer_cid :: "ConnectionId option"
  ep_control_pending :: bool
  ep_ack_pending :: bool
  ep_ack_packets :: nat
  ep_ack_frequency :: nat
  ep_ack_reordering_threshold :: u32
  ep_largest_ack_frequency_sequence :: "u64 option"
  ep_pending_ack_frequency :: "(u64 \<times> u64 \<times> u64 \<times> u64) option"
  ep_last_ack_time :: u64
  ep_largest_received_at :: u64
  ep_max_ack_delay_us :: u64
  ep_peer_max_ack_delay_us :: u64
  ep_peer_max_in_flight_packets :: usize
  ep_peer_max_streams_bidi :: u64
  ep_peer_max_streams_uni :: u64
  ep_pending_stream_ids :: "u64 list"
  ep_credit_inflight_stream_count :: usize
  ep_credit_inflight_max_streams_bidi :: bool
  ep_credit_pending :: bool
  ep_credit_packet_number :: "u32 option"
  ep_credit_dirty :: bool
  ep_credit_retry_backoff :: nat
  ep_max_streams_bidi_pending :: bool
  ep_close_code :: "u64 option"
  ep_history_limit :: usize
  ep_receive_growth_limits :: ConnectionLimits
  ep_retired_peer_bidi :: u64
  ep_stats :: TransportStats
  ep_highest_received_packet :: "u32 option"
  ep_last_receive_time :: "u64 option"

text \<open>
  A plain \<^verbatim>\<open>+=\<close> on a 64-bit counter (wrap-around, as release builds have it); \<^verbatim>\<open>u8::saturating_add\<close>;
  and an update of one path, used where its index has been checked.
\<close>

definition wrap_add64 :: "u64 \<Rightarrow> u64 \<Rightarrow> u64" where
  "wrap_add64 a b = (a + b) mod 2 ^ 64"

abbreviation sat_add8 :: "nat \<Rightarrow> nat \<Rightarrow> nat" where "sat_add8 \<equiv> sat_add u8_max"
abbreviation sat_add32 :: "u32 \<Rightarrow> u32 \<Rightarrow> u32" where "sat_add32 \<equiv> sat_add u32_max"

definition upd_path :: "usize \<Rightarrow> (PathState \<Rightarrow> PathState) \<Rightarrow> EndpointState \<Rightarrow> EndpointState" where
  "upd_path i f e = e\<lparr>ep_paths := (ep_paths e)[i := f (ep_paths e ! i)]\<rparr>"

definition upd_stats :: "(TransportStats \<Rightarrow> TransportStats) \<Rightarrow> EndpointState \<Rightarrow> EndpointState" where
  "upd_stats f e = e\<lparr>ep_stats := f (ep_stats e)\<rparr>"

text \<open>An operation that may fail after it has changed the state gives both.\<close>

definition bindS :: "'s \<times> ('e + 'a) \<Rightarrow> ('s \<Rightarrow> 'a \<Rightarrow> 's \<times> ('e + 'b)) \<Rightarrow> 's \<times> ('e + 'b)" where
  "bindS m f = (case m of (s, Inl err) \<Rightarrow> (s, Inl err) | (s, Inr x) \<Rightarrow> f s x)"

section \<open>Construction and identifiers\<close>

definition MAX_PTO_BACKOFF_EXPONENT :: nat where "MAX_PTO_BACKOFF_EXPONENT = 3"

text \<open>
  \<^verbatim>\<open>P\<close>, the packet size of the type, is an argument; \<open>None\<close> is the failed assertion of a positive capacity.
\<close>

definition new_with_history_capacity :: "usize \<Rightarrow> Role \<Rightarrow> ConnectionLimits \<Rightarrow> u64 \<Rightarrow> usize \<Rightarrow> EndpointState option" where
  "new_with_history_capacity P role lim max_packet history_capacity =
     (if history_capacity = 0 then None
      else Some
       \<lparr>ep_peer_max_datagram_frame_size = 0, ep_send = sfc_new (lim_max_data lim) (lim_max_stream_data lim),
        ep_receive = cs_new role lim, ep_paths = [path_new max_packet], ep_received_packets = [],
        ep_receive_packet_floor = 0, ep_peer_ack_ranges = [], ep_next_packet_number = 0,
        ep_duplication_budget_capacity = 0, ep_duplication_credit_bytes = 0, ep_duplication_credit_remainder = 0,
        ep_duplication_reserved_bytes = 0, ep_path_estimator_config = estimator_default_config,
        ep_pacing_config = pacing_host, ep_largest_acked_by_peer = None,
        ep_sent_packets = replicate (sat_mul64 history_capacity 2) None,
        ep_send_buffer = replicate history_capacity None,
        ep_send_buffer_limit_bytes = sat_mul64 history_capacity P,
        ep_transmission_limit = sat_mul64 history_capacity 2, ep_local_cid = None, ep_peer_cid = None,
        ep_control_pending = False, ep_ack_pending = False, ep_ack_packets = 0, ep_ack_frequency = 2,
        ep_ack_reordering_threshold = 1, ep_largest_ack_frequency_sequence = None,
        ep_pending_ack_frequency = None, ep_last_ack_time = 0, ep_largest_received_at = 0,
        ep_max_ack_delay_us = 25000, ep_peer_max_ack_delay_us = 25000, ep_peer_max_in_flight_packets = u64_max,
        ep_peer_max_streams_bidi = max_streams_bidi lim, ep_peer_max_streams_uni = max_streams_uni lim,
        ep_pending_stream_ids = [], ep_credit_inflight_stream_count = 0,
        ep_credit_inflight_max_streams_bidi = False, ep_credit_pending = False, ep_credit_packet_number = None,
        ep_credit_dirty = False, ep_credit_retry_backoff = 0, ep_max_streams_bidi_pending = False,
        ep_close_code = None, ep_history_limit = history_capacity, ep_receive_growth_limits = lim,
        ep_retired_peer_bidi = 0, ep_stats = stats_default, ep_highest_received_packet = None,
        ep_last_receive_time = None\<rparr>)"

record ConnectionIds =
  local_receive :: ConnectionId
  peer_receive :: ConnectionId

definition ConnectionIds_new :: "ConnectionId \<Rightarrow> ConnectionId \<Rightarrow> ConnectionIds result" where
  "ConnectionIds_new local peer =
     (if cid_value local = 0 \<or> cid_value peer = 0 then Inl WrongConnectionId
      else Inr \<lparr>local_receive = local, peer_receive = peer\<rparr>)"

definition install_ids :: "usize \<Rightarrow> ConnectionId \<Rightarrow> ConnectionId \<Rightarrow> EndpointState \<Rightarrow> EndpointState" where
  "install_ids i local peer = upd_path i (\<lambda>p. p\<lparr>local_cid := Some local, peer_cid := Some peer\<rparr>)"

definition new_established :: "usize \<Rightarrow> Role \<Rightarrow> ConnectionLimits \<Rightarrow> u64 \<Rightarrow> ConnectionIds \<Rightarrow> EndpointState option" where
  "new_established P role lim max_packet ids =
     map_option (\<lambda>e. install_ids 0 (local_receive ids) (peer_receive ids)
         (e\<lparr>ep_local_cid := Some (local_receive ids), ep_peer_cid := Some (peer_receive ids)\<rparr>))
       (new_with_history_capacity P role lim max_packet 8)"

text \<open>\<open>None\<close> is the panic of \<^verbatim>\<open>self.paths[0]\<close> on an endpoint without a path.\<close>

definition install_connection_ids :: "ConnectionId \<Rightarrow> ConnectionId \<Rightarrow> EndpointState \<Rightarrow> (EndpointState \<times> unit result) option" where
  "install_connection_ids local peer e = (case ConnectionIds_new local peer of
     Inl err \<Rightarrow> Some (e, Inl err)
   | Inr _ \<Rightarrow>
       if ep_paths e = [] then None
       else Some (install_ids 0 local peer (e\<lparr>ep_local_cid := Some local, ep_peer_cid := Some peer\<rparr>), Inr ()))"

definition continue_packet_numbers_from :: "u32 \<Rightarrow> EndpointState \<Rightarrow> EndpointState \<times> unit result" where
  "continue_packet_numbers_from next e =
     (if next < ep_next_packet_number e then (e, Inl Invalid)
      else (e\<lparr>ep_next_packet_number := next\<rparr>, Inr ()))"

definition path_get :: "EndpointState \<Rightarrow> usize \<Rightarrow> PathState option" where
  "path_get e i = (if i < length (ep_paths e) then Some (ep_paths e ! i) else None)"

definition option_or :: "'a option \<Rightarrow> 'a option \<Rightarrow> 'a option" where
  "option_or a b = (case a of None \<Rightarrow> b | Some x \<Rightarrow> Some x)"

definition local_connection_id_on_path :: "EndpointState \<Rightarrow> usize \<Rightarrow> ConnectionId option" where
  "local_connection_id_on_path e i = option_or (Option.bind (path_get e i) local_cid) (ep_local_cid e)"

definition peer_connection_id_on_path :: "EndpointState \<Rightarrow> usize \<Rightarrow> ConnectionId option" where
  "peer_connection_id_on_path e i = option_or (Option.bind (path_get e i) peer_cid) (ep_peer_cid e)"

definition path_id_for_peer_connection_id :: "EndpointState \<Rightarrow> ConnectionId \<Rightarrow> usize option" where
  "path_id_for_peer_connection_id e peer =
     option_or (position (\<lambda>p. peer_cid p = Some peer) (ep_paths e))
       (if ep_peer_cid e = Some peer then Some 0 else None)"

definition set_peer_connection_id_on_path :: "usize \<Rightarrow> ConnectionId \<Rightarrow> EndpointState \<Rightarrow> EndpointState \<times> unit result" where
  "set_peer_connection_id_on_path i peer e =
     (if cid_value peer = 0 \<or> (\<exists>j \<in> set [0..<length (ep_paths e)]. j \<noteq> i \<and> peer_cid (ep_paths e ! j) = Some peer)
      then (e, Inl WrongConnectionId)
      else if length (ep_paths e) \<le> i then (e, Inl PathLimit)
      else (upd_path i (\<lambda>p. p\<lparr>peer_cid := Some peer\<rparr>) e, Inr ()))"

section \<open>Paths\<close>

text \<open>\<open>mem\<close> says whether \<^verbatim>\<open>try_reserve\<close> gets its memory; \<open>None\<close> is a panic on \<^verbatim>\<open>self.paths[0]\<close>.\<close>

definition add_path_state :: "bool \<Rightarrow> EndpointState \<Rightarrow> (EndpointState \<times> usize result) option" where
  "add_path_state mem e =
     (if length (ep_paths e) \<ge> MAX_PATH_STATES then Some (e, Inl PathLimit)
      else if \<not> mem then Some (e, Inl HistoryFull)
      else if ep_paths e = [] then None
      else
        let p = set_pacing_config (ep_pacing_config e) (set_estimator_config (ep_path_estimator_config e)
                  (path_new (max_packet_size (congestion (ep_paths e ! 0)))))
        in Some (e\<lparr>ep_paths := ep_paths e @ [p\<lparr>validated := False\<rparr>]\<rparr>, Inr (length (ep_paths e))))"

definition set_path_estimator_config_all :: "PathEstimatorConfig \<Rightarrow> EndpointState \<Rightarrow> EndpointState \<times> unit result" where
  "set_path_estimator_config_all c e =
     (if \<not> estimator_is_valid c then (e, Inl Invalid)
      else (e\<lparr>ep_path_estimator_config := c, ep_paths := map (set_estimator_config c) (ep_paths e)\<rparr>, Inr ()))"

definition set_pacing_config_all :: "PacingConfig \<Rightarrow> EndpointState \<Rightarrow> EndpointState \<times> unit result" where
  "set_pacing_config_all c e =
     (if \<not> pacing_is_valid c then (e, Inl Invalid)
      else (e\<lparr>ep_pacing_config := c, ep_paths := map (set_pacing_config c) (ep_paths e)\<rparr>, Inr ()))"

definition add_path_state_with_ids :: "bool \<Rightarrow> ConnectionId \<Rightarrow> ConnectionId \<Rightarrow> EndpointState \<Rightarrow> (EndpointState \<times> usize result) option" where
  "add_path_state_with_ids mem local peer e = (case ConnectionIds_new local peer of
     Inl err \<Rightarrow> Some (e, Inl err)
   | Inr _ \<Rightarrow>
       if (\<exists>p \<in> set (ep_paths e). local_cid p = Some local \<or> peer_cid p = Some peer) then Some (e, Inl WrongConnectionId)
       else map_option (\<lambda>r. bindS r (\<lambda>e i. (install_ids i local peer e, Inr i))) (add_path_state mem e))"

definition add_path_state_with_local_id :: "bool \<Rightarrow> ConnectionId \<Rightarrow> EndpointState \<Rightarrow> (EndpointState \<times> usize result) option" where
  "add_path_state_with_local_id mem local e =
     (if cid_value local = 0 \<or> (\<exists>p \<in> set (ep_paths e). local_cid p = Some local) then Some (e, Inl WrongConnectionId)
      else map_option (\<lambda>r. bindS r (\<lambda>e i. (upd_path i (\<lambda>p. p\<lparr>local_cid := Some local\<rparr>) e, Inr i))) (add_path_state mem e))"

definition pto_timeout_for_path :: "EndpointState \<Rightarrow> usize \<Rightarrow> u64" where
  "pto_timeout_for_path e i = (case path_get e i of
     Some p \<Rightarrow> sat_add64 (rtt_pto (rtt p)) (ep_peer_max_ack_delay_us e)
   | None \<Rightarrow> sat_add64 25000 (ep_peer_max_ack_delay_us e))"

definition queue_path_status :: "usize \<Rightarrow> PathStatusKind \<Rightarrow> EndpointState \<Rightarrow> EndpointState \<times> u64 result" where
  "queue_path_status i status e = (case path_get e i of
     None \<Rightarrow> (e, Inl PathLimit)
   | Some p \<Rightarrow> (case queue_status status p of (p', r) \<Rightarrow> (upd_path i (\<lambda>_. p') e, r)))"

definition set_base_circuit_key :: "EndpointState \<Rightarrow> EndpointState" where
  "set_base_circuit_key e =
     (if ep_paths e = [] then e
      else upd_path 0 (\<lambda>p. p\<lparr>circuit_key := Some \<lparr>opener_role = Client, ck_sequence = 0\<rparr>, local_circuit_id := 0\<rparr>) e)"

definition find_map :: "('a \<Rightarrow> 'b option) \<Rightarrow> 'a list \<Rightarrow> 'b option" where
  "find_map f xs = Option.bind (find (\<lambda>x. f x \<noteq> None) xs) f"

definition pending_path_status :: "u64 \<Rightarrow> EndpointState \<Rightarrow> (usize \<times> CircuitKey \<times> u64 \<times> PathStatusKind) option" where
  "pending_path_status now_us e =
     find_map (\<lambda>i. map_option (\<lambda>(key, seq, status). (i, key, seq, status)) (pending_status now_us (ep_paths e ! i)))
       [0..<length (ep_paths e)]"

text \<open>\<open>None\<close> is a panic on \<^verbatim>\<open>self.paths[egress_path]\<close> or \<^verbatim>\<open>self.paths[path_id]\<close>.\<close>

definition defer_path_status :: "usize \<Rightarrow> usize \<Rightarrow> EndpointState \<Rightarrow> EndpointState option" where
  "defer_path_status i egress e =
     Option.bind (path_get e egress) (\<lambda>out. Option.bind (path_get e i) (\<lambda>p.
       let retry_at = sat_add64 (send_clock out) (pto_timeout_for_path e egress)
       in Some (if pending_local_status p = None then e
                else upd_path i (\<lambda>p. p\<lparr>status_retry_at_us := Some retry_at\<rparr>) e)))"

definition status_egress_path :: "EndpointState \<Rightarrow> usize option" where
  "status_egress_path e = position is_probe_eligible (ep_paths e)"

definition receive_path_status :: "CircuitKey \<Rightarrow> u64 \<Rightarrow> PathStatusKind \<Rightarrow> EndpointState \<Rightarrow> EndpointState \<times> (usize \<times> bool) option" where
  "receive_path_status key seq status e = (case position (\<lambda>p. circuit_key p = Some key) (ep_paths e) of
     None \<Rightarrow> (e, None)
   | Some i \<Rightarrow> (case receive_status seq status (ep_paths e ! i) of
       (p', changed) \<Rightarrow> (upd_path i (\<lambda>_. p') e, Some (i, changed))))"

definition begin_path_probe :: "usize \<Rightarrow> u64 \<Rightarrow> u64 \<Rightarrow> u64 \<Rightarrow> EndpointState \<Rightarrow> EndpointState \<times> u64 result" where
  "begin_path_probe i token now_us interval_us e =
     (if length (ep_paths e) \<le> i then (e, Inl PathLimit)
      else (upd_path i (begin_probe token now_us interval_us) e, Inr token))"

definition ep_set_time :: "u64 \<Rightarrow> EndpointState \<Rightarrow> EndpointState" where
  "ep_set_time now e = e\<lparr>ep_paths := map (\<lambda>p. p\<lparr>send_clock := now\<rparr>) (ep_paths e)\<rparr>"

definition on_bearer_timeout :: "EndpointState \<Rightarrow> EndpointState" where
  "on_bearer_timeout e = e\<lparr>ep_paths := map (\<lambda>p.
     (if (case pacing_deadline_us p of None \<Rightarrow> False | Some deadline \<Rightarrow> deadline \<le> send_clock p)
      then p\<lparr>pacing_deadline_us := None\<rparr> else p)) (ep_paths e)\<rparr>"

section \<open>Received packet numbers and acknowledgement scheduling\<close>

definition largest_received :: "EndpointState \<Rightarrow> u32 option" where
  "largest_received e = map_option ar_end (ack_get (ep_received_packets e) 0)"

definition expected_packet_number :: "EndpointState \<Rightarrow> u32" where
  "expected_packet_number e = (case Option.bind (largest_received e) (\<lambda>v. checked_add u32_max v 1) of
     None \<Rightarrow> 0 | Some n \<Rightarrow> n)"

definition next_packet_number_len :: "EndpointState \<Rightarrow> nat" where
  "next_packet_number_len e = packet_number_len (ep_next_packet_number e) (ep_largest_acked_by_peer e)"

definition has_received_packet :: "EndpointState \<Rightarrow> u32 \<Rightarrow> bool" where
  "has_received_packet e pn \<longleftrightarrow> pn < ep_receive_packet_floor e \<or> ack_contains (ep_received_packets e) pn"

text \<open>The branch of \<open>observe_packet_on_path\<close> for a number that is not recorded yet.\<close>

definition gap_stats :: "u32 \<Rightarrow> u32 option \<Rightarrow> TransportStats \<Rightarrow> TransportStats" where
  "gap_stats pn highest s = (case highest of
     None \<Rightarrow> s
   | Some h \<Rightarrow>
       let next = sat_add32 h 1 in
       if pn < next then s\<lparr>ts_out_of_order_packets := wrap_add64 (ts_out_of_order_packets s) 1\<rparr>
       else if next < pn then s\<lparr>ts_inferred_missing_packets := wrap_add64 (ts_inferred_missing_packets s) (pn - next)\<rparr>
       else s)"

definition interpacket_stats :: "u64 \<Rightarrow> u64 option \<Rightarrow> TransportStats \<Rightarrow> TransportStats" where
  "interpacket_stats clock previous s = (case previous of
     None \<Rightarrow> s
   | Some t \<Rightarrow>
       let delta = clock - t;
           s1 = s\<lparr>ts_receive_interpacket_samples := wrap_add64 (ts_receive_interpacket_samples s) 1,
                  ts_receive_interpacket_total := wrap_add64 (ts_receive_interpacket_total s) delta\<rparr>;
           s2 = s1\<lparr>ts_receive_interpacket_min := (if ts_receive_interpacket_samples s1 = 1 then delta
                     else min (ts_receive_interpacket_min s1) delta)\<rparr>
       in s2\<lparr>ts_receive_interpacket_max := max (ts_receive_interpacket_max s2) delta\<rparr>)"

definition raise_to :: "u32 \<Rightarrow> u32 option \<Rightarrow> u32 option" where
  "raise_to pn highest = Some (case highest of None \<Rightarrow> pn | Some h \<Rightarrow> max h pn)"

definition exceeds :: "u32 \<Rightarrow> u32 option \<Rightarrow> bool" where
  "exceeds pn highest = (case highest of None \<Rightarrow> True | Some h \<Rightarrow> h < pn)"

definition observe_new :: "u32 \<Rightarrow> usize \<Rightarrow> EndpointState \<Rightarrow> EndpointState" where
  "observe_new pn i e =
     (let previous_highest = ep_highest_received_packet e;
          p = ep_paths e ! i;
          previous_path_highest = largest_received_packet p;
          p1 = p\<lparr>largest_received_packet := raise_to pn previous_path_highest\<rparr>;
          p2 = (if exceeds pn previous_path_highest then p1\<lparr>largest_received_at := send_clock p1\<rparr> else p1);
          e1 = e\<lparr>ep_stats := gap_stats pn previous_highest (ep_stats e),
                 ep_highest_received_packet := raise_to pn previous_highest,
                 ep_paths := (ep_paths e)[i := p2]\<rparr>;
          e2 = (if exceeds pn previous_highest then e1\<lparr>ep_largest_received_at := send_clock p2\<rparr> else e1)
      in e2\<lparr>ep_stats := interpacket_stats (send_clock p2) (ep_last_receive_time e) (ep_stats e2),
            ep_last_receive_time := Some (send_clock p2)\<rparr>)"

definition observe_packet_on_path :: "u32 \<Rightarrow> usize \<Rightarrow> EndpointState \<Rightarrow> EndpointState" where
  "observe_packet_on_path pn i e =
     (if length (ep_paths e) \<le> i \<or> pn < ep_receive_packet_floor e then e
      else
        let e1 = (if ack_contains (ep_received_packets e) pn then e else observe_new pn i e);
            (ranges, dropped) = ack_insert ACK_RANGE_CAPACITY pn (ep_received_packets e1);
            e2 = e1\<lparr>ep_received_packets := ranges\<rparr>
        in if dropped
           then upd_path i (\<lambda>p. p\<lparr>ack_ranges_dropped := sat_add64 (ack_ranges_dropped p) 1\<rparr>)
                  (upd_stats (\<lambda>s. s\<lparr>ts_ack_ranges_dropped := sat_add64 (ts_ack_ranges_dropped s) 1\<rparr>) e2)
           else e2)"

definition schedule_ack :: "usize \<Rightarrow> bool \<Rightarrow> EndpointState \<Rightarrow> EndpointState" where
  "schedule_ack i immediate e =
     (if length (ep_paths e) \<le> i then e
      else
        let e1 = upd_path i (\<lambda>p. p\<lparr>ack_started_at := (if ack_pending p then ack_started_at p else send_clock p),
                   ack_pending := True, ack_packets := sat_add8 (ack_packets p) 1,
                   ack_immediate := (ack_immediate p \<or> immediate)\<rparr>) e
        in e1\<lparr>ep_ack_pending := True, ep_ack_packets := sat_add8 (ep_ack_packets e1) 1\<rparr>)"

definition record_bearer_arrival :: "usize \<Rightarrow> u64 \<Rightarrow> EndpointState \<Rightarrow> EndpointState" where
  "record_bearer_arrival i received_at_us e =
     (if received_at_us = 0 \<or> length (ep_paths e) \<le> i then e
      else
        let e1 = upd_path i (\<lambda>p. p\<lparr>largest_received_at := min received_at_us (send_clock p)\<rparr>) e;
            p = ep_paths e1 ! i
        in if largest_received_packet p = ep_highest_received_packet e1
           then e1\<lparr>ep_largest_received_at := largest_received_at p\<rparr> else e1)"

definition schedule_application_ack :: "usize \<Rightarrow> bool \<Rightarrow> EndpointState \<Rightarrow> EndpointState" where
  "schedule_application_ack i immediate e =
     (if length (ep_paths e) \<le> i then e
      else
        (upd_path i (\<lambda>p.
           let p1 = (if ack_pending p then p else p\<lparr>ack_started_at := send_clock p, largest_received_at := send_clock p\<rparr>)
           in p1\<lparr>ack_pending := True, ack_immediate := (ack_immediate p1 \<or> immediate)\<rparr>) e)\<lparr>ep_ack_pending := True\<rparr>)"

text \<open>\<^verbatim>\<open>max_by_key\<close> gives the last of the largest.\<close>

definition pending_receive_ack_path :: "EndpointState \<Rightarrow> usize" where
  "pending_receive_ack_path e =
     (let waiting = filter (\<lambda>i. ack_pending (ep_paths e ! i)) [0..<length (ep_paths e)]
      in case waiting of [] \<Rightarrow> 0 | i # is \<Rightarrow> fold (\<lambda>j best.
           (if largest_received_at (ep_paths e ! best) \<le> largest_received_at (ep_paths e ! j) then j else best)) is i)"

definition request_path_validation_ack :: "usize \<Rightarrow> EndpointState \<Rightarrow> EndpointState" where
  "request_path_validation_ack i e = schedule_application_ack i True (e\<lparr>ep_control_pending := True\<rparr>)"

definition request_stream_reack :: "EndpointState \<Rightarrow> EndpointState" where
  "request_stream_reack e = schedule_application_ack 0 True (e\<lparr>ep_control_pending := True\<rparr>)"

definition refresh_ack_summary :: "EndpointState \<Rightarrow> EndpointState" where
  "refresh_ack_summary e = e\<lparr>ep_ack_pending := (\<exists>p \<in> set (ep_paths e). ack_pending p),
     ep_ack_packets := fold (\<lambda>p n. sat_add8 n (ack_packets p)) (ep_paths e) 0\<rparr>"

definition credit_interval :: "EndpointState \<Rightarrow> u64" where
  "credit_interval e =
     (if ep_credit_packet_number e \<noteq> None
      then sat_mul64 (pto_timeout_for_path e 0) (push_bit (min (ep_credit_retry_backoff e) MAX_PTO_BACKOFF_EXPONENT) 1)
      else ep_max_ack_delay_us e)"

definition pending_control_path :: "EndpointState \<Rightarrow> usize option" where
  "pending_control_path e =
     (if ep_control_pending e
      then Some (case rposition ack_immediate (ep_paths e) of None \<Rightarrow> 0 | Some i \<Rightarrow> i)
      else if ep_pending_ack_frequency e \<noteq> None then Some 0
      else (case position (\<lambda>p. ack_pending p \<and> (ep_ack_frequency e \<le> ack_packets p \<or> ack_immediate p
                 \<or> ep_max_ack_delay_us e \<le> send_clock p - ack_started_at p)) (ep_paths e) of
          Some i \<Rightarrow> Some i
        | None \<Rightarrow> (case ep_paths e of
            [] \<Rightarrow> None
          | path0 # _ \<Rightarrow>
              if ep_credit_pending e \<and> credit_interval e \<le> send_clock path0 - ep_last_ack_time e then Some 0 else None)))"

section \<open>Policy and limits\<close>

definition set_ack_frequency :: "nat \<Rightarrow> EndpointState \<Rightarrow> EndpointState" where
  "set_ack_frequency packets e = e\<lparr>ep_ack_frequency := min ACK_RANGE_CAPACITY (max 1 packets)\<rparr>"

definition set_ack_policy :: "nat \<Rightarrow> u64 \<Rightarrow> EndpointState \<Rightarrow> EndpointState" where
  "set_ack_policy packets delay e =
     (set_ack_frequency packets e)\<lparr>ep_max_ack_delay_us := delay, ep_peer_max_ack_delay_us := delay\<rparr>"

definition request_ack_frequency :: "u64 \<Rightarrow> u64 \<Rightarrow> u64 \<Rightarrow> u64 \<Rightarrow> EndpointState \<Rightarrow> EndpointState \<times> unit result" where
  "request_ack_frequency seq threshold delay reordering e =
     (if ACK_RANGE_CAPACITY \<le> threshold \<or> 16383000 < delay \<or> u32_max < reordering then (e, Inl Invalid)
      else (e\<lparr>ep_pending_ack_frequency := Some (seq, threshold, delay, reordering)\<rparr>, Inr ()))"

definition apply_ack_frequency :: "u64 \<Rightarrow> u64 \<Rightarrow> u64 \<Rightarrow> u64 \<Rightarrow> EndpointState \<Rightarrow> EndpointState \<times> unit result" where
  "apply_ack_frequency seq threshold delay reordering e =
     (if (case ep_largest_ack_frequency_sequence e of None \<Rightarrow> False | Some previous \<Rightarrow> seq \<le> previous) then (e, Inr ())
      else if ACK_RANGE_CAPACITY \<le> threshold \<or> 16383000 < delay \<or> u32_max < reordering then (e, Inl Invalid)
      else (upd_stats (\<lambda>s. s\<lparr>ts_ack_frequency_received := sat_add64 (ts_ack_frequency_received s) 1\<rparr>)
              (e\<lparr>ep_ack_frequency := sat_add8 (threshold mod 256) 1, ep_max_ack_delay_us := delay,
                 ep_ack_reordering_threshold := reordering mod 2 ^ 32, ep_largest_ack_frequency_sequence := Some seq\<rparr>), Inr ()))"

definition reset_stats :: "EndpointState \<Rightarrow> EndpointState" where
  "reset_stats e = e\<lparr>ep_stats := stats_default, ep_highest_received_packet := None, ep_last_receive_time := None\<rparr>"

definition set_initial_peer_budget :: "u64 \<Rightarrow> u64 \<Rightarrow> u16 \<Rightarrow> EndpointState \<Rightarrow> EndpointState \<times> unit result" where
  "set_initial_peer_budget max_data max_stream_data budget e =
     (case set_initial_limits max_data max_stream_data (ep_send e) of
        Inl err \<Rightarrow> (e, Inl err)
      | Inr f \<Rightarrow> (e\<lparr>ep_send := f, ep_peer_max_in_flight_packets := (if budget = 0 then u64_max else budget)\<rparr>, Inr ()))"

definition ep_set_history_capacity :: "bool \<Rightarrow> usize \<Rightarrow> EndpointState \<Rightarrow> EndpointState \<times> unit result" where
  "ep_set_history_capacity mem limit e =
     (let slots = ep_send_buffer e in
      if limit = 0 then (e, Inl HistoryFull)
      else if length slots < limit
      then if \<not> mem then (e, Inl HistoryFull)
        else (e\<lparr>ep_send_buffer := slots @ replicate (limit - length slots) None, ep_history_limit := limit\<rparr>, Inr ())
      else if limit < length slots \<and> list_all (\<lambda>s. s = None) (drop limit slots)
      then (e\<lparr>ep_send_buffer := take limit slots, ep_history_limit := limit\<rparr>, Inr ())
      else (e\<lparr>ep_history_limit := limit\<rparr>, Inr ()))"

text \<open>
  \<open>mem_paths\<close> and \<open>mem\<close>: the reservations for the histories of the paths and for the ledger succeed, where
  they are made.
\<close>

definition set_transmission_capacity :: "bool \<Rightarrow> bool \<Rightarrow> usize \<Rightarrow> EndpointState \<Rightarrow> EndpointState \<times> unit result" where
  "set_transmission_capacity mem_paths mem limit e =
     (let slots = ep_sent_packets e;
          finish = (\<lambda>slots'. (e\<lparr>ep_sent_packets := slots', ep_transmission_limit := limit,
            ep_paths := map (\<lambda>p. p\<lparr>congestion_history :=
              drop (length (congestion_history p) - limit) (congestion_history p)\<rparr>) (ep_paths e)\<rparr>, Inr ()))
      in if limit = 0 \<or> \<not> mem_paths then (e, Inl HistoryFull)
      else if length slots < limit
      then if \<not> mem then (e, Inl HistoryFull) else finish (slots @ replicate (limit - length slots) None)
      else if limit < length slots \<and> list_all (\<lambda>s. s = None) (drop limit slots) then finish (take limit slots)
      else finish slots)"

definition allocated_payload_bytes :: "EndpointState \<Rightarrow> usize" where
  "allocated_payload_bytes e = sum_list (map (\<lambda>r.
     (if payload r \<noteq> None \<or> pool_payload r \<noteq> None then retained_len r else 0)) (List.map_filter id (ep_send_buffer e)))"

definition set_send_buffer_limit_bytes :: "usize \<Rightarrow> EndpointState \<Rightarrow> EndpointState \<times> unit result" where
  "set_send_buffer_limit_bytes limit e =
     (if limit < allocated_payload_bytes e then (e, Inl HistoryFull)
      else (e\<lparr>ep_send_buffer_limit_bytes := limit\<rparr>, Inr ()))"

definition close :: "u64 \<Rightarrow> EndpointState \<Rightarrow> EndpointState" where
  "close code e = e\<lparr>ep_close_code := Some code\<rparr>"

definition ep_is_closed :: "EndpointState \<Rightarrow> bool" where
  "ep_is_closed e \<longleftrightarrow> ep_close_code e \<noteq> None"

section \<open>Streams and receive credit\<close>

definition open_send_stream :: "bool \<Rightarrow> bool \<Rightarrow> u64 \<Rightarrow> u64 \<Rightarrow> EndpointState \<Rightarrow> EndpointState \<times> unit result" where
  "open_send_stream mem_send mem_receive i max_data e =
     (let server_initiated = (i AND 1 \<noteq> 0);
          unidirectional = (i AND 2 \<noteq> 0);
          locally_initiated = (server_initiated = (cs_role (ep_receive e) = Server));
          maximum = (if unidirectional then ep_peer_max_streams_uni e else ep_peer_max_streams_bidi e)
      in if locally_initiated \<and> maximum \<le> stream_ordinal i then (e, Inl StreamLimit)
      else (case open_stream mem_send i max_data (ep_send e) of
        Inl err \<Rightarrow> (e, Inl err)
      | Inr f \<Rightarrow>
          let e1 = e\<lparr>ep_send := f\<rparr> in
          if locally_initiated \<and> \<not> unidirectional
          then (case cs_open mem_receive i (ep_receive e1) of
              Inl err \<Rightarrow> (e1\<lparr>ep_send := fst (sfc_remove_stream i (ep_send e1))\<rparr>, Inl err)
            | Inr cs \<Rightarrow> (e1\<lparr>ep_receive := cs\<rparr>, Inr ()))
          else (e1, Inr ())))"

definition queue_stream_credit :: "bool \<Rightarrow> u64 \<Rightarrow> EndpointState \<Rightarrow> EndpointState \<times> unit result" where
  "queue_stream_credit mem i e =
     (let e1 = e\<lparr>ep_credit_dirty := (ep_credit_dirty e \<or> ep_credit_packet_number e \<noteq> None), ep_credit_pending := True\<rparr>
      in if i \<in> set (ep_pending_stream_ids e1) then (e1, Inr ())
         else if \<not> mem then (e1, Inl StreamLimit)
         else (e1\<lparr>ep_pending_stream_ids := ep_pending_stream_ids e1 @ [i]\<rparr>, Inr ()))"

text \<open>The loop of \<open>set_receive_growth_limits\<close> over the stream indices \<open>index ..\<close>.\<close>

fun grow_streams :: "bool \<Rightarrow> u64 \<Rightarrow> nat list \<Rightarrow> EndpointState \<Rightarrow> EndpointState \<times> unit result" where
  "grow_streams mem window [] e = (e, Inr ())"
| "grow_streams mem window (index # rest) e =
     (let s = cs_streams (ep_receive e) ! index;
          s' = s\<lparr>st_max_data := max (st_max_data s) (sat_add64 (st_consumed s) window)\<rparr>;
          e1 = e\<lparr>ep_receive := (ep_receive e)\<lparr>cs_streams := (cs_streams (ep_receive e))[index := s']\<rparr>\<rparr>
      in if st_max_data s < st_max_data s'
         then bindS (queue_stream_credit mem (st_id s') e1) (\<lambda>e2 _. grow_streams mem window rest e2)
         else grow_streams mem window rest e1)"

definition raise_max_streams :: "u64 \<Rightarrow> EndpointState \<Rightarrow> EndpointState" where
  "raise_max_streams target e =
     (if max_streams_bidi (cs_limits (ep_receive e)) < target
      then e\<lparr>ep_receive := (ep_receive e)\<lparr>cs_limits := (cs_limits (ep_receive e))\<lparr>max_streams_bidi := target\<rparr>\<rparr>,
             ep_max_streams_bidi_pending := True\<rparr>
      else e)"

definition set_receive_growth_limits :: "bool \<Rightarrow> ConnectionLimits \<Rightarrow> EndpointState \<Rightarrow> EndpointState \<times> unit result" where
  "set_receive_growth_limits mem lim e =
     (if lim_max_data lim = 0 \<or> lim_max_stream_data lim = 0 then (e, Inl Invalid)
      else
        let e1 = e\<lparr>ep_receive_growth_limits := lim,
                   ep_receive := extend_connection_credit (lim_max_data lim) (ep_receive e)\<rparr>
        in bindS (grow_streams mem (lim_max_stream_data lim) [0..<length (cs_streams (ep_receive e1))] e1) (\<lambda>e2 _.
           ((raise_max_streams (sat_add64 (ep_retired_peer_bidi e2) (max_streams_bidi lim)) e2)
              \<lparr>ep_credit_pending := True, ep_control_pending := True\<rparr>, Inr ())))"

definition try_retire_stream :: "u64 \<Rightarrow> EndpointState \<Rightarrow> EndpointState" where
  "try_retire_stream i e =
     (if \<not> is_finished (ep_send e) i \<or> \<not> is_complete (ep_receive e) i
         \<or> (\<exists>packet \<in> set (List.map_filter id (ep_sent_packets e)). sp_stream_id packet = i)
      then e
      else
        let peer_initiated = is_peer_initiated (ep_receive e) i;
            removed = length (filter (\<lambda>pending. pending = i)
              (take (ep_credit_inflight_stream_count e) (ep_pending_stream_ids e)));
            e1 = e\<lparr>ep_send := fst (sfc_remove_stream i (ep_send e)),
                   ep_receive := fst (retire_stream i (ep_receive e)),
                   ep_pending_stream_ids := filter (\<lambda>pending. pending \<noteq> i) (ep_pending_stream_ids e),
                   ep_credit_inflight_stream_count := ep_credit_inflight_stream_count e - removed\<rparr>
        in if peer_initiated \<and> i AND 2 = 0
           then
             let e2 = e1\<lparr>ep_retired_peer_bidi := sat_add64 (ep_retired_peer_bidi e1) 1\<rparr>;
                 e3 = raise_max_streams (sat_add64 (ep_retired_peer_bidi e2) (max_streams_bidi (ep_receive_growth_limits e2))) e2
             in e3\<lparr>ep_credit_dirty := (ep_credit_dirty e3 \<or> ep_credit_packet_number e3 \<noteq> None),
                   ep_credit_pending := True, ep_control_pending := True\<rparr>
           else e1)"

definition stream_consumed_without_credit :: "u64 \<Rightarrow> usize \<Rightarrow> EndpointState \<Rightarrow> EndpointState \<times> unit result" where
  "stream_consumed_without_credit i n e = (case cs_consume i n (ep_receive e) of
     Inl err \<Rightarrow> (e, Inl err)
   | Inr cs \<Rightarrow> let e1 = e\<lparr>ep_receive := cs\<rparr> in (schedule_application_ack (pending_receive_ack_path e1) False e1, Inr ()))"

definition grant_receive_window :: "bool \<Rightarrow> u64 \<Rightarrow> u64 \<Rightarrow> EndpointState \<Rightarrow> EndpointState \<times> unit result" where
  "grant_receive_window mem i window_bytes e =
     (let connection_window = min window_bytes (lim_max_data (ep_receive_growth_limits e));
          stream_window = min window_bytes (lim_max_stream_data (ep_receive_growth_limits e));
          e1 = e\<lparr>ep_receive := extend_connection_credit connection_window (ep_receive e)\<rparr>
      in case extend_stream_credit i stream_window (ep_receive e1) of
           Inl err \<Rightarrow> (e1, Inl err)
         | Inr cs \<Rightarrow> queue_stream_credit mem i (e1\<lparr>ep_receive := cs, ep_control_pending := True\<rparr>))"

definition credit_due :: "usize \<Rightarrow> bool \<Rightarrow> u64 \<Rightarrow> u64 \<Rightarrow> u64 \<Rightarrow> bool" where
  "credit_due P force_control used advertised window =
     (let threshold = (if force_control \<or> window \<le> sat_mul64 P 2 then 1 else div_ceil window 8)
      in threshold \<le> sat_add64 used window - advertised)"

text \<open>\<open>mem_list\<close> and \<open>mem\<close>: the reservations of \<open>stream_consumed_inner\<close> itself and of \<open>queue_stream_credit\<close>.\<close>

definition stream_consumed_inner :: "usize \<Rightarrow> bool \<Rightarrow> bool \<Rightarrow> u64 \<Rightarrow> usize \<Rightarrow> bool \<Rightarrow> bool \<Rightarrow> EndpointState \<Rightarrow> EndpointState \<times> unit result" where
  "stream_consumed_inner P mem_list mem i n force_control schedule e =
     (case cs_consume i n (ep_receive e) of
        Inl err \<Rightarrow> (e, Inl err)
      | Inr cs \<Rightarrow>
          let e1 = e\<lparr>ep_receive := cs\<rparr>; window = ep_receive_growth_limits e1 in
          if \<not> mem_list then (e1, Inl StreamLimit)
          else
            let connection = cs_connection (ep_receive e1);
                connection_due = credit_due P force_control (fc_consumed connection) (fc_max_data connection) (lim_max_data window);
                e2 = (if connection_due then e1\<lparr>ep_receive := extend_connection_credit (lim_max_data window) (ep_receive e1)\<rparr> else e1)
            in case cs_find (ep_receive e2) i of
                 None \<Rightarrow> (e2, Inl Invalid)
               | Some s \<Rightarrow>
                   let stream_due = credit_due P force_control (st_consumed s) (st_max_data s) (lim_max_stream_data window);
                       e3 = (if stream_due then e2\<lparr>ep_receive := (ep_receive e2)\<lparr>cs_streams :=
                               update_first (\<lambda>s. st_id s = i) (st_extend (lim_max_stream_data window)) (cs_streams (ep_receive e2))\<rparr>\<rparr>
                             else e2);
                       e4 = (if force_control then e3\<lparr>ep_control_pending := True\<rparr> else e3);
                       e5 = (if schedule then schedule_application_ack (pending_receive_ack_path e4) force_control e4 else e4)
                   in bindS (if connection_due \<or> stream_due then queue_stream_credit mem i e5 else (e5, Inr ())) (\<lambda>e6 _.
                      (try_retire_stream i e6, Inr ())))"

section \<open>Reads\<close>

definition in_flight_packet_count :: "EndpointState \<Rightarrow> usize" where
  "in_flight_packet_count e = length (filter (\<lambda>packet. accepted packet \<and> \<not> lost packet) (List.map_filter id (ep_sent_packets e)))"

definition duplication_budget_available :: "EndpointState \<Rightarrow> u64" where
  "duplication_budget_available e = ep_duplication_credit_bytes e - ep_duplication_reserved_bytes e"

definition set_duplication_budget_capacity :: "u64 \<Rightarrow> EndpointState \<Rightarrow> EndpointState" where
  "set_duplication_budget_capacity capacity e = e\<lparr>ep_duplication_budget_capacity := capacity,
     ep_duplication_credit_bytes := min (ep_duplication_credit_bytes e) capacity\<rparr>"

definition proactive_copy_source_path :: "EndpointState \<Rightarrow> u32 \<Rightarrow> usize option" where
  "proactive_copy_source_path e pn =
     (case find (\<lambda>packet. sp_packet_number packet = pn) (List.map_filter id (ep_sent_packets e)) of
        None \<Rightarrow> None
      | Some packet \<Rightarrow>
          if accepted packet \<and> logical_packet_number packet = sp_packet_number packet
             \<and> send_buffer_slot packet \<noteq> None \<and> (sp_fin packet \<or> priority_stream packet)
             \<and> probe_token packet = None \<and> \<not> lost packet \<and> \<not> data_delivered packet
          then Some (path_id packet) else None)"

definition sent_is :: "u32 \<Rightarrow> SentPacket option \<Rightarrow> bool" where
  "sent_is pn slot = (case slot of None \<Rightarrow> False | Some packet \<Rightarrow> sp_packet_number packet = pn)"

definition mark_priority_stream_packet :: "u32 \<Rightarrow> EndpointState \<Rightarrow> EndpointState" where
  "mark_priority_stream_packet pn e = e\<lparr>ep_sent_packets :=
     update_first (sent_is pn) (map_option (\<lambda>packet. packet\<lparr>priority_stream := True\<rparr>)) (ep_sent_packets e)\<rparr>"

definition is_proactive_duplicate :: "EndpointState \<Rightarrow> u32 \<Rightarrow> bool" where
  "is_proactive_duplicate e pn \<longleftrightarrow> (\<exists>packet \<in> set (List.map_filter id (ep_sent_packets e)).
     sp_packet_number packet = pn \<and> logical_packet_number packet \<noteq> sp_packet_number packet \<and> duplication_charge packet \<noteq> 0)"

definition path_has_outstanding_packets :: "EndpointState \<Rightarrow> usize \<Rightarrow> bool" where
  "path_has_outstanding_packets e i \<longleftrightarrow>
     (\<exists>packet \<in> set (List.map_filter id (ep_sent_packets e)). path_id packet = i)
     \<or> (case path_get e i of None \<Rightarrow> False | Some p \<Rightarrow> ack_pending p)"

end
