(* ===== verification/Endpoint_Ledger.thy ===== *)
theory Endpoint_Ledger
  imports Endpoint_State
begin

text \<open>
  The ledger of transmissions of an association endpoint: what submission to the bearer, loss detection,
  persistent congestion, suspension and removal of a path do to the records of sent packets and to the
  congestion state of the paths. The accounting of bytes in flight holds through all of them: the flight of a
  path is the sum over the records that are accepted and not lost.
\<close>

section \<open>Events of the congestion history\<close>

text \<open>\<^verbatim>\<open>iter_mut().rev().find(P)\<close>: the last entry that satisfies \<open>P\<close> is changed.\<close>

definition update_last :: "('a \<Rightarrow> bool) \<Rightarrow> ('a \<Rightarrow> 'a) \<Rightarrow> 'a list \<Rightarrow> 'a list" where
  "update_last P f xs = rev (update_first P f (rev xs))"

definition upd_event :: "u32 \<Rightarrow> (CongestionHistoryPacket \<Rightarrow> CongestionHistoryPacket) \<Rightarrow> PathState \<Rightarrow> PathState" where
  "upd_event pn f p = p\<lparr>congestion_history := update_last (\<lambda>event. ch_packet_number event = pn) f (congestion_history p)\<rparr>"

text \<open>\<open>None\<close> is the panic of \<^verbatim>\<open>remove(0)\<close> on an empty history, under a transmission limit of zero.\<close>

definition record_congestion_packet :: "usize \<Rightarrow> u32 \<Rightarrow> u64 \<Rightarrow> usize \<Rightarrow> bool \<Rightarrow> bool \<Rightarrow> EndpointState \<Rightarrow> EndpointState option" where
  "record_congestion_packet i pn at n duplicated stream_packet e =
     (if length (ep_paths e) \<le> i then Some e
      else if ep_transmission_limit e = 0 then None
      else Some (upd_path i (\<lambda>p.
        let history = drop (Suc (length (congestion_history p)) - ep_transmission_limit e) (congestion_history p);
            event = \<lparr>ch_packet_number = pn, ch_sent_at = at, ch_accepted = True, ch_acked = False, ch_lost = False,
                     ch_had_rtt_sample = (latest_rtt (rtt p) \<noteq> None), ch_excluded = False\<rparr>;
            p1 = p\<lparr>congestion_history := history @ [event]\<rparr>;
            p2 = (if stream_packet then p1\<lparr>packets_sent := sat_add64 (packets_sent p1) 1\<rparr> else p1);
            p3 = (if duplicated then p2\<lparr>packets_duplicated := sat_add64 (packets_duplicated p2) 1,
                                       duplicate_bytes_prepared := sat_add64 (duplicate_bytes_prepared p2) n\<rparr> else p2)
        in p3\<lparr>largest_sent_packet := Some pn\<rparr>) e))"

definition evidence :: "CongestionHistoryPacket \<Rightarrow> bool" where
  "evidence event \<longleftrightarrow> ch_accepted event \<and> \<not> ch_excluded event \<and> \<not> ch_acked event \<and> ch_lost event \<and> ch_had_rtt_sample event"

text \<open>The two nested loops of \<open>detect_persistent_congestion\<close>: the end of the first interval found.\<close>

definition ends_interval :: "u64 \<Rightarrow> u32 option \<Rightarrow> CongestionHistoryPacket list \<Rightarrow> CongestionHistoryPacket
    \<Rightarrow> CongestionHistoryPacket \<Rightarrow> bool" where
  "ends_interval duration declared history start event \<longleftrightarrow>
     evidence event \<and> duration < ch_sent_at event - ch_sent_at start
     \<and> \<not> (case declared of None \<Rightarrow> False | Some packet \<Rightarrow> ch_packet_number event \<le> packet)
     \<and> \<not> (\<exists>between \<in> set history. ch_accepted between \<and> \<not> ch_excluded between \<and> ch_acked between
            \<and> ch_sent_at start < ch_sent_at between \<and> ch_sent_at between < ch_sent_at event)"

definition persistent_declaration :: "u64 \<Rightarrow> u32 option \<Rightarrow> CongestionHistoryPacket list \<Rightarrow> u32 option" where
  "persistent_declaration duration declared history =
     find_map (\<lambda>k. if evidence (history ! k)
        then map_option ch_packet_number (find (ends_interval duration declared history (history ! k)) (drop (Suc k) history))
        else None) [0..<length history]"

definition detect_persistent_congestion :: "usize \<Rightarrow> EndpointState \<Rightarrow> EndpointState" where
  "detect_persistent_congestion i e = (case path_get e i of
     None \<Rightarrow> e
   | Some p \<Rightarrow>
       if latest_rtt (rtt p) = None then e
       else
         let duration = sat_mul64 (sat_add64 (rtt_pto (rtt p)) (ep_peer_max_ack_delay_us e)) 3
         in case persistent_declaration duration (persistent_congestion_end p) (congestion_history p) of
              None \<Rightarrow> e
            | Some end_packet \<Rightarrow> upd_path i (\<lambda>p. p\<lparr>
                congestion := on_persistent_congestion (ep_next_packet_number e - 1) (congestion p),
                persistent_congestion_end := Some end_packet\<rparr>) e)"

section \<open>Submission to the bearer\<close>

text \<open>The slot and the record of a packet number, looked up as every operation below does it.\<close>

definition sent_lookup :: "u32 \<Rightarrow> EndpointState \<Rightarrow> (usize \<times> SentPacket) option" where
  "sent_lookup pn e = (case position (sent_is pn) (ep_sent_packets e) of
     None \<Rightarrow> None
   | Some index \<Rightarrow> map_option (\<lambda>sent. (index, sent)) (ep_sent_packets e ! index))"

definition replace_sent :: "usize \<Rightarrow> SentPacket option \<Rightarrow> usize \<Rightarrow> PathState \<Rightarrow> EndpointState \<Rightarrow> EndpointState" where
  "replace_sent index slot i p e = e\<lparr>ep_sent_packets := (ep_sent_packets e)[index := slot], ep_paths := (ep_paths e)[i := p]\<rparr>"

text \<open>
  Each operation is split into what happens to the path of the packet and the rest. \<open>None\<close> is the panic of
  \<^verbatim>\<open>self.paths[sent.path_id]\<close>.
\<close>

definition blocked_path :: "u32 \<Rightarrow> SentPacket \<Rightarrow> PathState \<Rightarrow> PathState" where
  "blocked_path pn sent p =
     (let p1 = (if accepted sent then p\<lparr>congestion := remove_in_flight (sp_bytes sent) (congestion p)\<rparr> else p);
          p2 = (if largest_sent_packet p1 = Some pn
                then p1\<lparr>largest_sent_packet := map_option ch_packet_number (find ch_accepted (rev (congestion_history p1)))\<rparr>
                else p1)
      in upd_event pn (\<lambda>event. event\<lparr>ch_accepted := False\<rparr>) p2)"

definition packet_submission_blocked :: "u32 \<Rightarrow> EndpointState \<Rightarrow> (EndpointState \<times> bool) option" where
  "packet_submission_blocked pn e = (case sent_lookup pn e of
     None \<Rightarrow> Some (e, False)
   | Some (index, sent) \<Rightarrow> map_option (\<lambda>p.
       (replace_sent index (Some (sent\<lparr>accepted := False\<rparr>)) (path_id sent) (blocked_path pn sent p) e, True))
       (path_get e (path_id sent)))"

text \<open>Budget of copies: what an accepted submission earns or spends.\<close>

definition commit_duplication :: "SentPacket \<Rightarrow> EndpointState \<Rightarrow> EndpointState" where
  "commit_duplication sent e =
     (if duplication_charge sent \<noteq> 0
      then e\<lparr>ep_duplication_reserved_bytes := ep_duplication_reserved_bytes e - duplication_charge sent,
             ep_duplication_credit_bytes := ep_duplication_credit_bytes e - duplication_charge sent\<rparr>
      else if logical_packet_number sent = sp_packet_number sent \<and> probe_token sent = None \<and> \<not> path_probe sent
      then
        let total = wrap_add64 (sp_bytes sent) (ep_duplication_credit_remainder e)
        in e\<lparr>ep_duplication_credit_remainder := total mod 10,
             ep_duplication_credit_bytes := min (sat_add64 (ep_duplication_credit_bytes e) (total div 10))
               (ep_duplication_budget_capacity e)\<rparr>
      else e)"

definition count_probe :: "SentPacket \<Rightarrow> PathState \<Rightarrow> PathState" where
  "count_probe sent p =
     (if \<not> path_probe sent then p
      else if duplication_charge sent \<noteq> 0
      then p\<lparr>probe_bytes_budgeted := sat_add64 (probe_bytes_budgeted p) (sp_bytes sent)\<rparr>
      else if probe_idle_exempt sent
      then p\<lparr>probe_bytes_idle_exempt := sat_add64 (probe_bytes_idle_exempt p) (sp_bytes sent)\<rparr>
      else p)"

definition limited_by_window :: "CongestionController \<Rightarrow> u64 \<Rightarrow> bool" where
  "limited_by_window c n \<longleftrightarrow> congestion_window c < sat_add64 (sat_add64 (bytes_in_flight c) n) (max_packet_size c)"

definition accepted_path :: "u32 \<Rightarrow> u64 \<Rightarrow> SentPacket \<Rightarrow> PathState \<Rightarrow> PathState" where
  "accepted_path pn now_us sent p =
     (let c = congestion p;
          p1 = (if accepted sent then p
                else p\<lparr>congestion := c\<lparr>bytes_in_flight := sat_add64 (bytes_in_flight c) (sp_bytes sent)\<rparr>\<rparr>);
          p2 = (if duplication_budget_committed sent then p1 else count_probe sent p1);
          p3 = (case probe_token sent of None \<Rightarrow> p2 | Some token \<Rightarrow> update_probe_submission_time token now_us p2);
          p4 = p3\<lparr>largest_sent_packet := Some pn\<rparr>
      in upd_event pn (\<lambda>event. event\<lparr>ch_sent_at := now_us, ch_accepted := True,
           ch_had_rtt_sample := (latest_rtt (rtt p4) \<noteq> None)\<rparr>) p4)"

definition packet_submission_accepted :: "u32 \<Rightarrow> u64 \<Rightarrow> EndpointState \<Rightarrow> (EndpointState \<times> bool) option" where
  "packet_submission_accepted pn now_us e = (case sent_lookup pn e of
     None \<Rightarrow> Some (e, False)
   | Some (index, sent) \<Rightarrow> map_option (\<lambda>p.
       let sent1 = (if accepted sent then sent
                    else sent\<lparr>window_limited := limited_by_window (congestion p) (sp_bytes sent), accepted := True\<rparr>);
           e1 = (if duplication_budget_committed sent then e else commit_duplication sent e)
       in (replace_sent index (Some (sent1\<lparr>sent_at := now_us, duplication_budget_committed := True\<rparr>)) (path_id sent)
             (accepted_path pn now_us sent p) e1, True)) (path_get e (path_id sent)))"

definition send_range_at :: "EndpointState \<Rightarrow> usize option \<Rightarrow> RetainedSendRange option" where
  "send_range_at e slot = (case slot of
     None \<Rightarrow> None
   | Some i \<Rightarrow> if i < length (ep_send_buffer e) then ep_send_buffer e ! i else None)"

definition sent_packet_has_pending_fin :: "EndpointState \<Rightarrow> SentPacket \<Rightarrow> bool" where
  "sent_packet_has_pending_fin e packet \<longleftrightarrow> sp_fin packet
     \<and> (case send_range_at e (send_buffer_slot packet) of None \<Rightarrow> False | Some r \<Rightarrow> rs_fin r \<and> \<not> fin_acked r)"

definition retain_sent :: "EndpointState \<Rightarrow> SentPacket \<Rightarrow> SentPacket option" where
  "retain_sent e sent = (if \<not> data_delivered sent \<or> sent_packet_has_pending_fin e sent then Some sent else None)"

definition failed_path :: "u32 \<Rightarrow> SentPacket \<Rightarrow> PathState \<Rightarrow> PathState" where
  "failed_path pn sent p = upd_event pn (\<lambda>event. event\<lparr>ch_excluded := True\<rparr>)
     (p\<lparr>congestion := remove_in_flight (sp_bytes sent) (congestion p)\<rparr>)"

definition packet_submission_failed :: "u32 \<Rightarrow> EndpointState \<Rightarrow> (EndpointState \<times> bool) option" where
  "packet_submission_failed pn e = (case sent_lookup pn e of
     None \<Rightarrow> Some (e, False)
   | Some (index, sent) \<Rightarrow>
       if \<not> accepted sent \<or> lost sent then Some (e, False)
       else map_option (\<lambda>p.
         let e1 = (if \<not> duplication_budget_committed sent \<and> duplication_charge sent \<noteq> 0
                   then e\<lparr>ep_duplication_reserved_bytes := ep_duplication_reserved_bytes e - duplication_charge sent\<rparr> else e)
         in (upd_stats (\<lambda>s. s\<lparr>ts_submission_failures := sat_add64 (ts_submission_failures s) 1\<rparr>)
               (replace_sent index (retain_sent e (sent\<lparr>lost := True\<rparr>)) (path_id sent) (failed_path pn sent p) e1), True))
         (path_get e (path_id sent)))"

section \<open>Loss\<close>

text \<open>The loop of \<open>detect_ack_losses\<close> over the ledger; the path, the counters and the two results are threaded.\<close>

record loss_scan =
  sc_path :: PathState
  sc_stats :: TransportStats
  sc_lost_bytes :: u64
  sc_largest_lost :: "u32 option"

definition lost_by_packets :: "u64 \<Rightarrow> u64 \<Rightarrow> SentPacket \<Rightarrow> bool" where
  "lost_by_packets threshold largest_acked packet \<longleftrightarrow> sat_add64 (send_order packet) threshold \<le> largest_acked"

definition lost_by_time :: "u64 \<Rightarrow> u64 \<Rightarrow> SentPacket \<Rightarrow> bool" where
  "lost_by_time threshold clock packet \<longleftrightarrow> threshold \<le> clock - sent_at packet"

definition loss_step :: "bool \<Rightarrow> u64 \<Rightarrow> SentPacket \<Rightarrow> loss_scan \<Rightarrow> loss_scan" where
  "loss_step by_packets clock packet sc =
     (let s = sc_stats sc;
          s1 = (if by_packets
                then s\<lparr>ts_loss_packet_threshold_packets := sat_add64 (ts_loss_packet_threshold_packets s) 1\<rparr>
                else s\<lparr>ts_loss_time_threshold_packets := sat_add64 (ts_loss_time_threshold_packets s) 1\<rparr>);
          p = sc_path sc;
          p1 = record_delivery_outcome False clock (p\<lparr>packets_lost := sat_add64 (packets_lost p) 1\<rparr>);
          p2 = upd_event (sp_packet_number packet) (\<lambda>event. event\<lparr>ch_lost := True\<rparr>) p1
      in \<lparr>sc_path = p2, sc_stats = s1, sc_lost_bytes = sat_add64 (sc_lost_bytes sc) (sp_bytes packet),
          sc_largest_lost = raise_to (logical_packet_number packet) (sc_largest_lost sc)\<rparr>)"

fun loss_loop :: "usize \<Rightarrow> u64 \<Rightarrow> u64 \<Rightarrow> u64 \<Rightarrow> u64 \<Rightarrow> SentPacket option list \<Rightarrow> loss_scan \<Rightarrow> SentPacket option list \<times> loss_scan" where
  "loss_loop i largest_acked packet_threshold time_threshold clock [] sc = ([], sc)"
| "loss_loop i largest_acked packet_threshold time_threshold clock (slot # slots) sc =
     (let (slot', sc') = (case slot of
        None \<Rightarrow> (slot, sc)
      | Some packet \<Rightarrow>
          if \<not> accepted packet \<or> lost packet \<or> path_id packet \<noteq> i \<or> largest_acked \<le> send_order packet then (slot, sc)
          else
            let by_packets = lost_by_packets packet_threshold largest_acked packet in
            if by_packets \<or> lost_by_time time_threshold clock packet
            then (Some (packet\<lparr>lost := True, inferred_lost := True\<rparr>), loss_step by_packets clock packet sc)
            else (slot, sc));
          (slots', sc'') = loss_loop i largest_acked packet_threshold time_threshold clock slots sc'
      in (slot' # slots', sc''))"

definition largest_sent_or_last :: "EndpointState \<Rightarrow> PathState \<Rightarrow> u32" where
  "largest_sent_or_last e p = (case largest_sent_packet p of None \<Rightarrow> ep_next_packet_number e - 1 | Some n \<Rightarrow> n)"

definition retire_lost :: "EndpointState \<Rightarrow> usize \<Rightarrow> SentPacket option \<Rightarrow> SentPacket option" where
  "retire_lost e i slot = (case slot of
     None \<Rightarrow> None
   | Some packet \<Rightarrow>
       if path_id packet = i \<and> lost packet \<and> data_delivered packet \<and> \<not> sent_packet_has_pending_fin e packet
       then None else Some packet)"

definition detect_ack_losses :: "usize \<Rightarrow> u64 option \<Rightarrow> EndpointState \<Rightarrow> EndpointState" where
  "detect_ack_losses i largest_acked e = (case largest_acked of
     None \<Rightarrow> e
   | Some largest_acked \<Rightarrow> (case path_get e i of
       None \<Rightarrow> e
     | Some p \<Rightarrow>
         let (slots, sc) = loss_loop i largest_acked (packet_reordering_threshold p)
               (loss_delay_us (ep_peer_max_ack_delay_us e) p) (send_clock p) (ep_sent_packets e)
               \<lparr>sc_path = p, sc_stats = ep_stats e, sc_lost_bytes = 0, sc_largest_lost = None\<rparr>;
             e1 = e\<lparr>ep_sent_packets := map (retire_lost e i) slots, ep_stats := sc_stats sc, ep_paths := (ep_paths e)[i := sc_path sc]\<rparr>
         in case sc_largest_lost sc of
              None \<Rightarrow> e1
            | Some largest_lost \<Rightarrow>
                upd_path i (\<lambda>p. p\<lparr>congestion := on_packet_lost (sc_lost_bytes sc) largest_lost (largest_sent_or_last e p) (congestion p)\<rparr>)
                  (upd_stats (\<lambda>s. s\<lparr>ts_loss_events := sat_add64 (ts_loss_events s) 1\<rparr>) e1)))"

definition lost_path :: "EndpointState \<Rightarrow> u32 \<Rightarrow> SentPacket \<Rightarrow> PathState \<Rightarrow> PathState" where
  "lost_path e pn packet p =
     (let p1 = record_delivery_outcome False (send_clock p) (p\<lparr>packets_lost := sat_add64 (packets_lost p) 1\<rparr>);
          p2 = upd_event pn (\<lambda>event. event\<lparr>ch_lost := True\<rparr>) p1
      in p2\<lparr>congestion := on_packet_lost (sp_bytes packet) (logical_packet_number packet) (largest_sent_or_last e p2)
           (congestion p2)\<rparr>)"

definition mark_lost :: "u32 \<Rightarrow> EndpointState \<Rightarrow> (EndpointState \<times> bool) option" where
  "mark_lost pn e = (case sent_lookup pn e of
     None \<Rightarrow> Some (e, False)
   | Some (index, packet) \<Rightarrow>
       if \<not> accepted packet \<or> lost packet then Some (e, False)
       else map_option (\<lambda>p.
         (replace_sent index (retain_sent e (packet\<lparr>lost := True, inferred_lost := True\<rparr>)) (path_id packet)
            (lost_path e pn packet p) e, True)) (path_get e (path_id packet)))"

section \<open>Suspension and removal of a path\<close>

fun suspend_loop :: "usize \<Rightarrow> SentPacket option list \<Rightarrow> PathState \<Rightarrow> SentPacket option list \<times> PathState" where
  "suspend_loop i [] p = ([], p)"
| "suspend_loop i (slot # slots) p =
     (let (slot', p') = (case slot of
        None \<Rightarrow> (slot, p)
      | Some sent \<Rightarrow>
          if path_id sent \<noteq> i \<or> \<not> accepted sent \<or> lost sent then (slot, p)
          else (Some (sent\<lparr>lost := True\<rparr>),
                upd_event (sp_packet_number sent) (\<lambda>event. event\<lparr>ch_excluded := True\<rparr>)
                  (p\<lparr>congestion := remove_in_flight (sp_bytes sent) (congestion p)\<rparr>)));
          (slots', p'') = suspend_loop i slots p'
      in (slot' # slots', p''))"

definition suspend_path :: "usize \<Rightarrow> EndpointState \<Rightarrow> EndpointState" where
  "suspend_path i e = (case path_get e i of
     None \<Rightarrow> e
   | Some p \<Rightarrow> (case suspend_loop i (ep_sent_packets e) p of
       (slots, p') \<Rightarrow> e\<lparr>ep_sent_packets := slots, ep_paths := (ep_paths e)[i := mark_suspended p']\<rparr>))"

definition remove_path_state :: "usize \<Rightarrow> EndpointState \<Rightarrow> EndpointState \<times> unit result" where
  "remove_path_state i e =
     (if i = 0 \<or> length (ep_paths e) \<le> i then (e, Inl PathLimit)
      else if (\<exists>packet \<in> set (List.map_filter id (ep_sent_packets e)). path_id packet = i) then (e, Inl Blocked)
      else (e\<lparr>ep_paths := take i (ep_paths e) @ drop (Suc i) (ep_paths e),
              ep_sent_packets := map (map_option (\<lambda>packet.
                if i < path_id packet then packet\<lparr>path_id := path_id packet - 1\<rparr> else packet)) (ep_sent_packets e)\<rparr>, Inr ()))"


section \<open>Flight accounting\<close>

text \<open>What a slot of the ledger counts as in flight on path \<open>i\<close>, and the total.\<close>

definition slot_bytes :: "usize \<Rightarrow> SentPacket option \<Rightarrow> u64" where
  "slot_bytes i slot = (case slot of
     None \<Rightarrow> 0
   | Some s \<Rightarrow> if path_id s = i \<and> accepted s \<and> \<not> lost s then sp_bytes s else 0)"

definition flight :: "usize \<Rightarrow> SentPacket option list \<Rightarrow> nat" where
  "flight i slots = sum_list (map (slot_bytes i) slots)"

definition flight_of :: "PathState \<Rightarrow> u64" where
  "flight_of p = bytes_in_flight (congestion p)"

definition slot_in :: "usize \<Rightarrow> SentPacket option \<Rightarrow> bool" where
  "slot_in n slot = (case slot of None \<Rightarrow> True | Some s \<Rightarrow> path_id s < n)"

definition flight_inv :: "EndpointState \<Rightarrow> bool" where
  "flight_inv e \<longleftrightarrow> ep_paths e \<noteq> [] \<and> length (ep_paths e) \<le> MAX_PATH_STATES \<and> ep_transmission_limit e \<noteq> 0
     \<and> list_all (slot_in (length (ep_paths e))) (ep_sent_packets e)
     \<and> (\<forall>i < length (ep_paths e). flight_of (ep_paths e ! i) = flight i (ep_sent_packets e)
          \<and> flight i (ep_sent_packets e) \<le> u64_max)"

lemma slot_bytes_simps [simp]:
  "slot_bytes i None = 0"
  "slot_bytes i (Some s) = (if path_id s = i \<and> accepted s \<and> \<not> lost s then sp_bytes s else 0)"
  by (simp_all add: slot_bytes_def)

lemma slot_in_simps [simp]: "slot_in n None" "slot_in n (Some s) \<longleftrightarrow> path_id s < n"
  by (simp_all add: slot_in_def)

lemma flight_simps [simp]: "flight i [] = 0" "flight i (s # ss) = slot_bytes i s + flight i ss"
  "flight i (xs @ ys) = flight i xs + flight i ys"
  by (simp_all add: flight_def)

lemma flight_replicate [simp]: "flight i (replicate n None) = 0"
  by (simp add: flight_def)

lemma flight_update: "k < length ss \<Longrightarrow> flight i (ss[k := x]) + slot_bytes i (ss ! k) = flight i ss + slot_bytes i x"
proof (induction ss arbitrary: k)
  case (Cons s ss)
  then show ?case by (cases k) (auto simp: algebra_simps)
qed simp

lemma slot_le_flight: "k < length ss \<Longrightarrow> slot_bytes i (ss ! k) \<le> flight i ss"
  using flight_update [of k ss i None] by simp

lemma upd_event_frame [simp]:
  "congestion (upd_event pn f p) = congestion p" "flight_of (upd_event pn f p) = flight_of p"
  by (simp_all add: upd_event_def flight_of_def)

lemma flight_of_simps [simp]:
  "flight_of (p\<lparr>congestion := c\<rparr>) = bytes_in_flight c"
  "flight_of (p\<lparr>largest_sent_packet := a\<rparr>) = flight_of p"
  "flight_of (record_delivery_outcome d t p) = flight_of p"
  "flight_of (p\<lparr>packets_lost := n\<rparr>) = flight_of p"
  "flight_of (count_probe s p) = flight_of p"
  "flight_of (update_probe_submission_time token t p) = flight_of p"
  "flight_of (mark_suspended p) = flight_of p"
  "bytes_in_flight (remove_in_flight n (congestion p)) = flight_of p - n"
  by (simp_all add: flight_of_def record_delivery_outcome_def Let_def count_probe_def update_probe_submission_time_def
      mark_suspended_def remove_in_flight_def split: option.splits prod.splits)

lemma on_packet_lost_flight [simp]: "bytes_in_flight (on_packet_lost n a b c) = bytes_in_flight c - n"
  by (simp add: on_packet_lost_def Let_def)

lemma sent_lookup_Some:
  "sent_lookup pn e = Some (k, sent) \<longleftrightarrow>
     position (sent_is pn) (ep_sent_packets e) = Some k \<and> ep_sent_packets e ! k = Some sent"
  by (auto simp: sent_lookup_def split: option.splits)

lemma sent_lookupD:
  assumes "sent_lookup pn e = Some (k, sent)"
  shows "k < length (ep_sent_packets e)" "ep_sent_packets e ! k = Some sent" "sp_packet_number sent = pn"
  using assms by (auto simp: sent_lookup_Some position_Some sent_is_def)

text \<open>One slot changes, and with it the path that carries it.\<close>

lemma path_get_at [simp]: "i < length (ep_paths e) \<Longrightarrow> path_get e i = Some (ep_paths e ! i)"
  by (simp add: path_get_def)

lemma path_get_Some [simp]: "path_get e i = Some p \<longleftrightarrow> i < length (ep_paths e) \<and> p = ep_paths e ! i"
  by (auto simp: path_get_def)

lemma flight_inv_path: "flight_inv e \<Longrightarrow> k < length (ep_sent_packets e) \<Longrightarrow> ep_sent_packets e ! k = Some sent
    \<Longrightarrow> path_id sent < length (ep_paths e)"
  by (auto simp: flight_inv_def list_all_length dest!: spec [of _ k])

lemma flight_inv_at: "flight_inv e \<Longrightarrow> i < length (ep_paths e)
    \<Longrightarrow> flight_of (ep_paths e ! i) = flight i (ep_sent_packets e) \<and> flight_of (ep_paths e ! i) \<le> u64_max"
  by (simp add: flight_inv_def)

text \<open>One slot changes, and with it the path that carries it.\<close>

lemma flight_inv_change:
  assumes inv: "flight_inv e" and k: "k < length (ep_sent_packets e)" "ep_sent_packets e ! k = Some sent"
    and e': "ep_sent_packets e' = (ep_sent_packets e)[k := x]" "ep_paths e' = (ep_paths e)[path_id sent := p]"
      "ep_transmission_limit e' = ep_transmission_limit e"
    and x: "case x of None \<Rightarrow> True | Some s \<Rightarrow> path_id s = path_id sent"
    and fl: "flight_of p + slot_bytes (path_id sent) (Some sent) = flight_of (ep_paths e ! path_id sent) + slot_bytes (path_id sent) x"
    and le: "flight_of p \<le> u64_max"
  shows "flight_inv e'"
proof -
  let ?j = "path_id sent"
  note j = flight_inv_path [OF inv k]
  have "flight_of (ep_paths e' ! i) = flight i (ep_sent_packets e') \<and> flight i (ep_sent_packets e') \<le> u64_max"
    if i: "i < length (ep_paths e)" for i
  proof (cases "i = ?j")
    case True
    then show ?thesis using flight_inv_at [OF inv j] flight_update [OF k(1), of ?j x] fl le j by (simp add: e' k(2))
  next
    case False
    then have "slot_bytes i x = 0" "slot_bytes i (Some sent) = 0" using x by (auto split: option.splits)
    then show ?thesis using flight_inv_at [OF inv i] flight_update [OF k(1), of i x] False by (simp add: e' k(2))
  qed
  moreover have "list_all (slot_in (length (ep_paths e))) (ep_sent_packets e')"
    using inv k(1) x j by (auto simp: e' flight_inv_def list_all_length nth_list_update split: option.splits)
  ultimately show ?thesis using inv by (simp add: flight_inv_def e')
qed

lemma replace_sent_simps [simp]:
  "ep_sent_packets (replace_sent k x i p e) = (ep_sent_packets e)[k := x]"
  "ep_paths (replace_sent k x i p e) = (ep_paths e)[i := p]"
  "ep_transmission_limit (replace_sent k x i p e) = ep_transmission_limit e"
  by (simp_all add: replace_sent_def)

lemma upd_stats_simps [simp]:
  "ep_sent_packets (upd_stats f e) = ep_sent_packets e" "ep_paths (upd_stats f e) = ep_paths e"
  "ep_transmission_limit (upd_stats f e) = ep_transmission_limit e"
  by (simp_all add: upd_stats_def)

lemma commit_duplication_frame [simp]:
  "ep_sent_packets (commit_duplication s e) = ep_sent_packets e" "ep_paths (commit_duplication s e) = ep_paths e"
  "ep_transmission_limit (commit_duplication s e) = ep_transmission_limit e"
  by (simp_all add: commit_duplication_def Let_def)

text \<open>The four events of one packet, each with its effect on the flight of the path.\<close>

lemma path_flight:
  "flight_of (blocked_path pn sent p) = (if accepted sent then flight_of p - sp_bytes sent else flight_of p)"
  "flight_of (accepted_path pn t sent p) = (if accepted sent then flight_of p else sat_add64 (flight_of p) (sp_bytes sent))"
  "flight_of (failed_path pn sent p) = flight_of p - sp_bytes sent"
  "flight_of (lost_path e pn sent p) = flight_of p - sp_bytes sent"
proof -
  show "flight_of (blocked_path pn sent p) = (if accepted sent then flight_of p - sp_bytes sent else flight_of p)"
    by (simp add: blocked_path_def Let_def)
  show "flight_of (accepted_path pn t sent p) = (if accepted sent then flight_of p else sat_add64 (flight_of p) (sp_bytes sent))"
    by (simp add: accepted_path_def Let_def split: option.splits) (simp add: flight_of_def)
  show "flight_of (failed_path pn sent p) = flight_of p - sp_bytes sent" by (simp add: failed_path_def)
  show "flight_of (lost_path e pn sent p) = flight_of p - sp_bytes sent"
    by (simp add: lost_path_def Let_def) (simp add: flight_of_def)
qed

lemma retain_sent_cases: "retain_sent e sent = None \<or> retain_sent e sent = Some sent"
  by (simp add: retain_sent_def)

lemma sent_flight:
  assumes "flight_inv e" "sent_lookup pn e = Some (k, sent)"
  shows "path_id sent < length (ep_paths e)" "flight_of (ep_paths e ! path_id sent) \<le> u64_max"
    "accepted sent \<Longrightarrow> \<not> lost sent \<Longrightarrow> sp_bytes sent \<le> flight_of (ep_paths e ! path_id sent)"
proof -
  note d = sent_lookupD [OF assms(2)]
  show j: "path_id sent < length (ep_paths e)" using flight_inv_path [OF assms(1) d(1,2)] .
  show "flight_of (ep_paths e ! path_id sent) \<le> u64_max" using flight_inv_at [OF assms(1) j] ..
  show "sp_bytes sent \<le> flight_of (ep_paths e ! path_id sent)" if "accepted sent" "\<not> lost sent"
    using slot_le_flight [OF d(1), of "path_id sent"] flight_inv_at [OF assms(1) j] that by (simp add: d(2))
qed

lemma blocked_flight:
  assumes "flight_inv e" "\<And>k sent. sent_lookup pn e = Some (k, sent) \<Longrightarrow> \<not> (accepted sent \<and> lost sent)"
  obtains e' r where "packet_submission_blocked pn e = Some (e', r)" "flight_inv e'"
proof (cases "sent_lookup pn e")
  case None
  then show ?thesis using assms(1) by (intro that [of e False]) (auto simp: packet_submission_blocked_def)
next
  case (Some ks)
  then obtain k sent where l: "sent_lookup pn e = Some (k, sent)" by (cases ks) auto
  note d = sent_lookupD [OF l] and f = sent_flight [OF assms(1) l]
  have nl: "accepted sent \<Longrightarrow> \<not> lost sent" using assms(2) [OF l] by blast
  show ?thesis
  proof (rule that)
    show "packet_submission_blocked pn e = Some (replace_sent k (Some (sent\<lparr>accepted := False\<rparr>)) (path_id sent)
        (blocked_path pn sent (ep_paths e ! path_id sent)) e, True)"
      using f(1) by (simp add: packet_submission_blocked_def l)
    show "flight_inv (replace_sent k (Some (sent\<lparr>accepted := False\<rparr>)) (path_id sent)
        (blocked_path pn sent (ep_paths e ! path_id sent)) e)"
      by (rule flight_inv_change [OF assms(1) d(1,2), where p = "blocked_path pn sent (ep_paths e ! path_id sent)"
            and x = "Some (sent\<lparr>accepted := False\<rparr>)"])
        (use f nl in \<open>auto simp: path_flight\<close>)
  qed
qed

lemma accepted_flight:
  assumes "flight_inv e" "\<And>k sent. sent_lookup pn e = Some (k, sent) \<Longrightarrow> \<not> accepted sent
      \<Longrightarrow> \<not> lost sent \<and> flight (path_id sent) (ep_sent_packets e) + sp_bytes sent \<le> u64_max"
  obtains e' r where "packet_submission_accepted pn t e = Some (e', r)" "flight_inv e'"
proof (cases "sent_lookup pn e")
  case None
  then show ?thesis using assms(1) by (intro that [of e False]) (auto simp: packet_submission_accepted_def)
next
  case (Some ks)
  then obtain k sent where l: "sent_lookup pn e = Some (k, sent)" by (cases ks) auto
  note d = sent_lookupD [OF l] and f = sent_flight [OF assms(1) l]
  have fit: "\<not> accepted sent \<Longrightarrow> \<not> lost sent \<and> flight_of (ep_paths e ! path_id sent) + sp_bytes sent \<le> u64_max"
    using assms(2) [OF l] flight_inv_at [OF assms(1) f(1)] by simp
  show ?thesis
  proof (rule that)
    let ?s1 = "(if accepted sent then sent else sent\<lparr>window_limited := limited_by_window
        (congestion (ep_paths e ! path_id sent)) (sp_bytes sent), accepted := True\<rparr>)\<lparr>sent_at := t, duplication_budget_committed := True\<rparr>"
    let ?e1 = "if duplication_budget_committed sent then e else commit_duplication sent e"
    show "packet_submission_accepted pn t e = Some (replace_sent k (Some ?s1) (path_id sent)
        (accepted_path pn t sent (ep_paths e ! path_id sent)) ?e1, True)"
      using f(1) by (simp add: packet_submission_accepted_def l Let_def)
    show "flight_inv (replace_sent k (Some ?s1) (path_id sent) (accepted_path pn t sent (ep_paths e ! path_id sent)) ?e1)"
      by (rule flight_inv_change [OF assms(1) d(1,2), where p = "accepted_path pn t sent (ep_paths e ! path_id sent)"
            and x = "Some ?s1"])
        (use f fit in \<open>auto simp: path_flight sat_add_def\<close>)
  qed
qed

lemma failed_flight:
  assumes "flight_inv e"
  obtains e' r where "packet_submission_failed pn e = Some (e', r)" "flight_inv e'"
proof (cases "\<exists>k sent. sent_lookup pn e = Some (k, sent) \<and> accepted sent \<and> \<not> lost sent")
  case False
  then show ?thesis using assms
    by (intro that [of e False]) (auto simp: packet_submission_failed_def split: option.splits)
next
  case True
  then obtain k sent where l: "sent_lookup pn e = Some (k, sent)" and a: "accepted sent" "\<not> lost sent" by blast
  note d = sent_lookupD [OF l] and f = sent_flight [OF assms(1) l]
  obtain e' where e': "packet_submission_failed pn e = Some (e', True)"
    using f(1) a by (simp add: packet_submission_failed_def l Let_def)
  have "flight_inv e'"
    by (rule flight_inv_change [OF assms(1) d(1,2), where x = "retain_sent e (sent\<lparr>lost := True\<rparr>)"
          and p = "failed_path pn sent (ep_paths e ! path_id sent)"])
      (use e' f a retain_sent_cases [of e "sent\<lparr>lost := True\<rparr>"] in
        \<open>auto simp: packet_submission_failed_def l Let_def path_flight split: if_splits\<close>)
  with e' show ?thesis by (rule that)
qed

lemma mark_lost_flight:
  assumes "flight_inv e"
  obtains e' r where "mark_lost pn e = Some (e', r)" "flight_inv e'"
proof (cases "\<exists>k sent. sent_lookup pn e = Some (k, sent) \<and> accepted sent \<and> \<not> lost sent")
  case False
  then show ?thesis using assms by (intro that [of e False]) (auto simp: mark_lost_def split: option.splits)
next
  case True
  then obtain k sent where l: "sent_lookup pn e = Some (k, sent)" and a: "accepted sent" "\<not> lost sent" by blast
  note d = sent_lookupD [OF l] and f = sent_flight [OF assms(1) l]
  let ?s = "sent\<lparr>lost := True, inferred_lost := True\<rparr>"
  have "mark_lost pn e = Some (replace_sent k (retain_sent e ?s) (path_id sent) (lost_path e pn sent (ep_paths e ! path_id sent)) e, True)"
    using f(1) a by (simp add: mark_lost_def l)
  moreover have "flight_inv (replace_sent k (retain_sent e ?s) (path_id sent) (lost_path e pn sent (ep_paths e ! path_id sent)) e)"
    by (rule flight_inv_change [OF assms(1) d(1,2), where p = "lost_path e pn sent (ep_paths e ! path_id sent)"
          and x = "retain_sent e ?s"])
      (use f a retain_sent_cases [of e ?s] in \<open>auto simp: path_flight\<close>)
  ultimately show ?thesis by (rule that)
qed


text \<open>The three operations on a whole path.\<close>

definition scan_effect :: "usize \<Rightarrow> SentPacket option list \<Rightarrow> SentPacket option list \<Rightarrow> loss_scan \<Rightarrow> loss_scan \<Rightarrow> bool" where
  "scan_effect i slots slots' sc sc' \<longleftrightarrow> congestion (sc_path sc') = congestion (sc_path sc)
     \<and> sc_lost_bytes sc' + flight i slots' = sc_lost_bytes sc + flight i slots
     \<and> (\<forall>j. j \<noteq> i \<longrightarrow> flight j slots' = flight j slots) \<and> (\<forall>n. list_all (slot_in n) slots' = list_all (slot_in n) slots)
     \<and> (sc_largest_lost sc' = None \<longrightarrow> sc_largest_lost sc = None \<and> sc_lost_bytes sc' = sc_lost_bytes sc)"

lemma loss_loop_flight:
  assumes "loss_loop i la pt tt clock slots sc = (slots', sc')" "sc_lost_bytes sc + flight i slots \<le> u64_max"
  shows "scan_effect i slots slots' sc sc'"
  using assms
proof (induction slots arbitrary: sc slots')
  case (Cons slot slots)
  obtain slot1 sc1 slots1 where st: "slots' = slot1 # slots1" "loss_loop i la pt tt clock slots sc1 = (slots1, sc')"
    "(slot1, sc1) = (slot, sc) \<or> (\<exists>packet by. slot = Some packet \<and> accepted packet \<and> \<not> lost packet \<and> path_id packet = i
       \<and> slot1 = Some (packet\<lparr>lost := True, inferred_lost := True\<rparr>) \<and> sc1 = loss_step by clock packet sc)"
    using Cons.prems(1) by (auto simp: Let_def split: prod.splits option.splits if_splits)
  have one: "scan_effect i [slot] [slot1] sc sc1"
    using st(3) Cons.prems(2) by (auto simp: scan_effect_def loss_step_def Let_def sat_add_def raise_to_def)
  then have "sc_lost_bytes sc1 + flight i slots \<le> u64_max" using Cons.prems(2) by (simp add: scan_effect_def)
  from Cons.IH [OF st(2) this] one show ?case by (auto simp: scan_effect_def st(1))
qed (auto simp: scan_effect_def)

lemma suspend_loop_flight:
  "suspend_loop i slots p = (slots', p') \<Longrightarrow> flight i slots \<le> flight_of p \<Longrightarrow>
     flight i slots' = 0 \<and> flight_of p' = flight_of p - flight i slots
     \<and> (\<forall>j. j \<noteq> i \<longrightarrow> flight j slots' = flight j slots) \<and> (\<forall>n. list_all (slot_in n) slots' = list_all (slot_in n) slots)"
proof (induction slots arbitrary: p slots')
  case (Cons slot slots)
  obtain slot1 p1 slots1 where st: "slots' = slot1 # slots1" "suspend_loop i slots p1 = (slots1, p')"
    and one: "slot_bytes i slot1 = 0 \<and> flight_of p1 = flight_of p - slot_bytes i slot
      \<and> (\<forall>j. j \<noteq> i \<longrightarrow> slot_bytes j slot1 = slot_bytes j slot) \<and> (\<forall>n. slot_in n slot1 = slot_in n slot)"
    using Cons.prems(1) by (auto simp: Let_def split: prod.splits option.splits if_splits)
  from Cons.IH [OF st(2)] one Cons.prems(2) show ?case by (auto simp: st(1))
qed auto

lemma list_all_map_slot: "(\<And>s. f s = None \<or> f s = s) \<Longrightarrow> list_all (slot_in n) ss \<Longrightarrow> list_all (slot_in n) (map f ss)"
  by (auto simp: list_all_iff) (metis slot_in_simps(1))

lemma flight_map_slot: "(\<And>s. slot_bytes i (f s) = slot_bytes i s) \<Longrightarrow> flight i (map f ss) = flight i ss"
  by (simp add: flight_def o_def)

text \<open>Every path, and the ledger with the same sums: only path \<open>i\<close> and its flight change.\<close>

lemma flight_inv_path_change:
  assumes "flight_inv e" "i < length (ep_paths e)" "ep_paths e' = (ep_paths e)[i := p]"
    and "ep_transmission_limit e' = ep_transmission_limit e"
    and "list_all (slot_in (length (ep_paths e))) (ep_sent_packets e')"
    and "flight_of p = flight i (ep_sent_packets e')" "flight_of p \<le> u64_max"
    and "\<And>j. j \<noteq> i \<Longrightarrow> flight j (ep_sent_packets e') = flight j (ep_sent_packets e)"
  shows "flight_inv e'"
  using assms by (auto simp: flight_inv_def nth_list_update)

lemma detect_ack_losses_eq:
  assumes "i < length (ep_paths e)"
    and "loss_loop i la (packet_reordering_threshold (ep_paths e ! i)) (loss_delay_us (ep_peer_max_ack_delay_us e) (ep_paths e ! i))
      (send_clock (ep_paths e ! i)) (ep_sent_packets e)
      \<lparr>sc_path = ep_paths e ! i, sc_stats = ep_stats e, sc_lost_bytes = 0, sc_largest_lost = None\<rparr> = (slots, sc)"
  shows "detect_ack_losses i (Some la) e = (let e1 = e\<lparr>ep_sent_packets := map (retire_lost e i) slots, ep_stats := sc_stats sc,
        ep_paths := (ep_paths e)[i := sc_path sc]\<rparr> in case sc_largest_lost sc of None \<Rightarrow> e1
      | Some ll \<Rightarrow> upd_path i (\<lambda>p. p\<lparr>congestion := on_packet_lost (sc_lost_bytes sc) ll (largest_sent_or_last e p) (congestion p)\<rparr>)
          (upd_stats (\<lambda>s. s\<lparr>ts_loss_events := sat_add64 (ts_loss_events s) 1\<rparr>) e1))"
    "ep_sent_packets (detect_ack_losses i (Some la) e) = map (retire_lost e i) slots"
proof -
  show e': "detect_ack_losses i (Some la) e = (let e1 = e\<lparr>ep_sent_packets := map (retire_lost e i) slots, ep_stats := sc_stats sc,
        ep_paths := (ep_paths e)[i := sc_path sc]\<rparr> in case sc_largest_lost sc of None \<Rightarrow> e1
      | Some ll \<Rightarrow> upd_path i (\<lambda>p. p\<lparr>congestion := on_packet_lost (sc_lost_bytes sc) ll (largest_sent_or_last e p) (congestion p)\<rparr>)
          (upd_stats (\<lambda>s. s\<lparr>ts_loss_events := sat_add64 (ts_loss_events s) 1\<rparr>) e1))"
    using assms by (simp add: detect_ack_losses_def)
  show "ep_sent_packets (detect_ack_losses i (Some la) e) = map (retire_lost e i) slots"
    by (auto simp: e' Let_def upd_path_def split: option.splits)
qed

lemma detect_ack_losses_flight:
  assumes "flight_inv e"
  shows "flight_inv (detect_ack_losses i largest e)"
proof (cases "\<exists>la. largest = Some la \<and> i < length (ep_paths e)")
  case False
  then show ?thesis using assms by (auto simp: detect_ack_losses_def path_get_def split: option.splits)
next
  case True
  then obtain la where la: "largest = Some la" and i: "i < length (ep_paths e)" by blast
  let ?p = "ep_paths e ! i" and ?sc = "\<lparr>sc_path = ep_paths e ! i, sc_stats = ep_stats e, sc_lost_bytes = 0, sc_largest_lost = None\<rparr>"
  obtain slots sc where l: "loss_loop i la (packet_reordering_threshold ?p) (loss_delay_us (ep_peer_max_ack_delay_us e) ?p)
      (send_clock ?p) (ep_sent_packets e) ?sc = (slots, sc)" by (cases "loss_loop i la (packet_reordering_threshold ?p)
      (loss_delay_us (ep_peer_max_ack_delay_us e) ?p) (send_clock ?p) (ep_sent_packets e) ?sc")
  let ?keep = "retire_lost e i"
  note f = flight_inv_at [OF assms i]
  have se: "scan_effect i (ep_sent_packets e) slots ?sc sc" using loss_loop_flight [OF l] f by simp
  have kb: "slot_bytes j (?keep s) = slot_bytes j s" "?keep s = None \<or> ?keep s = s" for j s
    by (auto simp: retire_lost_def split: option.splits)
  have kf: "flight j (map ?keep slots) = flight j slots" for j by (rule flight_map_slot) (rule kb)
  let ?c = "congestion ?p"
  note e' = detect_ack_losses_eq [OF i l, folded la]
  define p' where "p' = ep_paths (detect_ack_losses i largest e) ! i"
  have fp: "flight_of p' = flight_of ?p - sc_lost_bytes sc"
    using se i by (auto simp: p'_def e'(1) Let_def scan_effect_def upd_path_def flight_of_def split: option.splits)
  show ?thesis
  proof (rule flight_inv_path_change [OF assms i, where p = p'])
    show "ep_paths (detect_ack_losses i largest e) = (ep_paths e)[i := p']"
      using i by (auto simp: p'_def e'(1) Let_def upd_path_def split: option.splits)
    note sl = e'(2)
    show "ep_transmission_limit (detect_ack_losses i largest e) = ep_transmission_limit e"
      by (auto simp: e'(1) Let_def upd_path_def split: option.splits)
    show "list_all (slot_in (length (ep_paths e))) (ep_sent_packets (detect_ack_losses i largest e))"
      unfolding sl using assms se by (intro list_all_map_slot kb) (simp add: scan_effect_def flight_inv_def)
    show "flight_of p' = flight i (ep_sent_packets (detect_ack_losses i largest e))"
      using se f by (simp add: sl kf fp scan_effect_def) linarith
    show "flight_of p' \<le> u64_max" using fp f by linarith
    show "flight j (ep_sent_packets (detect_ack_losses i largest e)) = flight j (ep_sent_packets e)" if "j \<noteq> i" for j
      using that se by (simp add: sl kf scan_effect_def)
  qed
qed

lemma suspend_path_flight:
  assumes "flight_inv e"
  shows "flight_inv (suspend_path i e)"
proof (cases "i < length (ep_paths e)")
  case False
  then show ?thesis using assms by (simp add: suspend_path_def path_get_def)
next
  case True
  obtain slots p' where l: "suspend_loop i (ep_sent_packets e) (ep_paths e ! i) = (slots, p')"
    by (cases "suspend_loop i (ep_sent_packets e) (ep_paths e ! i)")
  note f = flight_inv_at [OF assms True]
  have sl: "flight i slots = 0" "flight_of p' = 0" "\<And>j. j \<noteq> i \<Longrightarrow> flight j slots = flight j (ep_sent_packets e)"
      "list_all (slot_in (length (ep_paths e))) slots"
    using suspend_loop_flight [OF l] f assms by (auto simp: flight_inv_def)
  show ?thesis
    by (rule flight_inv_path_change [OF assms True, where p = "mark_suspended p'"])
      (use True sl in \<open>simp_all add: suspend_path_def l\<close>)
qed


lemma nth_remove: "i < length xs \<Longrightarrow> j < length xs - 1 \<Longrightarrow>
    (take i xs @ drop (Suc i) xs) ! j = xs ! (if j < i then j else Suc j)"
  by (auto simp: nth_append min_def)

lemma remove_path_state_flight:
  assumes "flight_inv e"
  shows "flight_inv (fst (remove_path_state i e))"
proof (cases "i = 0 \<or> length (ep_paths e) \<le> i \<or> (\<exists>packet \<in> set (List.map_filter id (ep_sent_packets e)). path_id packet = i)")
  case True
  then show ?thesis using assms by (auto simp: remove_path_state_def)
next
  case False
  define shift where "shift = (\<lambda>packet :: SentPacket. if i < path_id packet then packet\<lparr>path_id := path_id packet - 1\<rparr> else packet)"
  have i: "0 < i" "i < length (ep_paths e)"
    and free: "\<And>packet. Some packet \<in> set (ep_sent_packets e) \<Longrightarrow> path_id packet \<noteq> i"
    using False by (auto simp: List.map_filter_def)
  have e': "fst (remove_path_state i e) = e\<lparr>ep_paths := take i (ep_paths e) @ drop (Suc i) (ep_paths e),
      ep_sent_packets := map (map_option shift) (ep_sent_packets e)\<rparr>"
    using False unfolding remove_path_state_def shift_def by (simp split del: if_split)
  have one: "slot_bytes j (map_option shift slot) = slot_bytes (if j < i then j else Suc j) slot"
    if "slot \<in> set (ep_sent_packets e)" for slot j
  proof (cases slot)
    case (Some a)
    with free that have "path_id a \<noteq> i" by blast
    then show ?thesis by (auto simp: Some shift_def)
  qed simp
  have fl: "flight j (map (map_option shift) (ep_sent_packets e)) = flight (if j < i then j else Suc j) (ep_sent_packets e)" for j
    unfolding flight_def using one by (simp cong: map_cong)
  have bound: "list_all (slot_in (length (ep_paths e) - 1)) (map (map_option shift) (ep_sent_packets e))"
  proof -
    have "slot_in (length (ep_paths e) - 1) (map_option shift slot)" if "slot \<in> set (ep_sent_packets e)" for slot
    proof (cases slot)
      case (Some a)
      with free that have "path_id a \<noteq> i" by blast
      moreover have "path_id a < length (ep_paths e)" using assms that Some by (auto simp: flight_inv_def list_all_iff)
      ultimately show ?thesis using i by (auto simp: Some shift_def)
    qed simp
    then show ?thesis by (simp add: list_all_iff)
  qed
  have "flight_of ((take i (ep_paths e) @ drop (Suc i) (ep_paths e)) ! j) = flight j (map (map_option shift) (ep_sent_packets e))
      \<and> flight j (map (map_option shift) (ep_sent_packets e)) \<le> u64_max" if "j < length (ep_paths e) - 1" for j
    using assms i that by (simp add: fl nth_remove flight_inv_def)
  moreover have "length (ep_paths e) - 1 \<le> MAX_PATH_STATES" using assms by (auto simp: flight_inv_def)
  ultimately show ?thesis using assms i bound by (simp add: e' flight_inv_def)
qed

lemma flight_inv_cong:
  assumes "flight_inv e" "ep_sent_packets e' = ep_sent_packets e" "map flight_of (ep_paths e') = map flight_of (ep_paths e)"
    and "ep_transmission_limit e' = ep_transmission_limit e"
  shows "flight_inv e'"
proof -
  have l: "length (ep_paths e') = length (ep_paths e)" using assms(3) by (metis length_map)
  have "flight_of (ep_paths e' ! i) = flight_of (ep_paths e ! i)" if "i < length (ep_paths e)" for i
    using assms(3) l that by (metis nth_map)
  then show ?thesis using assms l by (auto simp: flight_inv_def)
qed

lemma upd_path_flight: "flight_of (f (ep_paths e ! i)) = flight_of (ep_paths e ! i) \<Longrightarrow>
    map flight_of (ep_paths (upd_path i f e)) = map flight_of (ep_paths e)"
  unfolding upd_path_def by (simp add: map_update) (metis list_update_beyond list_update_id length_map nth_map not_less)

lemma detect_persistent_flight:
  assumes "flight_inv e"
  shows "flight_inv (detect_persistent_congestion i e)"
proof -
  have "detect_persistent_congestion i e = e \<or> (\<exists>n m. detect_persistent_congestion i e = upd_path i (\<lambda>p. p\<lparr>
      congestion := on_persistent_congestion m (congestion p), persistent_congestion_end := Some n\<rparr>) e)"
    by (auto simp: detect_persistent_congestion_def Let_def split: option.splits)
  moreover have "flight_inv (upd_path i (\<lambda>p. p\<lparr>congestion := on_persistent_congestion m (congestion p),
      persistent_congestion_end := Some n\<rparr>) e)" for n m
    by (rule flight_inv_cong [OF assms], simp add: upd_path_def, rule upd_path_flight)
      (simp_all add: flight_of_def on_persistent_congestion_def upd_path_def)
  ultimately show ?thesis using assms by metis
qed

text \<open>Which packets the scan of the ledger marks.\<close>

definition overdue :: "usize \<Rightarrow> u64 \<Rightarrow> u64 \<Rightarrow> u64 \<Rightarrow> u64 \<Rightarrow> SentPacket \<Rightarrow> bool" where
  "overdue i largest_acked packet_threshold time_threshold clock packet \<longleftrightarrow>
     accepted packet \<and> \<not> lost packet \<and> path_id packet = i \<and> send_order packet < largest_acked
     \<and> (sat_add64 (send_order packet) packet_threshold \<le> largest_acked \<or> time_threshold \<le> clock - sent_at packet)"

lemma loss_loop_slots: "fst (loss_loop i la pt tt clock slots sc) = map (map_option (\<lambda>packet.
    if overdue i la pt tt clock packet then packet\<lparr>lost := True, inferred_lost := True\<rparr> else packet)) slots"
proof (induction slots arbitrary: sc)
  case (Cons slot slots)
  show ?case
    by (cases slot) (auto simp add: Let_def case_prod_beta Cons.IH overdue_def lost_by_packets_def lost_by_time_def)
qed simp


text \<open>
  Claim C6. Loss detection marks exactly the packets it should. For the largest send order acknowledged on a path, a
  transmission still in the ledger afterwards is lost if it was lost before, or if it had been handed to the bearer
  on that path, was sent before the acknowledged one, and is overtaken by the packet threshold or has waited for the
  time threshold; and what leaves the ledger is lost and has nothing left to deliver.
\<close>

theorem loss_detection_exact:
  fixes largest :: u64
  assumes "i < length (ep_paths e)" "k < length (ep_sent_packets e)" "ep_sent_packets e ! k = Some packet"
  defines "p \<equiv> ep_paths e ! i"
  defines "late \<equiv> overdue i largest (packet_reordering_threshold p) (loss_delay_us (ep_peer_max_ack_delay_us e) p) (send_clock p) packet"
  shows "case ep_sent_packets (detect_ack_losses i (Some largest) e) ! k of
      Some packet' \<Rightarrow> lost packet' = (lost packet \<or> late) \<and> sp_packet_number packet' = sp_packet_number packet
    | None \<Rightarrow> (lost packet \<or> late) \<and> path_id packet = i \<and> data_delivered packet \<and> \<not> sent_packet_has_pending_fin e packet"
proof -
  obtain slots sc where l: "loss_loop i largest (packet_reordering_threshold p) (loss_delay_us (ep_peer_max_ack_delay_us e) p)
      (send_clock p) (ep_sent_packets e) \<lparr>sc_path = p, sc_stats = ep_stats e, sc_lost_bytes = 0, sc_largest_lost = None\<rparr>
      = (slots, sc)" by (rule prod.exhaust)
  have slots: "slots = map (map_option (\<lambda>packet. if overdue i largest (packet_reordering_threshold p)
      (loss_delay_us (ep_peer_max_ack_delay_us e) p) (send_clock p) packet
      then packet\<lparr>lost := True, inferred_lost := True\<rparr> else packet)) (ep_sent_packets e)"
    by (rule arg_cong [OF l, of fst, unfolded loss_loop_slots fst_conv, symmetric])
  have "ep_sent_packets (detect_ack_losses i (Some largest) e) = map (retire_lost e i) slots"
    using assms(1) l unfolding p_def by (rule detect_ack_losses_eq(2))
  moreover have "sent_packet_has_pending_fin e (packet\<lparr>lost := True, inferred_lost := True\<rparr>) = sent_packet_has_pending_fin e packet"
    by (simp add: sent_packet_has_pending_fin_def)
  ultimately show ?thesis using assms(2,3) unfolding late_def by (auto simp: slots retire_lost_def)
qed

text \<open>Persistent congestion as RFC 9002 states it, over the history of the path.\<close>

definition persistent_evidence :: "u64 \<Rightarrow> u32 option \<Rightarrow> CongestionHistoryPacket list \<Rightarrow> nat \<Rightarrow> nat \<Rightarrow> bool" where
  "persistent_evidence duration declared h k m \<longleftrightarrow> k < m \<and> m < length h \<and> evidence (h ! k) \<and> evidence (h ! m)
     \<and> duration < ch_sent_at (h ! m) - ch_sent_at (h ! k)
     \<and> (\<forall>packet. declared = Some packet \<longrightarrow> packet < ch_packet_number (h ! m))
     \<and> (\<forall>j < length h. ch_accepted (h ! j) \<and> \<not> ch_excluded (h ! j) \<and> ch_acked (h ! j)
          \<longrightarrow> \<not> (ch_sent_at (h ! k) < ch_sent_at (h ! j) \<and> ch_sent_at (h ! j) < ch_sent_at (h ! m)))"

lemma persistent_evidence_iff:
  "persistent_evidence D d h k m \<longleftrightarrow> k < m \<and> m < length h \<and> evidence (h ! k) \<and> ends_interval D d h (h ! k) (h ! m)"
proof -
  have "(\<exists>b \<in> set h. P b) \<longleftrightarrow> (\<exists>j < length h. P (h ! j))" for P by (metis in_set_conv_nth)
  then show ?thesis unfolding persistent_evidence_def ends_interval_def by (auto simp: not_le split: option.splits)
qed

lemma find_map_None: "find_map f xs = None \<longleftrightarrow> (\<forall>x \<in> set xs. f x = None)"
proof (cases "find (\<lambda>x. f x \<noteq> None) xs")
  case None
  then have "find_map f xs = None" unfolding find_map_def by (simp only: bind.simps)
  moreover have "\<forall>x \<in> set xs. f x = None" using None by (auto simp: find_None_iff)
  ultimately show ?thesis by simp
next
  case (Some x)
  moreover from this have "x \<in> set xs" "f x \<noteq> None" by (auto simp: find_Some_iff)
  ultimately show ?thesis by (auto simp: find_map_def)
qed

lemma find_map_Some: "find_map f xs = Some y \<Longrightarrow> \<exists>x \<in> set xs. f x = Some y"
  by (auto simp: find_map_def find_Some_iff split: bind_splits)

lemma find_drop_Some: "find P (drop n xs) = Some y \<Longrightarrow> \<exists>m. n \<le> m \<and> m < length xs \<and> P (xs ! m) \<and> y = xs ! m"
proof -
  assume "find P (drop n xs) = Some y"
  then obtain i where i: "i < length xs - n" "P (drop n xs ! i)" "y = drop n xs ! i" by (auto simp: find_Some_iff)
  then have "n \<le> n + i" "n + i < length xs" by simp_all
  with i show ?thesis by (intro exI [of _ "n + i"]) simp
qed

lemma find_drop_None: "find P (drop n xs) = None \<Longrightarrow> n \<le> m \<Longrightarrow> m < length xs \<Longrightarrow> \<not> P (xs ! m)"
proof -
  assume f: "find P (drop n xs) = None" and m: "n \<le> m" "m < length xs"
  then have "drop n xs ! (m - n) \<in> set (drop n xs)" by (intro nth_mem) simp
  with f m show ?thesis by (auto simp: find_None_iff)
qed

lemma persistent_declaration_None:
  assumes "persistent_declaration D d h = None"
  shows "\<not> persistent_evidence D d h k m"
proof
  assume "persistent_evidence D d h k m"
  then have k: "k < m" "m < length h" "evidence (h ! k)" "ends_interval D d h (h ! k) (h ! m)"
    by (simp_all add: persistent_evidence_iff)
  then have "find (ends_interval D d h (h ! k)) (drop (Suc k) h) = None"
    using assms unfolding persistent_declaration_def find_map_None by (auto dest!: bspec [of _ _ k])
  from find_drop_None [OF this, of m] k show False by simp
qed

lemma persistent_declaration_Some:
  assumes "persistent_declaration D d h = Some n"
  shows "\<exists>k m. persistent_evidence D d h k m \<and> n = ch_packet_number (h ! m)"
proof -
  from assms obtain k where k: "k < length h" "evidence (h ! k)"
      "map_option ch_packet_number (find (ends_interval D d h (h ! k)) (drop (Suc k) h)) = Some n"
    unfolding persistent_declaration_def by (drule_tac find_map_Some) (auto split: if_splits)
  then obtain y where y: "find (ends_interval D d h (h ! k)) (drop (Suc k) h) = Some y" "n = ch_packet_number y" by auto
  from find_drop_Some [OF y(1)] obtain m where "Suc k \<le> m" "m < length h" "ends_interval D d h (h ! k) (h ! m)" "y = h ! m"
    by blast
  with k y show ?thesis by (auto simp: persistent_evidence_iff Suc_le_eq)
qed


definition example_endpoint :: EndpointState where
  "example_endpoint = the (new_established 1100 Client default_limits 1200
     \<lparr>local_receive = ConnectionId 7, peer_receive = ConnectionId 9\<rparr>)"

definition example_sent :: "u32 \<Rightarrow> u64 \<Rightarrow> SentPacket" where
  "example_sent pn t = \<lparr>sp_packet_number = pn, ack_largest_received = None, path_id = 0, send_order = pn, sp_bytes = 100,
     sp_stream_id = 4, sp_offset = 0, sp_data_len = 90, sp_fin = False, priority_stream = False, path_probe = False,
     probe_idle_exempt = False, send_buffer_slot = Some 0, probe_token = None, path_status = None, rtt_eligible = True,
     logical_packet_number = pn, duplication_charge = 0, duplication_budget_committed = False, sent_at = t,
     accepted = True, window_limited = False, lost = False, inferred_lost = False, data_delivered = False\<rparr>"

definition example_flight :: EndpointState where
  "example_flight = ep_set_time 40000 (upd_path 0 (\<lambda>p. p\<lparr>congestion := (congestion p)\<lparr>bytes_in_flight := 200\<rparr>\<rparr>)
     (example_endpoint\<lparr>ep_sent_packets := [Some (example_sent 1 30000), Some (example_sent 4 39000)] @ replicate 14 None\<rparr>))"

theorem loss_detection_exact_witness:
  "map (map_option lost) (take 2 (ep_sent_packets (detect_ack_losses 0 (Some 5) example_flight))) = [Some True, Some False]
   \<and> (case ep_sent_packets (detect_ack_losses 0 (Some 5) example_flight) ! 0 of None \<Rightarrow> False | Some packet \<Rightarrow> lost packet)"
proof -
  have k: "0 < length (ep_paths example_flight)" "0 < length (ep_sent_packets example_flight)"
      "ep_sent_packets example_flight ! 0 = Some (example_sent 1 30000)" by code_simp+
  have "overdue 0 5 (packet_reordering_threshold (ep_paths example_flight ! 0))
      (loss_delay_us (ep_peer_max_ack_delay_us example_flight) (ep_paths example_flight ! 0))
      (send_clock (ep_paths example_flight ! 0)) (example_sent 1 30000)" "\<not> data_delivered (example_sent 1 30000)" by code_simp+
  moreover have "map (map_option lost) (take 2 (ep_sent_packets (detect_ack_losses 0 (Some 5) example_flight))) = [Some True, Some False]"
    by code_simp
  ultimately show ?thesis using loss_detection_exact [OF k, of 5] by (auto split: option.splits)
qed

text \<open>
  Claim C9. Persistent congestion is declared exactly on the evidence RFC 9002 asks for: two lost transmissions of the
  path that had an RTT sample and were sent further apart than three probe timeouts, with no acknowledged one sent
  between them, and the later one newer than any earlier declaration. Then the window of the path collapses to two
  packets and the later packet is remembered; otherwise nothing changes.
\<close>

theorem persistent_congestion_exact:
  assumes "i < length (ep_paths e)" "latest_rtt (rtt (ep_paths e ! i)) \<noteq> None"
  shows "let p = ep_paths e ! i;
             duration = sat_mul64 (sat_add64 (rtt_pto (rtt p)) (ep_peer_max_ack_delay_us e)) 3;
             evident = persistent_evidence duration (persistent_congestion_end p) (congestion_history p)
         in (if \<exists>k m. evident k m
             then \<exists>k m. evident k m \<and> detect_persistent_congestion i e = upd_path i (\<lambda>p. p\<lparr>
               congestion := (congestion p)\<lparr>congestion_window := wrap_mul u64_max 2 (max_packet_size (congestion p)),
                 recovery_start_packet := Some (ep_next_packet_number e - 1)\<rparr>,
               persistent_congestion_end := Some (ch_packet_number (congestion_history p ! m))\<rparr>) e
             else detect_persistent_congestion i e = e)"
proof -
  let ?p = "ep_paths e ! i"
  let ?D = "sat_mul64 (sat_add64 (rtt_pto (rtt ?p)) (ep_peer_max_ack_delay_us e)) 3"
  let ?ev = "persistent_evidence ?D (persistent_congestion_end ?p) (congestion_history ?p)"
  show ?thesis
  proof (cases "persistent_declaration ?D (persistent_congestion_end ?p) (congestion_history ?p)")
    case None
    then have "\<nexists>k m. ?ev k m" using persistent_declaration_None by blast
    moreover have "detect_persistent_congestion i e = e"
      using assms None by (simp add: detect_persistent_congestion_def Let_def)
    ultimately show ?thesis by (simp add: Let_def)
  next
    case (Some n)
    from persistent_declaration_Some [OF Some] obtain k m where km: "?ev k m" "n = ch_packet_number (congestion_history ?p ! m)"
      by blast
    have "detect_persistent_congestion i e = upd_path i (\<lambda>p. p\<lparr>congestion := on_persistent_congestion
        (ep_next_packet_number e - 1) (congestion p), persistent_congestion_end := Some n\<rparr>) e"
      using assms Some by (auto simp: detect_persistent_congestion_def Let_def)
    with km show ?thesis by (auto simp: Let_def upd_path_def on_persistent_congestion_def)
  qed
qed

definition example_event :: "u32 \<Rightarrow> u64 \<Rightarrow> bool \<Rightarrow> CongestionHistoryPacket" where
  "example_event pn t gone = \<lparr>ch_packet_number = pn, ch_sent_at = t, ch_accepted = True, ch_acked = \<not> gone, ch_lost = gone,
     ch_had_rtt_sample = True, ch_excluded = False\<rparr>"

definition example_outage :: EndpointState where
  "example_outage = upd_path 0 (\<lambda>p. p\<lparr>rtt := rtt_update_at 10000 1000 (rtt p),
     congestion_history := [example_event 1 1000 False, example_event 2 2000 True, example_event 3 900000 True]\<rparr>)
     (example_endpoint\<lparr>ep_next_packet_number := 4\<rparr>)"

theorem persistent_congestion_exact_witness:
  "detect_persistent_congestion 0 example_outage \<noteq> example_outage
   \<and> map persistent_congestion_end (ep_paths (detect_persistent_congestion 0 example_outage)) = [Some 3]"
proof -
  have a: "0 < length (ep_paths example_outage)" "latest_rtt (rtt (ep_paths example_outage ! 0)) \<noteq> None" by code_simp+
  have m: "map persistent_congestion_end (ep_paths (detect_persistent_congestion 0 example_outage)) = [Some 3]" by code_simp
  have n: "map persistent_congestion_end (ep_paths example_outage) = [None]" by code_simp
  have "detect_persistent_congestion 0 example_outage \<noteq> example_outage" using m n by auto
  then show ?thesis using persistent_congestion_exact [OF a] m by (auto simp: Let_def)
qed


text \<open>
  A packet that the bearer refused is meant to stop being the largest sent one. Its own event is still marked as
  accepted when the search for the next candidate runs, and the search finds it again.
\<close>

theorem blocked_packet_stays_largest:
  assumes "largest_sent_packet p = Some pn" "congestion_history p = events @ [event]"
    and "ch_packet_number event = pn" "ch_accepted event"
  shows "largest_sent_packet (blocked_path pn sent p) = Some pn"
  using assms by (simp add: blocked_path_def upd_event_def Let_def)

end
