(* ===== verification/Endpoint_Control.thy ===== *)
theory Endpoint_Control
  imports Endpoint_Ledger
begin

text \<open>
  The control output of an association endpoint: which acknowledgement, credit and policy frames are due, their
  encoding into a packet of their own or behind stream data, and what sending them commits.
\<close>

section \<open>Control frames\<close>

text \<open>\<open>ec_bytes\<close> are the bytes written, the source keeps their number \<^verbatim>\<open>used\<close>.\<close>

record EncodedControlFrames =
  ec_bytes :: "u8 list"
  ec_ack :: bool
  ec_credit :: bool
  ec_credit_stream_count :: usize
  ec_credit_max_streams_bidi :: bool
  ec_ack_frequency :: bool
  ec_immediate_ack :: bool
  ec_ack_threshold_due :: bool
  ec_ack_timer_due :: bool

definition no_room :: "error \<Rightarrow> bool" where
  "no_room err \<longleftrightarrow> err = Truncated \<or> err = BufferTooSmall"

definition put_control :: "Frame \<Rightarrow> nat \<Rightarrow> EncodedControlFrames \<Rightarrow> EncodedControlFrames result" where
  "put_control frame cap c = bindE (frame_encode frame (cap - length (ec_bytes c))) (\<lambda>b. Inr (c\<lparr>ec_bytes := ec_bytes c @ b\<rparr>))"

text \<open>The loop over the streams that await credit; it stops where the buffer ends.\<close>

fun put_stream_credit :: "EndpointState \<Rightarrow> nat \<Rightarrow> u64 list \<Rightarrow> EncodedControlFrames \<Rightarrow> EncodedControlFrames result" where
  "put_stream_credit e cap [] c = Inr c"
| "put_stream_credit e cap (i # ids) c =
     (let m = (case stream_max_data (ep_receive e) i of None \<Rightarrow> lim_max_stream_data (cs_limits (ep_receive e)) | Some m \<Rightarrow> m)
      in case put_control (MaxStreamData i m) cap c of
           Inr c' \<Rightarrow> put_stream_credit e cap ids (c'\<lparr>ec_credit_stream_count := ec_credit_stream_count c' + 1\<rparr>)
         | Inl err \<Rightarrow> if no_room err then Inr c else Inl err)"

text \<open>The \<^verbatim>\<open>if send_credit\<close> block; the flag is its early return in piggyback mode.\<close>

definition put_credit :: "EndpointState \<Rightarrow> nat \<Rightarrow> bool \<Rightarrow> EncodedControlFrames \<Rightarrow> (EncodedControlFrames \<times> bool) result" where
  "put_credit e cap piggyback c =
     (case put_control (MaxData (fc_max_data (cs_connection (ep_receive e)))) cap c of
        Inl err \<Rightarrow> if no_room err \<and> piggyback then Inr (c, True) else Inl err
      | Inr c1 \<Rightarrow>
          let stream_limit = (if ep_credit_packet_number e \<noteq> None \<and> \<not> ep_credit_dirty e
                then min (ep_credit_inflight_stream_count e) (length (ep_pending_stream_ids e))
                else length (ep_pending_stream_ids e))
          in bindE (put_stream_credit e cap (take stream_limit (ep_pending_stream_ids e)) (c1\<lparr>ec_credit := True\<rparr>)) (\<lambda>c2.
             if \<not> ep_max_streams_bidi_pending e then Inr (c2, False)
             else (case put_control (MaxStreamsBidi (max_streams_bidi (cs_limits (ep_receive e)))) cap c2 of
                 Inr c3 \<Rightarrow> Inr (c3\<lparr>ec_credit_max_streams_bidi := True\<rparr>, False)
               | Inl err \<Rightarrow> if no_room err then Inr (c2, False) else Inl err)))"

text \<open>The \<^verbatim>\<open>if send_ack\<close> block; \<open>None\<close> is its \<^verbatim>\<open>return Ok(None)\<close>.\<close>

definition put_pending_ack :: "EndpointState \<Rightarrow> PathState \<Rightarrow> nat \<Rightarrow> bool \<Rightarrow> bool \<Rightarrow> EncodedControlFrames
    \<Rightarrow> (EncodedControlFrames \<times> bool) option result" where
  "put_pending_ack e path cap piggyback send_credit c =
     bindE (ok_or Invalid (largest_received e)) (\<lambda>largest.
     let delay = min (send_clock path - largest_received_at path) (ep_max_ack_delay_us e)
     in case put_control (AckRangesF largest delay (ep_received_packets e)) cap c of
          Inl err \<Rightarrow> if no_room err \<and> piggyback then Inr None else Inl err
        | Inr c1 \<Rightarrow>
            if send_credit then bindE (put_credit e cap piggyback (c1\<lparr>ec_ack := True\<rparr>)) (\<lambda>r. Inr (Some r))
            else Inr (Some (c1\<lparr>ec_ack := True\<rparr>, False)))"

definition put_ack_frequency :: "(u64 \<times> u64 \<times> u64 \<times> u64) option \<Rightarrow> nat \<Rightarrow> bool \<Rightarrow> EncodedControlFrames \<Rightarrow> EncodedControlFrames result" where
  "put_ack_frequency request cap piggyback c = (case request of
     None \<Rightarrow> Inr c
   | Some (seq, threshold, delay, reordering) \<Rightarrow>
       (case put_control (AckFrequency seq threshold delay reordering) cap c of
          Inr c1 \<Rightarrow> Inr (c1\<lparr>ec_ack_frequency := True\<rparr>)
        | Inl err \<Rightarrow> if no_room err \<and> piggyback then Inr c else Inl err))"

definition credit_retry_due :: "EndpointState \<Rightarrow> usize \<Rightarrow> PathState \<Rightarrow> bool" where
  "credit_retry_due e i path \<longleftrightarrow> i = 0 \<and> ep_credit_pending e \<and> credit_interval e \<le> send_clock path - ep_last_ack_time e"

definition credit_to_send :: "EndpointState \<Rightarrow> usize \<Rightarrow> PathState \<Rightarrow> bool" where
  "credit_to_send e i path \<longleftrightarrow> ep_credit_pending e
     \<and> (ep_credit_packet_number e = None \<or> ep_credit_dirty e \<or> credit_retry_due e i path)"

definition write_control :: "EndpointState \<Rightarrow> PathState \<Rightarrow> nat \<Rightarrow> bool \<Rightarrow> bool \<Rightarrow> bool \<Rightarrow> (u64 \<times> u64 \<times> u64 \<times> u64) option
    \<Rightarrow> EncodedControlFrames \<Rightarrow> EncodedControlFrames option result" where
  "write_control e path cap piggyback send_ack send_credit request control =
     bindE (if send_ack then put_pending_ack e path cap piggyback send_credit control else Inr (Some (control, False))) (\<lambda>r.
       case r of
         None \<Rightarrow> Inr None
       | Some (c, stop) \<Rightarrow>
           if stop then Inr (Some c)
           else bindE (put_ack_frequency request cap piggyback c) (\<lambda>c1. Inr (if ec_bytes c1 = [] then None else Some c1)))"

definition ack_threshold_due :: "EndpointState \<Rightarrow> PathState \<Rightarrow> bool" where
  "ack_threshold_due e path \<longleftrightarrow> ack_pending path \<and> ep_ack_frequency e \<le> ack_packets path"

definition ack_timer_due :: "EndpointState \<Rightarrow> PathState \<Rightarrow> bool" where
  "ack_timer_due e path \<longleftrightarrow> ack_pending path \<and> ep_max_ack_delay_us e \<le> send_clock path - ack_started_at path"

definition ack_to_send :: "EndpointState \<Rightarrow> usize \<Rightarrow> PathState \<Rightarrow> bool \<Rightarrow> bool" where
  "ack_to_send e i path piggyback \<longleftrightarrow> ep_control_pending e \<or> ack_immediate path \<or> ack_threshold_due e path
     \<or> ack_timer_due e path \<or> credit_retry_due e i path \<or> piggyback \<and> (ack_pending path \<or> credit_to_send e i path)"

definition blank_control :: "EndpointState \<Rightarrow> usize \<Rightarrow> PathState \<Rightarrow> EncodedControlFrames" where
  "blank_control e i path =
     \<lparr>ec_bytes = [], ec_ack = False, ec_credit = False, ec_credit_stream_count = 0, ec_credit_max_streams_bidi = False,
      ec_ack_frequency = False, ec_immediate_ack = (i = 0 \<and> ep_control_pending e \<or> ack_immediate path),
      ec_ack_threshold_due = ack_threshold_due e path, ec_ack_timer_due = ack_timer_due e path\<rparr>"

definition encode_control_frames_on_path :: "EndpointState \<Rightarrow> usize \<Rightarrow> nat \<Rightarrow> bool \<Rightarrow> EncodedControlFrames option result" where
  "encode_control_frames_on_path e i cap piggyback = (case path_get e i of
     None \<Rightarrow> Inl Invalid
   | Some path \<Rightarrow>
       if piggyback \<and> i \<noteq> (case pending_control_path e of Some j \<Rightarrow> j | None \<Rightarrow> pending_receive_ack_path e) then Inr None
       else
         let send_ack = ack_to_send e i path piggyback;
             request = (if i = 0 then ep_pending_ack_frequency e else None)
         in if \<not> send_ack \<and> request = None then Inr None
            else write_control e path cap piggyback send_ack (credit_to_send e i path) request (blank_control e i path))"

text \<open>Callers have checked the path index.\<close>

definition commit_ack :: "usize \<Rightarrow> u32 \<Rightarrow> EncodedControlFrames \<Rightarrow> EndpointState \<Rightarrow> EndpointState" where
  "commit_ack i pn c e =
     (let clock = send_clock (ep_paths e ! i);
          e1 = refresh_ack_summary (upd_path i (\<lambda>p. p\<lparr>ack_pending := False, ack_packets := 0, ack_immediate := False\<rparr>)
                 (e\<lparr>ep_control_pending := False\<rparr>));
          e2 = (if ec_credit c \<or> ep_credit_packet_number e1 = None then e1\<lparr>ep_last_ack_time := clock\<rparr> else e1);
          retrying = (ep_credit_packet_number e2 \<noteq> None \<and> \<not> ep_credit_dirty e2);
          e3 = (if ec_credit c
                then e2\<lparr>ep_credit_packet_number := Some pn, ep_credit_inflight_stream_count := ec_credit_stream_count c,
                        ep_credit_inflight_max_streams_bidi := ec_credit_max_streams_bidi c, ep_credit_dirty := False,
                        ep_credit_retry_backoff := (if retrying
                          then min (sat_add8 (ep_credit_retry_backoff e2) 1) MAX_PTO_BACKOFF_EXPONENT else 0)\<rparr>
                else e2)
      in upd_stats (\<lambda>s.
           let s1 = s\<lparr>ts_ack_packets := wrap_add64 (ts_ack_packets s) 1\<rparr> in
           if ec_immediate_ack c then s1\<lparr>ts_ack_immediate_packets := wrap_add64 (ts_ack_immediate_packets s1) 1\<rparr>
           else if ec_ack_threshold_due c then s1\<lparr>ts_ack_threshold_packets := wrap_add64 (ts_ack_threshold_packets s1) 1\<rparr>
           else if ec_ack_timer_due c then s1\<lparr>ts_ack_timer_packets := wrap_add64 (ts_ack_timer_packets s1) 1\<rparr>
           else s1) e3)"

definition commit_control_frames :: "usize \<Rightarrow> u32 \<Rightarrow> EncodedControlFrames \<Rightarrow> EndpointState \<Rightarrow> EndpointState" where
  "commit_control_frames i pn c e =
     (let e1 = (if ec_ack c then commit_ack i pn c e else e)
      in if ec_ack_frequency c
         then upd_stats (\<lambda>s. s\<lparr>ts_ack_frequency_sent := sat_add64 (ts_ack_frequency_sent s) 1\<rparr>) (e1\<lparr>ep_pending_ack_frequency := None\<rparr>)
         else e1)"

section \<open>Packets without stream data\<close>

definition short_header :: "ConnectionId \<Rightarrow> u32 \<Rightarrow> nat \<Rightarrow> ShortHeader" where
  "short_header dcid pn pn_len = \<lparr>sh_flags = FLAG_FIXED, sh_dcid = dcid, sh_packet_number = pn, sh_packet_number_len = pn_len\<rparr>"

definition count_sent_control :: "EndpointState \<Rightarrow> EndpointState" where
  "count_sent_control = upd_stats (\<lambda>s. s\<lparr>ts_sent_packets := wrap_add64 (ts_sent_packets s) 1,
     ts_sent_control_packets := wrap_add64 (ts_sent_control_packets s) 1\<rparr>)"

definition poll_transmit_on_path :: "usize \<Rightarrow> nat \<Rightarrow> EndpointState \<Rightarrow> EndpointState \<times> u8 list option result" where
  "poll_transmit_on_path i cap e =
     (if length (ep_paths e) \<le> i then (e, Inl Invalid)
      else if pending_control_path e = None then (e, Inr None)
      else (case (bindE (ok_or WrongConnectionId (peer_connection_id_on_path e i)) (\<lambda>dcid.
             bindE (short_encode False (short_header dcid (ep_next_packet_number e) (next_packet_number_len e)) cap) (\<lambda>h.
             if cap < length h then Inl BufferTooSmall
             else bindE (encode_control_frames_on_path e i (cap - length h) False) (\<lambda>control.
               case control of
                 None \<Rightarrow> Inr None
               | Some c \<Rightarrow> bindE (ok_or PacketNumberExhausted (checked_add u32_max (ep_next_packet_number e) 1)) (\<lambda>next.
                   Inr (Some (h, c, next))))))) of
          Inl err \<Rightarrow> (e, Inl err)
        | Inr None \<Rightarrow> (e, Inr None)
        | Inr (Some (h, c, next)) \<Rightarrow>
            ((count_sent_control (commit_control_frames i (ep_next_packet_number e) c e))\<lparr>ep_next_packet_number := next\<rparr>,
             Inr (Some (h @ ec_bytes c)))))"

definition poll_close :: "nat \<Rightarrow> EndpointState \<Rightarrow> EndpointState \<times> u8 list option result" where
  "poll_close cap e = (case ep_close_code e of
     None \<Rightarrow> (e, Inr None)
   | Some code \<Rightarrow> (case (bindE (ok_or WrongConnectionId (peer_connection_id_on_path e 0)) (\<lambda>dcid.
          bindE (short_encode False (short_header dcid (ep_next_packet_number e) (next_packet_number_len e)) cap) (\<lambda>h.
          bindE (frame_encode (Close code) (cap - length h)) (\<lambda>b.
          bindE (ok_or PacketNumberExhausted (checked_add u32_max (ep_next_packet_number e) 1)) (\<lambda>next.
            Inr (h @ b, next)))))) of
        Inl err \<Rightarrow> (e, Inl err)
      | Inr (bytes, next) \<Rightarrow> (e\<lparr>ep_next_packet_number := next\<rparr>, Inr (Some bytes))))"

definition encode_probe_packet :: "ConnectionId \<Rightarrow> nat \<Rightarrow> EndpointState \<Rightarrow> EndpointState \<times> (u8 list \<times> u32) result" where
  "encode_probe_packet dcid cap e =
     (if (case ep_peer_cid e of None \<Rightarrow> False | Some peer \<Rightarrow> peer \<noteq> dcid) then (e, Inl WrongConnectionId)
      else
        let pn = ep_next_packet_number e in
        (case (bindE (short_encode False (short_header dcid pn (packet_number_len pn (largest_received e))) cap) (\<lambda>h.
              bindE (frame_encode Ping (cap - length h)) (\<lambda>b.
              bindE (ok_or PacketNumberExhausted (checked_add u32_max pn 1)) (\<lambda>next. Inr (h @ b, next))))) of
            Inl err \<Rightarrow> (e, Inl err)
          | Inr (bytes, next) \<Rightarrow> (e\<lparr>ep_next_packet_number := next\<rparr>, Inr (bytes, pn))))"

end
