(* ===== verification/Endpoint_Send.thy ===== *)
theory Endpoint_Send
  imports Endpoint_Control
begin

text \<open>
  The packets an association endpoint sends that stay in its ledger: path control packets, stream packets
  with the control frames that ride along, copies of stream packets (retransmissions, probes and budgeted
  duplicates) and copies of credit updates. The accounting of bytes in flight holds through all of them.
\<close>

section \<open>Transmission records\<close>

definition free_slot :: "usize \<Rightarrow> 'a option list \<Rightarrow> usize option" where
  "free_slot limit slots = position (\<lambda>slot. slot = None) (take limit slots)"

text \<open>The fields every new record starts from.\<close>

definition new_sent :: "u32 \<Rightarrow> usize \<Rightarrow> u64 \<Rightarrow> u64 \<Rightarrow> u64 \<Rightarrow> bool \<Rightarrow> SentPacket" where
  "new_sent pn i order n at limited =
     \<lparr>sp_packet_number = pn, ack_largest_received = None, path_id = i, send_order = order, sp_bytes = n,
      sp_stream_id = 0, sp_offset = 0, sp_data_len = 0, sp_fin = False, priority_stream = False, path_probe = False,
      probe_idle_exempt = False, send_buffer_slot = None, probe_token = None, path_status = None,
      rtt_eligible = False, logical_packet_number = pn, duplication_charge = 0,
      duplication_budget_committed = False, sent_at = at, accepted = True, window_limited = limited, lost = False,
      inferred_lost = False, data_delivered = True\<rparr>"

definition put_sent :: "usize \<Rightarrow> SentPacket \<Rightarrow> EndpointState \<Rightarrow> EndpointState" where
  "put_sent slot sent e = e\<lparr>ep_sent_packets := (ep_sent_packets e)[slot := Some sent]\<rparr>"

section \<open>Path control packets\<close>

definition is_path_control_frame :: "Frame \<Rightarrow> bool" where
  "is_path_control_frame frame = (case frame of
     PathJoin _ _ _ _ \<Rightarrow> True | PathJoinAck _ _ _ \<Rightarrow> True | PathChallenge _ \<Rightarrow> True | PathResponse _ \<Rightarrow> True
   | PathStatus _ _ _ \<Rightarrow> True | Ping \<Rightarrow> True | _ \<Rightarrow> False)"

definition is_challenge :: "Frame \<Rightarrow> bool" where
  "is_challenge frame = (case frame of PathChallenge _ \<Rightarrow> True | _ \<Rightarrow> False)"

definition is_probe_frame :: "Frame \<Rightarrow> bool" where
  "is_probe_frame frame = (case frame of PathChallenge _ \<Rightarrow> True | PathResponse _ \<Rightarrow> True | _ \<Rightarrow> False)"

definition is_tracked :: "Frame \<Rightarrow> bool" where
  "is_tracked frame = (case frame of
     PathChallenge _ \<Rightarrow> True | PathResponse _ \<Rightarrow> True | PathStatus _ _ _ \<Rightarrow> True | Ping \<Rightarrow> True | _ \<Rightarrow> False)"

definition pacing_exempt :: "Frame \<Rightarrow> bool" where
  "pacing_exempt frame = (is_probe_frame frame \<or> (case frame of Ping \<Rightarrow> True | PathStatus _ _ _ \<Rightarrow> True | _ \<Rightarrow> False))"

text \<open>Send order, pacing and flight of one tracked control packet, in the order the source takes them.\<close>

definition reserve_control :: "bool \<Rightarrow> bool \<Rightarrow> u64 \<Rightarrow> PathState \<Rightarrow> PathState \<times> u64 result" where
  "reserve_control pto exempt n p = (case assign_send_order p of
     (p1, Inl err) \<Rightarrow> (p1, Inl err)
   | (p1, Inr order) \<Rightarrow>
       let (p2, paced) = (if exempt then (p1, True) else try_reserve_pacing n (send_clock p1) p1) in
       if \<not> paced then (p2, Inl Blocked)
       else if pto then (p2\<lparr>congestion := on_retransmission_sent n (congestion p2)\<rparr>, Inr order)
       else (case on_packet_sent n (congestion p2) of
          (c, sent) \<Rightarrow> (p2\<lparr>congestion := c\<rparr>, if sent then Inr order else Inl Blocked)))"

definition control_slot :: "bool \<Rightarrow> u64 \<Rightarrow> PathState \<Rightarrow> EndpointState \<Rightarrow> usize result" where
  "control_slot pto n p e =
     (if \<not> pto \<and> ep_peer_max_in_flight_packets e \<le> in_flight_packet_count e then Inl Blocked
      else bindE (ok_or HistoryFull (free_slot (ep_transmission_limit e) (ep_sent_packets e))) (\<lambda>slot.
        if \<not> pto \<and> \<not> cc_can_send (congestion p) n then Inl Blocked else Inr slot))"

definition control_bytes :: "ConnectionId \<Rightarrow> Frame \<Rightarrow> nat \<Rightarrow> EndpointState \<Rightarrow> u8 list result" where
  "control_bytes destination frame cap e =
     bindE (short_encode False (short_header destination (ep_next_packet_number e) 4) cap) (\<lambda>h.
     bindE (frame_encode frame (cap - length h)) (\<lambda>b. Inr (h @ b)))"

text \<open>A challenge is padded to the packet size; \<open>None\<close> is the panic of the slice when it is already longer.\<close>

definition pad_challenge :: "Frame \<Rightarrow> u64 \<Rightarrow> nat \<Rightarrow> u8 list \<Rightarrow> u8 list option" where
  "pad_challenge frame max_packet cap bytes =
     (if \<not> is_challenge frame then Some bytes
      else let target = min max_packet cap in
        if target < length bytes then None else Some (bytes @ replicate (target - length bytes) 0))"

text \<open>What the whole packet does to the state once nothing can refuse it any more.\<close>

definition account_probe :: "usize \<Rightarrow> bool \<Rightarrow> u64 \<Rightarrow> u64 \<Rightarrow> EndpointState \<Rightarrow> EndpointState" where
  "account_probe i probe n charge e =
     (let e1 = e\<lparr>ep_duplication_reserved_bytes := sat_add64 (ep_duplication_reserved_bytes e) charge,
                 ep_next_packet_number := ep_next_packet_number e + 1\<rparr>
      in if probe then upd_path i (\<lambda>p. p\<lparr>probe_bytes_prepared := sat_add64 (probe_bytes_prepared p) n\<rparr>) e1 else e1)"

definition control_record :: "usize \<Rightarrow> Frame \<Rightarrow> u64 \<Rightarrow> u64 \<Rightarrow> bool \<Rightarrow> u64 \<Rightarrow> EndpointState \<Rightarrow> SentPacket" where
  "control_record i frame n charge limited order e =
     (new_sent (ep_next_packet_number e) i order n (send_clock (ep_paths e ! i)) limited)\<lparr>
       path_probe := is_probe_frame frame, probe_idle_exempt := (is_probe_frame frame \<and> charge = 0),
       probe_token := (case frame of PathChallenge token \<Rightarrow> Some token | _ \<Rightarrow> None),
       path_status := (case frame of PathStatus key seq _ \<Rightarrow> Some (key, seq) | _ \<Rightarrow> None),
       rtt_eligible := (frame = Ping), duplication_charge := charge\<rparr>"

definition announce_status :: "usize \<Rightarrow> Frame \<Rightarrow> EndpointState \<Rightarrow> EndpointState" where
  "announce_status i frame e = (case frame of
     PathStatus key seq _ \<Rightarrow> (case position (\<lambda>p. circuit_key p = Some key) (ep_paths e) of
         None \<Rightarrow> e
       | Some j \<Rightarrow> upd_path j (status_sent seq (sat_add64 (send_clock (ep_paths e ! i)) (pto_timeout_for_path e i))) e)
   | _ \<Rightarrow> e)"

definition count_sent_saturating :: "EndpointState \<Rightarrow> EndpointState" where
  "count_sent_saturating = upd_stats (\<lambda>s. s\<lparr>ts_sent_packets := sat_add64 (ts_sent_packets s) 1,
     ts_sent_control_packets := sat_add64 (ts_sent_control_packets s) 1\<rparr>)"

definition commit_path_control :: "usize \<Rightarrow> Frame \<Rightarrow> u64 \<Rightarrow> bool \<Rightarrow> (usize \<times> u64) option \<Rightarrow> EndpointState \<Rightarrow> EndpointState option" where
  "commit_path_control i frame n limited tracked e =
     (let charge = (if is_probe_frame frame \<and> n \<le> duplication_budget_available e then n else 0);
          e1 = account_probe i (is_probe_frame frame) n charge e
      in map_option (\<lambda>e2. count_sent_saturating (announce_status i frame e2))
           (case tracked of
              None \<Rightarrow> Some e1
            | Some (slot, order) \<Rightarrow>
                record_congestion_packet i (ep_next_packet_number e) (send_clock (ep_paths e ! i)) n False False
                  (put_sent slot (control_record i frame n charge limited order e) e1)))"

definition send_path_control :: "usize \<Rightarrow> Frame \<Rightarrow> u8 list \<Rightarrow> bool \<Rightarrow> EndpointState \<Rightarrow> (EndpointState \<times> u8 list result) option" where
  "send_path_control i frame bytes pto e =
     (let n = length bytes; p = ep_paths e ! i in
      if checked_add u32_max (ep_next_packet_number e) 1 = None then Some (e, Inl PacketNumberExhausted)
      else if \<not> is_tracked frame
      then map_option (\<lambda>e1. (e1, Inr bytes)) (commit_path_control i frame n False None e)
      else (case control_slot pto n p e of
        Inl err \<Rightarrow> Some (e, Inl err)
      | Inr slot \<Rightarrow> (case reserve_control pto (pacing_exempt frame) n p of
          (p1, Inl err) \<Rightarrow> Some (upd_path i (\<lambda>_. p1) e, Inl err)
        | (p1, Inr order) \<Rightarrow>
            map_option (\<lambda>e1. (e1, Inr bytes)) (commit_path_control i frame n (limited_by_window (congestion p) n)
              (Some (slot, order)) (upd_path i (\<lambda>_. p1) e)))))"

definition encode_path_control_packet_inner :: "usize \<Rightarrow> ConnectionId \<Rightarrow> Frame \<Rightarrow> nat \<Rightarrow> bool \<Rightarrow> EndpointState
    \<Rightarrow> (EndpointState \<times> u8 list result) option" where
  "encode_path_control_packet_inner i destination frame cap pto e =
     (if length (ep_paths e) \<le> i \<or> cid_value destination = 0 \<or> \<not> is_path_control_frame frame then Some (e, Inl Invalid)
      else (case control_bytes destination frame cap e of
        Inl err \<Rightarrow> Some (e, Inl err)
      | Inr bytes0 \<Rightarrow> Option.bind (pad_challenge frame (max_packet_size (congestion (ep_paths e ! i))) cap bytes0)
          (\<lambda>bytes. send_path_control i frame bytes pto e)))"

section \<open>Stream packets\<close>

definition stream_bytes :: "ConnectionId \<Rightarrow> StreamFrame \<Rightarrow> nat \<Rightarrow> EndpointState \<Rightarrow> u8 list result" where
  "stream_bytes dcid frame cap e =
     bindE (short_encode False (short_header dcid (ep_next_packet_number e) (next_packet_number_len e)) cap) (\<lambda>h.
     if cap < length h then Inl BufferTooSmall
     else bindE (encode_stream_prefix frame (cap - length h)) (\<lambda>prefix.
       bindE (ok_or BufferTooSmall (checked_add u64_max (length h + length prefix) (length (sf_data frame)))) (\<lambda>end'.
       if cap < end' then Inl BufferTooSmall else Inr (h @ prefix @ sf_data frame))))"

definition new_range :: "StreamFrame \<Rightarrow> u32 \<Rightarrow> bool \<Rightarrow> RetainedSendRange" where
  "new_range frame pn retain =
     \<lparr>rs_stream_id = sf_id frame, rs_offset = sf_offset frame, rs_data_len = length (sf_data frame), rs_fin = sf_fin frame,
      payload = (if retain then Some (sf_data frame) else None), pool_payload = None, payload_start = 0,
      payload_end = length (sf_data frame), acknowledged = replicate (div_ceil (length (sf_data frame)) 64) 0,
      fin_acked = False, rs_logical_packet_number = pn,
      prior_packets = replicate 16 \<lparr>pl_packet_number = 0, pl_offset = 0, pl_data_len = 0, pl_fin = False\<rparr>,
      prior_packet_count = 0\<rparr>"

text \<open>The last part of \<open>encode_stream_packet_on_path_inner\<close>, after the send credit is reserved.\<close>

definition stream_record :: "usize \<Rightarrow> StreamFrame \<Rightarrow> usize \<Rightarrow> u64 \<Rightarrow> u64 \<Rightarrow> u64 \<Rightarrow> bool \<Rightarrow> EncodedControlFrames option \<Rightarrow> EndpointState \<Rightarrow> SentPacket" where
  "stream_record i frame range_slot n order at limited control e =
     (new_sent (ep_next_packet_number e) i order n at limited)\<lparr>
       ack_largest_received := (case control of Some ctl \<Rightarrow> if ec_ack ctl then largest_received e else None | None \<Rightarrow> None),
       sp_stream_id := sf_id frame, sp_offset := sf_offset frame, sp_data_len := length (sf_data frame),
       sp_fin := sf_fin frame, send_buffer_slot := Some range_slot, rtt_eligible := True, data_delivered := False\<rparr>"

definition count_sent_stream :: "EndpointState \<Rightarrow> EndpointState" where
  "count_sent_stream = upd_stats (\<lambda>s. s\<lparr>ts_sent_packets := wrap_add64 (ts_sent_packets s) 1,
     ts_sent_stream_packets := wrap_add64 (ts_sent_stream_packets s) 1\<rparr>)"

definition finish_stream_send :: "usize \<Rightarrow> StreamFrame \<Rightarrow> u32 \<Rightarrow> EncodedControlFrames option \<Rightarrow> EndpointState \<Rightarrow> EndpointState \<times> u32 result" where
  "finish_stream_send i frame pn control e =
     (case (if sf_fin frame then finish_stream (sf_id frame) (ep_send e) else Inr (ep_send e)) of
        Inl err \<Rightarrow> (e, Inl err)
      | Inr f \<Rightarrow>
          let e1 = e\<lparr>ep_send := f\<rparr>;
              e2 = (case control of None \<Rightarrow> e1 | Some ctl \<Rightarrow> commit_control_frames i pn ctl e1)
          in (count_sent_stream e2, Inr pn))"

definition commit_stream :: "usize \<Rightarrow> StreamFrame \<Rightarrow> usize \<Rightarrow> usize \<Rightarrow> u64 \<Rightarrow> bool \<Rightarrow> EncodedControlFrames option \<Rightarrow> EndpointState
    \<Rightarrow> (EndpointState \<times> u32 result) option" where
  "commit_stream i frame range_slot transmission_slot n retain control e =
     (let p = ep_paths e ! i; limited = limited_by_window (congestion p) n in
      case on_packet_sent n (congestion p) of
        (c, False) \<Rightarrow> Some (e, Inl Blocked)
      | (c, True) \<Rightarrow> (case assign_send_order (p\<lparr>congestion := c\<rparr>) of
          (p1, Inl err) \<Rightarrow> Some (upd_path i (\<lambda>_. p1) e, Inl err)
        | (p1, Inr order) \<Rightarrow>
            let pn = ep_next_packet_number e;
                e1 = (upd_path i (\<lambda>_. p1) e)\<lparr>ep_next_packet_number := pn + 1,
                  ep_send_buffer := (ep_send_buffer e)[range_slot := Some (new_range frame pn retain)]\<rparr>;
                sent = stream_record i frame range_slot n order (send_clock p1) limited control e
            in map_option (finish_stream_send i frame pn control)
                 (record_congestion_packet i pn (send_clock p1) n False True (put_sent transmission_slot sent e1))))"

text \<open>\<open>mem\<close> says whether the payload copy and the bitmap get their memory.\<close>

definition prepare_stream :: "usize \<Rightarrow> ConnectionId \<Rightarrow> StreamFrame \<Rightarrow> nat \<Rightarrow> EndpointState
    \<Rightarrow> (u8 list \<times> EncodedControlFrames option \<times> usize \<times> usize) result" where
  "prepare_stream i dcid frame cap e =
     bindE (stream_bytes dcid frame cap e) (\<lambda>body.
     bindE (encode_control_frames_on_path e i (cap - length body) True) (\<lambda>control.
     bindE (ok_or HistoryFull (free_slot (ep_history_limit e) (ep_send_buffer e))) (\<lambda>range_slot.
     bindE (ok_or HistoryFull (free_slot (ep_transmission_limit e) (ep_sent_packets e))) (\<lambda>transmission_slot.
     let bytes = body @ (case control of None \<Rightarrow> [] | Some c \<Rightarrow> ec_bytes c) in
     if ep_send_buffer_limit_bytes e < sat_add64 (allocated_payload_bytes e) (length (sf_data frame)) then Inl HistoryFull
     else if \<not> cc_can_send (congestion (ep_paths e ! i)) (length bytes) then Inl Blocked
     else Inr (bytes, control, range_slot, transmission_slot)))))"

definition send_stream :: "bool \<Rightarrow> usize \<Rightarrow> StreamFrame \<Rightarrow> bool \<Rightarrow> u8 list \<times> EncodedControlFrames option \<times> usize \<times> usize \<Rightarrow> EndpointState
    \<Rightarrow> (EndpointState \<times> (u8 list \<times> u32) result) option" where
  "send_stream mem i frame retain prepared e = (case prepared of (bytes, control, range_slot, transmission_slot) \<Rightarrow>
     let n = length bytes; clock = send_clock (ep_paths e ! i) in
     case can_send_paced n clock (ep_paths e ! i) of
       (p1, paced) \<Rightarrow>
         let e1 = upd_path i (\<lambda>_. p1) e in
         if \<not> paced then Some (e1, Inl Blocked)
         else if \<not> mem then Some (e1, Inl HistoryFull)
         else if checked_add u32_max (ep_next_packet_number e1) 1 = None then Some (e1, Inl PacketNumberExhausted)
         else (case try_reserve_pacing n clock p1 of
           (p2, reserved) \<Rightarrow>
             let e2 = upd_path i (\<lambda>_. p2) e1 in
             if \<not> reserved then Some (e2, Inl Blocked)
             else (case reserve (sf_id frame) (sf_offset frame) (length (sf_data frame)) (ep_send e2) of
               Inl err \<Rightarrow> Some (e2, Inl err)
             | Inr f \<Rightarrow> map_option (\<lambda>(e3, r). (e3, bindE r (\<lambda>pn. Inr (bytes, pn))))
                 (commit_stream i frame range_slot transmission_slot n retain control (e2\<lparr>ep_send := f\<rparr>)))))"

definition encode_stream_packet_on_path_inner :: "usize \<Rightarrow> bool \<Rightarrow> usize \<Rightarrow> ConnectionId \<Rightarrow> StreamFrame \<Rightarrow> nat \<Rightarrow> bool \<Rightarrow> EndpointState
    \<Rightarrow> (EndpointState \<times> (u8 list \<times> u32) result) option" where
  "encode_stream_packet_on_path_inner P mem i dcid frame cap retain e =
     (if length (ep_paths e) \<le> i then Some (e, Inl PathLimit)
      else if (case peer_connection_id_on_path e i of None \<Rightarrow> False | Some peer \<Rightarrow> dcid \<noteq> peer) then Some (e, Inl WrongConnectionId)
      else if P < length (sf_data frame) then Some (e, Inl RetransmissionTooLarge)
      else if ep_peer_max_in_flight_packets e \<le> in_flight_packet_count e then Some (e, Inl Blocked)
      else (case prepare_stream i dcid frame cap e of
          Inl err \<Rightarrow> Some (e, Inl err)
        | Inr prepared \<Rightarrow> send_stream mem i frame retain prepared e))"

definition encode_stream_packet_from_owned_on_path :: "usize \<Rightarrow> bool \<Rightarrow> usize \<Rightarrow> ConnectionId \<Rightarrow> StreamFrame \<Rightarrow> nat \<Rightarrow> EndpointState
    \<Rightarrow> (EndpointState \<times> (u8 list \<times> u32) result) option" where
  "encode_stream_packet_from_owned_on_path P mem i dcid frame cap e =
     map_option (\<lambda>r. bindS r (\<lambda>e1 (bytes, pn).
       let matches = (\<lambda>slot. case slot of None \<Rightarrow> False | Some r \<Rightarrow> rs_logical_packet_number r = pn) in
       if list_ex matches (ep_send_buffer e1)
       then (e1\<lparr>ep_send_buffer := update_first matches (map_option (\<lambda>r. r\<lparr>pool_payload := Some (sf_data frame)\<rparr>)) (ep_send_buffer e1)\<rparr>,
             Inr (bytes, pn))
       else (e1, Inl Invalid))) (encode_stream_packet_on_path_inner P mem i dcid frame cap False e)"

section \<open>Copies\<close>

text \<open>The run of bytes a retransmission carries: its offset, its bytes, and whether it ends the stream.\<close>

definition retransmission_head :: "RetainedSendRange \<Rightarrow> (u64 \<times> u8 list \<times> bool) option result" where
  "retransmission_head r =
     (let tail = wrap_add64 (rs_offset r) (rs_data_len r);
          bare_fin = (if rs_fin r \<and> \<not> fin_acked r then Inr (Some (tail, [], True)) else Inr None)
      in if payload r \<noteq> None \<or> pool_payload r \<noteq> None
         then (case first_unacknowledged_run r of
             Some (start, stop) \<Rightarrow> bindE (ok_or Invalid (payload_range r start stop)) (\<lambda>bytes.
               Inr (Some (wrap_add64 (rs_offset r) start, bytes, rs_fin r \<and> \<not> fin_acked r \<and> stop = rs_data_len r)))
           | None \<Rightarrow> bare_fin)
         else bare_fin)"

definition lineage_of :: "SentPacket \<Rightarrow> PriorPacketLineage" where
  "lineage_of packet = \<lparr>pl_packet_number = sp_packet_number packet, pl_offset = sp_offset packet,
     pl_data_len = sp_data_len packet, pl_fin = sp_fin packet\<rparr>"

text \<open>Pacing and flight of one copy; a probe (\<open>overrun\<close>) passes both gates. \<open>None\<close>: refused, nothing sent.\<close>

definition reserve_copy :: "bool \<Rightarrow> u64 \<Rightarrow> PathState \<Rightarrow> PathState \<times> bool" where
  "reserve_copy overrun n p =
     (if overrun then (p\<lparr>congestion := on_retransmission_sent n (congestion p)\<rparr>, True)
      else if \<not> cc_can_send (congestion p) n then (p, False)
      else (case try_reserve_pacing n (send_clock p) p of
         (p1, False) \<Rightarrow> (p1, False)
       | (p1, True) \<Rightarrow> (case on_packet_sent n (congestion p1) of (c, sent) \<Rightarrow> (p1\<lparr>congestion := c\<rparr>, sent))))"

definition commit_copy :: "usize \<Rightarrow> SentPacket \<Rightarrow> usize \<Rightarrow> usize \<Rightarrow> bool \<Rightarrow> bool \<Rightarrow> StreamFrame \<Rightarrow> u32 \<Rightarrow> u64 \<Rightarrow> EndpointState
    \<Rightarrow> (EndpointState \<times> u32 result) option" where
  "commit_copy i sent range_slot slot evict budgeted frame logical n e =
     (let limited = limited_by_window (congestion (ep_paths e ! i)) n in
      case assign_send_order (ep_paths e ! i) of
        (p1, Inl err) \<Rightarrow> Some (upd_path i (\<lambda>_. p1) e, Inl err)
      | (p1, Inr order) \<Rightarrow>
          let pn = ep_next_packet_number e;
              e1 = (upd_path i (\<lambda>_. p1) e)\<lparr>ep_next_packet_number := pn + 1\<rparr>;
              e2 = (if evict then e1\<lparr>ep_send_buffer := (ep_send_buffer e1)[range_slot :=
                      map_option (add_prior_packet (lineage_of sent)) (ep_send_buffer e1 ! range_slot)]\<rparr> else e1);
              copy = (new_sent pn i order n (send_clock p1) limited)\<lparr>sp_stream_id := sf_id frame, sp_offset := sf_offset frame,
                sp_data_len := length (sf_data frame), sp_fin := sf_fin frame, send_buffer_slot := Some range_slot,
                rtt_eligible := True, logical_packet_number := logical,
                duplication_charge := (if budgeted then n else 0), data_delivered := False\<rparr>;
              e3 = put_sent slot copy e2;
              e4 = (if budgeted then e3\<lparr>ep_duplication_reserved_bytes := sat_add64 (ep_duplication_reserved_bytes e3) n\<rparr> else e3)
          in map_option (\<lambda>e5. (count_sent_stream e5, Inr pn))
               (record_congestion_packet i pn (send_clock p1) n (logical \<noteq> pn) True e4))"

definition copy_bytes :: "ConnectionId \<Rightarrow> StreamFrame \<Rightarrow> nat \<Rightarrow> EndpointState \<Rightarrow> u8 list result" where
  "copy_bytes dcid frame cap e =
     bindE (short_encode False (short_header dcid (ep_next_packet_number e) (next_packet_number_len e)) cap) (\<lambda>h.
     bindE (frame_encode (StreamF frame) (cap - length h)) (\<lambda>b. Inr (h @ b)))"

text \<open>The decisions before anything changes: what to copy, into which slot, and its bytes. \<open>Inr None\<close>: nothing to do.\<close>

record copy_plan =
  cp_sent :: SentPacket
  cp_range_slot :: usize
  cp_slot :: usize
  cp_evict :: bool
  cp_frame :: StreamFrame
  cp_logical :: u32
  cp_bytes :: "u8 list"

definition copy_slot :: "usize \<Rightarrow> SentPacket \<Rightarrow> EndpointState \<Rightarrow> (usize \<times> bool) result" where
  "copy_slot index sent e = (case free_slot (ep_transmission_limit e) (ep_sent_packets e) of
     Some slot \<Rightarrow> Inr (slot, False)
   | None \<Rightarrow> if lost sent then Inr (index, True) else Inl HistoryFull)"

definition plan_frame :: "usize \<Rightarrow> SentPacket \<Rightarrow> usize \<Rightarrow> RetainedSendRange \<Rightarrow> ConnectionId \<Rightarrow> StreamFrame \<Rightarrow> nat \<Rightarrow> EndpointState \<Rightarrow> copy_plan option result" where
  "plan_frame index sent range_slot r peer frame cap e =
     bindE (copy_slot index sent e) (\<lambda>(slot, evict).
     bindE (ok_or PacketNumberExhausted (checked_add u32_max (ep_next_packet_number e) 1)) (\<lambda>_.
     bindE (copy_bytes peer frame cap e) (\<lambda>bytes.
     Inr (Some \<lparr>cp_sent = sent, cp_range_slot = range_slot, cp_slot = slot, cp_evict = evict, cp_frame = frame,
       cp_logical = rs_logical_packet_number r, cp_bytes = bytes\<rparr>))))"

definition plan_copy :: "u32 \<Rightarrow> usize \<Rightarrow> nat \<Rightarrow> bool \<Rightarrow> EndpointState \<Rightarrow> copy_plan option result" where
  "plan_copy pn i cap budgeted e = (case sent_lookup pn e of
     None \<Rightarrow> Inr None
   | Some (index, sent) \<Rightarrow> (case peer_connection_id_on_path e i of
       None \<Rightarrow> Inl WrongConnectionId
     | Some peer \<Rightarrow>
         if \<not> accepted sent \<or> budgeted \<and> (i = path_id sent \<or> ep_peer_max_in_flight_packets e \<le> in_flight_packet_count e
              \<or> \<not> is_usable_for_data (ep_paths e ! i)) then Inr None
         else (case send_buffer_slot sent of
           None \<Rightarrow> Inr None
         | Some range_slot \<Rightarrow> (case send_range_at e (Some range_slot) of
             None \<Rightarrow> Inl Invalid
           | Some r \<Rightarrow>
               if data_delivered sent \<and> (\<not> sp_fin sent \<or> fin_acked r) then Inr None
               else bindE (retransmission_head r) (\<lambda>head. case head of
                   None \<Rightarrow> Inr None
                 | Some (off, data, fin) \<Rightarrow> plan_frame index sent range_slot r peer
                     \<lparr>sf_id = rs_stream_id r, sf_offset = off, sf_fin = fin, sf_data = data\<rparr> cap e)))))"

definition retransmit_stream_packet_with_probe :: "u32 \<Rightarrow> usize \<Rightarrow> nat \<Rightarrow> bool \<Rightarrow> bool \<Rightarrow> EndpointState
    \<Rightarrow> (EndpointState \<times> (u8 list \<times> u32) option result) option" where
  "retransmit_stream_packet_with_probe pn i cap overrun budgeted e =
     (if length (ep_paths e) \<le> i then Some (e, Inl PathLimit)
      else (case plan_copy pn i cap budgeted e of
        Inl err \<Rightarrow> Some (e, Inl err)
      | Inr None \<Rightarrow> Some (e, Inr None)
      | Inr (Some plan) \<Rightarrow>
          let n = length (cp_bytes plan) in
          if budgeted \<and> duplication_budget_available e < n then Some (e, Inr None)
          else (case reserve_copy overrun n (ep_paths e ! i) of
            (p1, False) \<Rightarrow> Some (upd_path i (\<lambda>_. p1) e, Inr None)
          | (p1, True) \<Rightarrow>
              map_option (\<lambda>(e1, res). (e1, bindE res (\<lambda>new. Inr (Some (cp_bytes plan, new)))))
                (commit_copy i (cp_sent plan) (cp_range_slot plan) (cp_slot plan) (cp_evict plan) budgeted (cp_frame plan)
                   (cp_logical plan) n (upd_path i (\<lambda>_. p1) e)))))"

definition record_retransmission :: "usize \<Rightarrow> EndpointState \<Rightarrow> EndpointState" where
  "record_retransmission i e =
     (let e1 = upd_stats (\<lambda>s. s\<lparr>ts_retransmitted_packets := sat_add64 (ts_retransmitted_packets s) 1\<rparr>) e
      in if length (ep_paths e1) \<le> i then e1
         else upd_path i (\<lambda>p. p\<lparr>retransmitted_packets := sat_add64 (retransmitted_packets p) 1\<rparr>) e1)"

definition after_copy :: "(EndpointState \<Rightarrow> EndpointState) \<Rightarrow> (EndpointState \<times> (u8 list \<times> u32) option result) option
    \<Rightarrow> (EndpointState \<times> (u8 list \<times> u32) option result) option" where
  "after_copy f r = map_option (\<lambda>(e, res). (case res of Inr (Some _) \<Rightarrow> f e | _ \<Rightarrow> e, res)) r"

definition retransmit_stream_packet :: "u32 \<Rightarrow> nat \<Rightarrow> EndpointState \<Rightarrow> (EndpointState \<times> (u8 list \<times> u32) option result) option" where
  "retransmit_stream_packet pn cap e = (case sent_lookup pn e of
     None \<Rightarrow> Some (e, Inr None)
   | Some (_, sent) \<Rightarrow> after_copy (record_retransmission (path_id sent))
       (retransmit_stream_packet_with_probe pn (path_id sent) cap True False e))"

definition retransmit_stream_packet_on_path :: "u32 \<Rightarrow> usize \<Rightarrow> nat \<Rightarrow> EndpointState \<Rightarrow> (EndpointState \<times> (u8 list \<times> u32) option result) option" where
  "retransmit_stream_packet_on_path pn i cap e =
     after_copy (record_retransmission i) (retransmit_stream_packet_with_probe pn i cap False False e)"

definition duplicate_stream_packet_on_path :: "u32 \<Rightarrow> usize \<Rightarrow> nat \<Rightarrow> EndpointState \<Rightarrow> (EndpointState \<times> (u8 list \<times> u32) option result) option" where
  "duplicate_stream_packet_on_path pn i cap e = retransmit_stream_packet_with_probe pn i cap False True e"

text \<open>Credit of an accepted control packet, encoded again for another path.\<close>

definition frames_bytes :: "Frame list \<Rightarrow> nat \<Rightarrow> u8 list result" where
  "frames_bytes frames = foldr (\<lambda>frame. seqE (frame_encode frame)) frames (\<lambda>_. Inr [])"

definition credit_frames :: "bool \<Rightarrow> usize \<Rightarrow> bool \<Rightarrow> EndpointState \<Rightarrow> Frame list" where
  "credit_frames include_max_data stream_credit_count include_max_streams_bidi e =
     (if include_max_data then [MaxData (fc_max_data (cs_connection (ep_receive e)))] else [])
     @ map (\<lambda>i. MaxStreamData i (case stream_max_data (ep_receive e) i of
           None \<Rightarrow> lim_max_stream_data (cs_limits (ep_receive e)) | Some m \<Rightarrow> m))
         (take (min stream_credit_count (length (ep_pending_stream_ids e))) (ep_pending_stream_ids e))
     @ (if include_max_streams_bidi then [MaxStreamsBidi (max_streams_bidi (cs_limits (ep_receive e)))] else [])"

definition commit_credit_copy :: "usize \<Rightarrow> u32 \<Rightarrow> usize \<Rightarrow> bool \<Rightarrow> u64 \<Rightarrow> bool \<Rightarrow> u64 \<Rightarrow> EndpointState \<Rightarrow> EndpointState option" where
  "commit_credit_copy i source slot include_ack order limited n e =
     (let pn = ep_next_packet_number e; clock = send_clock (ep_paths e ! i);
          copy = (new_sent pn i order n clock limited)\<lparr>
            ack_largest_received := (if include_ack then largest_received e else None),
            logical_packet_number := source, duplication_charge := n\<rparr>;
          e1 = (put_sent slot copy e)\<lparr>ep_next_packet_number := pn + 1,
                 ep_duplication_reserved_bytes := sat_add64 (ep_duplication_reserved_bytes e) n\<rparr>
      in map_option count_sent_saturating
           (record_congestion_packet i pn clock n True False e1))"

definition credit_copy_bytes :: "usize \<Rightarrow> bool \<Rightarrow> bool \<Rightarrow> usize \<Rightarrow> bool \<Rightarrow> nat \<Rightarrow> EndpointState \<Rightarrow> (usize \<times> u8 list) option result" where
  "credit_copy_bytes i include_ack include_max_data stream_credit_count include_max_streams_bidi cap e =
     bindE (ok_or WrongConnectionId (peer_connection_id_on_path e i)) (\<lambda>peer.
     bindE (ok_or HistoryFull (free_slot (ep_transmission_limit e) (ep_sent_packets e))) (\<lambda>slot.
     bindE (ok_or PacketNumberExhausted (checked_add u32_max (ep_next_packet_number e) 1)) (\<lambda>_.
     bindE (short_encode False (short_header peer (ep_next_packet_number e) (next_packet_number_len e)) cap) (\<lambda>h.
     if include_ack \<and> largest_received e = None then Inr None
     else bindE (frames_bytes
         ((if include_ack then [AckRangesF (the (largest_received e)) 0 (ep_received_packets e)] else [])
          @ credit_frames include_max_data stream_credit_count include_max_streams_bidi e) (cap - length h)) (\<lambda>b.
       Inr (Some (slot, h @ b)))))))"

definition send_credit_copy :: "usize \<Rightarrow> u32 \<Rightarrow> bool \<Rightarrow> usize \<Rightarrow> u8 list \<Rightarrow> EndpointState \<Rightarrow> (EndpointState \<times> (u8 list \<times> u32) option result) option" where
  "send_credit_copy i source include_ack slot bytes e =
     (let n = length bytes; p = ep_paths e ! i in
      if duplication_budget_available e < n \<or> \<not> cc_can_send (congestion p) n then Some (e, Inr None)
      else (case try_reserve_pacing n (send_clock p) p of
        (p1, reserved) \<Rightarrow>
          if \<not> reserved then Some (upd_path i (\<lambda>_. p1) e, Inr None)
          else (case on_packet_sent n (congestion p1) of
            (c, sent) \<Rightarrow>
              if \<not> sent then Some (upd_path i (\<lambda>_. p1) e, Inr None)
              else (case assign_send_order (p1\<lparr>congestion := c\<rparr>) of
                (p2, Inl err) \<Rightarrow> Some (upd_path i (\<lambda>_. p2) e, Inl err)
              | (p2, Inr order) \<Rightarrow>
                  map_option (\<lambda>e1. (e1, Inr (Some (bytes, ep_next_packet_number e))))
                    (commit_credit_copy i source slot include_ack order (limited_by_window (congestion p1) n) n
                       (upd_path i (\<lambda>_. p2) e))))))"

definition duplicate_credit_control_on_path :: "u32 \<Rightarrow> usize \<Rightarrow> bool \<Rightarrow> bool \<Rightarrow> usize \<Rightarrow> bool \<Rightarrow> nat \<Rightarrow> EndpointState
    \<Rightarrow> (EndpointState \<times> (u8 list \<times> u32) option result) option" where
  "duplicate_credit_control_on_path source i include_ack include_max_data stream_credit_count include_max_streams_bidi cap e =
     (if length (ep_paths e) \<le> i \<or> \<not> is_usable_for_data (ep_paths e ! i) \<or> ep_credit_packet_number e \<noteq> Some source
         \<or> \<not> ep_credit_pending e \<or> \<not> include_max_data \<and> stream_credit_count = 0 \<and> \<not> include_max_streams_bidi
         \<or> ep_peer_max_in_flight_packets e \<le> in_flight_packet_count e
      then Some (e, Inr None)
      else (case credit_copy_bytes i include_ack include_max_data stream_credit_count include_max_streams_bidi cap e of
          Inl err \<Rightarrow> Some (e, Inl err)
        | Inr None \<Rightarrow> Some (e, Inr None)
        | Inr (Some (slot, bytes)) \<Rightarrow> send_credit_copy i source include_ack slot bytes e))"

section \<open>Flight of what is sent\<close>

text \<open>The side condition of the accounting: no counter of a path is at its end.\<close>

definition room :: "nat \<Rightarrow> EndpointState \<Rightarrow> bool" where
  "room n e \<longleftrightarrow> (\<forall>p \<in> set (ep_paths e). flight_of p + n \<le> u64_max \<and> next_send_order p < u64_max)"

text \<open>A record is added in a slot that counted for nothing.\<close>

lemma flight_inv_insert:
  assumes inv: "flight_inv e" and k: "k < length (ep_sent_packets e)" "\<And>j. slot_bytes j (ep_sent_packets e ! k) = 0"
    and e': "ep_sent_packets e' = (ep_sent_packets e)[k := Some s]" "ep_transmission_limit e' = ep_transmission_limit e"
      "map flight_of (ep_paths e') = (map flight_of (ep_paths e))[path_id s := flight_of (ep_paths e ! path_id s) + sp_bytes s]"
    and s: "path_id s < length (ep_paths e)" "accepted s" "\<not> lost s"
    and le: "flight_of (ep_paths e ! path_id s) + sp_bytes s \<le> u64_max"
  shows "flight_inv e'"
proof -
  have l: "length (ep_paths e') = length (ep_paths e)" using e'(3) by (metis length_list_update length_map)
  have fl: "flight_of (ep_paths e' ! i) = (if i = path_id s then flight_of (ep_paths e ! i) + sp_bytes s else flight_of (ep_paths e ! i))"
    if "i < length (ep_paths e)" for i
    using arg_cong [OF e'(3), of "\<lambda>xs. xs ! i"] that l by (auto simp: nth_list_update)
  have "flight_of (ep_paths e' ! i) = flight i (ep_sent_packets e') \<and> flight i (ep_sent_packets e') \<le> u64_max"
    if i: "i < length (ep_paths e)" for i
    using flight_update [OF k(1), of i "Some s"] k(2) [of i] fl [OF i] flight_inv_at [OF inv i] s le by (auto simp: e')
  moreover have "list_all (slot_in (length (ep_paths e))) (ep_sent_packets e')"
    using inv k(1) s(1) by (auto simp: e' flight_inv_def list_all_length nth_list_update)
  moreover have "ep_paths e' \<noteq> []" using s(1) l by (metis length_0_conv less_nat_zero_code)
  ultimately show ?thesis using inv l by (simp add: flight_inv_def e'(2))
qed

lemma free_slot_Some: "free_slot limit slots = Some k \<Longrightarrow> k < length slots \<and> slots ! k = None"
  by (auto simp: free_slot_def position_Some)

lemma assign_send_order_frame:
  "flight_of (fst (assign_send_order p)) = flight_of p" "send_clock (fst (assign_send_order p)) = send_clock p"
  by (auto simp: assign_send_order_def flight_of_def Let_def split: option.splits)

lemma pacing_congestion [simp]:
  "congestion (fst (can_send_paced n t p)) = congestion p" "congestion (fst (try_reserve_pacing n t p)) = congestion p"
  "next_send_order (fst (can_send_paced n t p)) = next_send_order p" "next_send_order (fst (try_reserve_pacing n t p)) = next_send_order p"
  by (auto simp: can_send_paced_def try_reserve_pacing_def pacing_refill_def Let_def split: prod.splits)

lemma pacing_flight [simp]:
  "flight_of (fst (can_send_paced n t p)) = flight_of p" "flight_of (fst (try_reserve_pacing n t p)) = flight_of p"
  by (simp_all add: flight_of_def)

lemma map_flight_upd: "i < length (ep_paths e) \<Longrightarrow>
    map flight_of (ep_paths (upd_path i f e)) = (map flight_of (ep_paths e))[i := flight_of (f (ep_paths e ! i))]"
  by (simp add: upd_path_def map_update)

lemma upd_path_simps [simp]:
  "ep_sent_packets (upd_path i f e) = ep_sent_packets e" "ep_transmission_limit (upd_path i f e) = ep_transmission_limit e"
  "length (ep_paths (upd_path i f e)) = length (ep_paths e)"
  by (simp_all add: upd_path_def)

text \<open>A step that touches neither the ledger nor any flight.\<close>

definition quiet :: "EndpointState \<Rightarrow> EndpointState \<Rightarrow> bool" where
  "quiet e e' \<longleftrightarrow> ep_sent_packets e' = ep_sent_packets e \<and> ep_transmission_limit e' = ep_transmission_limit e
     \<and> map flight_of (ep_paths e') = map flight_of (ep_paths e)"

lemma quiet_trans: "quiet a b \<Longrightarrow> quiet b c \<Longrightarrow> quiet a c"
  by (simp add: quiet_def)

lemma quiet_refl [simp]: "quiet e e"
  by (simp add: quiet_def)

lemma quiet_inv: "quiet e e' \<Longrightarrow> flight_inv e \<Longrightarrow> flight_inv e'"
  unfolding quiet_def by (metis flight_inv_cong)

lemma quiet_length: "quiet e e' \<Longrightarrow> length (ep_paths e') = length (ep_paths e)"
  unfolding quiet_def by (metis length_map)

lemma quiet_upd_path: "(\<And>p. flight_of (f p) = flight_of p) \<Longrightarrow> quiet e (upd_path i f e)"
  by (simp add: quiet_def upd_path_flight)

lemma quiet_stats [simp]: "quiet e (upd_stats f e)" "quiet e (upd_stats f d) = quiet e d"
  by (simp_all add: quiet_def)

lemma record_congestion_quiet:
  assumes "record_congestion_packet i pn at n d st e = Some e'"
  shows "quiet e e'"
  using assms by (auto simp: record_congestion_packet_def split: if_splits intro!: quiet_upd_path) (auto simp: Let_def flight_of_def)

lemma record_congestion_ok: "flight_inv e \<Longrightarrow> ep_transmission_limit e' = ep_transmission_limit e \<Longrightarrow>
    \<exists>e''. record_congestion_packet i pn at n d st e' = Some e''"
  by (simp add: record_congestion_packet_def flight_inv_def)

lemma flight_inv_refused:
  "flight_inv e \<Longrightarrow> i < length (ep_paths e) \<Longrightarrow> flight_of p = flight_of (ep_paths e ! i) \<Longrightarrow> flight_inv (upd_path i (\<lambda>_. p) e)"
  by (rule flight_inv_cong) (auto intro!: upd_path_flight)

lemma paced_eq:
  "can_send_paced n t p = (p1, b) \<Longrightarrow> congestion p1 = congestion p \<and> next_send_order p1 = next_send_order p \<and> flight_of p1 = flight_of p"
  "try_reserve_pacing n t p = (p1, b) \<Longrightarrow> congestion p1 = congestion p \<and> next_send_order p1 = next_send_order p \<and> flight_of p1 = flight_of p"
  using pacing_congestion [of n t p] pacing_flight [of n t p] by auto

lemma assigned_eq:
  "assign_send_order p = (p1, r) \<Longrightarrow> flight_of p1 = flight_of p \<and> congestion p1 = congestion p \<and> send_clock p1 = send_clock p"
  by (auto simp: assign_send_order_def flight_of_def Let_def split: option.splits)

lemma assigned_ok: "next_send_order p < u64_max \<Longrightarrow> \<exists>p1 order. assign_send_order p = (p1, Inr order)"
  by (auto simp: assign_send_order_def Let_def checked_add_def)

lemma reserve_control_flight:
  assumes "reserve_control pto exempt n p = (p1, r)" "flight_of p + n \<le> u64_max"
  shows "flight_of p1 = (case r of Inl _ \<Rightarrow> flight_of p | Inr _ \<Rightarrow> flight_of p + n)"
  using assms
  by (auto simp: reserve_control_def Let_def on_retransmission_sent_def on_packet_sent_def sat_add_def
      split: prod.splits sum.splits if_splits dest!: assigned_eq paced_eq) (auto simp: flight_of_def)

lemma reserve_copy_flight:
  assumes "reserve_copy overrun n p = (p1, r)" "flight_of p + n \<le> u64_max"
  shows "flight_of p1 = (if r then flight_of p + n else flight_of p) \<and> next_send_order p1 = next_send_order p"
  using assms
  by (auto simp: reserve_copy_def Let_def on_retransmission_sent_def on_packet_sent_def sat_add_def
      split: prod.splits sum.splits if_splits bool.splits dest!: paced_eq) (auto simp: flight_of_def)


lemma short_encode_cap: "short_encode pp h cap = Inr bs \<Longrightarrow> length bs \<le> cap"
  by (auto simp: short_encode_def Let_def dest!: cid_encode_length split: if_splits)

lemma frame_encode_cap: "frame_encode frame cap = Inr bs \<Longrightarrow> length bs \<le> cap"
  using bounded_frame_encode by (auto simp: bounded_writer_def)

lemma control_bytes_cap: "control_bytes d frame cap e = Inr bs \<Longrightarrow> length bs \<le> cap"
  unfolding control_bytes_def by (auto dest!: short_encode_cap frame_encode_cap)

lemma pad_challenge_cap: "pad_challenge frame m cap bs = Some bs' \<Longrightarrow> length bs \<le> cap \<Longrightarrow> length bs' \<le> cap"
  by (auto simp: pad_challenge_def Let_def split: if_splits)

lemma account_probe_quiet: "quiet e (account_probe i probe n charge e)"
  by (auto simp: account_probe_def Let_def quiet_def upd_path_flight flight_of_def intro!: upd_path_flight)

lemma announce_status_quiet: "quiet e (announce_status i frame e)"
  by (auto simp: announce_status_def status_sent_def flight_of_def split: Frame.splits option.splits intro!: quiet_upd_path)

text \<open>An added record: the ledger has it, and the path whose flight grew before still has that flight.\<close>

definition added :: "usize \<Rightarrow> usize \<Rightarrow> u64 \<Rightarrow> EndpointState \<Rightarrow> EndpointState \<Rightarrow> bool" where
  "added slot i n e e' \<longleftrightarrow> (\<exists>s. ep_sent_packets e' = (ep_sent_packets e)[slot := Some s] \<and> path_id s = i \<and> sp_bytes s = n
     \<and> accepted s \<and> \<not> lost s) \<and> ep_transmission_limit e' = ep_transmission_limit e
     \<and> map flight_of (ep_paths e') = map flight_of (ep_paths e)"

lemma added_put: "path_id s = i \<Longrightarrow> sp_bytes s = n \<Longrightarrow> accepted s \<Longrightarrow> \<not> lost s \<Longrightarrow> quiet e d \<Longrightarrow> added slot i n e (put_sent slot s d)"
  by (auto simp: added_def put_sent_def quiet_def)

lemma added_quiet: "added slot i n e d \<Longrightarrow> quiet d e' \<Longrightarrow> added slot i n e e'"
  by (auto simp: added_def quiet_def)

lemma added_inv:
  assumes "flight_inv e" "i < length (ep_paths e)" "slot < length (ep_sent_packets e)" "\<And>j. slot_bytes j (ep_sent_packets e ! slot) = 0"
    and "added slot i n (upd_path i (\<lambda>_. p) e) e'" "flight_of p = flight_of (ep_paths e ! i) + n" "flight_of p \<le> u64_max"
  shows "flight_inv e'"
proof -
  from assms(5) obtain s where s: "ep_sent_packets e' = (ep_sent_packets e)[slot := Some s]" "path_id s = i" "sp_bytes s = n"
      "accepted s" "\<not> lost s" "ep_transmission_limit e' = ep_transmission_limit e"
      "map flight_of (ep_paths e') = map flight_of (ep_paths (upd_path i (\<lambda>_. p) e))"
    by (auto simp: added_def)
  show ?thesis
    by (rule flight_inv_insert [OF assms(1,3,4) s(1,6)])
      (use assms(2,6,7) s in \<open>simp_all add: map_flight_upd\<close>)
qed

lemma commit_path_control_cases:
  assumes "commit_path_control i frame n limited tracked e = Some e'"
  shows "case tracked of None \<Rightarrow> quiet e e' | Some (slot, order) \<Rightarrow> added slot i n e e'"
proof -
  define charge where "charge = (if is_probe_frame frame \<and> n \<le> duplication_budget_available e then n else 0)"
  let ?e1 = "account_probe i (is_probe_frame frame) n charge e"
  obtain e2 where e2: "e' = count_sent_saturating (announce_status i frame e2)"
    "(case tracked of None \<Rightarrow> Some ?e1 | Some (slot, order) \<Rightarrow>
       record_congestion_packet i (ep_next_packet_number e) (send_clock (ep_paths e ! i)) n False False
         (put_sent slot (control_record i frame n charge limited order e) ?e1)) = Some e2"
    using assms unfolding commit_path_control_def Let_def charge_def [symmetric] by (auto simp: map_option_eq_Some)
  have q: "quiet e2 e'" unfolding e2(1) count_sent_saturating_def by (simp add: announce_status_quiet)
  show ?thesis
  proof (cases tracked)
    case None
    then show ?thesis using e2(2) q account_probe_quiet [of e i "is_probe_frame frame" n charge] by (auto intro: quiet_trans)
  next
    case (Some so)
    then obtain slot order where so: "tracked = Some (slot, order)" by (cases so) auto
    have "added slot i n e (put_sent slot (control_record i frame n charge limited order e) ?e1)"
      by (rule added_put) (auto simp: control_record_def new_sent_def account_probe_quiet)
    moreover have "quiet (put_sent slot (control_record i frame n charge limited order e) ?e1) e2"
      using e2(2) by (intro record_congestion_quiet) (simp add: so)
    ultimately show ?thesis unfolding so by (auto intro: added_quiet [OF added_quiet q])
  qed
qed

lemma checked_add_None [simp]: "checked_add m a b = None \<longleftrightarrow> m < a + b"
  by (auto simp: checked_add_def)

lemma send_path_control_flight:
  assumes inv: "flight_inv e" and i: "i < length (ep_paths e)" and fit: "flight_of (ep_paths e ! i) + length bytes \<le> u64_max"
    and r: "send_path_control i frame bytes pto e = Some (e', r)"
  shows "flight_inv e'"
proof -
  let ?p = "ep_paths e ! i" and ?n = "length bytes"
  consider "checked_add u32_max (ep_next_packet_number e) 1 = None"
    | "checked_add u32_max (ep_next_packet_number e) 1 \<noteq> None" "\<not> is_tracked frame"
    | err where "checked_add u32_max (ep_next_packet_number e) 1 \<noteq> None" "is_tracked frame" "control_slot pto ?n ?p e = Inl err"
    | slot where "checked_add u32_max (ep_next_packet_number e) 1 \<noteq> None" "is_tracked frame" "control_slot pto ?n ?p e = Inr slot"
    by (cases "checked_add u32_max (ep_next_packet_number e) 1 = None"; cases "is_tracked frame"; cases "control_slot pto ?n ?p e") blast+
  then show ?thesis
  proof cases
    case 1 then show ?thesis using r inv by (simp add: send_path_control_def Let_def)
  next
    case 2
    then have "commit_path_control i frame ?n False None e = Some e'" using r by (auto simp: send_path_control_def Let_def)
    from commit_path_control_cases [OF this] show ?thesis using inv by (auto intro: quiet_inv)
  next
    case 3 then show ?thesis using r inv by (simp add: send_path_control_def Let_def)
  next
    case 4
    have slot: "slot < length (ep_sent_packets e)" "ep_sent_packets e ! slot = None"
      using 4(3) by (auto simp: control_slot_def split: if_splits dest!: free_slot_Some)
    obtain p1 q where q: "reserve_control pto (pacing_exempt frame) ?n ?p = (p1, q)" by (rule prod.exhaust)
    note f = reserve_control_flight [OF q fit]
    show ?thesis
    proof (cases q)
      case (Inl err)
      then have "e' = upd_path i (\<lambda>_. p1) e" using r 4 q by (simp add: send_path_control_def Let_def)
      then show ?thesis using f Inl inv i by (simp add: flight_inv_refused)
    next
      case (Inr order)
      then have c: "commit_path_control i frame ?n (limited_by_window (congestion ?p) ?n) (Some (slot, order))
          (upd_path i (\<lambda>_. p1) e) = Some e'"
        using r 4 q by (auto simp: send_path_control_def Let_def)
      show ?thesis
        by (rule added_inv [OF inv i slot(1), where p = p1])
          (use slot f fit Inr commit_path_control_cases [OF c] in simp_all)
    qed
  qed
qed

lemma room_fit: "room cap e \<Longrightarrow> i < length (ep_paths e) \<Longrightarrow> n \<le> cap \<Longrightarrow> flight_of (ep_paths e ! i) + n \<le> u64_max"
  unfolding room_def by (meson add_left_mono nth_mem order_trans)

lemma path_control_flight:
  assumes "flight_inv e" "room cap e" "encode_path_control_packet_inner i d frame cap pto e = Some (e', r)"
  shows "flight_inv e'"
proof (cases "length (ep_paths e) \<le> i \<or> cid_value d = 0 \<or> \<not> is_path_control_frame frame \<or> (\<exists>err. control_bytes d frame cap e = Inl err)")
  case True
  then show ?thesis using assms by (auto simp: encode_path_control_packet_inner_def split: if_splits)
next
  case False
  then obtain bytes0 where i: "i < length (ep_paths e)" and b: "control_bytes d frame cap e = Inr bytes0"
    by (cases "control_bytes d frame cap e") auto
  with assms(3) False obtain bytes where pad: "pad_challenge frame (max_packet_size (congestion (ep_paths e ! i))) cap bytes0 = Some bytes"
      and s: "send_path_control i frame bytes pto e = Some (e', r)"
    by (auto simp: encode_path_control_packet_inner_def bind_eq_Some_conv)
  have "length bytes \<le> cap" using pad_challenge_cap [OF pad control_bytes_cap [OF b]] .
  then show ?thesis using send_path_control_flight [OF assms(1) i room_fit [OF assms(2) i] s] by simp
qed


lemma commit_control_quiet: "i < length (ep_paths e) \<Longrightarrow> quiet e (commit_control_frames i pn c e)"
proof -
  have "quiet e (commit_ack i pn c e)"
    by (simp add: commit_ack_def Let_def quiet_def refresh_ack_summary_def upd_path_flight flight_of_def)
  then show ?thesis by (simp add: commit_control_frames_def Let_def quiet_def)
qed

lemma finish_stream_send_quiet:
  assumes "i < length (ep_paths e)"
  shows "quiet e (fst (finish_stream_send i frame pn control e))"
proof -
  have "quiet e (e\<lparr>ep_send := f\<rparr>)" for f by (simp add: quiet_def)
  moreover have "quiet (e\<lparr>ep_send := f\<rparr>) (commit_control_frames i pn ctl (e\<lparr>ep_send := f\<rparr>))" for f ctl
    using assms by (intro commit_control_quiet) simp
  ultimately have "quiet e (count_sent_stream (case control of None \<Rightarrow> e\<lparr>ep_send := f\<rparr>
      | Some ctl \<Rightarrow> commit_control_frames i pn ctl (e\<lparr>ep_send := f\<rparr>)))" for f
    unfolding count_sent_stream_def by (cases control) (auto intro: quiet_trans)
  then show ?thesis
    by (cases "if sf_fin frame then finish_stream (sf_id frame) (ep_send e) else Inr (ep_send e)")
      (simp_all add: finish_stream_send_def Let_def split del: if_split)
qed

lemma commit_stream_flight:
  assumes inv: "flight_inv e" and i: "i < length (ep_paths e)" and fit: "flight_of (ep_paths e ! i) + n \<le> u64_max"
    and ord: "next_send_order (ep_paths e ! i) < u64_max"
    and slot: "ts < length (ep_sent_packets e)" "ep_sent_packets e ! ts = None"
    and r: "commit_stream i frame rs ts n retain control e = Some (e', r)"
  shows "flight_inv e'"
proof -
  let ?p = "ep_paths e ! i"
  obtain c sent where c: "on_packet_sent n (congestion ?p) = (c, sent)" by (rule prod.exhaust)
  show ?thesis
  proof (cases sent)
    case False
    then show ?thesis using r c inv by (simp add: commit_stream_def Let_def)
  next
    case True
    have cf: "bytes_in_flight c = flight_of ?p + n"
      using c True fit by (auto simp: on_packet_sent_def sat_add_def flight_of_def split: if_splits)
    obtain p1 order where a: "assign_send_order (?p\<lparr>congestion := c\<rparr>) = (p1, Inr order)"
      using assigned_ok [of "?p\<lparr>congestion := c\<rparr>"] ord by auto
    have pf: "flight_of p1 = flight_of ?p + n" using assigned_eq [OF a] cf by (simp add: flight_of_def)
    let ?pn = "ep_next_packet_number e"
    let ?e1 = "(upd_path i (\<lambda>_. p1) e)\<lparr>ep_next_packet_number := ?pn + 1,
        ep_send_buffer := (ep_send_buffer e)[rs := Some (new_range frame ?pn retain)]\<rparr>"
    define s where "s = stream_record i frame rs n order (send_clock p1) (limited_by_window (congestion ?p) n) control e"
    have s: "path_id s = i" "sp_bytes s = n" "accepted s" "\<not> lost s" by (simp_all add: s_def stream_record_def new_sent_def)
    obtain e2 where rec: "record_congestion_packet i ?pn (send_clock p1) n False True (put_sent ts s ?e1) = Some e2"
        and fin: "finish_stream_send i frame ?pn control e2 = (e', r)"
      using r c True a by (auto simp: commit_stream_def Let_def s_def)
    have "quiet (upd_path i (\<lambda>_. p1) e) ?e1" by (simp add: quiet_def)
    then have ad: "added ts i n (upd_path i (\<lambda>_. p1) e) (put_sent ts s ?e1)" by (rule added_put [OF s])
    have q: "quiet (put_sent ts s ?e1) e2" using record_congestion_quiet [OF rec] .
    then have i2: "i < length (ep_paths e2)" using i quiet_length [OF q] by (simp add: put_sent_def)
    have "quiet e2 e'" using finish_stream_send_quiet [OF i2, of frame ?pn control] fin by simp
    then have "added ts i n (upd_path i (\<lambda>_. p1) e) e'" using added_quiet [OF added_quiet [OF ad q]] by blast
    then show ?thesis
      by (rule added_inv [OF inv i slot(1), where p = p1, rotated]) (use slot pf fit in simp_all)
  qed
qed


lemma stream_bytes_cap: "stream_bytes dcid frame cap e = Inr bs \<Longrightarrow> length bs \<le> cap"
  by (auto simp: stream_bytes_def split: if_splits dest!: short_encode_cap)

lemma put_control_cap: "put_control frame cap c = Inr c' \<Longrightarrow> length (ec_bytes c) \<le> cap \<Longrightarrow> length (ec_bytes c') \<le> cap"
  unfolding put_control_def by (auto dest!: frame_encode_cap)

lemma put_stream_credit_cap:
  "put_stream_credit e cap ids c = Inr c' \<Longrightarrow> length (ec_bytes c) \<le> cap \<Longrightarrow> length (ec_bytes c') \<le> cap"
proof (induction ids arbitrary: c)
  case (Cons i ids)
  then show ?case by (auto simp: Let_def split: sum.splits if_splits dest: put_control_cap)
qed simp

lemma put_credit_cap:
  "put_credit e cap piggyback c = Inr (c', stop) \<Longrightarrow> length (ec_bytes c) \<le> cap \<Longrightarrow> length (ec_bytes c') \<le> cap"
  by (auto simp: put_credit_def Let_def split: sum.splits if_splits dest!: put_control_cap put_stream_credit_cap)

lemma put_ack_cap:
  "put_pending_ack e path cap piggyback credit c = Inr (Some (c', stop)) \<Longrightarrow> length (ec_bytes c) \<le> cap \<Longrightarrow> length (ec_bytes c') \<le> cap"
  by (auto simp: put_pending_ack_def Let_def split: sum.splits if_splits dest!: put_control_cap put_credit_cap)

lemma put_ack_frequency_cap:
  "put_ack_frequency request cap piggyback c = Inr c' \<Longrightarrow> length (ec_bytes c) \<le> cap \<Longrightarrow> length (ec_bytes c') \<le> cap"
  by (auto simp: put_ack_frequency_def split: option.splits sum.splits if_splits dest!: put_control_cap)

lemma write_control_cap:
  assumes "write_control e path cap piggyback send_ack send_credit request control = Inr (Some c)" "ec_bytes control = []"
  shows "length (ec_bytes c) \<le> cap"
proof -
  from assms(1) obtain c0 stop where
      c0: "(if send_ack then put_pending_ack e path cap piggyback send_credit control else Inr (Some (control, False))) = Inr (Some (c0, stop))"
      and c: "(if stop then Inr (Some c0)
         else bindE (put_ack_frequency request cap piggyback c0) (\<lambda>c1. Inr (if ec_bytes c1 = [] then None else Some c1))) = Inr (Some c)"
    unfolding write_control_def bindE_eq_Inr [of "if _ then _ else _"] by (auto split: option.splits split del: if_split)
  have "length (ec_bytes c0) \<le> cap" using c0 assms(2) put_ack_cap by (auto split: if_splits)
  then show ?thesis using c put_ack_frequency_cap by (auto split: if_splits)
qed

lemma encode_control_cap:
  assumes "encode_control_frames_on_path e i cap piggyback = Inr (Some c)"
  shows "length (ec_bytes c) \<le> cap"
  using assms write_control_cap [of e _ cap piggyback _ _ _ "blank_control e i _"]
  by (auto simp: encode_control_frames_on_path_def Let_def blank_control_def split: option.splits if_splits)


lemma prepare_stream_cap:
  assumes "prepare_stream i dcid frame cap e = Inr (bytes, control, rs, ts)"
  shows "length bytes \<le> cap" "ts < length (ep_sent_packets e)" "ep_sent_packets e ! ts = None"
proof -
  from assms obtain body where b: "stream_bytes dcid frame cap e = Inr body"
      "encode_control_frames_on_path e i (cap - length body) True = Inr control"
      "free_slot (ep_transmission_limit e) (ep_sent_packets e) = Some ts"
      "bytes = body @ (case control of None \<Rightarrow> [] | Some c \<Rightarrow> ec_bytes c)"
    by (auto simp: prepare_stream_def Let_def split: if_splits)
  show "length bytes \<le> cap" using stream_bytes_cap [OF b(1)] b(2) encode_control_cap
    by (cases control) (fastforce simp: b(4))+
  show "ts < length (ep_sent_packets e)" "ep_sent_packets e ! ts = None" using free_slot_Some [OF b(3)] by simp_all
qed

lemma upd_path_upd_path: "upd_path i (\<lambda>_. b) (upd_path i (\<lambda>_. a) e) = upd_path i (\<lambda>_. b) e"
  by (simp add: upd_path_def)

lemma send_stream_flight:
  assumes inv: "flight_inv e" and i: "i < length (ep_paths e)" and room: "room cap e"
    and pre: "prepare_stream i dcid frame cap e = Inr (bytes, control, rs, ts)"
    and r: "send_stream mem i frame retain (bytes, control, rs, ts) e = Some (e', r)"
  shows "flight_inv e'"
proof -
  let ?n = "length bytes" and ?p = "ep_paths e ! i"
  obtain p1 paced where p1: "can_send_paced ?n (send_clock ?p) ?p = (p1, paced)" by (rule prod.exhaust)
  obtain p2 reserved where p2: "try_reserve_pacing ?n (send_clock ?p) p1 = (p2, reserved)" by (rule prod.exhaust)
  note f1 = paced_eq(1) [OF p1] and f2 = paced_eq(2) [OF p2]
  have e2: "flight_inv (upd_path i (\<lambda>_. p2) e)" "flight_inv (upd_path i (\<lambda>_. p1) e)"
    using f1 f2 inv i by (auto intro: flight_inv_refused)
  consider "e' = upd_path i (\<lambda>_. p1) e" | "e' = upd_path i (\<lambda>_. p2) e"
    | f r' where "commit_stream i frame rs ts ?n retain control ((upd_path i (\<lambda>_. p2) e)\<lparr>ep_send := f\<rparr>) = Some (e', r')"
    using r by (auto simp: send_stream_def p1 p2 Let_def upd_path_upd_path split: if_splits sum.splits)
  then show ?thesis
  proof cases
    case 3
    let ?d = "(upd_path i (\<lambda>_. p2) e)\<lparr>ep_send := f\<rparr>"
    have "flight_of ?p + ?n \<le> u64_max" "next_send_order ?p < u64_max"
      using room_fit [OF room i prepare_stream_cap(1) [OF pre]] room i by (auto simp: room_def)
    moreover have "ep_paths ?d ! i = p2" using i by (simp add: upd_path_def)
    moreover have "flight_inv ?d" by (rule quiet_inv [OF _ e2(1)]) (simp add: quiet_def)
    ultimately show ?thesis
      using f1 f2 i prepare_stream_cap(2,3) [OF pre] 3
      by (intro commit_stream_flight [of ?d i ?n ts frame rs retain control e' r']) simp_all
  qed (use e2 in simp_all)
qed

lemma stream_flight:
  assumes "flight_inv e" "room cap e" "encode_stream_packet_on_path_inner P mem i dcid frame cap retain e = Some (e', r)"
  shows "flight_inv e'"
proof (cases "e' = e")
  case False
  with assms(3) have i: "i < length (ep_paths e)"
    by (auto simp: encode_stream_packet_on_path_inner_def split: if_splits)
  obtain bytes control rs ts where "prepare_stream i dcid frame cap e = Inr (bytes, control, rs, ts)"
      "send_stream mem i frame retain (bytes, control, rs, ts) e = Some (e', r)"
    using assms(3) False by (auto simp: encode_stream_packet_on_path_inner_def split: if_splits sum.splits)
  then show ?thesis by (rule send_stream_flight [OF assms(1) i assms(2)])
qed (use assms(1) in simp)

lemma commit_copy_flight:
  assumes inv: "flight_inv e" and i: "i < length (ep_paths e)" and p: "flight_of p = flight_of (ep_paths e ! i) + n"
    and fit: "flight_of p \<le> u64_max" and ord: "next_send_order p < u64_max"
    and slot: "slot < length (ep_sent_packets e)" "\<And>j. slot_bytes j (ep_sent_packets e ! slot) = 0"
    and r: "commit_copy i sent rs slot evict budgeted frame logical n (upd_path i (\<lambda>_. p) e) = Some (e', r)"
  shows "flight_inv e'"
proof -
  let ?e = "upd_path i (\<lambda>_. p) e"
  have pi: "ep_paths ?e ! i = p" using i by (simp add: upd_path_def)
  obtain p1 order where a: "assign_send_order p = (p1, Inr order)" using assigned_ok [OF ord] by blast
  let ?pn = "ep_next_packet_number ?e"
  let ?e1 = "(upd_path i (\<lambda>_. p1) ?e)\<lparr>ep_next_packet_number := ?pn + 1\<rparr>"
  define e2 where "e2 = (if evict then ?e1\<lparr>ep_send_buffer := (ep_send_buffer ?e1)[rs :=
      map_option (add_prior_packet (lineage_of sent)) (ep_send_buffer ?e1 ! rs)]\<rparr> else ?e1)"
  define copy where "copy = (new_sent ?pn i order n (send_clock p1) (limited_by_window (congestion p) n))\<lparr>sp_stream_id := sf_id frame,
      sp_offset := sf_offset frame, sp_data_len := length (sf_data frame), sp_fin := sf_fin frame, send_buffer_slot := Some rs,
      rtt_eligible := True, logical_packet_number := logical, duplication_charge := (if budgeted then n else 0), data_delivered := False\<rparr>"
  define e4 where "e4 = (if budgeted then (put_sent slot copy e2)\<lparr>ep_duplication_reserved_bytes :=
      sat_add64 (ep_duplication_reserved_bytes (put_sent slot copy e2)) n\<rparr> else put_sent slot copy e2)"
  have step: "map_option (\<lambda>e5. (count_sent_stream e5, Inr ?pn))
      (record_congestion_packet i ?pn (send_clock p1) n (logical \<noteq> ?pn) True e4) = Some (e', r)"
    using r unfolding commit_copy_def Let_def pi a prod.case sum.case e4_def e2_def copy_def by simp
  then obtain e5 where e5: "record_congestion_packet i ?pn (send_clock p1) n (logical \<noteq> ?pn) True e4 = Some e5" "e' = count_sent_stream e5"
    by auto
  have q: "quiet (upd_path i (\<lambda>_. p1) ?e) e2" by (simp add: e2_def quiet_def)
  have "added slot i n (upd_path i (\<lambda>_. p1) ?e) (put_sent slot copy e2)"
    by (rule added_put [OF _ _ _ _ q]) (simp_all add: copy_def new_sent_def)
  moreover have "quiet (put_sent slot copy e2) e4" by (simp add: e4_def quiet_def)
  moreover have "quiet e4 e'" using record_congestion_quiet [OF e5(1)] by (simp add: e5(2) count_sent_stream_def)
  ultimately have "added slot i n (upd_path i (\<lambda>_. p1) e) e'" unfolding upd_path_upd_path by (blast intro: added_quiet)
  then show ?thesis
    by (rule added_inv [OF inv i slot(1), where p = p1, rotated]) (use slot p fit assigned_eq [OF a] in simp_all)
qed


lemma copy_bytes_cap: "copy_bytes dcid frame cap e = Inr bs \<Longrightarrow> length bs \<le> cap"
  unfolding copy_bytes_def by (auto dest!: short_encode_cap frame_encode_cap)

lemma copy_slot_free:
  assumes "copy_slot index sent e = Inr (slot, evict)" "sent_lookup pn e = Some (index, sent)"
  shows "slot < length (ep_sent_packets e) \<and> slot_bytes j (ep_sent_packets e ! slot) = 0"
  using assms sent_lookupD [OF assms(2)]
  by (auto simp: copy_slot_def split: option.splits if_splits dest!: free_slot_Some)

lemma plan_copy_free:
  assumes "plan_copy pn i cap budgeted e = Inr (Some plan)"
  shows "length (cp_bytes plan) \<le> cap" "cp_slot plan < length (ep_sent_packets e)" "slot_bytes j (ep_sent_packets e ! cp_slot plan) = 0"
proof -
  from assms obtain index sent peer range_slot r frame where
      l: "sent_lookup pn e = Some (index, sent)" and f: "plan_frame index sent range_slot r peer frame cap e = Inr (Some plan)"
    by (auto simp: plan_copy_def split: option.splits prod.splits if_splits)
  from f obtain slot evict where "copy_slot index sent e = Inr (slot, evict)" "copy_bytes peer frame cap e = Inr (cp_bytes plan)"
      "cp_slot plan = slot"
    by (auto simp: plan_frame_def)
  with copy_slot_free [OF _ l] copy_bytes_cap show "length (cp_bytes plan) \<le> cap" "cp_slot plan < length (ep_sent_packets e)"
    "slot_bytes j (ep_sent_packets e ! cp_slot plan) = 0" by auto
qed

lemma retransmit_flight:
  assumes inv: "flight_inv e" and room: "room cap e"
    and r: "retransmit_stream_packet_with_probe pn i cap overrun budgeted e = Some (e', r)"
  shows "flight_inv e'"
proof (cases "e' = e")
  case False
  with r have i: "i < length (ep_paths e)" by (auto simp: retransmit_stream_packet_with_probe_def split: if_splits)
  obtain plan where plan: "plan_copy pn i cap budgeted e = Inr (Some plan)"
    using r False i by (auto simp: retransmit_stream_packet_with_probe_def split: sum.splits option.splits)
  let ?n = "length (cp_bytes plan)" and ?p = "ep_paths e ! i"
  note free = plan_copy_free [OF plan]
  obtain p1 sent where c: "reserve_copy overrun ?n ?p = (p1, sent)" by (rule prod.exhaust)
  have fit: "flight_of ?p + ?n \<le> u64_max" "next_send_order ?p < u64_max"
    using room_fit [OF room i free(1)] room i by (auto simp: room_def)
  note f = reserve_copy_flight [OF c fit(1)]
  show ?thesis
  proof (cases sent)
    case False
    then have "e' = upd_path i (\<lambda>_. p1) e" using r \<open>e' \<noteq> e\<close> i plan c
      by (auto simp: retransmit_stream_packet_with_probe_def Let_def split: if_splits)
    then show ?thesis using f False inv i by (simp add: flight_inv_refused)
  next
    case True
    then obtain r' where "commit_copy i (cp_sent plan) (cp_range_slot plan) (cp_slot plan) (cp_evict plan) budgeted (cp_frame plan)
        (cp_logical plan) ?n (upd_path i (\<lambda>_. p1) e) = Some (e', r')"
      using r \<open>e' \<noteq> e\<close> i plan c by (auto simp: retransmit_stream_packet_with_probe_def Let_def split: if_splits)
    then show ?thesis
      by (rule commit_copy_flight [OF inv i, rotated -1]) (use f True fit free in simp_all)
  qed
qed (use inv in simp)

end
