(* ===== verification/Endpoint_Timers.thy ===== *)
theory Endpoint_Timers
  imports Endpoint_Send
begin

text \<open>
  The timers of an association endpoint: the next deadline it asks its bearer to wake it for, and what it
  does when it is woken, the repair of packets declared lost and the probe of a flight whose timeout has
  passed.
\<close>

section \<open>Lost packets that still have something to repair\<close>

text \<open>\<^verbatim>\<open>Iterator::min_by_key\<close>: the first of the smallest; \<^verbatim>\<open>min\<close> of the deadlines that are set.\<close>

fun min_by_key :: "('a \<Rightarrow> nat) \<Rightarrow> 'a list \<Rightarrow> 'a option" where
  "min_by_key key [] = None"
| "min_by_key key (x # xs) = (case min_by_key key xs of
     None \<Rightarrow> Some x
   | Some y \<Rightarrow> if key x \<le> key y then Some x else Some y)"

definition soonest :: "u64 option list \<Rightarrow> u64 option" where
  "soonest deadlines = min_by_key id (List.map_filter id deadlines)"

definition range_pending :: "RetainedSendRange \<Rightarrow> bool" where
  "range_pending r \<longleftrightarrow> payload r \<noteq> None \<or> pool_payload r \<noteq> None \<or> rs_fin r \<and> \<not> fin_acked r"

definition slot_pending :: "EndpointState \<Rightarrow> SentPacket \<Rightarrow> bool" where
  "slot_pending e packet = (case send_range_at e (send_buffer_slot packet) of None \<Rightarrow> False | Some r \<Rightarrow> range_pending r)"

definition ledger :: "EndpointState \<Rightarrow> SentPacket list" where
  "ledger e = List.map_filter id (ep_sent_packets e)"

definition newer_transmission_covers_retransmission_head :: "EndpointState \<Rightarrow> SentPacket \<Rightarrow> bool" where
  "newer_transmission_covers_retransmission_head e packet = (case send_range_at e (send_buffer_slot packet) of
     None \<Rightarrow> False
   | Some r \<Rightarrow>
       let live = (\<lambda>newer. send_buffer_slot newer = send_buffer_slot packet
             \<and> sp_packet_number packet < sp_packet_number newer \<and> accepted newer \<and> \<not> lost newer)
       in case first_unacknowledged_run r of
            None \<Rightarrow> rs_fin r \<and> \<not> fin_acked r \<and> (\<exists>newer \<in> set (ledger e). live newer \<and> sp_fin newer
              \<and> sat_add64 (sp_offset newer) (sp_data_len newer) = sat_add64 (rs_offset r) (rs_data_len r))
          | Some (start, _) \<Rightarrow> \<exists>newer \<in> set (ledger e). live newer \<and> sp_offset newer \<le> sat_add64 (rs_offset r) start
              \<and> sat_add64 (rs_offset r) start < sat_add64 (sp_offset newer) (sp_data_len newer))"

definition repairable :: "EndpointState \<Rightarrow> SentPacket \<Rightarrow> bool" where
  "repairable e packet \<longleftrightarrow> lost packet \<and> accepted packet \<and> (\<not> data_delivered packet \<or> sp_fin packet)
     \<and> \<not> newer_transmission_covers_retransmission_head e packet \<and> slot_pending e packet"

definition has_retransmittable_loss :: "EndpointState \<Rightarrow> bool" where
  "has_retransmittable_loss e \<longleftrightarrow> (\<exists>packet \<in> set (ledger e). repairable e packet)"

section \<open>The next deadline\<close>

definition pto_interval :: "EndpointState \<Rightarrow> usize \<Rightarrow> u64" where
  "pto_interval e i = sat_mul64 (pto_timeout_for_path e i)
     (push_bit (min (pto_backoff (ep_paths e ! i)) MAX_PTO_BACKOFF_EXPONENT) 1)"

definition ack_deadline :: "EndpointState \<Rightarrow> usize \<Rightarrow> u64 option" where
  "ack_deadline e i = (let p = ep_paths e ! i in
     if ack_immediate p \<or> ack_pending p \<and> ep_ack_frequency e \<le> ack_packets p
        \<or> i = 0 \<and> (ep_control_pending e \<or> ep_pending_ack_frequency e \<noteq> None)
     then Some (send_clock p)
     else if ack_pending p then Some (sat_add64 (ack_started_at p) (ep_max_ack_delay_us e))
     else None)"

definition credit_deadline :: "EndpointState \<Rightarrow> u64 option" where
  "credit_deadline e = (if ep_credit_pending e then Some (sat_add64 (ep_last_ack_time e) (credit_interval e)) else None)"

definition status_deadline :: "EndpointState \<Rightarrow> u64 option" where
  "status_deadline e =
     (if list_ex (\<lambda>p. pending_local_status p \<noteq> None) (ep_paths e) \<and> status_egress_path e \<noteq> None
      then soonest (map status_retry_at_us (ep_paths e)) else None)"

definition loss_deadline :: "EndpointState \<Rightarrow> u64 option list \<Rightarrow> usize \<Rightarrow> u64 option" where
  "loss_deadline e loss_sent i =
     map_option (\<lambda>at. sat_add64 at (loss_delay_us (ep_peer_max_ack_delay_us e) (ep_paths e ! i))) (loss_sent ! i)"

definition pto_deadline :: "EndpointState \<Rightarrow> u64 option list \<Rightarrow> usize \<Rightarrow> u64 option" where
  "pto_deadline e earliest_sent i =
     map_option (\<lambda>at. sat_add64 (case last_pto_probe_at (ep_paths e ! i) of None \<Rightarrow> at | Some last' \<Rightarrow> last') (pto_interval e i))
       (earliest_sent ! i)"

definition loss_retransmission_deadline :: "EndpointState \<Rightarrow> bool \<Rightarrow> u64 option" where
  "loss_retransmission_deadline e candidate =
     (if candidate \<and> has_retransmittable_loss e
         \<and> list_ex (\<lambda>i. is_usable_for_data (ep_paths e ! i) \<and> peer_connection_id_on_path e i \<noteq> None
              \<and> cc_can_send (congestion (ep_paths e ! i)) (max_packet_size (congestion (ep_paths e ! i)))) [0..<length (ep_paths e)]
      then Some (case soonest (map (\<lambda>p. Some (send_clock p)) (filter is_usable_for_data (ep_paths e))) of None \<Rightarrow> 0 | Some t \<Rightarrow> t)
      else None)"

text \<open>\<open>None\<close> is the panic of the fixed arrays of timer heads.\<close>

definition next_bearer_deadline :: "EndpointState \<Rightarrow> u64 option option" where
  "next_bearer_deadline e = map_option (\<lambda>(earliest_sent, loss_sent, candidate).
     let is = [0..<length (ep_paths e)] in
     soonest (map (ack_deadline e) is @ [credit_deadline e, status_deadline e] @ map pacing_deadline_us (ep_paths e)
       @ map (loss_deadline e loss_sent) is @ [loss_retransmission_deadline e candidate]
       @ map (pto_deadline e earliest_sent) is))
     (packet_timer_heads (ep_paths e) (ledger e))"

section \<open>Repair of declared losses\<close>

text \<open>The paths in the order they are tried: other paths first, then by round-trip time, then by index.\<close>

type_synonym path_key = "nat \<times> u32 \<times> usize"

definition key_before :: "path_key \<Rightarrow> path_key \<Rightarrow> bool" where
  "key_before a b = (case (a, b) of ((s, r, i), (s', r', i')) \<Rightarrow>
     s < s' \<or> s = s' \<and> (r < r' \<or> r = r' \<and> i < i'))"

definition insert_key :: "path_key \<Rightarrow> path_key list \<Rightarrow> path_key list" where
  "insert_key key keys = (let shifted = takeWhile (key_before key) (rev keys) in
     take (length keys - length shifted) keys @ key # rev shifted)"

definition repair_paths :: "usize \<Rightarrow> EndpointState \<Rightarrow> usize list" where
  "repair_paths source e = map (\<lambda>(_, _, i). i) (fold (\<lambda>i keys.
     let p = ep_paths e ! i in
     if \<not> is_usable_for_data p \<or> peer_connection_id_on_path e i = None then keys
     else insert_key (if i = source then 1 else 0, min (case smoothed_rtt (rtt p) of None \<Rightarrow> 500000 | Some r \<Rightarrow> r) u32_max, i) keys) [0..<length (ep_paths e)] [])"

fun repair_on :: "u32 \<Rightarrow> nat \<Rightarrow> usize list \<Rightarrow> EndpointState \<Rightarrow> (EndpointState \<times> (u8 list \<times> u32) option result) option" where
  "repair_on pn cap [] e = Some (e, Inr None)"
| "repair_on pn cap (i # is) e = (case retransmit_stream_packet_with_probe pn i cap False False e of
     None \<Rightarrow> None
   | Some (e1, Inl err) \<Rightarrow> Some (e1, Inl err)
   | Some (e1, Inr (Some sent)) \<Rightarrow>
       Some (record_retransmission i (upd_stats (\<lambda>s. s\<lparr>ts_loss_retransmitted_packets := sat_add64 (ts_loss_retransmitted_packets s) 1\<rparr>) e1),
             Inr (Some sent))
   | Some (e1, Inr None) \<Rightarrow> repair_on pn cap is e1)"

definition retransmit_marked_loss :: "nat \<Rightarrow> EndpointState \<Rightarrow> (EndpointState \<times> (u8 list \<times> u32) option result) option" where
  "retransmit_marked_loss cap e = (case min_by_key sent_at (filter (repairable e) (ledger e)) of
     None \<Rightarrow> Some (e, Inr None)
   | Some packet \<Rightarrow> repair_on (sp_packet_number packet) cap (repair_paths (path_id packet) e) e)"

section \<open>Probes\<close>

definition probed :: "u64 \<Rightarrow> PathState \<Rightarrow> PathState" where
  "probed now p = p\<lparr>last_pto_probe_at := Some now, pto_backoff := min (sat_add8 (pto_backoff p) 1) MAX_PTO_BACKOFF_EXPONENT\<rparr>"

definition flight_due :: "u64 \<Rightarrow> EndpointState \<Rightarrow> usize \<Rightarrow> bool" where
  "flight_due now e i = (case soonest (map (\<lambda>packet. Some (sent_at packet))
       (filter (\<lambda>packet. path_id packet = i \<and> accepted packet \<and> \<not> lost packet) (ledger e))) of
     None \<Rightarrow> False
   | Some at \<Rightarrow> sat_add64 (case last_pto_probe_at (ep_paths e ! i) of None \<Rightarrow> at | Some last' \<Rightarrow> last') (pto_interval e i) \<le> now)"

definition probe_delivered_flight :: "u64 \<Rightarrow> nat \<Rightarrow> EndpointState \<Rightarrow> (EndpointState \<times> (u8 list \<times> u32) option result) option" where
  "probe_delivered_flight now cap e = (case find (flight_due now e) [0..<length (ep_paths e)] of
     None \<Rightarrow> Some (e, Inr None)
   | Some i \<Rightarrow> (case peer_connection_id_on_path e i of
       None \<Rightarrow> Some (e, Inr None)
     | Some destination \<Rightarrow> map_option (\<lambda>r. bindS r (\<lambda>e1 bytes.
           (upd_path i (probed now) e1, Inr (Some (bytes, ep_next_packet_number e)))))
         (encode_path_control_packet_inner i destination Ping cap True e)))"

definition pto_due :: "u64 \<Rightarrow> EndpointState \<Rightarrow> SentPacket \<Rightarrow> bool" where
  "pto_due now e packet \<longleftrightarrow> \<not> lost packet \<and> accepted packet \<and> (\<not> data_delivered packet \<or> sp_fin packet)
     \<and> pto_timeout_for_path e (path_id packet) \<le> now - sent_at packet
     \<and> (case last_pto_probe_at (ep_paths e ! path_id packet) of
          None \<Rightarrow> True | Some last' \<Rightarrow> pto_interval e (path_id packet) \<le> now - last')
     \<and> slot_pending e packet"

definition probe_path :: "usize \<Rightarrow> EndpointState \<Rightarrow> usize" where
  "probe_path source e =
     (case min_by_key (\<lambda>i. measured_send_cost_us (ep_paths e ! i))
        (filter (\<lambda>i. i \<noteq> source \<and> is_usable_for_data (ep_paths e ! i) \<and> peer_connection_id_on_path e i \<noteq> None)
           [0..<length (ep_paths e)]) of
        None \<Rightarrow> source | Some i \<Rightarrow> i)"

text \<open>\<open>None\<close> is also the panic of \<^verbatim>\<open>self.paths[packet.path_id]\<close> for a record of a path that is gone.\<close>

definition retransmit_pto_probe :: "u64 \<Rightarrow> nat \<Rightarrow> EndpointState \<Rightarrow> (EndpointState \<times> (u8 list \<times> u32) option result) option" where
  "retransmit_pto_probe now cap e =
     (if \<not> list_all (\<lambda>packet. path_id packet < length (ep_paths e)) (ledger e) then None
      else (case min_by_key sent_at (filter (pto_due now e) (ledger e)) of
          None \<Rightarrow> probe_delivered_flight now cap e
        | Some candidate \<Rightarrow>
            let pn = sp_packet_number candidate;
                source = (case find (\<lambda>packet. sp_packet_number packet = pn) (ledger e) of None \<Rightarrow> 0 | Some packet \<Rightarrow> path_id packet);
                i = probe_path source e
            in after_copy (\<lambda>e1. upd_path source (probed now) (record_retransmission i
                 (upd_stats (\<lambda>s. s\<lparr>ts_pto_retransmitted_packets := sat_add64 (ts_pto_retransmitted_packets s) 1\<rparr>) e1)))
                 (retransmit_stream_packet_with_probe pn i cap True False e)))"

definition detect_all_losses :: "EndpointState \<Rightarrow> EndpointState" where
  "detect_all_losses e = fold (\<lambda>i e. detect_ack_losses i (largest_acked_send_order (ep_paths e ! i)) e) [0..<length (ep_paths e)] e"

definition retransmit_due :: "u64 \<Rightarrow> nat \<Rightarrow> EndpointState \<Rightarrow> (EndpointState \<times> (u8 list \<times> u32) option result) option" where
  "retransmit_due now cap e = (case retransmit_marked_loss cap (detect_all_losses (ep_set_time now e)) of
     Some (e1, Inr None) \<Rightarrow> retransmit_pto_probe now cap e1
   | r \<Rightarrow> r)"


section \<open>Flight through repair and probes\<close>

lemma refused_copy:
  assumes "retransmit_stream_packet_with_probe pn i cap overrun budgeted e = Some (e', Inr None)" "room cap e" "flight_inv e"
  shows "room cap e'"
proof (cases "e' = e")
  case False
  with assms(1) have i: "i < length (ep_paths e)" by (auto simp: retransmit_stream_packet_with_probe_def split: if_splits)
  from assms(1) False obtain plan p1 where plan: "plan_copy pn i cap budgeted e = Inr (Some plan)"
      and p1: "reserve_copy overrun (length (cp_bytes plan)) (ep_paths e ! i) = (p1, False)" "e' = upd_path i (\<lambda>_. p1) e"
    by (auto simp: retransmit_stream_packet_with_probe_def Let_def split: if_splits sum.splits option.splits prod.splits bool.splits)
  have "flight_of p1 = flight_of (ep_paths e ! i) \<and> next_send_order p1 = next_send_order (ep_paths e ! i)"
    using reserve_copy_flight [OF p1(1)] room_fit [OF assms(2) i plan_copy_free(1) [OF plan]] by simp
  moreover have "flight_of (ep_paths e ! i) + cap \<le> u64_max \<and> next_send_order (ep_paths e ! i) < u64_max"
    using assms(2) i by (simp add: room_def)
  ultimately show ?thesis using assms(2) unfolding room_def p1(2) upd_path_def by (auto dest!: subsetD [OF set_update_subset_insert])
qed (use assms(2) in simp)

lemma record_retransmission_quiet: "quiet e (record_retransmission i e)"
  by (auto simp: record_retransmission_def Let_def flight_of_def intro!: quiet_trans [OF _ quiet_upd_path])

lemma probed_quiet: "quiet e (upd_path i (probed now) e)"
  by (rule quiet_upd_path) (simp add: probed_def flight_of_def)

lemma repair_on_flight:
  "repair_on pn cap is e = Some (e', r) \<Longrightarrow> flight_inv e \<Longrightarrow> room cap e \<Longrightarrow> flight_inv e'"
proof (induction "is" arbitrary: e)
  case (Cons i "is")
  obtain e1 r1 where r1: "retransmit_stream_packet_with_probe pn i cap False False e = Some (e1, r1)"
    using Cons.prems(1) by (cases "retransmit_stream_packet_with_probe pn i cap False False e") auto
  note inv = retransmit_flight [OF Cons.prems(2,3) r1]
  consider err where "r1 = Inl err" | "r1 = Inr None" | sent where "r1 = Inr (Some sent)"
    by (metis option.exhaust sum.exhaust)
  then show ?case
  proof cases
    case 1 then show ?thesis using Cons.prems(1) r1 inv by simp
  next
    case 2 then show ?thesis using Cons.IH [of e1] Cons.prems r1 inv refused_copy [of pn i cap False False e e1] by simp
  next
    case (3 sent)
    then have "e' = record_retransmission i (upd_stats (\<lambda>s. s\<lparr>ts_loss_retransmitted_packets :=
        sat_add64 (ts_loss_retransmitted_packets s) 1\<rparr>) e1)" using Cons.prems(1) r1 by simp
    then show ?thesis using inv by (auto intro: quiet_inv [OF quiet_trans [OF quiet_stats(1) record_retransmission_quiet]])
  qed
qed simp

lemma marked_loss_flight:
  "retransmit_marked_loss cap e = Some (e', r) \<Longrightarrow> flight_inv e \<Longrightarrow> room cap e \<Longrightarrow> flight_inv e'"
  by (auto simp: retransmit_marked_loss_def split: option.splits intro: repair_on_flight)

lemma repair_on_room:
  "repair_on pn cap is e = Some (e', Inr None) \<Longrightarrow> flight_inv e \<Longrightarrow> room cap e \<Longrightarrow> room cap e'"
proof (induction "is" arbitrary: e)
  case (Cons i "is")
  obtain e1 where r1: "retransmit_stream_packet_with_probe pn i cap False False e = Some (e1, Inr None)"
      "repair_on pn cap is e1 = Some (e', Inr None)"
    using Cons.prems(1) by (auto split: option.splits sum.splits prod.splits)
  then show ?case using Cons.IH Cons.prems retransmit_flight refused_copy by blast
qed simp

lemma after_copy_Some:
  "after_copy f m = Some (e', r) \<Longrightarrow> \<exists>e1. m = Some (e1, r) \<and> (e' = e1 \<or> e' = f e1)"
  by (cases m) (auto simp: after_copy_def split: sum.split_asm option.split_asm)

lemma bindS_Some:
  assumes "map_option (\<lambda>r. bindS r f) m = Some (e', r)"
  obtains e1 err where "m = Some (e1, Inl err)" "e' = e1" | e1 x where "m = Some (e1, Inr x)" "f e1 x = (e', r)"
  using assms that by (cases m) (auto simp: bindS_def split: sum.split_asm)

lemma delivered_flight_flight:
  assumes "probe_delivered_flight now cap e = Some (e', r)" "flight_inv e" "room cap e"
  shows "flight_inv e'"
proof -
  show ?thesis
  proof (cases "e' = e")
    case False
    with assms(1) obtain i d where "map_option (\<lambda>r. bindS r (\<lambda>e1 bytes. (upd_path i (probed now) e1,
        Inr (Some (bytes, ep_next_packet_number e))))) (encode_path_control_packet_inner i d Ping cap True e) = Some (e', r)"
      unfolding probe_delivered_flight_def by (auto split: option.split_asm simp del: map_option_eq_Some)
    then show ?thesis
      by (rule bindS_Some) (use assms(2,3) path_control_flight probed_quiet quiet_inv in \<open>auto, blast+\<close>)
  qed (use assms(2) in simp)
qed

lemma pto_probe_flight:
  assumes "retransmit_pto_probe now cap e = Some (e', r)" "flight_inv e" "room cap e"
  shows "flight_inv e'"
proof -
  from assms(1) consider "probe_delivered_flight now cap e = Some (e', r)"
    | pn i src f where "after_copy (\<lambda>e1. upd_path src (probed now) (record_retransmission i (upd_stats f e1)))
        (retransmit_stream_packet_with_probe pn i cap True False e) = Some (e', r)"
    unfolding retransmit_pto_probe_def Let_def by (auto split: if_splits option.splits)
  then show ?thesis
  proof cases
    case 1 then show ?thesis using assms delivered_flight_flight by blast
  next
    case (2 pn i src f)
    then obtain e1 where e1: "retransmit_stream_packet_with_probe pn i cap True False e = Some (e1, r)"
        "e' = e1 \<or> e' = upd_path src (probed now) (record_retransmission i (upd_stats f e1))"
      using after_copy_Some by blast
    have "flight_inv e1" using retransmit_flight assms e1(1) by blast
    moreover have "quiet e1 (upd_path src (probed now) (record_retransmission i (upd_stats f e1)))"
      using quiet_trans quiet_stats(1) record_retransmission_quiet probed_quiet by meson
    ultimately show ?thesis using e1(2) quiet_inv by blast
  qed
qed

lemma loss_loop_frame:
  "loss_loop i la pt tt clock slots sc = (slots', sc') \<Longrightarrow> congestion (sc_path sc') = congestion (sc_path sc)
     \<and> next_send_order (sc_path sc') = next_send_order (sc_path sc)"
proof (induction slots arbitrary: sc slots')
  case (Cons slot slots)
  then show ?case
    by (auto simp: Let_def loss_step_def upd_event_def record_delivery_outcome_def trigger_estimator_step_def
        split: prod.splits option.splits if_splits dest!: Cons.IH)
qed auto

lemma room_detect:
  assumes "room cap e"
  shows "room cap (detect_ack_losses i la e)"
proof (cases "\<exists>a. la = Some a \<and> i < length (ep_paths e)")
  case False
  then show ?thesis using assms by (auto simp: detect_ack_losses_def path_get_def split: option.splits)
next
  case True
  then obtain a where a: "la = Some a" "i < length (ep_paths e)" by blast
  let ?p = "ep_paths e ! i"
  obtain slots sc where l: "loss_loop i a (packet_reordering_threshold ?p) (loss_delay_us (ep_peer_max_ack_delay_us e) ?p)
      (send_clock ?p) (ep_sent_packets e) \<lparr>sc_path = ?p, sc_stats = ep_stats e, sc_lost_bytes = 0, sc_largest_lost = None\<rparr> = (slots, sc)"
    by (rule prod.exhaust)
  note f = loss_loop_frame [OF l, simplified]
  obtain q where q: "ep_paths (detect_ack_losses i la e) = (ep_paths e)[i := q]" "flight_of q \<le> flight_of ?p"
      "next_send_order q = next_send_order ?p"
    using a(2) f unfolding a(1) detect_ack_losses_eq(1) [OF a(2) l] Let_def
    by (cases "sc_largest_lost sc") (auto simp: upd_path_def flight_of_def)
  have "flight_of ?p + cap \<le> u64_max \<and> next_send_order ?p < u64_max" using assms a(2) by (simp add: room_def)
  with q show ?thesis using assms by (auto simp: room_def dest!: subsetD [OF set_update_subset_insert])
qed

lemma detect_all_flight:
  assumes "flight_inv e" "room cap e"
  shows "flight_inv (detect_all_losses e) \<and> room cap (detect_all_losses e)"
proof -
  have "flight_inv (fold (\<lambda>i e. detect_ack_losses i (largest_acked_send_order (ep_paths e ! i)) e) is e)
      \<and> room cap (fold (\<lambda>i e. detect_ack_losses i (largest_acked_send_order (ep_paths e ! i)) e) is e)" for "is"
    using assms by (induction "is" arbitrary: e) (simp_all add: detect_ack_losses_flight room_detect)
  then show ?thesis unfolding detect_all_losses_def .
qed

lemma set_time_quiet: "quiet e (ep_set_time now e)"
  by (simp add: quiet_def ep_set_time_def flight_of_def)

lemma set_time_room: "room cap e \<Longrightarrow> room cap (ep_set_time now e)"
  by (auto simp: room_def ep_set_time_def flight_of_def)

lemma retransmit_due_flight:
  assumes "retransmit_due now cap e = Some (e', r)" "flight_inv e" "room cap e"
  shows "flight_inv e'"
proof -
  let ?d = "detect_all_losses (ep_set_time now e)"
  have d: "flight_inv ?d" "room cap ?d"
    using detect_all_flight [OF quiet_inv [OF set_time_quiet assms(2)] set_time_room [OF assms(3)]] by auto
  show ?thesis
  proof (cases "\<exists>e1. retransmit_marked_loss cap ?d = Some (e1, Inr None)")
    case True
    then obtain e1 where e1: "retransmit_marked_loss cap ?d = Some (e1, Inr None)" by blast
    have "room cap e1" using e1 d by (auto simp: retransmit_marked_loss_def split: option.splits intro: repair_on_room)
    then show ?thesis using assms(1) e1 d marked_loss_flight pto_probe_flight by (fastforce simp: retransmit_due_def)
  next
    case False
    then have "retransmit_marked_loss cap ?d = Some (e', r)"
      using assms(1) by (auto simp: retransmit_due_def split: option.splits prod.splits sum.splits)
    then show ?thesis using d by (rule marked_loss_flight)
  qed
qed

section \<open>The deadline is never late\<close>

lemma min_by_key_None [simp]: "min_by_key key xs = None \<longleftrightarrow> xs = []"
  by (cases xs) (auto split: option.splits)

lemma min_by_key_le: "min_by_key key xs = Some y \<Longrightarrow> x \<in> set xs \<Longrightarrow> key y \<le> key x"
  by (induction xs arbitrary: y) (auto split: option.splits if_splits)

lemma soonest_le:
  assumes "Some d \<in> set deadlines"
  obtains d' where "soonest deadlines = Some d'" "d' \<le> d"
proof -
  have d: "d \<in> set (List.map_filter id deadlines)" using assms by (force simp: List.map_filter_def)
  then have "List.map_filter id deadlines \<noteq> []" by auto
  then obtain d' where d': "soonest deadlines = Some d'" by (cases "soonest deadlines") (auto simp: soonest_def)
  moreover have "d' \<le> d" using min_by_key_le [OF d' [unfolded soonest_def] d] by simp
  ultimately show ?thesis by (rule that)
qed

lemma oldest_le:
  assumes "packet \<in> set packets" "Q packet"
  obtains t where "oldest Q packets = Some t" "t \<le> sent_at packet"
proof -
  have m: "sent_at packet \<in> set (map sent_at (filter Q packets))" using assms by auto
  show ?thesis
  proof (cases "map sent_at (filter Q packets)")
    case (Cons t ts)
    show ?thesis by (rule that [of "Min (set (t # ts))"]) (use m Cons in \<open>simp_all only: oldest_def list.case, auto\<close>)
  qed (use m in simp)
qed

lemma timer_heads_eq:
  assumes "length paths \<le> MAX_PATH_STATES"
  shows "packet_timer_heads paths packets = Some (map (\<lambda>i. oldest (in_flight paths i) packets) [0..<MAX_PATH_STATES],
    map (\<lambda>i. oldest (overtaken paths i) packets) [0..<MAX_PATH_STATES], \<exists>packet \<in> set packets. loss_candidate packet)"
  using timer_heads_loop_eq [OF assms, of "replicate MAX_PATH_STATES None" "replicate MAX_PATH_STATES None" packets False]
  by (simp add: packet_timer_heads_def head_fold_oldest [symmetric] cong: map_cong)

lemma in_map_upt: "i < n \<Longrightarrow> f i = x \<Longrightarrow> x \<in> set (map f [0..<n])"
  by auto

text \<open>Any of the deadlines bounds the one that is announced.\<close>

lemma next_deadline_le:
  assumes "length (ep_paths e) \<le> MAX_PATH_STATES"
    and "(\<exists>i < length (ep_paths e). ack_deadline e i = Some d) \<or> credit_deadline e = Some d \<or> status_deadline e = Some d
      \<or> (\<exists>i < length (ep_paths e). loss_deadline e (map (\<lambda>i. oldest (overtaken (ep_paths e) i) (ledger e)) [0..<MAX_PATH_STATES]) i = Some d)
      \<or> (\<exists>i < length (ep_paths e). pto_deadline e (map (\<lambda>i. oldest (in_flight (ep_paths e) i) (ledger e)) [0..<MAX_PATH_STATES]) i = Some d)"
  shows "\<exists>d'. next_bearer_deadline e = Some (Some d') \<and> d' \<le> d"
proof -
  have "Some d \<in> set (map (ack_deadline e) [0..<length (ep_paths e)] @ [credit_deadline e, status_deadline e] @ map pacing_deadline_us (ep_paths e)
      @ map (loss_deadline e (map (\<lambda>i. oldest (overtaken (ep_paths e) i) (ledger e)) [0..<MAX_PATH_STATES])) [0..<length (ep_paths e)]
      @ [loss_retransmission_deadline e (\<exists>packet \<in> set (ledger e). loss_candidate packet)]
      @ map (pto_deadline e (map (\<lambda>i. oldest (in_flight (ep_paths e) i) (ledger e)) [0..<MAX_PATH_STATES])) [0..<length (ep_paths e)])"
    using assms(2) unfolding set_append by (elim disjE exE conjE) (blast intro: in_map_upt | simp)+
  then obtain d' where "soonest (map (ack_deadline e) [0..<length (ep_paths e)] @ [credit_deadline e, status_deadline e] @ map pacing_deadline_us (ep_paths e)
      @ map (loss_deadline e (map (\<lambda>i. oldest (overtaken (ep_paths e) i) (ledger e)) [0..<MAX_PATH_STATES])) [0..<length (ep_paths e)]
      @ [loss_retransmission_deadline e (\<exists>packet \<in> set (ledger e). loss_candidate packet)]
      @ map (pto_deadline e (map (\<lambda>i. oldest (in_flight (ep_paths e) i) (ledger e)) [0..<MAX_PATH_STATES])) [0..<length (ep_paths e)]) = Some d'"
    "d' \<le> d" by (rule soonest_le)
  then show ?thesis unfolding next_bearer_deadline_def timer_heads_eq [OF assms(1)] by (simp add: Let_def)
qed

text \<open>What a clock never rewinds: every recorded time has passed, and a backoff belongs to a probe.\<close>

definition times_passed :: "u64 \<Rightarrow> EndpointState \<Rightarrow> bool" where
  "times_passed now e \<longleftrightarrow> now \<le> u64_max \<and> ep_last_ack_time e \<le> now \<and> (\<forall>packet \<in> set (ledger e). sent_at packet \<le> now)
     \<and> (\<forall>p \<in> set (ep_paths e). ack_started_at p \<le> now \<and> send_clock p \<le> now
          \<and> (case last_pto_probe_at p of None \<Rightarrow> pto_backoff p = 0 | Some t \<Rightarrow> t \<le> now))"

definition time_lost :: "u64 \<Rightarrow> EndpointState \<Rightarrow> SentPacket \<Rightarrow> bool" where
  "time_lost now e packet \<longleftrightarrow> overtaken (ep_paths e) (path_id packet) packet
     \<and> loss_delay_us (ep_peer_max_ack_delay_us e) (ep_paths e ! path_id packet) \<le> now - sent_at packet"

definition something_due :: "u64 \<Rightarrow> EndpointState \<Rightarrow> bool" where
  "something_due now e \<longleftrightarrow> pending_control_path (ep_set_time now e) \<noteq> None
     \<or> (\<exists>packet \<in> set (ledger e). pto_due now e packet \<or> time_lost now e packet)"

lemma sat_add_le_now: "d \<le> now - t \<Longrightarrow> t \<le> now \<Longrightarrow> now \<le> m \<Longrightarrow> sat_add m t d \<le> (now :: nat)"
  by (auto simp: sat_add_def)

lemma set_time_simps [simp]:
  "length (ep_paths (ep_set_time now e)) = length (ep_paths e)" "ledger (ep_set_time now e) = ledger e"
  "i < length (ep_paths e) \<Longrightarrow> ep_paths (ep_set_time now e) ! i = (ep_paths e ! i)\<lparr>send_clock := now\<rparr>"
  "ep_control_pending (ep_set_time now e) = ep_control_pending e" "ep_credit_pending (ep_set_time now e) = ep_credit_pending e"
  "ep_pending_ack_frequency (ep_set_time now e) = ep_pending_ack_frequency e" "ep_last_ack_time (ep_set_time now e) = ep_last_ack_time e"
  "ep_ack_frequency (ep_set_time now e) = ep_ack_frequency e" "ep_max_ack_delay_us (ep_set_time now e) = ep_max_ack_delay_us e"
  "pto_timeout_for_path (ep_set_time now e) i = pto_timeout_for_path e i" "credit_interval (ep_set_time now e) = credit_interval e"
  by (auto simp: ep_set_time_def ledger_def pto_timeout_for_path_def path_get_def credit_interval_def)

lemma control_wakeup:
  assumes "times_passed now e" "ep_paths e \<noteq> []" "pending_control_path (ep_set_time now e) \<noteq> None"
  shows "\<exists>d \<le> now. (\<exists>i < length (ep_paths e). ack_deadline e i = Some d) \<or> credit_deadline e = Some d"
proof -
  let ?e = "ep_set_time now e"
  have clock: "send_clock (ep_paths e ! i) \<le> now" "ack_started_at (ep_paths e ! i) \<le> now" if "i < length (ep_paths e)" for i
    using assms(1) that by (auto simp: times_passed_def)
  have now: "now \<le> u64_max" "ep_last_ack_time e \<le> now" using assms(1) by (auto simp: times_passed_def)
  have len: "0 < length (ep_paths e)" using assms(2) by simp
  obtain p0 ps where p0: "ep_paths e = p0 # ps" using assms(2) by (cases "ep_paths e") auto
  then have p0': "ep_paths ?e = p0\<lparr>send_clock := now\<rparr> # map (\<lambda>p. p\<lparr>send_clock := now\<rparr>) ps" by (simp add: ep_set_time_def)
  consider "ep_control_pending e \<or> ep_pending_ack_frequency e \<noteq> None"
    | i where "i < length (ep_paths e)" "ack_pending (ep_paths e ! i)"
        "ep_ack_frequency e \<le> ack_packets (ep_paths e ! i) \<or> ack_immediate (ep_paths e ! i)
           \<or> ep_max_ack_delay_us e \<le> now - ack_started_at (ep_paths e ! i)"
    | "ep_credit_pending e" "credit_interval e \<le> now - ep_last_ack_time e"
  proof -
    assume a: "ep_control_pending e \<or> ep_pending_ack_frequency e \<noteq> None \<Longrightarrow> thesis"
      and b: "\<And>i. i < length (ep_paths e) \<Longrightarrow> ack_pending (ep_paths e ! i) \<Longrightarrow>
        ep_ack_frequency e \<le> ack_packets (ep_paths e ! i) \<or> ack_immediate (ep_paths e ! i)
           \<or> ep_max_ack_delay_us e \<le> now - ack_started_at (ep_paths e ! i) \<Longrightarrow> thesis"
      and c: "ep_credit_pending e \<Longrightarrow> credit_interval e \<le> now - ep_last_ack_time e \<Longrightarrow> thesis"
    show thesis
    proof (cases "ep_control_pending e \<or> ep_pending_ack_frequency e \<noteq> None")
      case False
      then show thesis
      proof (cases "position (\<lambda>p. ack_pending p \<and> (ep_ack_frequency ?e \<le> ack_packets p \<or> ack_immediate p
                 \<or> ep_max_ack_delay_us ?e \<le> send_clock p - ack_started_at p)) (ep_paths ?e)")
        case None
        then have "ep_credit_pending e \<and> credit_interval e \<le> now - ep_last_ack_time e"
          using assms(3) False p0 p0' by (auto simp: pending_control_path_def split: if_splits)
        then show thesis using c by blast
      next
        case (Some i)
        then show thesis using b [of i] by (auto simp: position_Some)
      qed
    qed (rule a)
  qed
  then show ?thesis
  proof cases
    case 1
    then have "ack_deadline e 0 = Some (send_clock (ep_paths e ! 0))" by (auto simp: ack_deadline_def Let_def)
    then show ?thesis using clock [OF len] len by blast
  next
    case (2 i)
    show ?thesis
    proof (cases "ack_deadline e i = Some (send_clock (ep_paths e ! i))")
      case True
      then show ?thesis using clock [OF 2(1)] 2(1) by blast
    next
      case False
      then have "ack_deadline e i = Some (sat_add64 (ack_started_at (ep_paths e ! i)) (ep_max_ack_delay_us e))"
          "ep_max_ack_delay_us e \<le> now - ack_started_at (ep_paths e ! i)"
        using 2 by (auto simp: ack_deadline_def Let_def split: if_splits)
      then show ?thesis using sat_add_le_now clock(2) [OF 2(1)] now(1) 2(1) by blast
    qed
  next
    case 3
    then have "credit_deadline e = Some (sat_add64 (ep_last_ack_time e) (credit_interval e))" by (simp add: credit_deadline_def)
    then show ?thesis using sat_add_le_now 3(2) now by blast
  qed
qed

lemma ledger_wakeup:
  assumes "times_passed now e" "length (ep_paths e) \<le> MAX_PATH_STATES" "packet \<in> set (ledger e)" "path_id packet < length (ep_paths e)"
  shows "pto_due now e packet \<Longrightarrow> \<exists>d \<le> now. \<exists>i < length (ep_paths e).
      pto_deadline e (map (\<lambda>i. oldest (in_flight (ep_paths e) i) (ledger e)) [0..<MAX_PATH_STATES]) i = Some d"
    "time_lost now e packet \<Longrightarrow> \<exists>d \<le> now. \<exists>i < length (ep_paths e).
      loss_deadline e (map (\<lambda>i. oldest (overtaken (ep_paths e) i) (ledger e)) [0..<MAX_PATH_STATES]) i = Some d"
proof -
  let ?i = "path_id packet"
  have i: "?i < MAX_PATH_STATES" using assms(2,4) by simp
  have now: "now \<le> u64_max" "sent_at packet \<le> now" using assms(1,3) by (auto simp: times_passed_def)
  have probe: "case last_pto_probe_at (ep_paths e ! ?i) of None \<Rightarrow> pto_backoff (ep_paths e ! ?i) = 0 | Some t \<Rightarrow> t \<le> now"
    using assms(1) nth_mem [OF assms(4)] unfolding times_passed_def by blast
  show "\<exists>d \<le> now. \<exists>i < length (ep_paths e).
      pto_deadline e (map (\<lambda>i. oldest (in_flight (ep_paths e) i) (ledger e)) [0..<MAX_PATH_STATES]) i = Some d" if due: "pto_due now e packet"
  proof -
    have "in_flight (ep_paths e) ?i packet" using due assms(4) by (simp add: pto_due_def in_flight_def)
    then obtain t where t: "oldest (in_flight (ep_paths e) ?i) (ledger e) = Some t" "t \<le> sent_at packet"
      using oldest_le assms(3) by blast
    have le: "sat_add64 (case last_pto_probe_at (ep_paths e ! ?i) of None \<Rightarrow> t | Some l \<Rightarrow> l) (pto_interval e ?i) \<le> now"
    proof (cases "last_pto_probe_at (ep_paths e ! ?i)")
      case None
      then have "pto_backoff (ep_paths e ! ?i) = 0" using probe by simp
      then have "pto_interval e ?i \<le> now - t" using due t(2) now(2)
        by (auto simp: pto_due_def pto_interval_def sat_mul_def)
      then show ?thesis using None t(2) now sat_add_le_now [of "pto_interval e ?i" now t u64_max] by simp
    next
      case (Some l)
      moreover have "l \<le> now" using Some probe by simp
      ultimately show ?thesis using due now(1) sat_add_le_now [of "pto_interval e ?i" now l u64_max] by (simp add: pto_due_def)
    qed
    moreover have "pto_deadline e (map (\<lambda>i. oldest (in_flight (ep_paths e) i) (ledger e)) [0..<MAX_PATH_STATES]) ?i
        = Some (sat_add64 (case last_pto_probe_at (ep_paths e ! ?i) of None \<Rightarrow> t | Some l \<Rightarrow> l) (pto_interval e ?i))"
      using t(1) i by (simp add: pto_deadline_def)
    ultimately show ?thesis using assms(4) by blast
  qed
  show "\<exists>d \<le> now. \<exists>i < length (ep_paths e).
      loss_deadline e (map (\<lambda>i. oldest (overtaken (ep_paths e) i) (ledger e)) [0..<MAX_PATH_STATES]) i = Some d" if late: "time_lost now e packet"
  proof -
    obtain t where t: "oldest (overtaken (ep_paths e) ?i) (ledger e) = Some t" "t \<le> sent_at packet"
      using oldest_le [OF assms(3)] late by (auto simp: time_lost_def)
    have "loss_delay_us (ep_peer_max_ack_delay_us e) (ep_paths e ! ?i) \<le> now - t" using late t(2) by (auto simp: time_lost_def)
    then have "sat_add64 t (loss_delay_us (ep_peer_max_ack_delay_us e) (ep_paths e ! ?i)) \<le> now"
      using now t(2) by (intro sat_add_le_now) auto
    moreover have "loss_deadline e (map (\<lambda>i. oldest (overtaken (ep_paths e) i) (ledger e)) [0..<MAX_PATH_STATES]) ?i
        = Some (sat_add64 t (loss_delay_us (ep_peer_max_ack_delay_us e) (ep_paths e ! ?i)))"
      using t(1) i by (simp add: loss_deadline_def)
    ultimately show ?thesis using assms(4) by blast
  qed
qed


text \<open>A packet sent at 5 ms on a path without a round-trip sample is due for a probe after the initial timeout.\<close>

definition waiting_endpoint :: EndpointState where
  "waiting_endpoint = upd_path 0 (\<lambda>p. p\<lparr>send_clock := 5000, congestion := (congestion p)\<lparr>bytes_in_flight := sp_bytes (example_sent 0 5000)\<rparr>\<rparr>)
     (example_endpoint\<lparr>ep_sent_packets := [Some (example_sent 0 5000)],
        ep_send_buffer := [Some (new_range \<lparr>sf_id = 0, sf_offset = 0, sf_fin = False, sf_data = [1, 2]\<rparr> 0 True)]\<rparr>)"


end
