(* ===== verification/Endpoint_Receive.thy ===== *)
theory Endpoint_Receive
  imports Endpoint_Timers
begin

text \<open>
  The receive side of an association endpoint: a packet is decoded completely before anything changes; then
  its credit and acknowledgements are applied, a duplicate is only acknowledged again, and new stream data
  is admitted against the receive credit.
\<close>

section \<open>Credit from the peer\<close>

definition apply_flow :: "Frame \<Rightarrow> EndpointState \<Rightarrow> EndpointState \<times> unit result" where
  "apply_flow frame e = (case frame of
     MaxData m \<Rightarrow> (e\<lparr>ep_send := extend_connection m (ep_send e)\<rparr>, Inr ())
   | MaxStreamData i m \<Rightarrow>
       if is_retired (ep_receive e) i then (e, Inr ())
       else (case extend_stream i m (ep_send e) of Inl err \<Rightarrow> (e, Inl err) | Inr f \<Rightarrow> (e\<lparr>ep_send := f\<rparr>, Inr ()))
   | MaxStreamsBidi m \<Rightarrow> (e\<lparr>ep_peer_max_streams_bidi := max (ep_peer_max_streams_bidi e) m\<rparr>, Inr ())
   | MaxStreamsUni m \<Rightarrow> (e\<lparr>ep_peer_max_streams_uni := max (ep_peer_max_streams_uni e) m\<rparr>, Inr ())
   | _ \<Rightarrow> (e, Inr ()))"

function flow_loop :: "u8 list \<Rightarrow> EndpointState \<Rightarrow> EndpointState \<times> unit result" where
  "flow_loop input e =
     (if input = [] then (e, Inr ())
      else (case decode_frame input of
        Inl err \<Rightarrow> (e, Inl err)
      | Inr (frame, used) \<Rightarrow>
          if used = 0 then (e, Inl Invalid)
          else bindS (apply_flow frame e) (\<lambda>e1 _. flow_loop (drop used input) e1)))"
  by pat_completeness auto
termination
  by (relation "measure (\<lambda>(input, e). length input)") auto

declare flow_loop.simps [simp del]

definition receive_flow_control_packet :: "u8 list \<Rightarrow> EndpointState \<Rightarrow> EndpointState \<times> unit result" where
  "receive_flow_control_packet input e = (case short_decode False input of
     Inl err \<Rightarrow> (e, Inl err)
   | Inr (_, used) \<Rightarrow> flow_loop (drop used input) e)"

section \<open>Acknowledgements from the peer\<close>

definition add_ranges :: "ack_ranges \<Rightarrow> ack_ranges \<Rightarrow> ack_ranges" where
  "add_ranges ranges acked = fold (\<lambda>r acked. fst (ack_insert_range ACK_RANGE_CAPACITY r acked)) ranges acked"

definition mark_acked_events :: "ack_ranges \<Rightarrow> EndpointState \<Rightarrow> EndpointState" where
  "mark_acked_events acked e = e\<lparr>ep_paths := map (\<lambda>p. p\<lparr>congestion_history := map (\<lambda>event.
     if ch_accepted event \<and> ack_contains acked (ch_packet_number event) then event\<lparr>ch_acked := True\<rparr> else event)
       (congestion_history p)\<rparr>) (ep_paths e)\<rparr>"

definition credit_confirmed :: "ack_ranges \<Rightarrow> EndpointState \<Rightarrow> bool" where
  "credit_confirmed acked e = (case ep_credit_packet_number e of
     None \<Rightarrow> False
   | Some pn \<Rightarrow> ack_contains acked pn \<or> (\<exists>sent \<in> set (ledger e). accepted sent \<and> send_buffer_slot sent = None
       \<and> duplication_charge sent \<noteq> 0 \<and> logical_packet_number sent = pn \<and> ack_contains acked (sp_packet_number sent)))"

definition acknowledge_credit :: "usize \<Rightarrow> EndpointState \<Rightarrow> EndpointState" where
  "acknowledge_credit P e =
     (let e1 = e\<lparr>ep_credit_packet_number := None, ep_credit_retry_backoff := 0\<rparr> in
      if ep_credit_dirty e1
      then e1\<lparr>ep_credit_pending := True,
              ep_control_pending := (ep_control_pending e1 \<or> lim_max_stream_data (ep_receive_growth_limits e1) \<le> sat_mul64 P 2),
              ep_credit_inflight_stream_count := 0, ep_credit_inflight_max_streams_bidi := False\<rparr>
      else
        let ids = drop (min (ep_credit_inflight_stream_count e1) (length (ep_pending_stream_ids e1))) (ep_pending_stream_ids e1);
            bidi = (ep_max_streams_bidi_pending e1 \<and> \<not> ep_credit_inflight_max_streams_bidi e1);
            again = (ids \<noteq> [] \<or> bidi)
        in e1\<lparr>ep_pending_stream_ids := ids, ep_max_streams_bidi_pending := bidi, ep_credit_inflight_stream_count := 0,
              ep_credit_inflight_max_streams_bidi := False, ep_credit_pending := again,
              ep_control_pending := (ep_control_pending e1 \<or> again)\<rparr>)"

text \<open>What the pass over the ledger collects while it retires the acknowledged records.\<close>

record ack_scan =
  as_paths :: "PathState list"
  as_candidate :: "(u32 \<times> u64 option) option"
  as_progress :: "bool list"
  as_growth :: "u64 list"
  as_fins :: "(u64 \<times> u64) list"
  as_data :: "(u64 \<times> u64 \<times> usize) list"
  as_status :: "(CircuitKey \<times> u64) list"
  as_newly :: bool
  as_floor :: u32

definition delivered_path :: "SentPacket \<Rightarrow> PathState \<Rightarrow> PathState" where
  "delivered_path sent p =
     (let p1 = (if inferred_lost sent then record_spurious_loss_ack (send_order sent) (sent_at sent) p else p);
          p2 = record_delivery_outcome True (send_clock p1) (p1\<lparr>packets_acked := sat_add64 (packets_acked p1) 1\<rparr>)
      in p2\<lparr>last_ack_us := send_clock p2, largest_acked_packet := raise_to (sp_packet_number sent) (largest_acked_packet p2),
            largest_acked_send_order := raise_to (send_order sent) (largest_acked_send_order p2)\<rparr>)"

definition grows_window :: "SentPacket \<Rightarrow> PathState \<Rightarrow> bool" where
  "grows_window sent p \<longleftrightarrow> window_limited sent
     \<and> (case recovery_start_packet (congestion p) of None \<Rightarrow> True | Some start \<Rightarrow> start < sp_packet_number sent)"

definition rtt_candidate :: "usize \<Rightarrow> SentPacket \<Rightarrow> PathState \<Rightarrow> (u32 \<times> u64 option) option \<Rightarrow> (u32 \<times> u64 option) option" where
  "rtt_candidate ingress sent p candidate =
     (if rtt_eligible sent \<and> path_id sent = ingress \<and> (case candidate of None \<Rightarrow> True | Some (packet, _) \<Rightarrow> packet < sp_packet_number sent)
      then Some (sp_packet_number sent, if lost sent then None else Some (send_clock p - sent_at sent))
      else candidate)"

definition ack_step :: "usize \<Rightarrow> SentPacket \<Rightarrow> ack_scan \<Rightarrow> ack_scan" where
  "ack_step ingress sent sc =
     (let i = path_id sent;
          p = delivered_path sent (as_paths sc ! i);
          p' = (if lost sent then p else p\<lparr>congestion := on_ack_with_growth (sp_bytes sent) False (congestion p)\<rparr>)
      in \<lparr>as_paths = (as_paths sc)[i := p'],
          as_candidate = rtt_candidate ingress sent p (as_candidate sc),
          as_progress = (as_progress sc)[i := True],
          as_growth = (if \<not> lost sent \<and> grows_window sent p
            then (as_growth sc)[i := sat_add64 (as_growth sc ! i) (sp_bytes sent)] else as_growth sc),
          as_fins = (if send_buffer_slot sent \<noteq> None \<and> sp_fin sent
            then as_fins sc @ [(sp_stream_id sent, wrap_add64 (sp_offset sent) (sp_data_len sent))] else as_fins sc),
          as_data = (if send_buffer_slot sent \<noteq> None
            then as_data sc @ [(sp_stream_id sent, sp_offset sent, sp_data_len sent)] else as_data sc),
          as_status = as_status sc @ (case path_status sent of None \<Rightarrow> [] | Some status \<Rightarrow> [status]),
          as_newly = True,
          as_floor = (case ack_largest_received sent of None \<Rightarrow> as_floor sc | Some largest \<Rightarrow> max (as_floor sc) largest)\<rparr>)"

text \<open>\<open>None\<close> is the panic of \<^verbatim>\<open>self.paths[sent.path_id]\<close>.\<close>

fun ack_loop :: "ack_ranges \<Rightarrow> usize \<Rightarrow> SentPacket option list \<Rightarrow> ack_scan \<Rightarrow> (SentPacket option list \<times> ack_scan) option" where
  "ack_loop acked ingress [] sc = Some ([], sc)"
| "ack_loop acked ingress (slot # slots) sc =
     (if (case slot of None \<Rightarrow> False | Some sent \<Rightarrow> accepted sent \<and> ack_contains acked (sp_packet_number sent))
      then if length (as_paths sc) \<le> path_id (the slot) then None
        else map_option (\<lambda>(slots', sc'). (None # slots', sc')) (ack_loop acked ingress slots (ack_step ingress (the slot) sc))
      else map_option (\<lambda>(slots', sc'). (slot # slots', sc')) (ack_loop acked ingress slots sc))"

definition retire_received :: "u32 \<Rightarrow> EndpointState \<Rightarrow> EndpointState" where
  "retire_received confirmed e =
     (if ACK_RANGE_CAPACITY div 2 \<le> length (ep_received_packets e)
      then let floor = max (confirmed - ACK_RANGE_CAPACITY * 2) (ep_receive_packet_floor e)
           in e\<lparr>ep_receive_packet_floor := floor, ep_received_packets := ack_discard_below floor (ep_received_packets e)\<rparr>
      else e)"

definition grow_path :: "u64 \<Rightarrow> u128 \<Rightarrow> PathState \<Rightarrow> PathState" where
  "grow_path acked_bytes increase p =
     (let c = congestion p in
      if acked_bytes = 0 then p
      else if congestion_window c < slow_start_threshold c
      then p\<lparr>congestion := c\<lparr>congestion_window := sat_add64 (congestion_window c) acked_bytes\<rparr>, ca_remainder_q32 := 0\<rparr>
      else
        let accumulated = sat_add128 (ca_remainder_q32 p) increase
        in p\<lparr>congestion := c\<lparr>congestion_window := sat_add64 (congestion_window c) (min (drop_bit 32 accumulated) u64_max)\<rparr>,
             ca_remainder_q32 := accumulated mod 2 ^ 32\<rparr>)"

definition apply_ack_congestion_growth :: "u64 list \<Rightarrow> EndpointState \<Rightarrow> EndpointState" where
  "apply_ack_congestion_growth growth e =
     (let increase = map (\<lambda>i. let c = congestion (ep_paths e ! i) in
            if growth ! i \<noteq> 0 \<and> slow_start_threshold c \<le> congestion_window c
            then linked_congestion_increase_q32 (ep_paths e) i (growth ! i) else 0) [0..<length (ep_paths e)]
      in e\<lparr>ep_paths := map (\<lambda>i. grow_path (growth ! i) (increase ! i) (ep_paths e ! i)) [0..<length (ep_paths e)]\<rparr>)"

definition acknowledge_statuses :: "(CircuitKey \<times> u64) list \<Rightarrow> EndpointState \<Rightarrow> EndpointState" where
  "acknowledge_statuses statuses e = e\<lparr>ep_paths := fold (\<lambda>(key, seq) ps.
     update_first (\<lambda>p. circuit_key p = Some key) (acknowledge_status seq) ps) statuses (ep_paths e)\<rparr>"

text \<open>Records that were evicted from the ledger are known to the range they carried.\<close>

definition prior_acked :: "ack_ranges \<Rightarrow> EndpointState \<Rightarrow> (u64 \<times> PriorPacketLineage) list" where
  "prior_acked acked e = concat (map (\<lambda>r. map (\<lambda>prior. (rs_stream_id r, prior))
     (filter (\<lambda>prior. ack_contains acked (pl_packet_number prior)) (take (prior_packet_count r) (prior_packets r))))
     (List.map_filter id (ep_send_buffer e)))"

definition map_ranges :: "(RetainedSendRange \<Rightarrow> RetainedSendRange) \<Rightarrow> EndpointState \<Rightarrow> EndpointState" where
  "map_ranges f e = e\<lparr>ep_send_buffer := map (map_option f) (ep_send_buffer e)\<rparr>"

definition mark_data :: "u64 \<times> u64 \<times> usize \<Rightarrow> RetainedSendRange \<Rightarrow> RetainedSendRange" where
  "mark_data item r = (case item of (stream, off, len) \<Rightarrow>
     if rs_stream_id r \<noteq> stream then r else fst (mark_acknowledged off len r))"

definition mark_fin :: "u64 \<times> u64 \<Rightarrow> RetainedSendRange \<Rightarrow> RetainedSendRange" where
  "mark_fin item r = (case item of (stream, final) \<Rightarrow>
     if rs_stream_id r = stream \<and> rs_fin r \<and> wrap_add64 (rs_offset r) (rs_data_len r) = final then r\<lparr>fin_acked := True\<rparr> else r)"

definition drop_payload :: "RetainedSendRange \<Rightarrow> RetainedSendRange" where
  "drop_payload r = (if all_data_acknowledged r then r\<lparr>payload := None, pool_payload := None\<rparr> else r)"

definition fin_settled :: "RetainedSendRange \<Rightarrow> bool" where
  "fin_settled r \<longleftrightarrow> \<not> rs_fin r \<or> fin_acked r"

definition settle_slot :: "EndpointState \<Rightarrow> SentPacket option \<Rightarrow> SentPacket option" where
  "settle_slot e slot = (case slot of
     None \<Rightarrow> None
   | Some sent \<Rightarrow> (case send_buffer_slot sent of
       None \<Rightarrow> Some sent
     | Some k \<Rightarrow>
         let range = send_range_at e (Some k) in
         if (case range of None \<Rightarrow> True | Some r \<Rightarrow> all_data_acknowledged r)
         then let sent1 = sent\<lparr>data_delivered := True\<rparr> in
           if (case range of None \<Rightarrow> True | Some r \<Rightarrow> fin_settled r)
           then if lost sent1 then None else Some (sent1\<lparr>send_buffer_slot := None\<rparr>)
           else Some sent1
         else Some sent))"

definition retire_ranges :: "EndpointState \<Rightarrow> EndpointState" where
  "retire_ranges e = e\<lparr>ep_send_buffer := map (\<lambda>slot. case slot of
     None \<Rightarrow> None | Some r \<Rightarrow> if all_data_acknowledged r \<and> fin_settled r then None else Some r) (ep_send_buffer e)\<rparr>"

definition settle_streams :: "(u64 \<times> u64 \<times> usize) list \<Rightarrow> (u64 \<times> u64) list \<Rightarrow> EndpointState \<Rightarrow> EndpointState" where
  "settle_streams data fins e =
     (let e1 = map_ranges drop_payload (map_ranges (fold mark_fin fins) (map_ranges (fold mark_data data) e));
          e2 = retire_ranges (e1\<lparr>ep_sent_packets := map (settle_slot e1) (ep_sent_packets e1)\<rparr>)
      in fold try_retire_stream (map fst (remdups_adj (sort_key fst (sort_key snd fins)))) e2)"

definition end_pto_episode :: "bool list \<Rightarrow> EndpointState \<Rightarrow> EndpointState" where
  "end_pto_episode progress e = e\<lparr>ep_paths := map (\<lambda>i. let p = ep_paths e ! i in
     if progress ! i then p\<lparr>last_pto_probe_at := None, pto_backoff := 0\<rparr> else p) [0..<length (ep_paths e)]\<rparr>"

definition sample_rtt :: "usize \<Rightarrow> u64 \<Rightarrow> u64 \<Rightarrow> EndpointState \<Rightarrow> EndpointState" where
  "sample_rtt ingress reported sample e = upd_path ingress (\<lambda>p.
     let ack_delay = min reported (ep_peer_max_ack_delay_us e);
         adjusted = (case minimum_at (send_clock p) (rtt p) of
             Some m \<Rightarrow> if sat_add64 m ack_delay < sample then sample - ack_delay else sample
           | None \<Rightarrow> sample)
     in update_rtt adjusted (send_clock p) p) e"

definition detect_on_paths :: "EndpointState \<Rightarrow> EndpointState" where
  "detect_on_paths e = fold (\<lambda>i e. detect_persistent_congestion i
     (detect_ack_losses i (largest_acked_send_order (ep_paths e ! i)) e)) [0..<length (ep_paths e)] e"

definition start_scan :: "EndpointState \<Rightarrow> ack_scan" where
  "start_scan e = \<lparr>as_paths = ep_paths e, as_candidate = None, as_progress = replicate MAX_PATH_STATES False,
     as_growth = replicate MAX_PATH_STATES 0, as_fins = [], as_data = [], as_status = [], as_newly = False,
     as_floor = ep_receive_packet_floor e\<rparr>"

text \<open>Everything after the pass over the ledger; no step of it can fail.\<close>

definition finish_ack :: "ack_ranges \<Rightarrow> u64 \<Rightarrow> usize \<Rightarrow> ack_scan \<Rightarrow> EndpointState \<Rightarrow> EndpointState" where
  "finish_ack acked reported ingress sc e =
     (let e1 = acknowledge_statuses (as_status sc) (apply_ack_congestion_growth (as_growth sc) (retire_received (as_floor sc) e));
          prior = prior_acked acked e1;
          data = as_data sc @ map (\<lambda>(stream, p). (stream, pl_offset p, pl_data_len p)) prior;
          fins = as_fins sc @ map (\<lambda>(stream, p). (stream, wrap_add64 (pl_offset p) (pl_data_len p))) (filter (\<lambda>(_, p). pl_fin p) prior);
          e2 = settle_streams data fins e1;
          e3 = (if as_newly sc \<or> prior \<noteq> [] then end_pto_episode (as_progress sc) e2 else e2);
          e4 = (case as_candidate sc of Some (_, Some sample) \<Rightarrow> sample_rtt ingress reported sample e3 | _ \<Rightarrow> e3)
      in detect_on_paths e4)"

definition begin_ack :: "usize \<Rightarrow> ack_ranges \<Rightarrow> EndpointState \<Rightarrow> EndpointState" where
  "begin_ack P acked e =
     (let e1 = mark_acked_events acked (e\<lparr>ep_peer_ack_ranges := acked\<rparr>);
          e2 = (if credit_confirmed acked e1 then acknowledge_credit P e1 else e1)
      in e2\<lparr>ep_largest_acked_by_peer := map_option ar_end (ack_get acked 0)\<rparr>)"

text \<open>\<open>None\<close> is a panic: an index of a path that is gone, or the fixed arrays with more paths than they hold.\<close>

definition apply_ack_ranges_on_path :: "usize \<Rightarrow> ack_ranges \<Rightarrow> u64 \<Rightarrow> usize \<Rightarrow> EndpointState \<Rightarrow> (EndpointState \<times> unit result) option" where
  "apply_ack_ranges_on_path P acked reported ingress e =
     (if acked = [] then Some (e, Inl Invalid)
      else if MAX_PATH_STATES < length (ep_paths e) then None
      else
        let e1 = begin_ack P acked e in
        map_option (\<lambda>(slots, sc). (finish_ack acked reported ingress sc (e1\<lparr>ep_sent_packets := slots, ep_paths := as_paths sc\<rparr>), Inr ()))
          (ack_loop acked ingress (ep_sent_packets e1) (start_scan e1)))"

section \<open>Frames of one packet\<close>

text \<open>What the first pass over the frames collects; \<open>fr_streams\<close> are the filled entries of the array of eight.\<close>

record frame_scan =
  fr_streams :: "StreamFrame list"
  fr_has_ack :: bool
  fr_acknowledged :: ack_ranges
  fr_delay :: u64
  fr_flow :: bool
  fr_eliciting :: bool
  fr_status :: bool
  fr_frequency :: "(u64 \<times> u64 \<times> u64 \<times> u64) option"
  fr_close :: "u64 option"

text \<open>A datagram beyond the advertised size closes the association; every other error changes nothing.\<close>

datatype scan_error = Rejected error | Violation

definition blank_scan :: frame_scan where
  "blank_scan = \<lparr>fr_streams = [], fr_has_ack = False, fr_acknowledged = [], fr_delay = 0, fr_flow = False,
     fr_eliciting = False, fr_status = False, fr_frequency = None, fr_close = None\<rparr>"

definition scan_frame :: "u64 \<Rightarrow> Frame \<Rightarrow> usize \<Rightarrow> frame_scan \<Rightarrow> scan_error + frame_scan" where
  "scan_frame limit frame used sc = (case frame of
     Ack largest delay \<Rightarrow> Inr (sc\<lparr>fr_has_ack := True,
       fr_acknowledged := fst (ack_insert ACK_RANGE_CAPACITY largest (fr_acknowledged sc)), fr_delay := delay\<rparr>)
   | AckRangesF _ delay ranges \<Rightarrow> Inr (sc\<lparr>fr_has_ack := True, fr_delay := delay,
       fr_acknowledged := add_ranges ranges (fr_acknowledged sc)\<rparr>)
   | MaxData _ \<Rightarrow> Inr (sc\<lparr>fr_flow := True, fr_eliciting := True\<rparr>)
   | MaxStreamData _ _ \<Rightarrow> Inr (sc\<lparr>fr_flow := True, fr_eliciting := True\<rparr>)
   | MaxStreamsBidi _ \<Rightarrow> Inr (sc\<lparr>fr_flow := True\<rparr>)
   | MaxStreamsUni _ \<Rightarrow> Inr (sc\<lparr>fr_flow := True\<rparr>)
   | Ping \<Rightarrow> Inr (sc\<lparr>fr_eliciting := True\<rparr>)
   | PathJoin _ _ _ _ \<Rightarrow> Inr (sc\<lparr>fr_eliciting := True\<rparr>)
   | PathJoinAck _ _ _ \<Rightarrow> Inr (sc\<lparr>fr_eliciting := True\<rparr>)
   | PathChallenge _ \<Rightarrow> Inr (sc\<lparr>fr_eliciting := True\<rparr>)
   | PathResponse _ \<Rightarrow> Inr (sc\<lparr>fr_eliciting := True\<rparr>)
   | PathStatus _ _ _ \<Rightarrow> Inr (sc\<lparr>fr_eliciting := True, fr_status := True\<rparr>)
   | AckFrequency seq threshold delay reordering \<Rightarrow>
       if fr_frequency sc \<noteq> None then Inl (Rejected Invalid)
       else Inr (sc\<lparr>fr_eliciting := True, fr_frequency := Some (seq, threshold, delay, reordering)\<rparr>)
   | StreamF f \<Rightarrow>
       if 8 \<le> length (fr_streams sc) then Inl (Rejected Invalid)
       else Inr (sc\<lparr>fr_eliciting := True, fr_streams := fr_streams sc @ [f]\<rparr>)
   | Datagram _ _ \<Rightarrow> if limit = 0 \<or> limit < used then Inl Violation else Inr (sc\<lparr>fr_eliciting := True\<rparr>)
   | Close code \<Rightarrow> if fr_close sc \<noteq> None then Inl (Rejected Invalid) else Inr (sc\<lparr>fr_close := Some code\<rparr>)
   | Padding \<Rightarrow> Inr sc)"

function scan_frames :: "u64 \<Rightarrow> u8 list \<Rightarrow> frame_scan \<Rightarrow> scan_error + frame_scan" where
  "scan_frames limit input sc =
     (if input = [] then Inr sc
      else (case decode_frame input of
        Inl err \<Rightarrow> Inl (Rejected err)
      | Inr (frame, used) \<Rightarrow>
          if used = 0 then Inl (Rejected Invalid)
          else (case scan_frame limit frame used sc of
            Inl err \<Rightarrow> Inl err
          | Inr sc1 \<Rightarrow>
              if length input < used then Inl (Rejected Invalid) else scan_frames limit (drop used input) sc1)))"
  by pat_completeness auto
termination
  by (relation "measure (\<lambda>(limit, input, sc). length input)") auto

declare scan_frames.simps [simp del]

definition validate_packet :: "u8 list \<Rightarrow> unit result" where
  "validate_packet input = bindE (decode_prefix False input) (\<lambda>p.
     if header_len p = length input then Inl Truncated
     else bindE (parse_frames (drop (header_len p) input)) (\<lambda>_. Inr ()))"

section \<open>One packet\<close>

record TransportFrames =
  tf_header :: ShortHeader
  tf_streams :: "StreamFrame option list"
  tf_duplicate :: bool

definition stream_frames :: "TransportFrames \<Rightarrow> StreamFrame list" where
  "stream_frames packet = List.map_filter id (tf_streams packet)"

definition reordered :: "u32 \<Rightarrow> EndpointState \<Rightarrow> bool" where
  "reordered pn e \<longleftrightarrow> ep_ack_reordering_threshold e \<noteq> 0 \<and> (case ep_highest_received_packet e of
       None \<Rightarrow> False
     | Some highest \<Rightarrow> ep_ack_reordering_threshold e \<le>
         (if highest < pn then pn - sat_add32 highest 1 else sat_add32 (highest - pn) 1))"

text \<open>\<open>None\<close> is the panic of \<^verbatim>\<open>self.paths[ingress_path]\<close>.\<close>

definition commit_stream_packet_receive :: "u32 \<Rightarrow> usize \<Rightarrow> EndpointState \<Rightarrow> EndpointState option" where
  "commit_stream_packet_receive pn ingress e =
     (if reordered pn e \<and> length (ep_paths e) \<le> ingress then None
      else
        let e1 = (if reordered pn e
                  then upd_path ingress (\<lambda>p. p\<lparr>ack_immediate := True\<rparr>) (e\<lparr>ep_control_pending := True\<rparr>) else e)
        in Some (schedule_ack ingress False (observe_packet_on_path pn ingress e1)))"

definition apply_controls :: "usize \<Rightarrow> u8 list \<Rightarrow> frame_scan \<Rightarrow> usize \<Rightarrow> EndpointState \<Rightarrow> (EndpointState \<times> unit result) option" where
  "apply_controls P input sc ingress e =
     (case (if fr_flow sc then receive_flow_control_packet input e else (e, Inr ())) of
        (e1, Inl err) \<Rightarrow> Some (e1, Inl err)
      | (e1, Inr _) \<Rightarrow>
          if fr_has_ack sc then apply_ack_ranges_on_path P (fr_acknowledged sc) (fr_delay sc) ingress e1 else Some (e1, Inr ()))"

definition apply_policy :: "frame_scan \<Rightarrow> EndpointState \<Rightarrow> EndpointState \<times> unit result" where
  "apply_policy sc e =
     bindS (case fr_frequency sc of
        None \<Rightarrow> (e, Inr ())
      | Some (seq, threshold, delay, reordering) \<Rightarrow> apply_ack_frequency seq threshold delay reordering e) (\<lambda>e1 _.
     (upd_stats (\<lambda>s. s\<lparr>ts_received_packets := wrap_add64 (ts_received_packets s) 1\<rparr>)
        (case fr_close sc of None \<Rightarrow> e1 | Some code \<Rightarrow> e1\<lparr>ep_close_code := Some code, ep_control_pending := True\<rparr>), Inr ()))"

definition count_control :: "TransportStats \<Rightarrow> TransportStats" where
  "count_control s = s\<lparr>ts_control_packets := wrap_add64 (ts_control_packets s) 1\<rparr>"

text \<open>\<open>mem\<close> says for which streams the table finds memory.\<close>

fun accept_streams :: "(u64 \<Rightarrow> bool) \<Rightarrow> StreamFrame list \<Rightarrow> EndpointState \<Rightarrow> EndpointState \<times> unit result" where
  "accept_streams mem [] e = (e, Inr ())"
| "accept_streams mem (f # fs) e =
     (case cs_accept (mem (sf_id f)) (sf_id f) (sf_offset f) (length (sf_data f)) (sf_fin f) (ep_receive e) of
        (cs, Inl err) \<Rightarrow> (e\<lparr>ep_receive := cs\<rparr>, Inl err)
      | (cs, Inr _) \<Rightarrow> accept_streams mem fs (e\<lparr>ep_receive := cs\<rparr>))"

definition receive_streams :: "(u64 \<Rightarrow> bool) \<Rightarrow> bool \<Rightarrow> ShortHeader \<Rightarrow> frame_scan \<Rightarrow> usize \<Rightarrow> EndpointState
    \<Rightarrow> (EndpointState \<times> TransportFrames result) option" where
  "receive_streams mem deferred header sc ingress e =
     (let streams = map (\<lambda>f. if is_retired (ep_receive e) (sf_id f) then None else Some f) (fr_streams sc);
          live = List.map_filter id streams
      in case accept_streams mem live e of
           (e1, Inl err) \<Rightarrow> Some (e1, Inl err)
         | (e1, Inr _) \<Rightarrow>
             let e2 = fold (\<lambda>f e. if sf_fin f then try_retire_stream (sf_id f) e else e) live e1
             in map_option (\<lambda>e3. (upd_stats (\<lambda>s. s\<lparr>ts_stream_packets := wrap_add64 (ts_stream_packets s) 1\<rparr>) e3,
                    Inr \<lparr>tf_header = header, tf_streams = streams, tf_duplicate = False\<rparr>))
                  (if deferred then Some e2 else commit_stream_packet_receive (sh_packet_number header) ingress e2))"

definition receive_accepted :: "(u64 \<Rightarrow> bool) \<Rightarrow> bool \<Rightarrow> bool \<Rightarrow> ShortHeader \<Rightarrow> frame_scan \<Rightarrow> usize \<Rightarrow> EndpointState
    \<Rightarrow> (EndpointState \<times> TransportFrames result) option" where
  "receive_accepted mem deferred duplicate header sc ingress e =
     (if duplicate
      then Some (upd_stats (\<lambda>s. count_control (s\<lparr>ts_duplicate_packets := wrap_add64 (ts_duplicate_packets s) 1\<rparr>))
                   (schedule_ack ingress True (e\<lparr>ep_control_pending := True\<rparr>)),
                 Inr \<lparr>tf_header = header, tf_streams = [], tf_duplicate = True\<rparr>)
      else if fr_streams sc = []
      then let e1 = upd_stats count_control (observe_packet_on_path (sh_packet_number header) ingress e)
           in Some (if fr_eliciting sc \<or> fr_close sc \<noteq> None then schedule_ack ingress (fr_close sc \<noteq> None \<or> fr_status sc) e1 else e1,
                    Inr \<lparr>tf_header = header, tf_streams = [], tf_duplicate = False\<rparr>)
      else receive_streams mem deferred header sc ingress e)"

definition receive_scanned :: "usize \<Rightarrow> (u64 \<Rightarrow> bool) \<Rightarrow> bool \<Rightarrow> u8 list \<Rightarrow> ShortHeader \<Rightarrow> frame_scan \<Rightarrow> usize \<Rightarrow> EndpointState
    \<Rightarrow> (EndpointState \<times> TransportFrames result) option" where
  "receive_scanned P mem deferred input header sc ingress e =
     (let duplicate = ack_contains (ep_received_packets e) (sh_packet_number header) in
      if fr_close sc \<noteq> None \<and> fr_streams sc \<noteq> [] then Some (e, Inl Invalid)
      else (case apply_controls P input sc ingress e of
        None \<Rightarrow> None
      | Some (e1, Inl err) \<Rightarrow> Some (e1, Inl err)
      | Some (e1, Inr _) \<Rightarrow> (case apply_policy sc e1 of
          (e2, Inl err) \<Rightarrow> Some (e2, Inl err)
        | (e2, Inr _) \<Rightarrow> receive_accepted mem deferred duplicate header sc ingress e2)))"

definition receive_header :: "u8 list \<Rightarrow> usize \<Rightarrow> bool \<Rightarrow> EndpointState \<Rightarrow> (ShortHeader \<times> usize) result" where
  "receive_header input ingress opened e =
     (if length (ep_paths e) \<le> ingress then Inl PathLimit
      else if ep_is_closed e then Inl Invalid
      else bindE (decode_with_expected False input (expected_packet_number e)) (\<lambda>(header, used).
        if opened \<or> sh_flags header AND FLAG_KEY_PHASE \<noteq> 0 then Inl Invalid
        else bindE (ok_or WrongConnectionId (local_connection_id_on_path e ingress)) (\<lambda>local.
          if sh_dcid header \<noteq> local then Inl WrongConnectionId else Inr (header, used))))"

definition receive_packet_batch_on_path_inner :: "usize \<Rightarrow> (u64 \<Rightarrow> bool) \<Rightarrow> u8 list \<Rightarrow> usize \<Rightarrow> bool \<Rightarrow> bool \<Rightarrow> EndpointState
    \<Rightarrow> (EndpointState \<times> TransportFrames result) option" where
  "receive_packet_batch_on_path_inner P mem input ingress opened deferred e =
     (case receive_header input ingress opened e of
        Inl err \<Rightarrow> Some (e, Inl err)
      | Inr (header, used) \<Rightarrow>
          if sh_packet_number header < ep_receive_packet_floor e
          then Some (e, Inr \<lparr>tf_header = header, tf_streams = [], tf_duplicate = True\<rparr>)
          else if used = length input then Some (e, Inl Truncated)
          else (case scan_frames (max_datagram_frame_size (cs_limits (ep_receive e))) (drop used input) blank_scan of
              Inl (Rejected err) \<Rightarrow> Some (e, Inl err)
            | Inl Violation \<Rightarrow> Some (e\<lparr>ep_close_code := Some 0x0a, ep_control_pending := True\<rparr>, Inl Invalid)
            | Inr sc \<Rightarrow> receive_scanned P mem deferred input header sc ingress e))"

definition receive_packet_batch_on_path :: "usize \<Rightarrow> (u64 \<Rightarrow> bool) \<Rightarrow> u8 list \<Rightarrow> usize \<Rightarrow> EndpointState
    \<Rightarrow> (EndpointState \<times> TransportFrames result) option" where
  "receive_packet_batch_on_path P mem input ingress e = receive_packet_batch_on_path_inner P mem input ingress False False e"

definition receive_packet_before_stream_delivery :: "usize \<Rightarrow> (u64 \<Rightarrow> bool) \<Rightarrow> u8 list \<Rightarrow> usize \<Rightarrow> EndpointState
    \<Rightarrow> (EndpointState \<times> TransportFrames result) option" where
  "receive_packet_before_stream_delivery P mem input ingress e = receive_packet_batch_on_path_inner P mem input ingress False True e"

text \<open>The compatibility view with one stream frame.\<close>

datatype TransportFrame = StreamData ShortHeader StreamFrame | Control

definition receive_packet_on_path :: "usize \<Rightarrow> (u64 \<Rightarrow> bool) \<Rightarrow> u8 list \<Rightarrow> usize \<Rightarrow> EndpointState
    \<Rightarrow> (EndpointState \<times> TransportFrame result) option" where
  "receive_packet_on_path P mem input ingress e = map_option (\<lambda>r. bindS r (\<lambda>e1 packet.
     (e1, Inr (case stream_frames packet of [] \<Rightarrow> Control | f # _ \<Rightarrow> StreamData (tf_header packet) f))))
     (receive_packet_batch_on_path P mem input ingress e)"

text \<open>A bearer that takes one stream frame per packet.\<close>

definition receive_stream_packet :: "bool \<Rightarrow> u8 list \<Rightarrow> EndpointState \<Rightarrow> EndpointState \<times> (ShortHeader \<times> StreamFrame) result" where
  "receive_stream_packet mem input e =
     (case bindE (decode_with_expected False input (expected_packet_number e)) (\<lambda>(header, used).
        bindE (ok_or WrongConnectionId (local_connection_id_on_path e 0)) (\<lambda>local.
        if sh_dcid header \<noteq> local then Inl WrongConnectionId
        else if sh_packet_number header < ep_receive_packet_floor e then Inl Invalid
        else bindE (decode_frame (drop used input)) (\<lambda>(frame, _).
          case frame of StreamF f \<Rightarrow> Inr (header, f) | _ \<Rightarrow> Inl Invalid))) of
        Inl err \<Rightarrow> (e, Inl err)
      | Inr (header, f) \<Rightarrow>
          (case cs_accept mem (sf_id f) (sf_offset f) (length (sf_data f)) (sf_fin f) (ep_receive e) of
             (cs, Inl err) \<Rightarrow> (e\<lparr>ep_receive := cs\<rparr>, Inl err)
           | (cs, Inr _) \<Rightarrow>
               (schedule_application_ack 0 False (observe_packet_on_path (sh_packet_number header) 0 (e\<lparr>ep_receive := cs\<rparr>)),
                Inr (header, f))))"


section \<open>Flight through a received packet\<close>

lemma same_ledger_quiet:
  "ep_sent_packets e' = ep_sent_packets e \<Longrightarrow> ep_transmission_limit e' = ep_transmission_limit e
     \<Longrightarrow> map flight_of (ep_paths e') = map flight_of (ep_paths e) \<Longrightarrow> quiet e e'"
  by (simp add: quiet_def)

lemma quiet_fold: "(\<And>x e. quiet e (f x e)) \<Longrightarrow> quiet e (fold f xs e)"
  by (induction xs arbitrary: e) (auto intro: quiet_trans)

lemma map_upt_flight: "(\<And>i. i < length ps \<Longrightarrow> flight_of (f i) = flight_of (ps ! i)) \<Longrightarrow>
    map flight_of (map f [0..<length ps]) = map flight_of ps"
  by (intro nth_equalityI) auto

lemma update_first_flight: "(\<And>p. flight_of (f p) = flight_of p) \<Longrightarrow> map flight_of (update_first P f ps) = map flight_of ps"
  by (induction ps) auto

lemma raise_max_streams_quiet: "quiet e (raise_max_streams t d) = quiet e d"
  by (simp add: quiet_def raise_max_streams_def)

lemma try_retire_quiet: "quiet e (try_retire_stream i e)"
  by (auto simp: try_retire_stream_def Let_def quiet_def raise_max_streams_def)

lemma begin_ack_quiet: "quiet e (begin_ack P acked e)"
  by (auto simp: begin_ack_def Let_def quiet_def acknowledge_credit_def mark_acked_events_def flight_of_def)

lemma retire_received_quiet: "quiet e (retire_received n e)"
  by (simp add: quiet_def retire_received_def Let_def)

lemma growth_quiet: "quiet e (apply_ack_congestion_growth g e)"
  unfolding apply_ack_congestion_growth_def Let_def
  by (rule same_ledger_quiet) (auto simp: grow_path_def Let_def flight_of_def intro!: nth_equalityI)

lemma statuses_quiet: "quiet e (acknowledge_statuses ss e)"
proof -
  have "map flight_of (fold (\<lambda>(key, seq) ps. update_first (\<lambda>p. circuit_key p = Some key) (acknowledge_status seq) ps) ss ps)
      = map flight_of ps" for ps
    by (induction ss arbitrary: ps) (auto simp: update_first_flight acknowledge_status_def flight_of_def split: prod.splits)
  then show ?thesis by (simp add: quiet_def acknowledge_statuses_def)
qed

lemma end_pto_quiet: "quiet e (end_pto_episode b e)"
  unfolding end_pto_episode_def by (rule same_ledger_quiet) (auto simp: Let_def flight_of_def intro!: nth_equalityI)

lemma update_rtt_flight: "flight_of (update_rtt s t p) = flight_of p"
  by (simp add: update_rtt_def Let_def flight_of_def trigger_estimator_step_def)

lemma sample_rtt_quiet: "quiet e (sample_rtt i r s e)"
  unfolding sample_rtt_def by (rule quiet_upd_path) (simp add: Let_def update_rtt_flight)

lemma settle_slot_bytes:
  "slot_bytes j (settle_slot e s) = slot_bytes j s" "slot_in n s \<Longrightarrow> slot_in n (settle_slot e s)"
  by (auto simp: settle_slot_def Let_def split: option.splits)

lemma settle_streams_flight:
  assumes "flight_inv e"
  shows "flight_inv (settle_streams data fins e)"
proof -
  define e1 where "e1 = map_ranges drop_payload (map_ranges (fold mark_fin fins) (map_ranges (fold mark_data data) e))"
  let ?e2 = "retire_ranges (e1\<lparr>ep_sent_packets := map (settle_slot e1) (ep_sent_packets e1)\<rparr>)"
  have e1: "ep_sent_packets e1 = ep_sent_packets e" "ep_paths e1 = ep_paths e" "ep_transmission_limit e1 = ep_transmission_limit e"
    by (simp_all add: e1_def map_ranges_def)
  have "flight j (map (settle_slot e1) (ep_sent_packets e)) = flight j (ep_sent_packets e)" for j
    by (rule flight_map_slot) (rule settle_slot_bytes)
  moreover have "list_all (slot_in (length (ep_paths e))) (map (settle_slot e1) (ep_sent_packets e))"
    using assms by (auto simp: flight_inv_def list_all_iff settle_slot_bytes)
  ultimately have "flight_inv ?e2" using assms by (simp add: flight_inv_def retire_ranges_def e1)
  then show ?thesis unfolding settle_streams_def Let_def e1_def
    by (rule quiet_inv [rotated]) (rule quiet_fold, rule try_retire_quiet)
qed

lemma detect_on_paths_flight:
  assumes "flight_inv e"
  shows "flight_inv (detect_on_paths e)"
proof -
  have "flight_inv (fold (\<lambda>i e. detect_persistent_congestion i
     (detect_ack_losses i (largest_acked_send_order (ep_paths e ! i)) e)) is e)" for "is"
    using assms by (induction "is" arbitrary: e) (simp_all add: detect_ack_losses_flight detect_persistent_flight)
  then show ?thesis unfolding detect_on_paths_def .
qed

lemma finish_ack_flight:
  assumes "flight_inv e"
  shows "flight_inv (finish_ack acked reported ingress sc e)"
proof -
  let ?e1 = "acknowledge_statuses (as_status sc) (apply_ack_congestion_growth (as_growth sc) (retire_received (as_floor sc) e))"
  have "flight_inv ?e1"
    by (rule quiet_inv [OF quiet_trans [OF retire_received_quiet quiet_trans [OF growth_quiet statuses_quiet]] assms])
  note s = settle_streams_flight [OF this]
  have "flight_inv (if b then end_pto_episode pr e else e)" if "flight_inv e" for b pr e
    using that end_pto_quiet quiet_inv by auto
  moreover have "flight_inv (case c of Some (_, Some sample) \<Rightarrow> sample_rtt i r sample e | _ \<Rightarrow> e)" if "flight_inv e" for c i r e
    using that quiet_inv [OF sample_rtt_quiet that] by (auto split: option.splits)
  ultimately show ?thesis unfolding finish_ack_def Let_def using s by (intro detect_on_paths_flight) blast
qed

lemma spurious_congestion: "congestion (record_spurious_loss_ack a b p) = congestion p"
  unfolding record_spurious_loss_ack_def Let_def by simp

lemma outcome_congestion: "congestion (record_delivery_outcome True t p) = congestion p"
  unfolding record_delivery_outcome_def Let_def by simp

lemma delivered_path_flight [simp]: "congestion (delivered_path sent p) = congestion p"
  unfolding delivered_path_def Let_def by (simp add: spurious_congestion outcome_congestion)

lemma ack_step_paths:
  assumes "path_id sent < length (as_paths sc)"
  shows "length (as_paths (ack_step ingress sent sc)) = length (as_paths sc)"
    "flight_of (as_paths (ack_step ingress sent sc) ! j) =
       (if j = path_id sent \<and> \<not> lost sent then flight_of (as_paths sc ! j) - sp_bytes sent else flight_of (as_paths sc ! j))"
  using assms by (auto simp: ack_step_def Let_def nth_list_update flight_of_def on_ack_with_growth_def)

text \<open>The pass over the ledger: it never panics, and each path keeps the flight of what stays.\<close>

lemma ack_loop_flight:
  assumes "list_all (slot_in (length (as_paths sc))) slots"
    "\<forall>j < length (as_paths sc). flight j slots + extra j = flight_of (as_paths sc ! j)"
  shows "\<exists>slots' sc'. ack_loop acked ingress slots sc = Some (slots', sc') \<and> length (as_paths sc') = length (as_paths sc)
    \<and> list_all (slot_in (length (as_paths sc))) slots'
    \<and> (\<forall>j < length (as_paths sc). flight j slots' + extra j = flight_of (as_paths sc' ! j) \<and> flight j slots' \<le> flight j slots)"
  using assms
proof (induction slots arbitrary: sc extra)
  case (Cons slot slots)
  show ?case
  proof (cases "\<exists>sent. slot = Some sent \<and> accepted sent \<and> ack_contains acked (sp_packet_number sent)")
    case True
    then obtain sent where s: "slot = Some sent" "accepted sent" "ack_contains acked (sp_packet_number sent)" by blast
    have i: "path_id sent < length (as_paths sc)" using Cons.prems(1) s(1) by simp
    let ?sc = "ack_step ingress sent sc"
    note st = ack_step_paths [OF i, of ingress]
    have "list_all (slot_in (length (as_paths ?sc))) slots" using Cons.prems(1) st(1) by simp
    moreover have "\<forall>j < length (as_paths ?sc). flight j slots + extra j = flight_of (as_paths ?sc ! j)"
    proof (intro allI impI)
      fix j assume "j < length (as_paths ?sc)"
      then have "flight j (slot # slots) + extra j = flight_of (as_paths sc ! j)" using Cons.prems(2) st(1) by simp
      then show "flight j slots + extra j = flight_of (as_paths ?sc ! j)" using s by (cases "j = path_id sent") (auto simp: st(2))
    qed
    ultimately obtain slots' sc' where "ack_loop acked ingress slots ?sc = Some (slots', sc')" "length (as_paths sc') = length (as_paths ?sc)"
        "list_all (slot_in (length (as_paths ?sc))) slots'"
        "\<forall>j < length (as_paths ?sc). flight j slots' + extra j = flight_of (as_paths sc' ! j) \<and> flight j slots' \<le> flight j slots"
      using Cons.IH [of ?sc extra] by blast
    then show ?thesis using s i st(1) by (auto simp: not_le intro: trans_le_add2)
  next
    case False
    let ?extra = "\<lambda>j. extra j + slot_bytes j slot"
    have "\<forall>j < length (as_paths sc). flight j slots + ?extra j = flight_of (as_paths sc ! j)" using Cons.prems(2) by (simp add: add_ac)
    then obtain slots' sc' where "ack_loop acked ingress slots sc = Some (slots', sc')" "length (as_paths sc') = length (as_paths sc)"
        "list_all (slot_in (length (as_paths sc))) slots'"
        "\<forall>j < length (as_paths sc). flight j slots' + ?extra j = flight_of (as_paths sc' ! j) \<and> flight j slots' \<le> flight j slots"
      using Cons.IH [of sc ?extra] Cons.prems(1) by auto
    then show ?thesis using False Cons.prems(1) by (auto simp: add_ac split: option.splits)
  qed
qed simp

lemma apply_ack_flight:
  assumes "flight_inv e"
  obtains e' r where "apply_ack_ranges_on_path P acked reported ingress e = Some (e', r)" "flight_inv e'"
proof (cases "acked = []")
  case True
  then show ?thesis using assms by (intro that [of e "Inl Invalid"]) (simp_all add: apply_ack_ranges_on_path_def)
next
  case False
  let ?e = "begin_ack P acked e"
  have inv: "flight_inv ?e" by (rule quiet_inv [OF begin_ack_quiet assms])
  then have "list_all (slot_in (length (as_paths (start_scan ?e)))) (ep_sent_packets ?e)"
      "\<forall>j < length (as_paths (start_scan ?e)). flight j (ep_sent_packets ?e) + 0 = flight_of (as_paths (start_scan ?e) ! j)"
    by (simp_all add: flight_inv_def start_scan_def)
  then obtain slots sc where l: "ack_loop acked ingress (ep_sent_packets ?e) (start_scan ?e) = Some (slots, sc)"
      "length (as_paths sc) = length (ep_paths ?e)" "list_all (slot_in (length (ep_paths ?e))) slots"
      "\<forall>j < length (ep_paths ?e). flight j slots = flight_of (as_paths sc ! j) \<and> flight j slots \<le> flight j (ep_sent_packets ?e)"
    using ack_loop_flight [of "start_scan ?e" "ep_sent_packets ?e" "\<lambda>_. 0" acked ingress] by (auto simp: start_scan_def)
  have "flight j slots \<le> u64_max" if "j < length (ep_paths ?e)" for j
    using l(4) flight_inv_at [OF inv that] that by (metis order_trans)
  then have "flight_inv (?e\<lparr>ep_sent_packets := slots, ep_paths := as_paths sc\<rparr>)"
    using inv l(2-4) by (auto simp: flight_inv_def)
  moreover have "length (ep_paths e) \<le> MAX_PATH_STATES" using assms by (simp add: flight_inv_def)
  ultimately show ?thesis using False l(1)
    by (intro that [OF _ finish_ack_flight]) (auto simp: apply_ack_ranges_on_path_def Let_def)
qed

lemma apply_flow_quiet: "quiet e (fst (apply_flow frame e))"
  by (auto simp: apply_flow_def quiet_def split: Frame.splits sum.splits)

lemma bindS_quiet: "quiet e (fst m) \<Longrightarrow> (\<And>s x. quiet s (fst (f s x))) \<Longrightarrow> quiet e (fst (bindS m f))"
  by (auto simp: bindS_def split: prod.splits sum.splits intro: quiet_trans)

lemma flow_loop_quiet: "quiet e (fst (flow_loop input e))"
proof (induction input e rule: flow_loop.induct)
  case (1 input e)
  show ?case
  proof (cases "input = [] \<or> (\<forall>frame used. decode_frame input = Inr (frame, used) \<longrightarrow> used = 0)")
    case True
    then show ?thesis by (subst flow_loop.simps) (auto split: sum.splits prod.splits)
  next
    case False
    then obtain frame used where d: "input \<noteq> []" "decode_frame input = Inr (frame, used)" "used \<noteq> 0" by blast
    have "quiet e (fst (bindS (apply_flow frame e) (\<lambda>e1 _. flow_loop (drop used input) e1)))"
      by (rule bindS_quiet [OF apply_flow_quiet]) (rule 1 [OF d(1) d(2) refl d(3)])
    then show ?thesis using d by (subst flow_loop.simps) simp
  qed
qed

lemma flow_packet_quiet: "quiet e (fst (receive_flow_control_packet input e))"
  by (auto simp: receive_flow_control_packet_def flow_loop_quiet split: sum.splits prod.splits)

lemma schedule_ack_quiet: "quiet e (schedule_ack i b e)"
proof -
  have "quiet e (upd_path i (\<lambda>p. p\<lparr>ack_started_at := (if ack_pending p then ack_started_at p else send_clock p),
                   ack_pending := True, ack_packets := sat_add8 (ack_packets p) 1,
                   ack_immediate := (ack_immediate p \<or> b)\<rparr>) e)"
    by (rule quiet_upd_path) (simp add: flight_of_def)
  then show ?thesis by (simp add: schedule_ack_def Let_def quiet_def)
qed

lemma quiet_ifI: "quiet e x \<Longrightarrow> quiet e y \<Longrightarrow> quiet e (if b then x else y)"
  by simp

lemma ack_frequency_quiet: "quiet e (fst (apply_ack_frequency a b c d e))"
  unfolding apply_ack_frequency_def if_distrib [of fst] fst_conv
  by (intro quiet_ifI quiet_refl) (simp add: quiet_def)

lemma apply_policy_quiet: "quiet e (fst (apply_policy sc e))"
proof -
  have "quiet e (fst (case fr_frequency sc of None \<Rightarrow> (e, Inr ())
      | Some (seq, threshold, delay, reordering) \<Rightarrow> apply_ack_frequency seq threshold delay reordering e))"
    by (cases "fr_frequency sc") (auto simp: ack_frequency_quiet)
  then show ?thesis unfolding apply_policy_def
    by (rule bindS_quiet) (simp add: quiet_def split: option.split)
qed

lemma upd_path_quiet_flight: "flight_of p = flight_of (ep_paths e ! i) \<Longrightarrow> i < length (ep_paths e) \<Longrightarrow>
    map flight_of ((ep_paths e)[i := p]) = map flight_of (ep_paths e)"
  by (simp add: map_update) (metis length_map list_update_id nth_map)

lemma observe_new_quiet: "i < length (ep_paths e) \<Longrightarrow> quiet e (observe_new pn i e)"
  by (auto simp: observe_new_def Let_def quiet_def flight_of_def intro!: upd_path_quiet_flight)

lemma observe_quiet: "quiet e (observe_packet_on_path pn i e)"
proof (cases "length (ep_paths e) \<le> i \<or> pn < ep_receive_packet_floor e")
  case False
  define e1 where "e1 = (if ack_contains (ep_received_packets e) pn then e else observe_new pn i e)"
  obtain ranges dropped where ai: "ack_insert ACK_RANGE_CAPACITY pn (ep_received_packets e1) = (ranges, dropped)" by (rule prod.exhaust)
  have "quiet e e1" using False observe_new_quiet by (auto simp: e1_def)
  then have q2: "quiet e (e1\<lparr>ep_received_packets := ranges\<rparr>)" by (simp add: quiet_def)
  have "quiet d (upd_path i (\<lambda>p. p\<lparr>ack_ranges_dropped := n p\<rparr>) d)" for d n
    by (rule quiet_upd_path) (simp add: flight_of_def)
  from quiet_trans [OF _ this] q2 show ?thesis using False
    unfolding observe_packet_on_path_def Let_def e1_def [symmetric] ai by simp
qed (simp add: observe_packet_on_path_def)

lemma accept_streams_quiet: "quiet e (fst (accept_streams mem fs e))"
proof (induction fs arbitrary: e)
  case (Cons f fs)
  have "quiet e (fst (accept_streams mem fs (e\<lparr>ep_receive := cs\<rparr>)))" for cs
    using Cons.IH [of "e\<lparr>ep_receive := cs\<rparr>"] by (simp add: quiet_def)
  then show ?case by (auto simp: quiet_def split: prod.splits sum.splits)
qed simp

lemma commit_receive_quiet:
  assumes "ingress < length (ep_paths e)"
  obtains e' where "commit_stream_packet_receive pn ingress e = Some e'" "quiet e e'"
proof -
  define e1 where "e1 = (if reordered pn e then upd_path ingress (\<lambda>p. p\<lparr>ack_immediate := True\<rparr>) (e\<lparr>ep_control_pending := True\<rparr>) else e)"
  have "quiet e e1"
    by (auto simp: e1_def quiet_def upd_path_def flight_of_def intro!: upd_path_quiet_flight assms)
  then have "quiet e (schedule_ack ingress False (observe_packet_on_path pn ingress e1))"
    using quiet_trans observe_quiet schedule_ack_quiet by blast
  then show ?thesis using assms by (intro that) (auto simp: commit_stream_packet_receive_def e1_def Let_def)
qed

lemma receive_streams_quiet:
  assumes "ingress < length (ep_paths e)"
  obtains e' r where "receive_streams mem deferred header sc ingress e = Some (e', r)" "quiet e e'"
proof -
  define streams where "streams = map (\<lambda>f. if is_retired (ep_receive e) (sf_id f) then None else Some f) (fr_streams sc)"
  define live where "live = List.map_filter id streams"
  note d = receive_streams_def [of mem deferred header sc ingress e, unfolded Let_def, folded streams_def, folded live_def]
  obtain e1 r1 where a: "accept_streams mem live e = (e1, r1)" by (rule prod.exhaust)
  have q1: "quiet e e1" using accept_streams_quiet [of e mem live] by (simp add: a)
  define e2 where "e2 = fold (\<lambda>f e. if sf_fin f then try_retire_stream (sf_id f) e else e) live e1"
  have q2: "quiet e1 e2" unfolding e2_def by (rule quiet_fold) (simp add: try_retire_quiet)
  have "ingress < length (ep_paths e2)" using assms quiet_length [OF quiet_trans [OF q1 q2]] by simp
  then obtain e3 where e3: "(if deferred then Some e2 else commit_stream_packet_receive (sh_packet_number header) ingress e2) = Some e3"
      "quiet e2 e3"
    by (metis commit_receive_quiet quiet_refl)
  show ?thesis
  proof (cases r1)
    case (Inl err)
    show ?thesis by (rule that [of e1 "Inl err"]) (simp_all add: d a Inl q1)
  next
    case (Inr u)
    let ?e = "upd_stats (\<lambda>s. s\<lparr>ts_stream_packets := wrap_add64 (ts_stream_packets s) 1\<rparr>) e3"
    have "receive_streams mem deferred header sc ingress e =
        Some (?e, Inr \<lparr>tf_header = header, tf_streams = streams, tf_duplicate = False\<rparr>)"
      unfolding d a Inr prod.case sum.case e2_def [symmetric] e3(1) by simp
    moreover have "quiet e ?e" using q1 q2 e3(2) by (auto intro: quiet_trans)
    ultimately show ?thesis by (rule that)
  qed
qed

lemma receive_accepted_quiet:
  assumes "ingress < length (ep_paths e)"
  obtains e' r where "receive_accepted mem deferred duplicate header sc ingress e = Some (e', r)" "quiet e e'"
proof -
  have d: "quiet e (schedule_ack ingress True (e\<lparr>ep_control_pending := True\<rparr>))"
    using schedule_ack_quiet [of "e\<lparr>ep_control_pending := True\<rparr>" ingress True] by (simp add: quiet_def)
  have c: "quiet e (schedule_ack ingress b (upd_stats f (observe_packet_on_path pn ingress e)))" for b f pn
    by (rule quiet_trans [OF _ schedule_ack_quiet]) (simp add: observe_quiet)
  consider duplicate | "\<not> duplicate" "fr_streams sc = []" | "\<not> duplicate" "fr_streams sc \<noteq> []" by blast
  then show ?thesis
  proof cases
    case 1 then show ?thesis using d that by (simp add: receive_accepted_def)
  next
    case 2 then show ?thesis using c that by (simp add: receive_accepted_def Let_def observe_quiet)
  next
    case 3 then show ?thesis using receive_streams_quiet [OF assms] that by (metis receive_accepted_def)
  qed
qed

lemma apply_controls_flight:
  assumes "flight_inv e"
  obtains e' r where "apply_controls P input sc ingress e = Some (e', r)" "flight_inv e'"
proof -
  obtain e1 r1 where f: "(if fr_flow sc then receive_flow_control_packet input e else (e, Inr ())) = (e1, r1)" by (rule prod.exhaust)
  have "quiet e e1" using flow_packet_quiet [of e input] f by (auto split: if_splits)
  then have inv: "flight_inv e1" using assms quiet_inv by blast
  show ?thesis
  proof (cases "\<exists>u. r1 = Inr u \<and> fr_has_ack sc")
    case True
    obtain e' r where "apply_ack_ranges_on_path P (fr_acknowledged sc) (fr_delay sc) ingress e1 = Some (e', r)" "flight_inv e'"
      by (rule apply_ack_flight [OF inv])
    with True show ?thesis using that f by (auto simp: apply_controls_def)
  next
    case False
    then show ?thesis using inv that f by (cases r1) (auto simp: apply_controls_def)
  qed
qed

lemma detect_length: "length (ep_paths (detect_ack_losses i la e)) = length (ep_paths e)"
    "length (ep_paths (detect_persistent_congestion i e)) = length (ep_paths e)"
  by (auto simp: detect_ack_losses_def detect_persistent_congestion_def Let_def upd_path_def split: option.splits prod.splits)

lemma detect_on_paths_length: "length (ep_paths (detect_on_paths e)) = length (ep_paths e)"
proof -
  have "length (ep_paths (fold (\<lambda>i e. detect_persistent_congestion i
     (detect_ack_losses i (largest_acked_send_order (ep_paths e ! i)) e)) is e)) = length (ep_paths e)" for "is"
    by (induction "is" arbitrary: e) (simp_all add: detect_length)
  then show ?thesis unfolding detect_on_paths_def .
qed

lemma settle_streams_length: "length (ep_paths (settle_streams data fins e)) = length (ep_paths e)"
proof -
  define e1 where "e1 = map_ranges drop_payload (map_ranges (fold mark_fin fins) (map_ranges (fold mark_data data) e))"
  have "length (ep_paths (retire_ranges (e1\<lparr>ep_sent_packets := map (settle_slot e1) (ep_sent_packets e1)\<rparr>))) = length (ep_paths e)"
    by (simp add: e1_def map_ranges_def retire_ranges_def)
  then show ?thesis unfolding settle_streams_def Let_def e1_def [symmetric]
    by (metis quiet_length quiet_fold try_retire_quiet)
qed

lemma finish_ack_length: "length (ep_paths (finish_ack acked reported ingress sc e)) = length (ep_paths e)"
proof -
  define e1 where "e1 = acknowledge_statuses (as_status sc) (apply_ack_congestion_growth (as_growth sc) (retire_received (as_floor sc) e))"
  have l1: "length (ep_paths e1) = length (ep_paths e)" unfolding e1_def
    using quiet_length [OF quiet_trans [OF retire_received_quiet quiet_trans [OF growth_quiet statuses_quiet]]] by blast
  have l2: "length (ep_paths (if b then end_pto_episode pr d else d)) = length (ep_paths d)" for b pr d
    using quiet_length [OF end_pto_quiet] by simp
  have l3: "length (ep_paths (case c of Some (_, Some sample) \<Rightarrow> sample_rtt i r sample d | _ \<Rightarrow> d)) = length (ep_paths d)" for c i r d
    using quiet_length [OF sample_rtt_quiet] by (auto split: option.splits)
  show ?thesis unfolding finish_ack_def Let_def e1_def [symmetric]
    by (subst detect_on_paths_length, subst l3, subst l2, subst settle_streams_length, rule l1)
qed

lemma ack_loop_length: "ack_loop acked ingress slots sc = Some (slots', sc') \<Longrightarrow> length (as_paths sc') = length (as_paths sc)"
  by (induction slots arbitrary: sc slots') (auto simp: ack_step_def Let_def split: if_splits)

lemma apply_ack_length:
  assumes "apply_ack_ranges_on_path P acked reported ingress e = Some (e', r)"
  shows "length (ep_paths e') = length (ep_paths e)"
proof -
  have "length (ep_paths (begin_ack P acked e)) = length (ep_paths e)" by (rule quiet_length [OF begin_ack_quiet])
  with assms show ?thesis
    by (auto simp: apply_ack_ranges_on_path_def Let_def finish_ack_length start_scan_def split: if_splits dest!: ack_loop_length)
qed

lemma apply_controls_length:
  assumes "apply_controls P input sc ingress e = Some (e', r)"
  shows "length (ep_paths e') = length (ep_paths e)"
proof -
  obtain e1 r1 where f: "(if fr_flow sc then receive_flow_control_packet input e else (e, Inr ())) = (e1, r1)" by (rule prod.exhaust)
  have "quiet e e1" using flow_packet_quiet [of e input] f by (auto split: if_splits)
  then show ?thesis using assms apply_ack_length quiet_length unfolding apply_controls_def f
    by (cases r1) (fastforce split: if_splits)+
qed

text \<open>A received packet never makes the endpoint panic, and keeps the flight exact.\<close>

lemma receive_scanned_flight:
  assumes "flight_inv e" "ingress < length (ep_paths e)"
  obtains e' r where "receive_scanned P mem deferred input header sc ingress e = Some (e', r)" "flight_inv e'"
proof (cases "fr_close sc \<noteq> None \<and> fr_streams sc \<noteq> []")
  case True
  then show ?thesis using assms(1) by (intro that [of e "Inl Invalid"]) (simp_all add: receive_scanned_def)
next
  case False
  obtain e1 r1 where c: "apply_controls P input sc ingress e = Some (e1, r1)" and inv: "flight_inv e1"
    by (rule apply_controls_flight [OF assms(1)])
  obtain e2 r2 where p: "apply_policy sc e1 = (e2, r2)" by (rule prod.exhaust)
  have q: "quiet e1 e2" using apply_policy_quiet [of e1 sc] by (simp add: p)
  have i: "ingress < length (ep_paths e2)" using assms(2) apply_controls_length [OF c] quiet_length [OF q] by simp
  obtain e3 r3 where a: "receive_accepted mem deferred (ack_contains (ep_received_packets e) (sh_packet_number header)) header sc ingress e2
      = Some (e3, r3)" and q3: "quiet e2 e3" by (rule receive_accepted_quiet [OF i])
  note d = receive_scanned_def [of P mem deferred input header sc ingress e, unfolded Let_def if_not_P [OF False] c]
  show ?thesis
  proof (cases r1)
    case (Inl err)
    show ?thesis by (rule that [of e1 "Inl err"]) (simp_all add: d Inl inv)
  next
    case (Inr u)
    show ?thesis
    proof (cases r2)
      case Inl2: (Inl err)
      show ?thesis by (rule that [of e2 "Inl err"]) (simp_all add: d Inr p Inl2 quiet_inv [OF q inv])
    next
      case Inr2: (Inr u2)
      show ?thesis by (rule that [of e3 r3]) (simp_all add: d Inr p Inr2 a quiet_inv [OF q3 quiet_inv [OF q inv]])
    qed
  qed
qed

lemma receive_flight:
  assumes "flight_inv e"
  obtains e' r where "receive_packet_batch_on_path_inner P mem input ingress opened deferred e = Some (e', r)" "flight_inv e'"
proof -
  note d = receive_packet_batch_on_path_inner_def [of P mem input ingress opened deferred e]
  show ?thesis
  proof (cases "receive_header input ingress opened e")
    case (Inl err)
    show ?thesis by (rule that [of e "Inl err"]) (simp_all add: d Inl assms)
  next
    case (Inr hu)
    then obtain header used where h: "receive_header input ingress opened e = Inr (header, used)" by (cases hu) auto
    then have i: "ingress < length (ep_paths e)" by (auto simp: receive_header_def split: if_splits)
    let ?scan = "scan_frames (max_datagram_frame_size (cs_limits (ep_receive e))) (drop used input) blank_scan"
    have close: "flight_inv (e\<lparr>ep_close_code := c, ep_control_pending := b\<rparr>)" for c b
      by (rule quiet_inv [OF _ assms]) (simp add: quiet_def)
    consider "sh_packet_number header < ep_receive_packet_floor e" | "\<not> sh_packet_number header < ep_receive_packet_floor e" "used = length input"
      | err where "\<not> sh_packet_number header < ep_receive_packet_floor e" "used \<noteq> length input" "?scan = Inl err"
      | sc where "\<not> sh_packet_number header < ep_receive_packet_floor e" "used \<noteq> length input" "?scan = Inr sc"
      by (metis sum.exhaust)
    then show ?thesis
    proof cases
      case 1 then show ?thesis using that assms by (simp add: d h)
    next
      case 2 then show ?thesis using that assms by (simp add: d h)
    next
      case (3 err)
      then show ?thesis using that assms close by (cases err) (simp_all add: d h)
    next
      case (4 sc)
      obtain e' r where "receive_scanned P mem deferred input header sc ingress e = Some (e', r)" "flight_inv e'"
        by (rule receive_scanned_flight [OF assms i])
      with 4 show ?thesis by (intro that [of e' r]) (simp_all add: d h)
    qed
  qed
qed

end
