(* ===== verification/Endpoint_Steps.thy ===== *)
theory Endpoint_Steps
  imports Endpoint_Receive
begin

text \<open>
  The operations of an association endpoint as one step relation: whatever a driver does, in any order, the
  bytes charged to every path are those of the records in the ledger, and no operation panics.
\<close>

section \<open>Operations that leave the flight alone\<close>

lemma install_ids_quiet: "quiet e (install_ids i a b e)"
  by (auto simp: install_ids_def flight_of_def intro!: quiet_upd_path)

lemma install_connection_ids_quiet:
  assumes "install_connection_ids a b e = Some (e', r)"
  shows "quiet e e'"
  using assms install_ids_quiet [of "e\<lparr>ep_local_cid := Some a, ep_peer_cid := Some b\<rparr>" 0 a b]
  by (auto simp: install_connection_ids_def quiet_def split: sum.splits if_splits)

lemma set_peer_connection_id_quiet: "quiet e (fst (set_peer_connection_id_on_path i peer e))"
  by (auto simp: set_peer_connection_id_on_path_def flight_of_def intro!: quiet_upd_path)

lemma config_quiet:
  "quiet e (fst (set_path_estimator_config_all c e))" "quiet e (fst (set_pacing_config_all pc e))"
  by (auto simp: set_path_estimator_config_all_def set_pacing_config_all_def quiet_def flight_of_def
      set_estimator_config_def set_pacing_config_def)

lemma queue_status_quiet: "quiet e (fst (queue_path_status i status e))"
  by (auto simp: queue_path_status_def path_get_def queue_status_def quiet_def map_flight_upd upd_path_def flight_of_def
      map_update list_update_same_conv Let_def split: option.splits prod.splits if_splits)

lemma quiet_put: "flight_of p = flight_of (ep_paths e ! i) \<Longrightarrow> quiet e (upd_path i (\<lambda>_. p) e)"
proof -
  assume "flight_of p = flight_of (ep_paths e ! i)"
  then have "(map flight_of (ep_paths e))[i := flight_of p] = map flight_of (ep_paths e)"
    using map_update [of flight_of "ep_paths e" i "ep_paths e ! i"] by simp
  then show ?thesis by (simp add: quiet_def upd_path_def map_update)
qed

lemma receive_path_status_quiet: "quiet e (fst (receive_path_status key seq status e))"
proof -
  have "flight_of (fst (receive_status seq status p)) = flight_of p" for p
    by (simp add: receive_status_def Let_def flight_of_def split: PathStatusKind.splits)
  then show ?thesis by (auto simp: receive_path_status_def quiet_put split: option.splits prod.splits) (metis quiet_put fst_conv)
qed

lemma defer_status_quiet: "defer_path_status i egress e = Some e' \<Longrightarrow> quiet e e'"
  by (auto simp: defer_path_status_def Let_def flight_of_def bind_eq_Some_conv intro!: quiet_upd_path)

lemma begin_probe_quiet: "quiet e (fst (begin_path_probe i token now interval e))"
  by (auto simp: begin_path_probe_def begin_probe_def flight_of_def intro!: quiet_upd_path)

lemma arrival_quiet: "quiet e (record_bearer_arrival i at e)" "quiet e (on_bearer_timeout e)"
  by (auto simp: record_bearer_arrival_def on_bearer_timeout_def quiet_def upd_path_def flight_of_def
      map_update list_update_same_conv Let_def split: option.splits)

lemma app_ack_quiet: "quiet e (schedule_application_ack i b e)"
  by (auto simp: schedule_application_ack_def quiet_def upd_path_def flight_of_def map_update list_update_same_conv Let_def)

lemma reack_quiet: "quiet e (request_path_validation_ack i e)" "quiet e (request_stream_reack e)"
  using app_ack_quiet [of "e\<lparr>ep_control_pending := True\<rparr>"]
  by (auto simp: request_path_validation_ack_def request_stream_reack_def quiet_def)

lemma policy_quiet:
  "quiet e (set_ack_policy n delay e)" "quiet e (fst (request_ack_frequency a b c d e))" "quiet e (reset_stats e)"
  "quiet e (close code e)" "quiet e (set_duplication_budget_capacity capacity e)" "quiet e (set_base_circuit_key e)"
  by (auto simp: set_ack_policy_def set_ack_frequency_def request_ack_frequency_def reset_stats_def close_def
      set_duplication_budget_capacity_def set_base_circuit_key_def quiet_def upd_path_def flight_of_def
      map_update list_update_same_conv)

lemma limits_quiet:
  "quiet e (fst (set_initial_peer_budget a b budget e))" "quiet e (fst (ep_set_history_capacity mem limit e))"
  "quiet e (fst (set_send_buffer_limit_bytes limit e))" "quiet e (fst (continue_packet_numbers_from pn e))"
  by (auto simp: set_initial_peer_budget_def ep_set_history_capacity_def set_send_buffer_limit_bytes_def
      continue_packet_numbers_from_def quiet_def Let_def split: sum.splits)

lemma open_send_stream_quiet: "quiet e (fst (open_send_stream ms mr i m e))"
  by (auto simp: open_send_stream_def quiet_def Let_def split: sum.splits)

lemma queue_credit_quiet: "quiet e (fst (queue_stream_credit mem i e))"
  by (auto simp: queue_stream_credit_def quiet_def Let_def)

lemma grow_streams_quiet: "quiet e (fst (grow_streams mem window is e))"
proof (induction "is" arbitrary: e)
  case (Cons i "is")
  let ?s = "cs_streams (ep_receive e) ! i"
  let ?s1 = "?s\<lparr>st_max_data := max (st_max_data ?s) (sat_add64 (st_consumed ?s) window)\<rparr>"
  let ?e1 = "e\<lparr>ep_receive := (ep_receive e)\<lparr>cs_streams := (cs_streams (ep_receive e))[i := ?s1]\<rparr>\<rparr>"
  have e1: "quiet e ?e1" by (simp add: quiet_def)
  have "quiet ?e1 (fst (bindS (queue_stream_credit mem (st_id ?s1) ?e1) (\<lambda>e2 _. grow_streams mem window is e2)))"
    by (rule bindS_quiet) (simp_all add: queue_credit_quiet Cons.IH)
  note yes = quiet_trans [OF e1 this] and no = quiet_trans [OF e1 Cons.IH]
  show ?case unfolding grow_streams.simps Let_def by (split if_split) (intro conjI impI yes no)
qed simp

lemma growth_limits_quiet: "quiet e (fst (set_receive_growth_limits mem lim e))"
proof (cases "lim_max_data lim = 0 \<or> lim_max_stream_data lim = 0")
  case False
  let ?e1 = "e\<lparr>ep_receive_growth_limits := lim, ep_receive := extend_connection_credit (lim_max_data lim) (ep_receive e)\<rparr>"
  have e1: "quiet e ?e1" by (simp add: quiet_def)
  have fin: "quiet d ((raise_max_streams t d)\<lparr>ep_credit_pending := True, ep_control_pending := True\<rparr>)" for t d
    by (simp add: quiet_def raise_max_streams_def)
  show ?thesis unfolding set_receive_growth_limits_def Let_def if_not_P [OF False]
    by (rule quiet_trans [OF e1 bindS_quiet]) (simp_all add: grow_streams_quiet fin)
qed (simp add: set_receive_growth_limits_def)

lemma window_quiet: "quiet e (fst (grant_receive_window mem i w e))"
proof -
  have "quiet e (fst (queue_stream_credit mem i (e\<lparr>ep_receive := cs, ep_control_pending := True\<rparr>)))" for cs
    using queue_credit_quiet [of "e\<lparr>ep_receive := cs, ep_control_pending := True\<rparr>"] by (simp add: quiet_def)
  then show ?thesis by (auto simp: grant_receive_window_def quiet_def Let_def split: sum.splits)
qed

lemma consumed_quiet: "quiet e (fst (stream_consumed_without_credit i n e))"
  using app_ack_quiet [of "e\<lparr>ep_receive := cs\<rparr>" for cs]
  by (auto simp: stream_consumed_without_credit_def quiet_def Let_def split: sum.splits)

lemma quiet_sum: "(\<And>err. x = Inl err \<Longrightarrow> quiet e (fst (f err))) \<Longrightarrow> (\<And>v. x = Inr v \<Longrightarrow> quiet e (fst (g v)))
    \<Longrightarrow> quiet e (fst (case x of Inl err \<Rightarrow> f err | Inr v \<Rightarrow> g v))"
  by (cases x) auto

lemma quiet_opt: "(x = None \<Longrightarrow> quiet e (fst a)) \<Longrightarrow> (\<And>v. x = Some v \<Longrightarrow> quiet e (fst (g v)))
    \<Longrightarrow> quiet e (fst (case x of None \<Rightarrow> a | Some v \<Rightarrow> g v))"
  by (cases x) auto

lemma quiet_if: "(c \<Longrightarrow> quiet e (fst a)) \<Longrightarrow> (\<not> c \<Longrightarrow> quiet e (fst b)) \<Longrightarrow> quiet e (fst (if c then a else b))"
  by simp

lemma consumed_inner_quiet: "quiet e (fst (stream_consumed_inner P ml mem i n fc sch e))"
proof -
  have tail: "quiet d (fst (bindS (if due then queue_stream_credit mem i d else (d, Inr ())) (\<lambda>e6 _. (try_retire_stream i e6, Inr ()))))" for d due
    by (rule bindS_quiet) (simp_all add: queue_credit_quiet try_retire_quiet)
  have r: "quiet e d \<Longrightarrow> quiet e (d\<lparr>ep_receive := cs\<rparr>)" "quiet e d \<Longrightarrow> quiet e (d\<lparr>ep_control_pending := b\<rparr>)" for d cs b
    by (simp_all add: quiet_def)
  have a: "quiet e d \<Longrightarrow> quiet e (if b then schedule_application_ack k c d else d)" for d b k c
    using app_ack_quiet quiet_trans by auto
  show ?thesis unfolding stream_consumed_inner_def Let_def
    by (intro quiet_sum quiet_if quiet_opt quiet_trans [OF _ tail] a) (simp_all add: quiet_def)
qed

lemma poll_transmit_quiet: "quiet e (fst (poll_transmit_on_path i cap e))"
proof -
  have "i < length (ep_paths e) \<Longrightarrow> quiet e ((count_sent_control (commit_control_frames i pn c e))\<lparr>ep_next_packet_number := nx\<rparr>)" for pn c nx
    using commit_control_quiet [of i e pn c] by (simp add: quiet_def count_sent_control_def upd_stats_def)
  then show ?thesis by (auto simp: poll_transmit_on_path_def split: sum.splits option.splits)
qed

lemma poll_close_quiet: "quiet e (fst (poll_close cap e))" "quiet e (fst (encode_probe_packet d cap e))"
  by (auto simp: poll_close_def encode_probe_packet_def quiet_def Let_def split: sum.splits option.splits)

section \<open>Flight of the other operations\<close>

lemma add_path_flight:
  assumes "flight_inv e" "add_path_state mem e = Some (e', r)"
  shows "flight_inv e'"
proof (cases "length (ep_paths e) < MAX_PATH_STATES \<and> mem")
  case False
  then show ?thesis using assms by (auto simp: add_path_state_def split: if_splits)
next
  case True
  have ne: "ep_paths e \<noteq> []" using assms(1) by (simp add: flight_inv_def)
  define p where "p = (set_pacing_config (ep_pacing_config e) (set_estimator_config (ep_path_estimator_config e)
      (path_new (max_packet_size (congestion (ep_paths e ! 0))))))\<lparr>validated := False\<rparr>"
  have e': "e' = e\<lparr>ep_paths := ep_paths e @ [p]\<rparr>" using assms(2) True ne by (auto simp: add_path_state_def p_def Let_def)
  have p: "flight_of p = 0" by (simp add: p_def flight_of_def set_pacing_config_def set_estimator_config_def path_new_def cc_new_def Let_def)
  have in_old: "list_all (slot_in (length (ep_paths e))) (ep_sent_packets e)" using assms(1) by (simp add: flight_inv_def)
  have zero: "list_all (slot_in n) slots \<Longrightarrow> flight n slots = 0" for n slots
    by (induction slots) (auto simp: slot_in_def split: option.splits)
  have "list_all (slot_in (Suc (length (ep_paths e)))) (ep_sent_packets e)"
    using in_old by (rule list.pred_mono_strong) (auto simp: slot_in_def split: option.splits)
  then show ?thesis using assms(1) True p zero [OF in_old] by (auto simp: flight_inv_def e' nth_append less_Suc_eq)
qed

lemma bindS_fst: "bindS m f = (e', r) \<Longrightarrow> \<exists>e1 r1. m = (e1, r1) \<and> (e' = e1 \<or> (\<exists>x. f e1 x = (e', r)))"
  by (auto simp: bindS_def split: prod.splits sum.splits)

lemma add_path_ids_flight:
  assumes "flight_inv e" "add_path_state_with_ids mem local peer e = Some (e', r)"
  shows "flight_inv e'"
proof -
  consider "e' = e" | e1 r1 where "add_path_state mem e = Some (e1, r1)" "e' = e1 \<or> (\<exists>i. e' = install_ids i local peer e1)"
    using assms(2) by (auto simp: add_path_state_with_ids_def dest!: bindS_fst split: sum.splits if_splits)
  then show ?thesis using assms(1) add_path_flight install_ids_quiet quiet_inv by cases metis+
qed

lemma add_path_local_flight:
  assumes "flight_inv e" "add_path_state_with_local_id mem local e = Some (e', r)"
  shows "flight_inv e'"
proof -
  have q: "quiet d (upd_path i (\<lambda>p. p\<lparr>local_cid := Some local\<rparr>) d)" for i d
    by (auto simp: flight_of_def intro!: quiet_upd_path)
  consider "e' = e" | e1 r1 where "add_path_state mem e = Some (e1, r1)"
      "e' = e1 \<or> (\<exists>i. e' = upd_path i (\<lambda>p. p\<lparr>local_cid := Some local\<rparr>) e1)"
    using assms(2) by (auto simp: add_path_state_with_local_id_def dest!: bindS_fst split: if_splits)
  then show ?thesis using assms(1) add_path_flight q quiet_inv by cases metis+
qed

lemma capacity_flight:
  assumes "flight_inv e"
  shows "flight_inv (fst (set_transmission_capacity mp m limit e))"
proof -
  let ?trim = "\<lambda>p. p\<lparr>congestion_history := drop (length (congestion_history p) - limit) (congestion_history p)\<rparr>"
  have keep: "flight_inv (e\<lparr>ep_sent_packets := slots, ep_transmission_limit := limit, ep_paths := map ?trim (ep_paths e)\<rparr>)"
    if "\<And>i. flight i slots = flight i (ep_sent_packets e)" "set slots \<subseteq> insert None (set (ep_sent_packets e))" "limit \<noteq> 0" for slots
    using assms that by (auto simp: flight_inv_def list_all_iff flight_of_def)
  have none: "list_all (\<lambda>s. s = None) (drop limit slots) \<Longrightarrow> flight i (take limit slots) = flight i slots" for slots i
  proof -
    assume "list_all (\<lambda>s. s = None) (drop limit slots)"
    then have "drop limit slots = replicate (length slots - limit) None" by (intro replicate_eqI) (auto simp: list_all_iff)
    then have "flight i (drop limit slots) = 0" by simp
    then show ?thesis using flight_simps(3) [of i "take limit slots" "drop limit slots"] by (simp del: flight_simps)
  qed
  show ?thesis unfolding set_transmission_capacity_def Let_def
    using keep [of "ep_sent_packets e"] by (auto intro!: keep assms simp: none dest: in_set_takeD)
qed

lemma priority_flight:
  assumes "flight_inv e"
  shows "flight_inv (mark_priority_stream_packet pn e)"
proof -
  let ?f = "update_first (sent_is pn) (map_option (\<lambda>packet. packet\<lparr>priority_stream := True\<rparr>))"
  have "flight i (?f slots) = flight i slots" for i slots
    by (induction slots) (auto simp: sent_is_def split: option.splits)
  moreover have "list_all (slot_in n) (?f slots) = list_all (slot_in n) slots" for n slots
    by (induction slots) (auto simp: sent_is_def split: option.splits)
  ultimately show ?thesis using assms by (simp add: flight_inv_def mark_priority_stream_packet_def)
qed

lemma frames_bytes_cap: "frames_bytes frames cap = Inr bs \<Longrightarrow> length bs \<le> cap"
proof (induction frames arbitrary: cap bs)
  case (Cons frame frames)
  then show ?case by (fastforce simp: frames_bytes_def seqE_def dest!: frame_encode_cap)
qed (simp add: frames_bytes_def)

lemma commit_credit_added:
  assumes "commit_credit_copy i src slot ack order limited n e = Some e'"
  shows "added slot i n e e'"
proof -
  let ?copy = "(new_sent (ep_next_packet_number e) i order n (send_clock (ep_paths e ! i)) limited)\<lparr>
      ack_largest_received := (if ack then largest_received e else None), logical_packet_number := src, duplication_charge := n\<rparr>"
  let ?e1 = "(put_sent slot ?copy e)\<lparr>ep_next_packet_number := ep_next_packet_number e + 1,
      ep_duplication_reserved_bytes := sat_add64 (ep_duplication_reserved_bytes e) n\<rparr>"
  obtain e2 where e2: "record_congestion_packet i (ep_next_packet_number e) (send_clock (ep_paths e ! i)) n True False ?e1 = Some e2"
      "e' = count_sent_saturating e2"
    using assms by (auto simp: commit_credit_copy_def Let_def)
  have "added slot i n e ?e1" unfolding added_def put_sent_def by (auto simp: new_sent_def intro!: exI [of _ ?copy])
  then have "added slot i n e e2" by (rule added_quiet [OF _ record_congestion_quiet [OF e2(1)]])
  then show ?thesis unfolding e2(2) count_sent_saturating_def by (rule added_quiet) simp
qed

lemma credit_copy_flight:
  assumes inv: "flight_inv e" and room: "room cap e"
    and r: "duplicate_credit_control_on_path src i ack md sc ms cap e = Some (e', r)"
  shows "flight_inv e'"
proof (cases "e' = e")
  case False
  then obtain slot bytes where b: "credit_copy_bytes i ack md sc ms cap e = Inr (Some (slot, bytes))"
      and s: "send_credit_copy i src ack slot bytes e = Some (e', r)" and i: "i < length (ep_paths e)"
    using r by (auto simp: duplicate_credit_control_on_path_def split: if_splits sum.splits option.splits)
  have cap: "length bytes \<le> cap" and free: "free_slot (ep_transmission_limit e) (ep_sent_packets e) = Some slot"
    using b by (auto simp: credit_copy_bytes_def split: if_splits dest!: frames_bytes_cap short_encode_cap)
  let ?n = "length bytes" and ?p = "ep_paths e ! i"
  have fit: "flight_of ?p + ?n \<le> u64_max" using room_fit [OF room i cap] .
  obtain p1 reserved where p1: "try_reserve_pacing ?n (send_clock ?p) ?p = (p1, reserved)" by (rule prod.exhaust)
  obtain c sent where c: "on_packet_sent ?n (congestion p1) = (c, sent)" by (rule prod.exhaust)
  obtain p2 q where p2: "assign_send_order (p1\<lparr>congestion := c\<rparr>) = (p2, q)" by (rule prod.exhaust)
  note f1 = paced_eq(2) [OF p1] and f2 = assigned_eq [OF p2]
  have grown: "sent \<Longrightarrow> flight_of p2 = flight_of ?p + ?n"
    using c f1 f2 fit by (auto simp: on_packet_sent_def flight_of_def sat_add_def split: if_splits dest!: arg_cong [where f = bytes_in_flight])
  have q0: "flight_inv (upd_path i (\<lambda>_. p1) e)" using flight_inv_refused [OF inv i] f1 by simp
  obtain order where ok: "q = Inr order"
    using assigned_ok [of "p1\<lparr>congestion := c\<rparr>"] f1 room i p2 by (auto simp: room_def)
  show ?thesis
  proof (cases "e' = upd_path i (\<lambda>_. p1) e")
    case False
    with s \<open>e' \<noteq> e\<close> have "sent" and k: "commit_credit_copy i src slot ack order (limited_by_window (congestion p1) ?n) ?n (upd_path i (\<lambda>_. p2) e) = Some e'"
      by (auto simp: send_credit_copy_def Let_def p1 c p2 ok split: if_splits)
    have "added slot i ?n (upd_path i (\<lambda>_. p2) e) e'" by (rule commit_credit_added [OF k])
    then show ?thesis using added_inv [OF inv i, of slot ?n p2 e'] free_slot_Some [OF free] grown [OF \<open>sent\<close>] fit by simp
  qed (use q0 in simp)
qed (use inv in simp)

section \<open>Operations return\<close>

lemma record_total: "ep_transmission_limit e \<noteq> 0 \<Longrightarrow> record_congestion_packet i pn at n d st e \<noteq> None"
  by (simp add: record_congestion_packet_def)

lemma limit_simps [simp]:
  "ep_transmission_limit (put_sent slot s e) = ep_transmission_limit e"
  "ep_transmission_limit (account_probe i b n c e) = ep_transmission_limit e"
  by (simp_all add: put_sent_def account_probe_def Let_def)

lemma path_control_total:
  assumes "ep_transmission_limit e \<noteq> 0"
    "\<not> is_challenge frame \<or> (\<forall>bytes. control_bytes d frame cap e = Inr bytes \<longrightarrow> i < length (ep_paths e)
        \<longrightarrow> length bytes \<le> max_packet_size (congestion (ep_paths e ! i)))"
  shows "encode_path_control_packet_inner i d frame cap pto e \<noteq> None"
proof -
  have c: "commit_path_control i frame n limited tracked e1 \<noteq> None" if "ep_transmission_limit e1 \<noteq> 0" for n limited tracked e1
    using that by (auto simp: commit_path_control_def Let_def record_congestion_packet_def split: option.splits)
  have "send_path_control i frame bytes pto e \<noteq> None" for bytes
    using assms(1) c by (fastforce simp: send_path_control_def Let_def split: sum.splits prod.splits)
  moreover have "pad_challenge frame (max_packet_size (congestion (ep_paths e ! i))) cap bytes \<noteq> None"
    if "control_bytes d frame cap e = Inr bytes" "i < length (ep_paths e)" for bytes
    using assms(2) that control_bytes_cap [OF that(1)] by (auto simp: pad_challenge_def Let_def)
  ultimately show ?thesis by (auto simp: encode_path_control_packet_inner_def bind_eq_None_conv split: sum.splits)
qed

lemma stream_total:
  assumes "ep_transmission_limit e \<noteq> 0"
  shows "encode_stream_packet_on_path_inner P mem i dcid frame cap retain e \<noteq> None"
proof -
  have "commit_stream i frame rs ts n retain control e1 \<noteq> None" if "ep_transmission_limit e1 \<noteq> 0" for rs ts n control e1
    using that by (auto simp: commit_stream_def Let_def record_congestion_packet_def split: prod.splits bool.splits sum.splits)
  then have "send_stream mem i frame retain prepared e \<noteq> None" for prepared
    using assms by (fastforce simp: send_stream_def Let_def split: prod.splits sum.splits)
  then show ?thesis by (auto simp: encode_stream_packet_on_path_inner_def split: sum.splits)
qed

lemma copy_total:
  assumes "ep_transmission_limit e \<noteq> 0"
  shows "retransmit_stream_packet_with_probe pn i cap overrun budgeted e \<noteq> None"
proof -
  have "commit_copy i sent rs slot evict budgeted frame logical n e1 \<noteq> None" if "ep_transmission_limit e1 \<noteq> 0" for sent rs slot evict frame logical n e1
    using that by (auto simp: commit_copy_def Let_def record_congestion_packet_def split: prod.splits sum.splits)
  then show ?thesis using assms
    by (fastforce simp: retransmit_stream_packet_with_probe_def Let_def split: prod.splits sum.splits option.splits bool.splits)
qed

lemma after_copy_total [simp]: "after_copy f r = None \<longleftrightarrow> r = None"
  by (simp add: after_copy_def)

lemma credit_copy_total:
  assumes "ep_transmission_limit e \<noteq> 0"
  shows "duplicate_credit_control_on_path src i ack md sc ms cap e \<noteq> None"
proof -
  have "commit_credit_copy i src slot ack order limited n e1 \<noteq> None" if "ep_transmission_limit e1 \<noteq> 0" for slot order limited n e1
    using that by (simp add: commit_credit_copy_def Let_def record_congestion_packet_def)
  then have "send_credit_copy i src ack slot bytes e \<noteq> None" for slot bytes
    using assms by (fastforce simp: send_credit_copy_def Let_def split: prod.splits sum.splits)
  then show ?thesis by (auto simp: duplicate_credit_control_on_path_def split: sum.splits option.splits)
qed

lemma repair_on_total: "flight_inv e \<Longrightarrow> room cap e \<Longrightarrow> repair_on pn cap is e \<noteq> None"
proof (induction "is" arbitrary: e)
  case (Cons i "is")
  obtain e1 r where r: "retransmit_stream_packet_with_probe pn i cap False False e = Some (e1, r)"
    using copy_total [of e pn i cap False False] Cons.prems by (auto simp: flight_inv_def)
  show ?case
  proof (cases "r = Inr None")
    case True
    then show ?thesis using Cons.IH [of e1] retransmit_flight [OF Cons.prems(1,2) r] refused_copy [OF r [unfolded True] Cons.prems(2,1)]
      by (simp add: r)
  next
    case False
    then show ?thesis by (auto simp: r split: sum.splits option.splits)
  qed
qed simp

lemma ledger_paths: "flight_inv e \<Longrightarrow> list_all (\<lambda>packet. path_id packet < length (ep_paths e)) (ledger e)"
  by (fastforce simp: flight_inv_def list_all_iff ledger_def List.map_filter_def)

lemma pto_probe_total:
  assumes "flight_inv e"
  shows "retransmit_pto_probe now cap e \<noteq> None"
proof -
  have lim: "ep_transmission_limit e \<noteq> 0" using assms by (simp add: flight_inv_def)
  have "encode_path_control_packet_inner i d Ping cap True e \<noteq> None" for i d
    by (rule path_control_total [OF lim]) (simp add: is_challenge_def)
  then have "probe_delivered_flight now cap e \<noteq> None" by (simp add: probe_delivered_flight_def del: not_None_eq split: option.splits)
  then show ?thesis using ledger_paths [OF assms] copy_total [OF lim]
    by (simp add: retransmit_pto_probe_def Let_def del: not_None_eq split: option.split)
qed

lemma retransmit_due_total:
  assumes "flight_inv e" "room cap e"
  shows "retransmit_due now cap e \<noteq> None"
proof -
  let ?d = "detect_all_losses (ep_set_time now e)"
  have d: "flight_inv ?d" "room cap ?d"
    using detect_all_flight [OF quiet_inv [OF set_time_quiet assms(1)] set_time_room [OF assms(2)]] by auto
  have "retransmit_marked_loss cap ?d \<noteq> None" using repair_on_total [OF d] by (simp add: retransmit_marked_loss_def split: option.splits)
  then obtain e1 r where m: "retransmit_marked_loss cap ?d = Some (e1, r)" by auto
  have "flight_inv e1" using marked_loss_flight m d by blast
  then show ?thesis using pto_probe_total by (simp add: retransmit_due_def m split: sum.splits option.splits)
qed

section \<open>The endpoint as a state machine\<close>

text \<open>
  What a bearer reports about a submission: it refuses a packet before that is declared lost, and it
  accepts one that is not, while the counter of its path has room.
\<close>

definition may_block :: "u32 \<Rightarrow> EndpointState \<Rightarrow> bool" where
  "may_block pn e = (case sent_lookup pn e of None \<Rightarrow> True | Some (_, sent) \<Rightarrow> \<not> (accepted sent \<and> lost sent))"

definition may_accept :: "u32 \<Rightarrow> EndpointState \<Rightarrow> bool" where
  "may_accept pn e = (case sent_lookup pn e of None \<Rightarrow> True
     | Some (_, sent) \<Rightarrow> accepted sent \<or> \<not> lost sent \<and> flight (path_id sent) (ep_sent_packets e) + sp_bytes sent \<le> u64_max)"

inductive ep_step :: "usize \<Rightarrow> EndpointState \<Rightarrow> EndpointState \<Rightarrow> bool" for P where
  path_control: "room cap e \<Longrightarrow> encode_path_control_packet_inner i d frame cap pto e = Some (e', r1) \<Longrightarrow> ep_step P e e'"
| stream_packet: "room cap e \<Longrightarrow> encode_stream_packet_on_path_inner P mem i d sf cap retain e = Some (e', r2) \<Longrightarrow> ep_step P e e'"
| owned_packet: "room cap e \<Longrightarrow> encode_stream_packet_from_owned_on_path P mem i d sf cap e = Some (e', r2) \<Longrightarrow> ep_step P e e'"
| retransmit: "room cap e \<Longrightarrow> retransmit_stream_packet pn cap e = Some (e', r3) \<Longrightarrow> ep_step P e e'"
| retransmit_on: "room cap e \<Longrightarrow> retransmit_stream_packet_on_path pn i cap e = Some (e', r3) \<Longrightarrow> ep_step P e e'"
| duplicate: "room cap e \<Longrightarrow> duplicate_stream_packet_on_path pn i cap e = Some (e', r3) \<Longrightarrow> ep_step P e e'"
| credit_copy: "room cap e \<Longrightarrow> duplicate_credit_control_on_path pn i ack md n ms cap e = Some (e', r3) \<Longrightarrow> ep_step P e e'"
| marked_loss: "room cap e \<Longrightarrow> retransmit_marked_loss cap e = Some (e', r3) \<Longrightarrow> ep_step P e e'"
| due: "room cap e \<Longrightarrow> retransmit_due now cap e = Some (e', r3) \<Longrightarrow> ep_step P e e'"
| blocked: "may_block pn e \<Longrightarrow> packet_submission_blocked pn e = Some (e', b) \<Longrightarrow> ep_step P e e'"
| accepted_by_bearer: "may_accept pn e \<Longrightarrow> packet_submission_accepted pn now e = Some (e', b) \<Longrightarrow> ep_step P e e'"
| failed: "packet_submission_failed pn e = Some (e', b) \<Longrightarrow> ep_step P e e'"
| lost_packet: "mark_lost pn e = Some (e', b) \<Longrightarrow> ep_step P e e'"
| receive: "receive_packet_batch_on_path_inner P mem_of input i opened deferred e = Some (e', r4) \<Longrightarrow> ep_step P e e'"
| commit_receive: "commit_stream_packet_receive pn i e = Some e' \<Longrightarrow> ep_step P e e'"
| receive_one: "ep_step P e (fst (receive_stream_packet mem input e))"
| poll: "ep_step P e (fst (poll_transmit_on_path i cap e))"
| poll_final: "ep_step P e (fst (poll_close cap e))"
| ping: "ep_step P e (fst (encode_probe_packet d cap e))"
| consumed: "ep_step P e (fst (stream_consumed_inner P ml mem sid n force schedule e))"
| consumed_only: "ep_step P e (fst (stream_consumed_without_credit sid n e))"
| grant: "ep_step P e (fst (grant_receive_window mem sid n e))"
| open_stream: "ep_step P e (fst (open_send_stream ms_mem mem sid n e))"
| suspend: "ep_step P e (suspend_path i e)"
| remove: "ep_step P e (fst (remove_path_state i e))"
| add: "add_path_state mem e = Some (e', r5) \<Longrightarrow> ep_step P e e'"
| add_ids: "add_path_state_with_ids mem a d e = Some (e', r5) \<Longrightarrow> ep_step P e e'"
| add_local: "add_path_state_with_local_id mem a e = Some (e', r5) \<Longrightarrow> ep_step P e e'"
| install: "install_connection_ids a d e = Some (e', r6) \<Longrightarrow> ep_step P e e'"
| set_peer: "ep_step P e (fst (set_peer_connection_id_on_path i d e))"
| continue_numbers: "ep_step P e (fst (continue_packet_numbers_from pn e))"
| base_key: "ep_step P e (set_base_circuit_key e)"
| queue_status: "ep_step P e (fst (queue_path_status i status e))"
| defer_status: "defer_path_status i j e = Some e' \<Longrightarrow> ep_step P e e'"
| receive_status: "ep_step P e (fst (receive_path_status key seq status e))"
| probe: "ep_step P e (fst (begin_path_probe i token now n e))"
| arrival: "ep_step P e (record_bearer_arrival i now e)"
| tick: "ep_step P e (ep_set_time now e)"
| bearer_timeout: "ep_step P e (on_bearer_timeout e)"
| reack: "ep_step P e (request_stream_reack e)"
| validation_ack: "ep_step P e (request_path_validation_ack i e)"
| ack_policy: "ep_step P e (set_ack_policy k now e)"
| ask_frequency: "ep_step P e (fst (request_ack_frequency seq n now m e))"
| peer_budget: "ep_step P e (fst (set_initial_peer_budget n m budget e))"
| history_capacity: "ep_step P e (fst (ep_set_history_capacity mem limit e))"
| ledger_capacity: "ep_step P e (fst (set_transmission_capacity ml mem limit e))"
| buffer_limit: "ep_step P e (fst (set_send_buffer_limit_bytes limit e))"
| growth_limits: "ep_step P e (fst (set_receive_growth_limits mem lim e))"
| estimator: "ep_step P e (fst (set_path_estimator_config_all ec e))"
| pacing: "ep_step P e (fst (set_pacing_config_all pc e))"
| budget: "ep_step P e (set_duplication_budget_capacity n e)"
| priority: "ep_step P e (mark_priority_stream_packet pn e)"
| reset: "ep_step P e (reset_stats e)"
| closing: "ep_step P e (close n e)"

lemma owned_flight:
  assumes "flight_inv e" "room cap e" "encode_stream_packet_from_owned_on_path P mem i d sf cap e = Some (e', r)"
  shows "flight_inv e'"
proof -
  obtain e1 r1 where e1: "encode_stream_packet_on_path_inner P mem i d sf cap False e = Some (e1, r1)" "quiet e1 e'"
    using assms(3) by (auto simp: encode_stream_packet_from_owned_on_path_def Let_def quiet_def dest!: bindS_fst split: if_splits)
  from e1(2) show ?thesis by (rule quiet_inv) (rule stream_flight [OF assms(1,2) e1(1)])
qed

lemma after_copy_flight:
  assumes "after_copy f m = Some (e', r)" "\<And>e1 r1. m = Some (e1, r1) \<Longrightarrow> flight_inv e1" "\<And>e1. quiet e1 (f e1)"
  shows "flight_inv e'"
proof -
  obtain er where m: "m = Some er" using assms(1) by (cases m) (simp_all add: after_copy_def)
  obtain e1 r1 where er: "er = (e1, r1)" by (rule prod.exhaust)
  have "Some (case r1 of Inr (Some _) \<Rightarrow> f e1 | _ \<Rightarrow> e1, r1) = Some (e', r)"
    using assms(1) by (simp only: after_copy_def m er option.map prod.case)
  then have "(case r1 of Inr (Some _) \<Rightarrow> f e1 | _ \<Rightarrow> e1) = e'" by (rule Pair_inject [OF option.inject [THEN iffD1]])
  then have "e' = e1 \<or> e' = f e1" by (cases r1; cases "projr r1") simp_all
  then show ?thesis using assms(2) [OF m [unfolded er]] assms(3) quiet_inv by blast
qed

lemma copies_flight:
  assumes "flight_inv e" "room cap e"
  shows "retransmit_stream_packet pn cap e = Some (e', r) \<Longrightarrow> flight_inv e'"
    "retransmit_stream_packet_on_path pn i cap e = Some (e', r) \<Longrightarrow> flight_inv e'"
    "duplicate_stream_packet_on_path pn i cap e = Some (e', r) \<Longrightarrow> flight_inv e'"
proof -
  note c = retransmit_flight [OF assms]
  show "retransmit_stream_packet_on_path pn i cap e = Some (e', r) \<Longrightarrow> flight_inv e'"
    unfolding retransmit_stream_packet_on_path_def by (erule after_copy_flight) (blast intro: c record_retransmission_quiet)+
  show "duplicate_stream_packet_on_path pn i cap e = Some (e', r) \<Longrightarrow> flight_inv e'"
    unfolding duplicate_stream_packet_on_path_def by (rule c)
  show "flight_inv e'" if "retransmit_stream_packet pn cap e = Some (e', r)"
  proof (cases "sent_lookup pn e")
    case None
    then show ?thesis using that assms(1) by (simp add: retransmit_stream_packet_def)
  next
    case (Some ks)
    then have "after_copy (record_retransmission (path_id (snd ks)))
        (retransmit_stream_packet_with_probe pn (path_id (snd ks)) cap True False e) = Some (e', r)"
      using that by (cases ks) (simp add: retransmit_stream_packet_def)
    then show ?thesis by (rule after_copy_flight) (blast intro: c record_retransmission_quiet)+
  qed
qed

lemma receive_one_quiet: "quiet e (fst (receive_stream_packet mem input e))"
proof -
  have "quiet e (schedule_application_ack 0 False (observe_packet_on_path pn 0 (e\<lparr>ep_receive := cs\<rparr>)))" for pn cs
    by (rule quiet_trans [OF quiet_trans [OF _ observe_quiet] app_ack_quiet]) (simp add: quiet_def)
  then show ?thesis by (auto simp: receive_stream_packet_def quiet_def split: sum.splits prod.splits)
qed

lemma commit_receive_step: "commit_stream_packet_receive pn i e = Some e' \<Longrightarrow> quiet e e'"
proof (cases "i < length (ep_paths e)")
  case True
  assume "commit_stream_packet_receive pn i e = Some e'"
  with commit_receive_quiet [OF True] show ?thesis by (metis option.inject)
next
  case False
  assume "commit_stream_packet_receive pn i e = Some e'"
  with False show ?thesis by (auto simp: commit_stream_packet_receive_def Let_def schedule_ack_def observe_packet_on_path_def split: if_splits)
qed

lemma submission_flight:
  assumes "flight_inv e"
  shows "may_block pn e \<Longrightarrow> packet_submission_blocked pn e = Some (e', b) \<Longrightarrow> flight_inv e'"
    "may_accept pn e \<Longrightarrow> packet_submission_accepted pn now e = Some (e', b) \<Longrightarrow> flight_inv e'"
    "packet_submission_failed pn e = Some (e', b) \<Longrightarrow> flight_inv e'"
    "mark_lost pn e = Some (e', b) \<Longrightarrow> flight_inv e'"
proof -
  show "may_block pn e \<Longrightarrow> packet_submission_blocked pn e = Some (e', b) \<Longrightarrow> flight_inv e'"
    by (rule blocked_flight [OF assms, of pn]) (auto simp: may_block_def)
  show "may_accept pn e \<Longrightarrow> packet_submission_accepted pn now e = Some (e', b) \<Longrightarrow> flight_inv e'"
    by (rule accepted_flight [OF assms, of pn now]) (auto simp: may_accept_def)
  show "packet_submission_failed pn e = Some (e', b) \<Longrightarrow> flight_inv e'" by (rule failed_flight [OF assms, of pn]) simp
  show "mark_lost pn e = Some (e', b) \<Longrightarrow> flight_inv e'" by (rule mark_lost_flight [OF assms, of pn]) simp
qed

lemma receive_step_flight:
  "flight_inv e \<Longrightarrow> receive_packet_batch_on_path_inner P mem input i opened deferred e = Some (e', r) \<Longrightarrow> flight_inv e'"
  by (metis receive_flight option.inject prod.inject)

lemmas quiet_ops = commit_receive_step receive_one_quiet poll_transmit_quiet poll_close_quiet consumed_inner_quiet consumed_quiet
  window_quiet open_send_stream_quiet install_connection_ids_quiet set_peer_connection_id_quiet queue_status_quiet
  defer_status_quiet receive_path_status_quiet begin_probe_quiet arrival_quiet set_time_quiet reack_quiet policy_quiet
  limits_quiet growth_limits_quiet config_quiet

lemma ep_step_flight:
  assumes "flight_inv e" "ep_step P e e'"
  shows "flight_inv e'"
  using assms(2,1)
  by (induction rule: ep_step.induct)
    (blast intro: path_control_flight stream_flight owned_flight copies_flight credit_copy_flight marked_loss_flight
      retransmit_due_flight submission_flight receive_step_flight suspend_path_flight remove_path_state_flight
      add_path_flight add_path_ids_flight add_path_local_flight capacity_flight priority_flight quiet_inv quiet_ops)+

lemma new_flight:
  assumes "new_with_history_capacity P role lim max_packet n = Some e"
  shows "flight_inv e"
proof -
  have "flight_of (path_new max_packet) = 0" by (simp add: flight_of_def path_new_def cc_new_def Let_def)
  then show ?thesis using assms
    by (auto simp: new_with_history_capacity_def flight_inv_def MAX_PATH_STATES_def sat_mul_def list_all_iff split: if_splits)
qed

interpretation ep: stateful "\<lambda>e. \<exists>role lim max_packet n. new_with_history_capacity P role lim max_packet n = Some e"
    "ep_step P" flight_inv for P
  using new_flight ep_step_flight by unfold_locales blast+

lemma flight_ledger: "flight i slots = sum_list (map sp_bytes (filter (\<lambda>s. path_id s = i \<and> accepted s \<and> \<not> lost s) (List.map_filter id slots)))"
  by (induction slots) (auto simp: List.map_filter_def split: option.splits)


text \<open>An endpoint that was built, got its identifiers, opened a stream and sent three bytes on it.\<close>

definition fresh_endpoint :: EndpointState where
  "fresh_endpoint = the (new_with_history_capacity 1100 Client default_limits 1200 8)"

definition sending_endpoint :: EndpointState where
  "sending_endpoint = (let e1 = fst (the (install_connection_ids (ConnectionId 7) (ConnectionId 9) fresh_endpoint));
       e2 = fst (open_send_stream True True 0 1000 e1)
     in fst (the (encode_stream_packet_on_path_inner 1100 True 0 (ConnectionId 9)
          \<lparr>sf_id = 0, sf_offset = 0, sf_fin = True, sf_data = [1, 2, 3]\<rparr> 1200 True e2)))"

lemma sending_reachable: "(ep_step 1100)\<^sup>*\<^sup>* fresh_endpoint sending_endpoint"
proof -
  let ?i = "install_connection_ids (ConnectionId 7) (ConnectionId 9) fresh_endpoint"
  let ?e1 = "fst (the ?i)"
  let ?e2 = "fst (open_send_stream True True 0 1000 ?e1)"
  let ?s = "encode_stream_packet_on_path_inner 1100 True 0 (ConnectionId 9)
    \<lparr>sf_id = 0, sf_offset = 0, sf_fin = True, sf_data = [1, 2, 3]\<rparr> 1200 True ?e2"
  have some: "x = Some (fst (the x), snd (the x))" if "x \<noteq> None" for x :: "('a \<times> 'b) option"
    using that by (cases x) auto
  have "?i \<noteq> None" by code_simp
  then have a: "ep_step 1100 fresh_endpoint ?e1" by (rule ep_step.install [OF some])
  have b: "ep_step 1100 ?e1 ?e2" by (rule ep_step.open_stream)
  have "room 1200 ?e2" "?s \<noteq> None" by code_simp+
  then have c: "ep_step 1100 ?e2 (fst (the ?s))" by (intro ep_step.stream_packet [OF _ some])
  show ?thesis unfolding sending_endpoint_def Let_def
    using rtranclp.rtrancl_into_rtrancl [of "ep_step 1100", OF rtranclp.rtrancl_into_rtrancl [of "ep_step 1100", OF r_into_rtranclp [of "ep_step 1100", OF a] b] c] .
qed


lemma deadline_total: "flight_inv e \<Longrightarrow> next_bearer_deadline e \<noteq> None"
  unfolding next_bearer_deadline_def by (simp add: flight_inv_def timer_heads_eq)

lemma submission_total:
  assumes "flight_inv e"
  shows "packet_submission_blocked pn e \<noteq> None" "packet_submission_accepted pn now e \<noteq> None"
    "packet_submission_failed pn e \<noteq> None" "mark_lost pn e \<noteq> None"
proof -
  have "path_get e (path_id sent) \<noteq> None" if "sent_lookup pn e = Some (k, sent)" for k sent
    using sent_flight(1) [OF assms that] by (simp add: path_get_def)
  then show "packet_submission_blocked pn e \<noteq> None" "packet_submission_accepted pn now e \<noteq> None"
    "packet_submission_failed pn e \<noteq> None" "mark_lost pn e \<noteq> None"
    by (auto simp: packet_submission_blocked_def packet_submission_accepted_def packet_submission_failed_def mark_lost_def
        simp del: not_None_eq split: option.split)
qed



end
