(* ===== verification/Stream_Mux.thy ===== *)
theory Stream_Mux
  imports Endpoint_Steps Stream_Delivery
begin

text \<open>
  The stream multiplexer of an association (\<^verbatim>\<open>mux.rs\<close>): the endpoint and the ordered streams together. A packet
  is checked against the stream table, admitted by the endpoint without being acknowledged, its frames are
  offered to the application in order, and only then is its number recorded.
\<close>

section \<open>State and consumers\<close>

datatype StreamDeliveryError = PacketError error | ApplicationError error

record StreamMux =
  mx_endpoint :: EndpointState
  mx_ordered :: CallbackStreams

text \<open>The application callback, as a function on a state of its own.\<close>

type_synonym 's handler = "u64 \<Rightarrow> u64 \<Rightarrow> bool \<Rightarrow> u8 list \<Rightarrow> 's \<Rightarrow> (error + usize) \<times> 's"

definition application_sink :: "'s handler \<Rightarrow> ('s \<times> usize, error) CopyingStreamEvents" where
  "application_sink h = \<lparr>
     stream_chunk = (\<lambda>i off fin bytes (s, n). case h i off fin bytes s of
         (Inl err, s1) \<Rightarrow> (Inl err, (s1, n))
       | (Inr consumed, s1) \<Rightarrow> if length bytes < consumed then (Inl Invalid, (s1, n)) else (Inr consumed, (s1, sat_add64 n consumed))),
     stream_finished = (\<lambda>_ w. w),
     stream_reset = (\<lambda>_ _ w. w)\<rparr>"

definition validation_sink :: "(unit, unit) CopyingStreamEvents" where
  "validation_sink = \<lparr>stream_chunk = (\<lambda>i off fin bytes s. (Inr (length bytes), s)), stream_finished = (\<lambda>_ w. w),
     stream_reset = (\<lambda>_ _ w. w)\<rparr>"

definition retain_stream_bytes :: "bool \<Rightarrow> u8 list \<Rightarrow> CallbackError + u8 list" where
  "retain_stream_bytes mem bytes = (if mem then Inr bytes else Inl Capacity)"

text \<open>
  The outcomes of the allocations one packet may make: of the vectors of the validation, per frame of the dry run
  and of the delivery (the item, the stream, the copy), of new streams in the receive table, and of the credit lists.
\<close>

record packet_memory =
  pm_validate :: bool
  pm_dry :: "nat \<Rightarrow> bool \<times> bool \<times> bool"
  pm_frame :: "nat \<Rightarrow> bool \<times> bool \<times> bool"
  pm_streams :: "u64 \<Rightarrow> bool"
  pm_credit :: "nat \<Rightarrow> bool \<times> bool"

section \<open>Operations\<close>

definition mux_new :: "usize \<Rightarrow> Role \<Rightarrow> ConnectionLimits \<Rightarrow> u64 \<Rightarrow> usize \<Rightarrow> usize \<Rightarrow> usize \<Rightarrow> StreamMux option" where
  "mux_new P role lim max_packet max_pending_streams max_stream_bytes history_capacity =
     map_option (\<lambda>e. \<lparr>mx_endpoint = e, mx_ordered = cb_new max_pending_streams max_stream_bytes\<rparr>)
       (new_with_history_capacity P role lim max_packet history_capacity)"

definition set_delivery_limits :: "usize \<Rightarrow> usize \<Rightarrow> StreamMux \<Rightarrow> StreamMux" where
  "set_delivery_limits n bytes m = m\<lparr>mx_ordered := set_limits n bytes (mx_ordered m)\<rparr>"

definition mux_install_connection_ids :: "ConnectionId \<Rightarrow> ConnectionId \<Rightarrow> StreamMux \<Rightarrow> (StreamMux \<times> unit result) option" where
  "mux_install_connection_ids local peer m =
     map_option (\<lambda>(e, r). (m\<lparr>mx_endpoint := e\<rparr>, r)) (install_connection_ids local peer (mx_endpoint m))"

definition stream_delivery_complete :: "EndpointState \<Rightarrow> u64 \<Rightarrow> bool" where
  "stream_delivery_complete e i = is_complete_or_retired (ep_receive e) i"

text \<open>
  The first pass over the frames: those of streams that are not delivered completely, and whether there was a
  stream frame at all. The loop has no guard against a frame of no bytes; not returning is \<open>None\<close>.
\<close>

definition note_frame :: "(u64 \<Rightarrow> bool) \<Rightarrow> Frame \<Rightarrow> StreamFrame list \<times> bool \<Rightarrow> StreamFrame list \<times> bool" where
  "note_frame complete frame acc = (case frame of
     StreamF f \<Rightarrow> (if complete (sf_id f) then fst acc else fst acc @ [f], True)
   | _ \<Rightarrow> acc)"

partial_function (option) packet_frames :: "(u64 \<Rightarrow> bool) \<Rightarrow> u8 list \<Rightarrow> StreamFrame list \<times> bool
    \<Rightarrow> (StreamFrame list \<times> bool) result option" where
  "packet_frames complete input acc =
     (if input = [] then Some (Inr acc)
      else (case decode_frame input of
        Inl err \<Rightarrow> Some (Inl err)
      | Inr fu \<Rightarrow> packet_frames complete (drop (snd fu) input) (note_frame complete (fst fu) acc)))"

declare packet_frames.simps [code]

text \<open>The dry run on a copy of the stream table, made only when the retention limit might be exceeded.\<close>

fun dry_run :: "(nat \<Rightarrow> bool \<times> bool \<times> bool) \<Rightarrow> nat \<Rightarrow> StreamFrame list \<Rightarrow> CallbackStreams \<Rightarrow> CallbackError option" where
  "dry_run mem k [] staged = None"
| "dry_run mem k (f # fs) staged = (case mem k of (item, stream, copy) \<Rightarrow>
     (case try_receive_copying_borrowed item stream validation_sink (sf_id f) (sf_data f) (sf_offset f) (sf_fin f)
             (retain_stream_bytes copy (sf_data f)) (staged, ()) of
        ((staged1, _), Inr _) \<Rightarrow> dry_run mem (Suc k) fs staged1
      | (_, Inl (Transport err)) \<Rightarrow> Some err
      | (_, Inl (Callback _)) \<Rightarrow> Some InvalidOverlap))"

text \<open>The delivery of the frames: \<open>Inr False\<close> is the early return when storage ran out, without an acknowledgement.\<close>

fun deliver_frames :: "usize \<Rightarrow> packet_memory \<Rightarrow> 's handler \<Rightarrow> nat \<Rightarrow> StreamFrame list \<Rightarrow> StreamMux \<times> 's
    \<Rightarrow> (StreamMux \<times> 's) \<times> (StreamDeliveryError + bool)" where
  "deliver_frames P mem h k [] w = (w, Inr True)"
| "deliver_frames P mem h k (f # fs) w = (case pm_frame mem k of (item, stream, copy) \<Rightarrow>
     (case try_receive_copying_borrowed item stream (application_sink h) (sf_id f) (sf_data f) (sf_offset f) (sf_fin f)
             (retain_stream_bytes copy (sf_data f)) (mx_ordered (fst w), (snd w, 0)) of
        ((ordered, (s1, n)), delivery) \<Rightarrow>
     (case (if n \<noteq> 0 then stream_consumed_inner P (fst (pm_credit mem k)) (snd (pm_credit mem k)) (sf_id f) n False False (mx_endpoint (fst w))
            else (mx_endpoint (fst w), Inr ())) of
        (e1, consumed) \<Rightarrow>
          let w1 = (\<lparr>mx_endpoint = e1, mx_ordered = ordered\<rparr>, s1) in
          (case consumed of
             Inl err \<Rightarrow> (w1, Inl (PacketError err))
           | Inr _ \<Rightarrow> (case delivery of
               Inr _ \<Rightarrow> deliver_frames P mem h (Suc k) fs w1
             | Inl (Transport Capacity) \<Rightarrow> (w1, Inr False)
             | Inl (Transport _) \<Rightarrow> (w1, Inl (PacketError Invalid))
             | Inl (Callback err) \<Rightarrow> (w1, Inl (ApplicationError err)))))))"

text \<open>A packet without stream frames, or below the floor, goes to the endpoint as it is.\<close>

definition receive_plain :: "usize \<Rightarrow> packet_memory \<Rightarrow> u8 list \<Rightarrow> usize \<Rightarrow> StreamMux \<times> 's
    \<Rightarrow> ((StreamMux \<times> 's) \<times> (StreamDeliveryError + unit)) option" where
  "receive_plain P mem input ingress w =
     map_option (\<lambda>(e1, r). (((fst w)\<lparr>mx_endpoint := e1\<rparr>, snd w), case r of Inl err \<Rightarrow> Inl (PacketError err) | Inr _ \<Rightarrow> Inr ()))
       (receive_packet_on_path P (pm_streams mem) input ingress (mx_endpoint (fst w)))"

definition finish_delivery :: "TransportFrames \<Rightarrow> usize \<Rightarrow> (StreamMux \<times> 's) \<times> (StreamDeliveryError + bool)
    \<Rightarrow> ((StreamMux \<times> 's) \<times> (StreamDeliveryError + unit)) option" where
  "finish_delivery admitted ingress r = (case r of
     (w, Inl err) \<Rightarrow> Some (w, Inl err)
   | (w, Inr complete) \<Rightarrow>
       if complete \<and> \<not> tf_duplicate admitted \<and> tf_streams admitted \<noteq> []
       then map_option (\<lambda>e1. (((fst w)\<lparr>mx_endpoint := e1\<rparr>, snd w), Inr ()))
              (commit_stream_packet_receive (sh_packet_number (tf_header admitted)) ingress (mx_endpoint (fst w)))
       else Some (w, Inr ()))"

definition receive_frames :: "usize \<Rightarrow> packet_memory \<Rightarrow> 's handler \<Rightarrow> u8 list \<Rightarrow> usize \<Rightarrow> StreamFrame list \<Rightarrow> StreamMux \<times> 's
    \<Rightarrow> ((StreamMux \<times> 's) \<times> (StreamDeliveryError + unit)) option" where
  "receive_frames P mem h input ingress frames w =
     (case validate_packet_frames (pm_validate mem) (map (\<lambda>f. (sf_id f, sf_offset f, length (sf_data f), sf_fin f)) frames) (mx_ordered (fst w)) of
        Inl Capacity \<Rightarrow> Some (w, Inr ())
      | Inl _ \<Rightarrow> Some (w, Inl (PacketError Invalid))
      | Inr _ \<Rightarrow>
          (case (if retention_may_exceed (fold (\<lambda>f n. sat_add64 n (length (sf_data f))) frames 0) (mx_ordered (fst w))
                 then dry_run (pm_dry mem) 0 frames (mx_ordered (fst w)) else None) of
             Some Capacity \<Rightarrow> Some (w, Inr ())
           | Some _ \<Rightarrow> Some (w, Inl (PacketError Invalid))
           | None \<Rightarrow>
               (case receive_packet_before_stream_delivery P (pm_streams mem) input ingress (mx_endpoint (fst w)) of
                  None \<Rightarrow> None
                | Some (e1, Inl err) \<Rightarrow> Some (((fst w)\<lparr>mx_endpoint := e1\<rparr>, snd w), Inl (PacketError err))
                | Some (e1, Inr admitted) \<Rightarrow>
                    finish_delivery admitted ingress (deliver_frames P mem h 0 frames ((fst w)\<lparr>mx_endpoint := e1\<rparr>, snd w)))))"

definition receive_stream_events_on_path :: "usize \<Rightarrow> packet_memory \<Rightarrow> 's handler \<Rightarrow> u8 list \<Rightarrow> usize \<Rightarrow> StreamMux \<times> 's
    \<Rightarrow> ((StreamMux \<times> 's) \<times> (StreamDeliveryError + unit)) option" where
  "receive_stream_events_on_path P mem h input ingress w =
     (case decode_with_expected False input (expected_packet_number (mx_endpoint (fst w))) of
        Inl err \<Rightarrow> Some (w, Inl (PacketError err))
      | Inr (header, used) \<Rightarrow>
          if sh_packet_number header < ep_receive_packet_floor (mx_endpoint (fst w)) then receive_plain P mem input ingress w
          else (case packet_frames (stream_delivery_complete (mx_endpoint (fst w))) (drop used input) ([], False) of
              None \<Rightarrow> None
            | Some (Inl err) \<Rightarrow> Some (w, Inl (PacketError err))
            | Some (Inr (frames, has_stream)) \<Rightarrow>
                if has_stream then receive_frames P mem h input ingress frames w else receive_plain P mem input ingress w))"

definition resume_stream_events :: "usize \<Rightarrow> bool \<Rightarrow> bool \<Rightarrow> 's handler \<Rightarrow> u64 \<Rightarrow> StreamMux \<times> 's
    \<Rightarrow> (StreamMux \<times> 's) \<times> (StreamDeliveryError + usize)" where
  "resume_stream_events P mem_list mem h i w =
     (case resume_copying (application_sink h) i (mx_ordered (fst w), (snd w, 0)) of
        ((ordered, (s1, n)), Inl (Transport _)) \<Rightarrow> (((fst w)\<lparr>mx_ordered := ordered\<rparr>, s1), Inl (PacketError Invalid))
      | ((ordered, (s1, n)), Inl (Callback err)) \<Rightarrow> (((fst w)\<lparr>mx_ordered := ordered\<rparr>, s1), Inl (ApplicationError err))
      | ((ordered, (s1, n)), Inr _) \<Rightarrow>
          (case (if n \<noteq> 0 then stream_consumed_inner P mem_list mem i n True True (mx_endpoint (fst w)) else (mx_endpoint (fst w), Inr ())) of
             (e1, r) \<Rightarrow> ((\<lparr>mx_endpoint = e1, mx_ordered = ordered\<rparr>, s1), case r of Inl err \<Rightarrow> Inl (PacketError err) | Inr _ \<Rightarrow> Inr n)))"

definition encode_response_at_on_path :: "usize \<Rightarrow> bool \<Rightarrow> bool \<Rightarrow> bool \<Rightarrow> usize \<Rightarrow> StreamFrame \<Rightarrow> nat \<Rightarrow> StreamMux
    \<Rightarrow> (StreamMux \<times> (u8 list \<times> u32) result) option" where
  "encode_response_at_on_path P mem_send mem_receive mem i frame cap m =
     (let e1 = fst (open_send_stream mem_send mem_receive (sf_id frame) u64_max (mx_endpoint m)) in
      case peer_connection_id_on_path e1 i of
        None \<Rightarrow> Some (m\<lparr>mx_endpoint := e1\<rparr>, Inl WrongConnectionId)
      | Some peer \<Rightarrow> map_option (\<lambda>(e2, r). (m\<lparr>mx_endpoint := e2\<rparr>, r))
          (encode_stream_packet_on_path_inner P mem i peer frame cap True e1))"

definition encode_response_from_owned_at_on_path :: "usize \<Rightarrow> bool \<Rightarrow> bool \<Rightarrow> bool \<Rightarrow> usize \<Rightarrow> StreamFrame \<Rightarrow> nat \<Rightarrow> StreamMux
    \<Rightarrow> (StreamMux \<times> (u8 list \<times> u32) result) option" where
  "encode_response_from_owned_at_on_path P mem_send mem_receive mem i frame cap m =
     (let e1 = fst (open_send_stream mem_send mem_receive (sf_id frame) u64_max (mx_endpoint m)) in
      case peer_connection_id_on_path e1 i of
        None \<Rightarrow> Some (m\<lparr>mx_endpoint := e1\<rparr>, Inl WrongConnectionId)
      | Some peer \<Rightarrow> map_option (\<lambda>(e2, r). (m\<lparr>mx_endpoint := e2\<rparr>, r))
          (encode_stream_packet_from_owned_on_path P mem i peer frame cap e1))"

section \<open>The loop over the frames returns\<close>

lemma packet_frames_total: "\<exists>r. packet_frames complete input acc = Some r"
proof (induction "length input" arbitrary: input acc rule: less_induct)
  case less
  show ?case
  proof (cases "decode_frame input")
    case (Inl err)
    then show ?thesis by (subst packet_frames.simps) simp
  next
    case (Inr fu)
    show ?thesis
    proof (cases "input = []")
      case False
      have "0 < snd fu" using decode_frame_bound [of input "fst fu" "snd fu"] Inr by simp
      with False have "length (drop (snd fu) input) < length input" by simp
      then show ?thesis using less False by (subst packet_frames.simps) (simp add: Inr)
    qed (subst packet_frames.simps, simp)
  qed
qed

section \<open>What a delivered frame leaves behind\<close>

text \<open>Every byte of an interval of the stream was taken by the consumer or is stored for it.\<close>

definition covers :: "OrderedStream \<Rightarrow> u64 \<Rightarrow> usize \<Rightarrow> bool" where
  "covers st off len \<longleftrightarrow> (\<forall>k \<in> {off ..< off + len}. k < os_consumed st
     \<or> (\<exists>x \<in> set (retained st). rt_offset x \<le> k \<and> k < rt_offset x + range_len (rt_range x)))"

definition settled :: "CallbackStreams \<Rightarrow> u64 \<Rightarrow> u64 \<Rightarrow> usize \<Rightarrow> bool" where
  "settled cs i off len = (case cb_find i cs of None \<Rightarrow> True | Some st \<Rightarrow> covers st off len)"

definition item_fits :: "Retained \<Rightarrow> bool" where
  "item_fits x \<longleftrightarrow> fst (rt_range x) \<le> snd (rt_range x) \<and> snd (rt_range x) \<le> length (rt_packet x)
     \<and> rt_offset x + range_len (rt_range x) \<le> u64_max"

definition live_ok :: "OrderedStream \<Rightarrow> bool" where
  "live_ok st \<longleftrightarrow> \<not> os_finished st \<and> outstanding st = None \<and> list_all item_fits (retained st)"

definition streams_ok :: "CallbackStreams \<Rightarrow> bool" where
  "streams_ok cs \<longleftrightarrow> distinct (map os_id (streams cs)) \<and> list_all live_ok (streams cs)"

lemma covers_consumed: "off + len \<le> os_consumed st \<Longrightarrow> covers st off len"
  by (auto simp: covers_def)

lemma if_inr: "(if b then x else y) = z \<Longrightarrow> (b \<Longrightarrow> x = z \<Longrightarrow> R) \<Longrightarrow> (\<not> b \<Longrightarrow> y = z \<Longrightarrow> R) \<Longrightarrow> R"
  by (cases b) auto

lemma os_insert_covers:
  assumes "live_ok st" "os_insert mem packet off r fin m st = Inr (n, st')"
  shows "live_ok st' \<and> os_id st' = os_id st \<and> os_consumed st' = os_consumed st \<and> covers st' off (range_len r)"
proof -
  let ?t = "os_consumed st - off"
  let ?r = "(fst r + ?t, snd r)"
  let ?x = "\<lparr>rt_offset = off + ?t, rt_packet = packet, rt_range = ?r, rt_end = fin\<rparr>"
  have r: "fst r \<le> snd r" "snd r \<le> length packet" and u: "off + range_len r \<le> u64_max"
    using assms(2) by (auto simp: os_insert_def checked_add_def range_len_def ok_or_def Let_def split: if_splits)
  let ?e = "off + range_len r"
  let ?known = "?e \<le> os_consumed st \<and> \<not> (range_len r = 0 \<and> fin \<and> off = os_consumed st)"
  note eq = assms(2) [unfolded os_insert_step [OF r u]]
  have nv: "\<not> violates_final (final_size st) ?e fin" using eq by (rule if_inr) simp_all
  consider (old) "?e \<le> os_consumed st" "st' = set_final fin ?e st" | (empty) "fst r + ?t = snd r" "st' = st"
    | (same) "list_ex (holds_same packet (off + ?t) ?r) (retained st)" "st' = set_final fin ?e st"
    | (new) "\<not> ?known" "st' = set_final fin ?e (st\<lparr>retained := insert_sorted_by_offset ?x (retained st)\<rparr>)"
  proof (cases "?known")
    case True
    show ?thesis by (rule that(1)) (use True eq [unfolded if_not_P [OF nv] if_P [OF True]] in simp_all)
  next
    case False
    note eq = eq [unfolded if_not_P [OF nv] if_not_P [OF False]]
    show ?thesis
    proof (cases "fst ?r = snd ?r \<and> \<not> fin")
      case True
      show ?thesis by (rule that(2)) (use True eq [unfolded if_P [OF True]] in simp_all)
    next
      case F2: False
      note eq = eq [unfolded if_not_P [OF F2]]
      show ?thesis
      proof (cases "list_ex (holds_same packet (off + ?t) ?r) (retained st)")
        case True
        then show ?thesis using eq that(3) by (auto elim!: if_inr)
      next
        case F3: False
        note eq = eq [unfolded if_not_P [OF F3]]
        from eq have "st' = set_final fin ?e (st\<lparr>retained := insert_sorted_by_offset ?x (retained st)\<rparr>)" by (elim if_inr) simp_all
        then show ?thesis by (rule that(4) [OF False])
      qed
    qed
  qed
  note c = this
  have fin: "retained (set_final fin e s) = retained s" "os_consumed (set_final fin e s) = os_consumed s" "os_id (set_final fin e s) = os_id s"
      "live_ok (set_final fin e s) = live_ok s" "covers (set_final fin e s) a l = covers s a l" for e s a l
    by (simp_all add: set_final_def live_ok_def covers_def)
  note [simp] = fin
  from c show ?thesis
  proof cases
    case old
    then show ?thesis using assms(1) covers_consumed by simp
  next
    case empty
    then have "off + range_len r \<le> os_consumed st \<or> range_len r = 0" using r(1) by (auto simp: range_len_def)
    then show ?thesis using assms(1) empty(2) covers_consumed by (auto simp: covers_def)
  next
    case same
    then obtain x where x: "x \<in> set (retained st)" "rt_offset x = off + ?t" "range_len (rt_range x) = range_len ?r"
      by (auto simp: list_ex_iff holds_same_def)
    have "covers st off (range_len r)" unfolding covers_def
    proof
      fix k assume "k \<in> {off ..< off + range_len r}"
      then show "k < os_consumed st \<or> (\<exists>x \<in> set (retained st). rt_offset x \<le> k \<and> k < rt_offset x + range_len (rt_range x))"
        using x by (cases "k < os_consumed st") (auto simp: range_len_def intro!: bexI [of _ x])
    qed
    then show ?thesis using assms(1) same(2) by simp
  next
    case new
    then have t: "?t \<le> range_len r" by auto
    have f: "item_fits ?x" using t r u by (auto simp: item_fits_def range_len_def)
    have "covers (st\<lparr>retained := insert_sorted_by_offset ?x (retained st)\<rparr>) off (range_len r)"
      by (auto simp: covers_def range_len_def)
    moreover have "live_ok (st\<lparr>retained := insert_sorted_by_offset ?x (retained st)\<rparr>)"
      using assms(1) f by (auto simp: live_ok_def list_all_iff)
    ultimately show ?thesis using new(2) by simp
  qed
qed

definition shrink :: "usize \<Rightarrow> Retained \<Rightarrow> Retained" where
  "shrink n x = x\<lparr>rt_offset := rt_offset x + n, rt_range := (fst (rt_range x) + n, snd (rt_range x))\<rparr>"

lemma update_first_cong: "find P xs = Some x \<Longrightarrow> f x = g x \<Longrightarrow> update_first P f xs = update_first P g xs"
  by (induction xs) (auto split: if_splits)

lemma update_first_keeps: "x \<in> set xs \<Longrightarrow> x \<in> set (update_first P f xs) \<or> P x \<and> f x \<in> set (update_first P f xs)"
  by (induction xs) auto

lemma remove_first_keeps: "x \<in> set xs \<Longrightarrow> find P xs = Some y \<Longrightarrow> x = y \<or> x \<in> set (remove_first P xs)"
  by (induction xs) (auto split: if_splits)

lemma update_first_shrink:
  assumes "live_ok st" "find (at_cursor st) (retained st) = Some item" "n < length (rt_bytes item)"
  shows "update_first (at_cursor st) (\<lambda>x. x\<lparr>rt_offset := sat_add64 (rt_offset x) n, rt_range := (fst (rt_range x) + n, snd (rt_range x))\<rparr>) (retained st)
    = update_first (at_cursor st) (shrink n) (retained st)"
proof (rule update_first_cong [OF assms(2)])
  have "item \<in> set (retained st)" using assms(2) by (auto simp: find_Some_iff)
  then have "item_fits item" using assms(1) by (auto simp: live_ok_def list_all_iff)
  then have "rt_offset item + n \<le> u64_max" using assms(3) by (simp add: item_fits_def rt_bytes_def)
  then show "item\<lparr>rt_offset := sat_add64 (rt_offset item) n, rt_range := (fst (rt_range item) + n, snd (rt_range item))\<rparr> = shrink n item"
    by (simp add: shrink_def sat_add_def)
qed

lemma resume_loop_covers:
  assumes "resume_loop ev i taken kept st s = (u, kept', s', r)" "live_ok st" "covers st off len"
  shows "case u of None \<Rightarrow> True | Some st' \<Rightarrow> live_ok st' \<and> os_id st' = os_id st \<and> covers st' off len"
  using assms
proof (induction "length (retained st)" arbitrary: st taken kept s rule: less_induct)
  case less
  have live: "\<not> os_finished st" "outstanding st = None" using less.prems(2) by (auto simp: live_ok_def)
  show ?case
  proof (cases "find (at_cursor st) (retained st)")
    case None
    then show ?thesis using less.prems resume_loop_idle [of st ev i taken kept s] by auto
  next
    case (Some item)
    obtain a w where c: "stream_chunk ev i (rt_offset item) (rt_end item) (rt_bytes item) s = (a, w)" by (meson surj_pair)
    note step = less.prems(1) [unfolded resume_loop_chunk [OF live Some c]]
    have item: "item \<in> set (retained st)" "rt_offset item = os_consumed st"
      using Some by (auto simp: find_Some_iff at_cursor_def)
    have fits: "item_fits item" using item(1) less.prems(2) by (auto simp: live_ok_def list_all_iff)
    have len: "length (rt_bytes item) = range_len (rt_range item)" using fits by (simp add: item_fits_def rt_bytes_def)
    consider "u = Some st" | "u = None"
      | n where "a = Inr n" "n < length (rt_bytes item)" "u = Some (st\<lparr>os_consumed := sat_add64 (os_consumed st) n, retained := update_first (at_cursor st)
            (\<lambda>x. x\<lparr>rt_offset := sat_add64 (rt_offset x) n, rt_range := (fst (rt_range x) + n, snd (rt_range x))\<rparr>) (retained st)\<rparr>)"
      | n where "n = length (rt_bytes item)" "resume_loop ev i (sat_add64 taken n) (kept - n)
         (st\<lparr>os_consumed := sat_add64 (os_consumed st) n, retained := remove_first (at_cursor st) (retained st)\<rparr>) w = (u, kept', s', r)"
      using step by (cases a) (auto split: if_splits)
    then show ?thesis
    proof cases
      case 1 then show ?thesis using less.prems by simp
    next
      case 2 then show ?thesis by simp
    next
      case (3 n)
      have sat: "sat_add64 (os_consumed st) n = os_consumed st + n" using fits item(2) 3(2) len by (simp add: item_fits_def sat_add_def)
      then have u: "u = Some (st\<lparr>os_consumed := os_consumed st + n, retained := update_first (at_cursor st) (shrink n) (retained st)\<rparr>)"
        using 3(3) item(2) update_first_shrink [OF less.prems(2) Some, of n] 3(2) by simp
      have keep: "k < os_consumed st + n \<or> (\<exists>y \<in> set (update_first (at_cursor st) (shrink n) (retained st)). rt_offset y \<le> k \<and> k < rt_offset y + range_len (rt_range y))"
        if "x \<in> set (retained st)" "rt_offset x \<le> k" "k < rt_offset x + range_len (rt_range x)" for x k
        using update_first_keeps [OF that(1), of "at_cursor st" "shrink n"] that(2,3)
        by (auto simp: at_cursor_def shrink_def range_len_def) (fastforce)+
      have "covers (st\<lparr>os_consumed := os_consumed st + n, retained := update_first (at_cursor st) (shrink n) (retained st)\<rparr>) off len"
        using less.prems(3) keep unfolding covers_def by simp (metis trans_less_add1)
      moreover have "live_ok (st\<lparr>os_consumed := os_consumed st + n, retained := update_first (at_cursor st) (shrink n) (retained st)\<rparr>)"
        using less.prems(2) fits 3(2) len Some by (auto simp: live_ok_def list_all_iff item_fits_def shrink_def range_len_def dest!: set_update_first_found [OF Some])
      ultimately show ?thesis unfolding u by simp
    next
      case (4 n)
      have sat: "sat_add64 (os_consumed st) n = os_consumed st + n" using fits item(2) 4(1) len by (simp add: item_fits_def sat_add_def)
      let ?st = "st\<lparr>os_consumed := os_consumed st + n, retained := remove_first (at_cursor st) (retained st)\<rparr>"
      have l: "live_ok ?st" using less.prems(2) by (auto simp: live_ok_def list_all_iff dest: set_remove_first)
      have "k < os_consumed st + n \<or> x \<in> set (remove_first (at_cursor st) (retained st))"
        if "x \<in> set (retained st)" "k < rt_offset x + range_len (rt_range x)" for x k
        using remove_first_keeps [OF that(1) Some] that(2) item(2) 4(1) len by auto
      then have "covers ?st off len" using less.prems(3) unfolding covers_def by simp (metis trans_less_add1)
      with less.hyps [of ?st] l 4(2) show ?thesis using length_remove_first [OF Some] by (auto simp: sat split: option.splits)
    qed
  qed
qed

text \<open>What an operation on one stream keeps: the table is well formed and the other streams are untouched.\<close>

definition only :: "u64 \<Rightarrow> CallbackStreams \<Rightarrow> CallbackStreams \<Rightarrow> bool" where
  "only i cs cs' \<longleftrightarrow> (streams_ok cs \<longrightarrow> streams_ok cs') \<and> (streams_ok cs \<longrightarrow> (\<forall>j. j \<noteq> i \<longrightarrow> cb_find j cs' = cb_find j cs))"

lemma only_refl [simp]: "only i cs cs"
  by (simp add: only_def)

lemma only_trans: "only i a b \<Longrightarrow> only i b c \<Longrightarrow> only i a c"
  by (auto simp: only_def)

lemma streams_ok_bytes [simp]: "streams_ok (cs\<lparr>retained_bytes := n\<rparr>) = streams_ok cs" "cb_find j (cs\<lparr>retained_bytes := n\<rparr>) = cb_find j cs"
  by (simp_all add: streams_ok_def cb_find_def)

lemma only_bytes [simp]: "only i cs (c\<lparr>retained_bytes := n\<rparr>) = only i cs c" "only i (c\<lparr>retained_bytes := n\<rparr>) cs = only i c cs"
  by (simp_all add: only_def)

lemma settled_bytes [simp]: "settled (cs\<lparr>retained_bytes := n\<rparr>) i off len = settled cs i off len"
  by (simp add: settled_def)

lemma found_live: "streams_ok cs \<Longrightarrow> cb_find i cs = Some st \<Longrightarrow> live_ok st \<and> os_id st = i"
  by (auto simp: streams_ok_def list_all_iff dest!: cb_find_id)

lemma put_touches_only: "cb_find i cs = Some st \<Longrightarrow> os_id u = i \<Longrightarrow> live_ok u \<Longrightarrow> only i cs (put_stream i u cs)"
  by (auto simp: only_def streams_ok_def cb_find_put list_all_iff) (auto simp: put_stream_def dest!: set_update_first)

lemma drop_only: "only i cs (drop_stream i cs)"
  by (auto simp: only_def streams_ok_def cb_find_drop ids_drop list_all_iff) (auto simp: drop_stream_def dest: set_remove_first)

lemma all_live: "streams_ok cs \<Longrightarrow> cs\<lparr>streams := live_streams cs\<rparr> = cs"
proof -
  assume "streams_ok cs"
  then have "live_streams cs = streams cs" by (auto simp: live_streams_def streams_ok_def live_ok_def list_all_iff filter_id_conv)
  then show ?thesis by simp
qed

lemma new_live: "live_ok (os_new i) \<and> os_id (os_new i) = i"
  by (simp add: live_ok_def os_new_def)

lemma find_append_new: "find P (xs @ [x]) = (case find P xs of Some y \<Rightarrow> Some y | None \<Rightarrow> if P x then Some x else None)"
  by (induction xs) auto

lemma add_only:
  assumes "cb_find i cs = None" "live_ok u" "os_id u = i"
  shows "only i cs (cs\<lparr>streams := streams cs @ [u]\<rparr>)" "cb_find i (cs\<lparr>streams := streams cs @ [u]\<rparr>) = Some u"
proof -
  have f: "find (\<lambda>x. os_id x = i) (streams cs) = None" using assms(1) by (simp add: cb_find_def)
  have "i \<notin> os_id ` set (streams cs)" using f by (auto simp: find_None_iff)
  then show "only i cs (cs\<lparr>streams := streams cs @ [u]\<rparr>)"
    using assms(2,3) by (auto simp: only_def streams_ok_def cb_find_def find_append_new split: option.split)
  show "cb_find i (cs\<lparr>streams := streams cs @ [u]\<rparr>) = Some u" using f assms(3) by (simp add: cb_find_def find_append_new)
qed

lemma resume_touches_only:
  assumes "resume_copying ev i (cs, s) = ((cs', s'), r)" "streams_ok cs"
  shows "only i cs cs'" "settled cs i off len \<Longrightarrow> settled cs' i off len"
proof -
  have "only i cs cs' \<and> (settled cs i off len \<longrightarrow> settled cs' i off len)"
  proof (cases "cb_find i cs")
    case None
    then show ?thesis using assms(1) by (auto simp: resume_copying_def)
  next
    case (Some st)
    obtain u kept w q where l: "resume_loop ev i 0 (retained_bytes cs) st s = (u, kept, w, q)" by (metis prod_cases4)
    note st = found_live [OF assms(2) Some]
    have self: "covers st 0 0" by (simp add: covers_def)
    show ?thesis
    proof (cases u)
      case None
      have d: "distinct (map os_id (streams cs))" using assms(2) by (simp add: streams_ok_def)
      show ?thesis using assms(1) Some l None drop_only [of i cs] cb_find_drop [OF d, of i i] by (auto simp: resume_copying_def settled_def)
    next
      case u: (Some st')
      have "live_ok st'" "os_id st' = i" using resume_loop_covers [OF l _ self] st u by auto
      moreover have "covers st off len \<Longrightarrow> covers st' off len" using resume_loop_covers [OF l, of off len] st u by simp
      ultimately show ?thesis using assms(1) Some l u put_touches_only [OF Some, of st'] cb_find_put [OF Some, of st' i]
        by (auto simp: resume_copying_def settled_def)
    qed
  qed
  then show "only i cs cs'" "settled cs i off len \<Longrightarrow> settled cs' i off len" by auto
qed

lemma insert_range_only:
  assumes "insert_range m1 m2 i packet off r fin avail cs = (cs', q)" "streams_ok cs"
  shows "only i cs cs'" "q = Inr n \<Longrightarrow> settled cs' i off (range_len r)"
proof -
  note step = assms(1) [unfolded insert_range_def Let_def all_live [OF assms(2)]]
  have "only i cs cs' \<and> (q = Inr n \<longrightarrow> settled cs' i off (range_len r))"
  proof (cases "cb_find i cs")
    case None
    show ?thesis
    proof (cases "os_insert m1 packet off r fin avail (os_new i)")
      case (Inl err)
      then show ?thesis using step None by (auto split: if_splits)
    next
      case (Inr nu)
      obtain k u where nu: "nu = (k, u)" by (rule prod.exhaust)
      note c = os_insert_covers [OF conjunct1 [OF new_live] Inr [unfolded nu]]
      have "os_id u = i" "live_ok u" using c new_live by auto
      then show ?thesis using step None Inr nu c add_only [OF None, of u] by (auto simp: settled_def split: if_splits)
    qed
  next
    case (Some st)
    note st = found_live [OF assms(2) Some]
    show ?thesis
    proof (cases "os_insert m1 packet off r fin avail st")
      case (Inl err)
      then show ?thesis using step Some by auto
    next
      case (Inr nu)
      obtain k u where nu: "nu = (k, u)" by (rule prod.exhaust)
      note c = os_insert_covers [OF conjunct1 [OF st] Inr [unfolded nu]]
      have "os_id u = i" using c st by simp
      then show ?thesis using step Some Inr nu c put_touches_only [OF Some] cb_find_put [OF Some] by (auto simp: settled_def)
    qed
  qed
  then show "only i cs cs'" "q = Inr n \<Longrightarrow> settled cs' i off (range_len r)" by auto
qed

lemma receive_stored_only:
  assumes "receive_stored m1 m2 ev i packet off r fin (cs, s) = ((cs', s'), q)" "streams_ok cs"
  shows "only i cs cs'" "q = Inr x \<Longrightarrow> settled cs' i off (range_len r)"
proof -
  obtain cs1 p where i: "insert_range m1 m2 i packet off r fin (available_bytes cs) cs = (cs1, p)" by (rule prod.exhaust)
  note one = insert_range_only [OF i assms(2)]
  have ok: "streams_ok (cs1\<lparr>retained_bytes := k\<rparr>)" for k using one(1) assms(2) by (simp add: only_def)
  have "only i cs cs' \<and> (q = Inr x \<longrightarrow> settled cs' i off (range_len r))"
  proof (cases "(fst r > snd r \<or> snd r > length packet) \<or> (\<exists>err. p = Inl err)")
    case True
    then show ?thesis using assms(1) one(1) by (auto simp: receive_stored_def i split: if_splits)
  next
    case False
    then obtain n where n: "p = Inr n" by (cases p) auto
    let ?c = "cs1\<lparr>retained_bytes := sat_add64 (retained_bytes cs1) n\<rparr>"
    obtain cs2 s2 q2 where rc: "resume_copying ev i (?c, s) = ((cs2, s2), q2)" by (metis prod.collapse)
    have e: "cs' = cs2" using assms(1) False n rc by (auto simp: receive_stored_def i split: if_splits sum.splits)
    have o: "only i cs1 cs2" and st: "settled cs2 i off (range_len r)"
      using resume_touches_only(1) [OF rc ok] resume_touches_only(2) [OF rc ok, of off "range_len r"] one(2) [OF n] by auto
    show ?thesis unfolding e using only_trans [OF one(1) o] st by blast
  qed
  then show "only i cs cs'" "q = Inr x \<Longrightarrow> settled cs' i off (range_len r)" by auto
qed

lemma filter_only: "only i cs (cs\<lparr>streams := filter (\<lambda>x. os_id x \<noteq> i) (streams cs)\<rparr>)"
proof -
  have "find (\<lambda>x. os_id x = j) (filter (\<lambda>x. os_id x \<noteq> i) xs) = find (\<lambda>x. os_id x = j) xs" if "j \<noteq> i" for j xs
    using that by (induction xs) auto
  then show ?thesis by (auto simp: only_def streams_ok_def cb_find_def list_all_iff distinct_map_filter)
qed

lemma direct_only:
  assumes found: "cb_find i cs = Some st" and ok: "streams_ok cs" and off: "off = os_consumed st"
    and res: "deliver_direct m1 ev i bytes off fin b kept st (cs, s) = ((cs', s'), q)"
  shows "only i cs cs'" "q = Inr x \<Longrightarrow> settled cs' i off (length bytes)"
proof -
  note st = found_live [OF ok found]
  obtain a w where c: "stream_chunk ev i off fin bytes s = (a, w)" by (meson surj_pair)
  note step = res [unfolded deliver_direct_def prod.case Let_def c]
  have "only i cs cs' \<and> (q = Inr x \<longrightarrow> settled cs' i off (length bytes))"
  proof (cases "(\<exists>n. a = Inr n \<and> n \<le> length bytes) \<and> \<not> violates_final (final_size st) (off + length bytes) fin")
    case False
    then have "cs' = cs \<and> q \<noteq> Inr x" using step by (cases a) (auto split: if_splits)
    then show ?thesis by simp
  next
    case True
    then obtain n where n: "a = Inr n" "n \<le> length bytes" and v: "\<not> violates_final (final_size st) (off + length bytes) fin" by blast
    let ?st1 = "st\<lparr>os_consumed := off + n\<rparr>"
    have st1: "live_ok ?st1" "os_id ?st1 = i" using st by (simp_all add: live_ok_def)
    note p1 = put_touches_only [OF found st1(2,1)] and f1 = cb_find_put [OF found st1(2), of i]
    show ?thesis
    proof (cases "n = length bytes")
      case short: False
      have "cs' = put_stream i ?st1 cs \<and> q \<noteq> Inr x
        \<or> (\<exists>p m0 m u. os_insert m1 p (off + n) (b + n, b + length bytes) fin m0 ?st1 = Inr (m, u)
             \<and> cs' = (put_stream i u (put_stream i ?st1 cs))\<lparr>retained_bytes := sat_add64 (retained_bytes (put_stream i ?st1 cs)) m\<rparr>)"
        using step v n short by (auto split: if_splits sum.splits)
      then show ?thesis
      proof (elim disjE exE conjE)
        fix p m0 m u
        assume u: "os_insert m1 p (off + n) (b + n, b + length bytes) fin m0 ?st1 = Inr (m, u)"
          and cs': "cs' = (put_stream i u (put_stream i ?st1 cs))\<lparr>retained_bytes := sat_add64 (retained_bytes (put_stream i ?st1 cs)) m\<rparr>"
        note k = os_insert_covers [OF st1(1) u]
        have cu: "covers u off (length bytes)" using k n(2) by (auto simp: covers_def range_len_def)
        have f2: "cb_find i (put_stream i ?st1 cs) = Some ?st1" using f1 by simp
        have "only i (put_stream i ?st1 cs) (put_stream i u (put_stream i ?st1 cs))" by (rule put_touches_only [OF f2]) (use k st1 in auto)
        then show ?thesis using only_trans [OF p1] cb_find_put [OF f2, of u i] k st1(2) cu unfolding cs' by (simp add: settled_def)
      qed (use p1 in simp)
    next
      case full: True
      have end_st: "(set_final False (off + length bytes) st)\<lparr>os_consumed := off + length bytes\<rparr> = ?st1" using full by (simp add: set_final_def)
      show ?thesis
      proof (cases fin)
        case True
        have "cb_find i (cs\<lparr>streams := filter (\<lambda>x. os_id x \<noteq> i) (streams cs)\<rparr>) = None" by (auto simp: cb_find_def find_None_iff)
        then show ?thesis using step v n full True filter_only [of i cs] by (auto simp: settled_def)
      next
        case False
        obtain cs2 s2 q2 where rc: "resume_copying ev i (put_stream i ?st1 cs, w) = ((cs2, s2), q2)" by (metis prod.collapse)
        have okp: "streams_ok (put_stream i ?st1 cs)" using p1 ok by (simp add: only_def)
        have set1: "settled (put_stream i ?st1 cs) i off (length bytes)" using f1 full by (simp add: settled_def covers_consumed)
        have "cs' = put_stream i ?st1 cs \<or> cs' = cs2" using step v n full False rc end_st by (auto split: if_splits sum.splits)
        then show ?thesis using p1 set1 resume_touches_only(1) [OF rc okp] resume_touches_only(2) [OF rc okp set1] only_trans by metis
      qed
    qed
  qed
  then show "only i cs cs'" "q = Inr x \<Longrightarrow> settled cs' i off (length bytes)" by auto
qed

lemma stream_mut_only:
  assumes "stream_mut m i cs = (cs1, q)" "streams_ok cs"
  shows "only i cs cs1"
  using assms(1) add_only [OF _ conjunct1 [OF new_live] conjunct2 [OF new_live], of i cs]
  unfolding stream_mut_def Let_def all_live [OF assms(2)] by (auto split: option.splits if_splits)

lemma borrowed_only:
  assumes res: "try_receive_copying_borrowed m1 m2 ev i bytes off fin kept (cs, s) = ((cs', s'), q)" and ok: "streams_ok cs"
  shows "only i cs cs'" "q = Inr x \<Longrightarrow> settled cs' i off (length bytes)"
proof -
  obtain cs1 a where m: "stream_mut m2 i cs = (cs1, a)" by (rule prod.exhaust)
  note one = stream_mut_only [OF m ok]
  have ok1: "streams_ok cs1" using one ok by (simp add: only_def)
  note step = res [unfolded try_receive_copying_borrowed_def try_receive_copying_range_def prod.case m]
  have "only i cs cs' \<and> (q = Inr x \<longrightarrow> settled cs' i off (length bytes))"
  proof (cases "checked_add u64_max off (length bytes) = None \<or> (\<exists>err. a = Inl err)")
    case True
    then have "(cs' = cs \<or> cs' = cs1) \<and> q \<noteq> Inr x" using step by (auto split: option.splits)
    then show ?thesis using one by auto
  next
    case False
    then obtain st e where st: "a = Inr st" "checked_add u64_max off (length bytes) = Some e" by (cases a) auto
    have found: "cb_find i cs1 = Some st" using stream_mut_find m st(1) by blast
    consider "\<exists>err. kept = Inl err" "cs' = cs1" "q \<noteq> Inr x"
      | "deliver_direct m1 ev i bytes off fin 0 kept st (cs1, s) = ((cs', s'), q)" "off = os_consumed st"
      | p where "receive_stored m1 m2 ev i p off (0, 0 + length bytes) fin (cs1, s) = ((cs', s'), q)"
      using step st by (auto simp: direct_def split: if_splits sum.splits)
    then show ?thesis
    proof cases
      case 1 then show ?thesis using one by simp
    next
      case 2
      show ?thesis using direct_only [OF found ok1 2(2,1)] only_trans [OF one] by blast
    next
      case (3 p)
      show ?thesis using receive_stored_only [OF 3 ok1] only_trans [OF one] by (simp add: range_len_def)
    qed
  qed
  then show "only i cs cs'" "q = Inr x \<Longrightarrow> settled cs' i off (length bytes)" by auto
qed

section \<open>Received numbers\<close>

lemma keeps_received [simp]:
  "ep_received_packets (upd_path i f e) = ep_received_packets e" "ep_received_packets (upd_stats g e) = ep_received_packets e"
  "ep_received_packets (schedule_application_ack i b e) = ep_received_packets e" "ep_received_packets (schedule_ack i b e) = ep_received_packets e"
  "ep_received_packets (raise_max_streams t e) = ep_received_packets e"
  "ep_received_packets (detect_ack_losses i la e) = ep_received_packets e" "ep_received_packets (detect_persistent_congestion i e) = ep_received_packets e"
  by (auto simp: upd_path_def upd_stats_def schedule_application_ack_def schedule_ack_def raise_max_streams_def
      detect_ack_losses_def detect_persistent_congestion_def Let_def split: option.splits prod.splits)

lemma keeps_received_more [simp]:
  "ep_received_packets (try_retire_stream i e) = ep_received_packets e"
  "ep_received_packets (fst (queue_stream_credit mem i e)) = ep_received_packets e"
  "ep_received_packets (begin_ack P acked e) = ep_received_packets e"
  "ep_received_packets (end_pto_episode b e) = ep_received_packets e" "ep_received_packets (sample_rtt i rep smp e) = ep_received_packets e"
  "ep_received_packets (acknowledge_statuses ss e) = ep_received_packets e" "ep_received_packets (apply_ack_congestion_growth g e) = ep_received_packets e"
  by (auto simp: try_retire_stream_def queue_stream_credit_def begin_ack_def mark_acked_events_def acknowledge_credit_def end_pto_episode_def
      sample_rtt_def acknowledge_statuses_def apply_ack_congestion_growth_def Let_def split: option.splits)

lemma fold_keeps: "(\<And>x e. ep_received_packets (f x e) = ep_received_packets e) \<Longrightarrow> ep_received_packets (fold f xs e) = ep_received_packets e"
  by (induction xs arbitrary: e) auto

lemma settle_keeps [simp]: "ep_received_packets (settle_streams data fins e) = ep_received_packets e"
  by (simp add: settle_streams_def Let_def fold_keeps retire_ranges_def map_ranges_def)

lemma detect_keeps [simp]: "ep_received_packets (detect_on_paths e) = ep_received_packets e"
  by (simp add: detect_on_paths_def fold_keeps)

lemma consumed_keeps [simp]: "ep_received_packets (fst (stream_consumed_inner P ml mem i n fc sch e)) = ep_received_packets e"
proof -
  have b: "ep_received_packets (fst (bindS m f)) = ep_received_packets (fst m)" if "\<And>d x. ep_received_packets (fst (f d x)) = ep_received_packets d" for m f
    using that by (auto simp: bindS_def split: prod.splits sum.splits)
  show ?thesis by (auto simp: stream_consumed_inner_def Let_def b split: sum.splits option.splits)
qed

definition fewer :: "EndpointState \<Rightarrow> EndpointState \<Rightarrow> bool" where
  "fewer e e' \<longleftrightarrow> ep_received_packets e' = ep_received_packets e \<or> (\<exists>n. ep_received_packets e' = ack_discard_below n (ep_received_packets e))"

lemma finish_fewer: "fewer e (finish_ack acked reported ingress sc e)"
proof -
  have c: "ep_received_packets (case x of Some (_, Some sample) \<Rightarrow> sample_rtt i r sample d | _ \<Rightarrow> d) = ep_received_packets d" for x i r d
    by (auto split: option.splits)
  have i: "ep_received_packets (if b then end_pto_episode pr d else d) = ep_received_packets d" for b pr d by simp
  have "ep_received_packets (finish_ack acked reported ingress sc e) = ep_received_packets (retire_received (as_floor sc) e)"
    unfolding finish_ack_def Let_def by (subst detect_keeps, subst c, subst i, subst settle_keeps) simp
  then show ?thesis by (auto simp: fewer_def retire_received_def Let_def)
qed

lemma flow_loop_keeps: "ep_received_packets (fst (flow_loop input e)) = ep_received_packets e"
proof (induction input e rule: flow_loop.induct)
  case (1 input e)
  have a: "ep_received_packets (fst (apply_flow frame d)) = ep_received_packets d" for frame d
    by (auto simp: apply_flow_def split: Frame.splits sum.splits)
  show ?case
  proof (cases "input \<noteq> [] \<and> (\<exists>frame used. decode_frame input = Inr (frame, used) \<and> used \<noteq> 0)")
    case False
    then show ?thesis by (subst flow_loop.simps) (auto split: sum.splits)
  next
    case True
    then obtain frame used where f: "decode_frame input = Inr (frame, used)" "used \<noteq> 0" "input \<noteq> []" by blast
    have ih: "ep_received_packets (fst (flow_loop (drop used input) d)) = ep_received_packets d" for d
      using "1" f by blast
    show ?thesis using f by (subst flow_loop.simps) (auto simp: bindS_def ih a split: prod.splits sum.splits, (metis a fst_conv)+)
  qed
qed

lemma controls_fewer:
  assumes "apply_controls P input sc ingress e = Some (e', r)"
  shows "fewer e e'"
proof -
  obtain e1 r1 where f: "(if fr_flow sc then receive_flow_control_packet input e else (e, Inr ())) = (e1, r1)" by (rule prod.exhaust)
  have k: "ep_received_packets e1 = ep_received_packets e"
    using f flow_loop_keeps by (auto simp: receive_flow_control_packet_def split: if_splits sum.splits) (metis fst_conv)+
  have "fewer e1 (finish_ack a b c sc2 ((begin_ack P a e1)\<lparr>ep_sent_packets := slots, ep_paths := ps\<rparr>))" for a b c sc2 slots ps
    using finish_fewer [of "(begin_ack P a e1)\<lparr>ep_sent_packets := slots, ep_paths := ps\<rparr>" a b c sc2] by (simp add: fewer_def)
  moreover have "fewer e1 e1" by (simp add: fewer_def)
  ultimately have "fewer e1 e'" using assms unfolding apply_controls_def f
    by (cases r1) (auto simp: apply_ack_ranges_on_path_def Let_def split: if_splits)
  then show ?thesis by (simp add: fewer_def k)
qed

lemma policy_keeps: "ep_received_packets (fst (apply_policy sc e)) = ep_received_packets e"
  by (auto simp: apply_policy_def bindS_def apply_ack_frequency_def split: option.splits prod.splits)

lemma accept_keeps: "ep_received_packets (fst (accept_streams mem fs e)) = ep_received_packets e"
  by (induction fs arbitrary: e) (auto split: prod.splits sum.splits)

lemma streams_keep:
  assumes "receive_streams mem True header sc ingress e = Some (e', r)"
  shows "ep_received_packets e' = ep_received_packets e"
proof -
  let ?live = "List.map_filter id (map (\<lambda>f. if is_retired (ep_receive e) (sf_id f) then None else Some f) (fr_streams sc))"
  obtain e1 r1 where a: "accept_streams mem ?live e = (e1, r1)" by (rule prod.exhaust)
  have "ep_received_packets e1 = ep_received_packets e" using accept_keeps [of mem ?live e] by (simp add: a)
  moreover have "ep_received_packets (fold (\<lambda>f e. if sf_fin f then try_retire_stream (sf_id f) e else e) ?live e1) = ep_received_packets e1"
    by (rule fold_keeps) simp
  ultimately show ?thesis using assms by (cases r1) (auto simp: receive_streams_def Let_def a)
qed

text \<open>A packet with a stream frame is not recorded while its delivery is pending.\<close>

lemma deferred_fewer:
  assumes "receive_scanned P mem True input header sc ingress e = Some (e', r)" "fr_streams sc \<noteq> []"
  shows "fewer e e'"
proof -
  have self: "fewer e e" by (simp add: fewer_def)
  note d = assms(1) [unfolded receive_scanned_def Let_def]
  show ?thesis
  proof (cases "\<exists>e1. apply_controls P input sc ingress e = Some (e1, Inr ()) \<and> \<not> (fr_close sc \<noteq> None \<and> fr_streams sc \<noteq> [])")
    case False
    then have "e' = e \<or> (\<exists>r1. apply_controls P input sc ingress e = Some (e', r1))"
      using d by (auto split: if_splits option.splits sum.splits)
    then show ?thesis using self controls_fewer by auto
  next
    case True
    then obtain e1 where c: "apply_controls P input sc ingress e = Some (e1, Inr ())" and nc: "\<not> (fr_close sc \<noteq> None \<and> fr_streams sc \<noteq> [])" by blast
    obtain e2 r2 where p: "apply_policy sc e1 = (e2, r2)" by (rule prod.exhaust)
    have k2: "ep_received_packets e2 = ep_received_packets e1" using policy_keeps [of sc e1] by (simp add: p)
    have "ep_received_packets e' = ep_received_packets e2"
      using d nc assms(2) streams_keep by (cases r2) (auto simp: c p receive_accepted_def split: if_splits)
    then show ?thesis using controls_fewer [OF c] k2 by (simp add: fewer_def)
  qed
qed

lemma scan_frame_streams:
  assumes "scan_frame limit frame used sc = Inr sc1"
  shows "fr_streams sc1 = fr_streams sc @ (case frame of StreamF f \<Rightarrow> [f] | _ \<Rightarrow> [])"
  using assms by (auto simp: scan_frame_def split: Frame.splits if_splits)

lemma loops_end: "scan_frames limit [] sc = Inr sc" "packet_frames complete [] acc = Some (Inr acc)"
  by (simp_all add: scan_frames.simps packet_frames.simps)

lemma scan_has_stream:
  assumes "scan_frames limit input sc = Inr sc'" "packet_frames complete input acc = Some (Inr acc')" "snd acc'" "snd acc \<Longrightarrow> fr_streams sc \<noteq> []"
  shows "fr_streams sc' \<noteq> []"
  using assms
proof (induction limit input sc arbitrary: acc rule: scan_frames.induct)
  case (1 limit input sc)
  show ?case
  proof (cases "input = []")
    case True
    with "1.prems" show ?thesis by (auto simp: loops_end)
  next
    case False
    then obtain frame used sc1 where f: "decode_frame input = Inr (frame, used)" "used \<noteq> 0" "scan_frame limit frame used sc = Inr sc1"
        "\<not> length input < used" "scan_frames limit (drop used input) sc1 = Inr sc'"
      using "1.prems"(1) by (auto simp: scan_frames.simps [of limit input] split: sum.splits prod.splits if_splits)
    have "packet_frames complete (drop used input) (note_frame complete frame acc) = Some (Inr acc')"
      using "1.prems"(2) False f(1) by (simp add: packet_frames.simps [of complete input])
    moreover have "snd (note_frame complete frame acc) \<Longrightarrow> fr_streams sc1 \<noteq> []"
      using scan_frame_streams [OF f(3)] "1.prems"(4) by (auto simp: note_frame_def split: Frame.splits)
    ultimately show ?thesis using "1.IH" [OF False f(1) refl f(2,3,4) f(5)] "1.prems"(3) by blast
  qed
qed

lemma before_delivery_fewer:
  assumes "receive_packet_before_stream_delivery P mem input ingress e = Some (e', r)"
    and "decode_with_expected False input (expected_packet_number e) = Inr (header, used)"
    and "packet_frames complete (drop used input) ([], False) = Some (Inr (frames, True))"
  shows "fewer e e'"
proof -
  have self: "fewer e e" "fewer e (e\<lparr>ep_close_code := c, ep_control_pending := b\<rparr>)" for c b by (simp_all add: fewer_def)
  note d = assms(1) [unfolded receive_packet_before_stream_delivery_def receive_packet_batch_on_path_inner_def]
  show ?thesis
  proof (cases "receive_header input ingress False e")
    case (Inl err)
    then show ?thesis using d self by simp
  next
    case (Inr hu)
    then have "hu = (header, used)" using assms(2) by (auto simp: receive_header_def split: if_splits)
    note d = d [unfolded Inr this sum.case prod.case]
    show ?thesis
    proof (cases "scan_frames (max_datagram_frame_size (cs_limits (ep_receive e))) (drop used input) blank_scan")
      case (Inl err)
      then show ?thesis using d self by (cases err) (auto split: if_splits)
    next
      case (Inr sc)
      have "fr_streams sc \<noteq> []" by (rule scan_has_stream [OF Inr assms(3)]) simp_all
      then show ?thesis using d self deferred_fewer by (auto simp: Inr split: if_splits)
    qed
  qed
qed

section \<open>Acknowledgement after delivery\<close>

text \<open>One frame: its delivery, the consumption it causes, and what is left to do.\<close>

lemma deliver_frames_step:
  obtains ordered s1 n q e1 c where
    "try_receive_copying_borrowed (fst (pm_frame mem k)) (fst (snd (pm_frame mem k))) (application_sink h) (sf_id f) (sf_data f) (sf_offset f)
       (sf_fin f) (retain_stream_bytes (snd (snd (pm_frame mem k))) (sf_data f)) (mx_ordered (fst w), (snd w, 0)) = ((ordered, (s1, n)), q)"
    "ep_received_packets e1 = ep_received_packets (mx_endpoint (fst w))"
    "deliver_frames P mem h k (f # fs) w = (case c of
        Inl err \<Rightarrow> ((\<lparr>mx_endpoint = e1, mx_ordered = ordered\<rparr>, s1), Inl (PacketError err))
      | Inr (_ :: unit) \<Rightarrow> (case q of
          Inr _ \<Rightarrow> deliver_frames P mem h (Suc k) fs (\<lparr>mx_endpoint = e1, mx_ordered = ordered\<rparr>, s1)
        | Inl (Transport Capacity) \<Rightarrow> ((\<lparr>mx_endpoint = e1, mx_ordered = ordered\<rparr>, s1), Inr False)
        | Inl (Transport _) \<Rightarrow> ((\<lparr>mx_endpoint = e1, mx_ordered = ordered\<rparr>, s1), Inl (PacketError Invalid))
        | Inl (Callback err) \<Rightarrow> ((\<lparr>mx_endpoint = e1, mx_ordered = ordered\<rparr>, s1), Inl (ApplicationError err))))"
proof -
  obtain item stream copy where pm: "pm_frame mem k = (item, stream, copy)" by (rule prod_cases3)
  obtain ordered s1 n q where b: "try_receive_copying_borrowed item stream (application_sink h) (sf_id f) (sf_data f) (sf_offset f) (sf_fin f)
      (retain_stream_bytes copy (sf_data f)) (mx_ordered (fst w), (snd w, 0)) = ((ordered, (s1, n)), q)"
    by (metis prod.collapse)
  obtain e1 c where e1: "(if n \<noteq> 0 then stream_consumed_inner P (fst (pm_credit mem k)) (snd (pm_credit mem k)) (sf_id f) n False False (mx_endpoint (fst w))
      else (mx_endpoint (fst w), Inr ())) = (e1, c)" by (rule prod.exhaust)
  have "ep_received_packets (fst (if n \<noteq> 0 then stream_consumed_inner P (fst (pm_credit mem k)) (snd (pm_credit mem k)) (sf_id f) n False False
      (mx_endpoint (fst w)) else (mx_endpoint (fst w), Inr ()))) = ep_received_packets (mx_endpoint (fst w))" by simp
  then have "ep_received_packets e1 = ep_received_packets (mx_endpoint (fst w))" unfolding e1 by simp
  then show ?thesis
    by (rule that [of ordered s1 n q e1 c, rotated]) (simp_all only: pm fst_conv snd_conv b deliver_frames.simps prod.case e1 Let_def)
qed

lemma deliver_frames_keeps: "ep_received_packets (mx_endpoint (fst (fst (deliver_frames P mem h k fs w)))) = ep_received_packets (mx_endpoint (fst w))"
proof (induction fs arbitrary: k w)
  case (Cons f fs)
  show ?case
    by (rule deliver_frames_step [of mem k h f w P fs])
      (simp add: Cons.IH del: deliver_frames.simps split: sum.split CopyingError.split CallbackError.split)
qed simp

lemma deliver_frames_settles:
  assumes "deliver_frames P mem h k fs w = (w', Inr True)" "streams_ok (mx_ordered (fst w))" "distinct (map sf_id fs)"
  shows "(\<forall>f \<in> set fs. settled (mx_ordered (fst w')) (sf_id f) (sf_offset f) (length (sf_data f)))
    \<and> (\<forall>j. j \<notin> sf_id ` set fs \<longrightarrow> cb_find j (mx_ordered (fst w')) = cb_find j (mx_ordered (fst w)))"
  using assms
proof (induction fs arbitrary: k w)
  case (Cons f fs)
  obtain ordered s1 n q e1 c where b: "try_receive_copying_borrowed (fst (pm_frame mem k)) (fst (snd (pm_frame mem k))) (application_sink h)
        (sf_id f) (sf_data f) (sf_offset f) (sf_fin f) (retain_stream_bytes (snd (snd (pm_frame mem k))) (sf_data f)) (mx_ordered (fst w), (snd w, 0))
        = ((ordered, (s1, n)), q)"
      and d: "deliver_frames P mem h k (f # fs) w = (case c of
        Inl err \<Rightarrow> ((\<lparr>mx_endpoint = e1, mx_ordered = ordered\<rparr>, s1), Inl (PacketError err))
      | Inr (_ :: unit) \<Rightarrow> (case q of
          Inr _ \<Rightarrow> deliver_frames P mem h (Suc k) fs (\<lparr>mx_endpoint = e1, mx_ordered = ordered\<rparr>, s1)
        | Inl (Transport Capacity) \<Rightarrow> ((\<lparr>mx_endpoint = e1, mx_ordered = ordered\<rparr>, s1), Inr False)
        | Inl (Transport _) \<Rightarrow> ((\<lparr>mx_endpoint = e1, mx_ordered = ordered\<rparr>, s1), Inl (PacketError Invalid))
        | Inl (Callback err) \<Rightarrow> ((\<lparr>mx_endpoint = e1, mx_ordered = ordered\<rparr>, s1), Inl (ApplicationError err))))"
    by (rule deliver_frames_step [of mem k h f w P fs])
  let ?w = "(\<lparr>mx_endpoint = e1, mx_ordered = ordered\<rparr>, s1)"
  have q: "q = Inr ()" and next': "deliver_frames P mem h (Suc k) fs ?w = (w', Inr True)"
    using Cons.prems(1) [unfolded d] by (auto split: sum.splits CopyingError.splits CallbackError.splits)
  note one = borrowed_only [OF b Cons.prems(2)]
  have ok: "streams_ok (mx_ordered (fst ?w))" using one(1) Cons.prems(2) by (simp add: only_def)
  note ih = Cons.IH [OF next' ok]
  have "cb_find (sf_id f) (mx_ordered (fst w')) = cb_find (sf_id f) ordered" using ih Cons.prems(3) by simp
  then have "settled (mx_ordered (fst w')) (sf_id f) (sf_offset f) (length (sf_data f))"
    using one(2) [OF q] by (simp add: settled_def)
  then show ?case using ih Cons.prems(2,3) one(1) by (auto simp: only_def)
qed simp

lemma fewer_contains:
  assumes "fewer e e'" "ack_inv N (ep_received_packets e)" "ack_contains (ep_received_packets e') pn"
  shows "ack_contains (ep_received_packets e) pn"
proof -
  have s: "ack_sorted (ep_received_packets e)" using assms(2) by (simp add: ack_inv_def)
  have "ack_sorted (ack_discard_below n (ep_received_packets e))" for n
    using ack_discard_below_inv [OF assms(2)] by (simp add: ack_inv_def)
  then show ?thesis using assms(1,3) ack_contains_iff [OF s] ack_contains_iff ack_discard_below_set [OF s]
    unfolding fewer_def by (metis (no_types, lifting) mem_Collect_eq Int_iff)
qed


section \<open>Receiving returns\<close>

lemma scanned_length:
  assumes "receive_scanned P mem deferred input header sc ingress e = Some (e', r)" "ingress < length (ep_paths e)"
  shows "length (ep_paths e') = length (ep_paths e)"
proof -
  note d = assms(1) [unfolded receive_scanned_def Let_def]
  show ?thesis
  proof (cases "\<exists>e1. apply_controls P input sc ingress e = Some (e1, Inr ()) \<and> \<not> (fr_close sc \<noteq> None \<and> fr_streams sc \<noteq> [])")
    case False
    then have "e' = e \<or> (\<exists>r1. apply_controls P input sc ingress e = Some (e', r1))"
      using d by (auto split: if_splits option.splits sum.splits)
    then show ?thesis using apply_controls_length by auto
  next
    case True
    then obtain e1 where c: "apply_controls P input sc ingress e = Some (e1, Inr ())" and nc: "\<not> (fr_close sc \<noteq> None \<and> fr_streams sc \<noteq> [])" by blast
    obtain e2 r2 where p: "apply_policy sc e1 = (e2, r2)" by (rule prod.exhaust)
    have l: "length (ep_paths e2) = length (ep_paths e)"
      using apply_controls_length [OF c] quiet_length [OF apply_policy_quiet [of e1 sc]] by (simp add: p)
    obtain e3 r3 where a: "receive_accepted mem deferred (ack_contains (ep_received_packets e) (sh_packet_number header)) header sc ingress e2
        = Some (e3, r3)" and q3: "quiet e2 e3" by (rule receive_accepted_quiet [of ingress e2]) (use l assms(2) in auto)
    have "e' = e2 \<or> e' = e3" using d nc by (cases r2) (auto simp: c p a split: if_splits)
    then show ?thesis using l quiet_length [OF q3] by auto
  qed
qed

lemma receive_length:
  assumes "receive_packet_batch_on_path_inner P mem input ingress opened deferred e = Some (e', Inr packet)"
  shows "ingress < length (ep_paths e')"
proof -
  obtain header used where h: "receive_header input ingress opened e = Inr (header, used)"
    using assms by (cases "receive_header input ingress opened e") (auto simp: receive_packet_batch_on_path_inner_def)
  then have i: "ingress < length (ep_paths e)" by (auto simp: receive_header_def split: if_splits)
  note d = assms [unfolded receive_packet_batch_on_path_inner_def h sum.case prod.case]
  have "e' = e \<or> (\<exists>sc. receive_scanned P mem deferred input header sc ingress e = Some (e', Inr packet))"
    using d by (auto split: if_splits sum.splits scan_error.splits)
  then show ?thesis using i scanned_length by auto
qed

lemma deliver_frames_quiet: "quiet (mx_endpoint (fst w)) (mx_endpoint (fst (fst (deliver_frames P mem h k fs w))))"
proof (induction fs arbitrary: k w)
  case (Cons f fs)
  have q: "quiet e (fst (if b then stream_consumed_inner P ml mm i n False False e else (e, Inr ())))" for b ml mm i n e
    using consumed_inner_quiet by simp
  obtain item stream copy where pm: "pm_frame mem k = (item, stream, copy)" by (rule prod_cases3)
  obtain ordered s1 n r where b: "try_receive_copying_borrowed item stream (application_sink h) (sf_id f) (sf_data f) (sf_offset f) (sf_fin f)
      (retain_stream_bytes copy (sf_data f)) (mx_ordered (fst w), (snd w, 0)) = ((ordered, (s1, n)), r)"
    by (metis prod.collapse)
  obtain e1 c where e1: "(if n \<noteq> 0 then stream_consumed_inner P (fst (pm_credit mem k)) (snd (pm_credit mem k)) (sf_id f) n False False (mx_endpoint (fst w))
      else (mx_endpoint (fst w), Inr ())) = (e1, c)" by (rule prod.exhaust)
  have "quiet (mx_endpoint (fst w)) (fst (e1, c))" unfolding e1 [symmetric] by (rule q)
  then have "quiet (mx_endpoint (fst w)) e1" by simp
  moreover have "quiet e1 (mx_endpoint (fst (fst (deliver_frames P mem h (Suc k) fs (\<lparr>mx_endpoint = e1, mx_ordered = ordered\<rparr>, s1)))))"
    using Cons.IH [of "(\<lparr>mx_endpoint = e1, mx_ordered = ordered\<rparr>, s1)" "Suc k"] by simp
  ultimately show ?case unfolding deliver_frames.simps pm prod.case b e1 Let_def
    by (auto split: sum.split CopyingError.split CallbackError.split intro: quiet_trans)
qed simp

lemma receive_plain_total:
  assumes "flight_inv (mx_endpoint (fst w))"
  shows "receive_plain P mem input ingress w \<noteq> None"
proof -
  obtain e' r where "receive_packet_batch_on_path_inner P (pm_streams mem) input ingress False False (mx_endpoint (fst w)) = Some (e', r)"
    by (rule receive_flight [OF assms])
  then show ?thesis by (simp add: receive_plain_def receive_packet_on_path_def receive_packet_batch_on_path_def)
qed

lemma receive_frames_total:
  assumes "flight_inv (mx_endpoint (fst w))"
  shows "receive_frames P mem h input ingress frames w \<noteq> None"
proof -
  obtain e1 q where b: "receive_packet_before_stream_delivery P (pm_streams mem) input ingress (mx_endpoint (fst w)) = Some (e1, q)"
    by (rule receive_flight [OF assms, of P "pm_streams mem" input ingress False True]) (simp add: receive_packet_before_stream_delivery_def)
  have f: "finish_delivery admitted ingress (deliver_frames P mem h 0 frames ((fst w)\<lparr>mx_endpoint := e1\<rparr>, snd w)) \<noteq> None"
    if "q = Inr admitted" for admitted
  proof -
    obtain w1 c where d: "deliver_frames P mem h 0 frames ((fst w)\<lparr>mx_endpoint := e1\<rparr>, snd w) = (w1, c)" by (rule prod.exhaust)
    have "ingress < length (ep_paths e1)" using receive_length b that by (auto simp: receive_packet_before_stream_delivery_def)
    moreover have "quiet e1 (mx_endpoint (fst w1))"
      using deliver_frames_quiet [of "((fst w)\<lparr>mx_endpoint := e1\<rparr>, snd w)" P mem h 0 frames] by (simp add: d)
    ultimately have "ingress < length (ep_paths (mx_endpoint (fst w1)))" using quiet_length by simp
    then show ?thesis using commit_receive_quiet [of ingress "mx_endpoint (fst w1)" "sh_packet_number (tf_header admitted)"]
      by (auto simp: finish_delivery_def d split: sum.splits)
  qed
  show ?thesis unfolding receive_frames_def b using f
    by (simp del: not_None_eq split: sum.split CallbackError.split option.split)
qed


text \<open>A server that has its identifiers, an application that takes everything, and a packet with one stream frame.\<close>

definition example_mux :: StreamMux where
  "example_mux = fst (the (mux_install_connection_ids (ConnectionId 9) (ConnectionId 7) (the (mux_new 256 Server default_limits 256 4 1024 4))))"

definition plenty :: packet_memory where
  "plenty = \<lparr>pm_validate = True, pm_dry = (\<lambda>_. (True, True, True)), pm_frame = (\<lambda>_. (True, True, True)),
     pm_streams = (\<lambda>_. True), pm_credit = (\<lambda>_. (True, True))\<rparr>"

definition log_all :: "(u64 \<times> u8 list) list handler" where
  "log_all i off fin bytes log = (Inr (length bytes), log @ [(i, bytes)])"

definition example_packet :: "Frame list \<Rightarrow> u8 list" where
  "example_packet frames = projr (bindE (short_encode False (short_header (ConnectionId 9) 0 4) 64) (\<lambda>h.
     bindE (frames_bytes frames 64) (\<lambda>b. Inr (h @ b))))"

definition hello :: StreamFrame where
  "hello = \<lparr>sf_id = 0, sf_offset = 0, sf_fin = False, sf_data = [104, 105]\<rparr>"



text \<open>
  Whether a stream is delivered completely is asked before the first frame of a packet is delivered. When a
  packet carries the whole of a stream twice, the first frame ends the stream and frees its place in the table, and the
  second is delivered again to the application as a new stream.
\<close>

theorem completed_stream_redelivered:
  "map_option (\<lambda>w. (snd (fst w), snd w)) (receive_stream_events_on_path 256 plenty log_all
     (example_packet [StreamF (hello\<lparr>sf_fin := True\<rparr>), StreamF (hello\<lparr>sf_fin := True\<rparr>)]) 0 (example_mux, []))
   = Some ([(0, [104, 105]), (0, [104, 105])], Inr ())"
  by code_simp

end
