(* ===== verification/Endpoint_Api.thy ===== *)
theory Endpoint_Api
  imports Endpoint_Steps
begin

text \<open>
  The remaining entry points of an association endpoint: those that fix an argument of an operation of the
  earlier theories, the raw accounting calls, and the receiver of a packet that only acknowledges.
\<close>

definition observe_packet :: "u32 \<Rightarrow> EndpointState \<Rightarrow> EndpointState" where
  "observe_packet pn e = observe_packet_on_path pn 0 e"

definition set_initial_peer_credit :: "u64 \<Rightarrow> u64 \<Rightarrow> EndpointState \<Rightarrow> EndpointState \<times> unit result" where
  "set_initial_peer_credit max_data max_stream_data e = set_initial_peer_budget max_data max_stream_data 0 e"

definition reserve_send :: "u64 \<Rightarrow> u64 \<Rightarrow> usize \<Rightarrow> EndpointState \<Rightarrow> EndpointState \<times> unit result" where
  "reserve_send i off len e = (case reserve i off len (ep_send e) of
     Inl err \<Rightarrow> (e, Inl err) | Inr f \<Rightarrow> (e\<lparr>ep_send := f\<rparr>, Inr ()))"

definition packet_sent_on_path :: "usize \<Rightarrow> u64 \<Rightarrow> EndpointState \<Rightarrow> EndpointState \<times> bool" where
  "packet_sent_on_path i n e = (case path_get e i of
     None \<Rightarrow> (e, False)
   | Some p \<Rightarrow> (case on_packet_sent n (congestion p) of (c, sent) \<Rightarrow> (upd_path i (\<lambda>_. p\<lparr>congestion := c\<rparr>) e, sent)))"

text \<open>\<open>None\<close> is the panic of \<^verbatim>\<open>self.paths[0]\<close>.\<close>

definition packet_sent :: "u64 \<Rightarrow> EndpointState \<Rightarrow> (EndpointState \<times> bool) option" where
  "packet_sent n e = (if ep_paths e = [] then None else Some (packet_sent_on_path 0 n e))"

definition acked_on_path :: "usize \<Rightarrow> u64 \<Rightarrow> EndpointState \<Rightarrow> EndpointState" where
  "acked_on_path i n e = (case path_get e i of
     None \<Rightarrow> e | Some p \<Rightarrow> upd_path i (\<lambda>_. p\<lparr>congestion := on_ack n (congestion p)\<rparr>) e)"

definition acked :: "u64 \<Rightarrow> EndpointState \<Rightarrow> EndpointState option" where
  "acked n e = (if ep_paths e = [] then None else Some (acked_on_path 0 n e))"

definition receive_packet_batch :: "usize \<Rightarrow> (u64 \<Rightarrow> bool) \<Rightarrow> u8 list \<Rightarrow> EndpointState \<Rightarrow> (EndpointState \<times> TransportFrames result) option" where
  "receive_packet_batch P mem input e = receive_packet_batch_on_path P mem input 0 e"

definition receive_packet :: "usize \<Rightarrow> (u64 \<Rightarrow> bool) \<Rightarrow> u8 list \<Rightarrow> EndpointState \<Rightarrow> (EndpointState \<times> TransportFrame result) option" where
  "receive_packet P mem input e = receive_packet_on_path P mem input 0 e"

definition stream_consumed :: "usize \<Rightarrow> bool \<Rightarrow> bool \<Rightarrow> u64 \<Rightarrow> usize \<Rightarrow> EndpointState \<Rightarrow> EndpointState \<times> unit result" where
  "stream_consumed P mem_list mem i n e = stream_consumed_inner P mem_list mem i n True True e"

definition stream_consumed_deferred :: "usize \<Rightarrow> bool \<Rightarrow> bool \<Rightarrow> u64 \<Rightarrow> usize \<Rightarrow> EndpointState \<Rightarrow> EndpointState \<times> unit result" where
  "stream_consumed_deferred P mem_list mem i n e = stream_consumed_inner P mem_list mem i n False True e"

definition stream_consumed_before_packet_ack :: "usize \<Rightarrow> bool \<Rightarrow> bool \<Rightarrow> u64 \<Rightarrow> usize \<Rightarrow> EndpointState \<Rightarrow> EndpointState \<times> unit result" where
  "stream_consumed_before_packet_ack P mem_list mem i n e = stream_consumed_inner P mem_list mem i n False False e"

definition poll_transmit :: "nat \<Rightarrow> EndpointState \<Rightarrow> EndpointState \<times> u8 list option result" where
  "poll_transmit cap e = poll_transmit_on_path 0 cap e"

definition encode_path_control_packet :: "usize \<Rightarrow> ConnectionId \<Rightarrow> Frame \<Rightarrow> nat \<Rightarrow> EndpointState \<Rightarrow> (EndpointState \<times> u8 list result) option" where
  "encode_path_control_packet i destination frame cap e = encode_path_control_packet_inner i destination frame cap False e"

definition encode_stream_packet_on_path :: "usize \<Rightarrow> bool \<Rightarrow> usize \<Rightarrow> ConnectionId \<Rightarrow> StreamFrame \<Rightarrow> nat \<Rightarrow> EndpointState
    \<Rightarrow> (EndpointState \<times> (u8 list \<times> u32) result) option" where
  "encode_stream_packet_on_path P mem i dcid frame cap e = encode_stream_packet_on_path_inner P mem i dcid frame cap True e"

definition encode_stream_packet :: "usize \<Rightarrow> bool \<Rightarrow> ConnectionId \<Rightarrow> StreamFrame \<Rightarrow> nat \<Rightarrow> EndpointState
    \<Rightarrow> (EndpointState \<times> (u8 list \<times> u32) result) option" where
  "encode_stream_packet P mem dcid frame cap e = encode_stream_packet_on_path P mem 0 dcid frame cap e"

section \<open>Packets that only acknowledge\<close>

definition note_ack :: "Frame \<Rightarrow> ack_ranges \<times> u64 \<Rightarrow> ack_ranges \<times> u64" where
  "note_ack frame acc = (case frame of
     Ack largest delay \<Rightarrow> (fst (ack_insert ACK_RANGE_CAPACITY largest (fst acc)), delay)
   | AckRangesF _ delay ranges \<Rightarrow> (add_ranges ranges (fst acc), delay)
   | _ \<Rightarrow> acc)"

function ack_packet_loop :: "u8 list \<Rightarrow> ack_ranges \<times> u64 \<Rightarrow> EndpointState \<Rightarrow> EndpointState \<times> (ack_ranges \<times> u64) result" where
  "ack_packet_loop input acc e =
     (if input = [] then (e, Inr acc)
      else (case decode_frame input of
        Inl err \<Rightarrow> (e, Inl err)
      | Inr (frame, used) \<Rightarrow>
          if used = 0 then (e, Inl Invalid)
          else bindS (apply_flow frame e) (\<lambda>e1 _. ack_packet_loop (drop used input) (note_ack frame acc) e1)))"
  by pat_completeness auto
termination
  by (relation "measure (\<lambda>(input, acc, e). length input)") auto

declare ack_packet_loop.simps [simp del]

definition receive_ack_packet_on_path :: "usize \<Rightarrow> u8 list \<Rightarrow> usize \<Rightarrow> EndpointState \<Rightarrow> (EndpointState \<times> unit result) option" where
  "receive_ack_packet_on_path P input ingress e = (case short_decode False input of
     Inl err \<Rightarrow> Some (e, Inl err)
   | Inr (_, used) \<Rightarrow> (case ack_packet_loop (drop used input) ([], 0) e of
       (e1, Inl err) \<Rightarrow> Some (e1, Inl err)
     | (e1, Inr (ranges, delay)) \<Rightarrow> apply_ack_ranges_on_path P ranges delay ingress e1))"

definition receive_ack_packet :: "usize \<Rightarrow> u8 list \<Rightarrow> EndpointState \<Rightarrow> (EndpointState \<times> unit result) option" where
  "receive_ack_packet P input e = receive_ack_packet_on_path P input 0 e"

lemma scan_note_ack:
  "scan_frame limit frame used sc = Inr sc1 \<Longrightarrow> (fr_acknowledged sc1, fr_delay sc1) = note_ack frame (fr_acknowledged sc, fr_delay sc)"
  by (auto simp: scan_frame_def note_ack_def split: Frame.splits if_splits)

lemma ack_loop_scan:
  "scan_frames limit input sc = Inr sc' \<Longrightarrow> ack_packet_loop input (fr_acknowledged sc, fr_delay sc) e
     = bindS (flow_loop input e) (\<lambda>e1 _. (e1, Inr (fr_acknowledged sc', fr_delay sc')))"
proof (induction limit input sc arbitrary: e rule: scan_frames.induct)
  case (1 limit input sc)
  show ?case
  proof (cases "input = []")
    case True
    with "1.prems" show ?thesis by (simp add: scan_frames.simps [of limit] ack_packet_loop.simps flow_loop.simps bindS_def)
  next
    case False
    then obtain frame used sc1 where f: "decode_frame input = Inr (frame, used)" "used \<noteq> 0" "scan_frame limit frame used sc = Inr sc1"
        "\<not> length input < used" "scan_frames limit (drop used input) sc1 = Inr sc'"
      using "1.prems"(1) by (auto simp: scan_frames.simps [of limit input] split: sum.splits prod.splits if_splits)
    have ih: "ack_packet_loop (drop used input) (note_ack frame (fr_acknowledged sc, fr_delay sc)) d
        = bindS (flow_loop (drop used input) d) (\<lambda>e1 _. (e1, Inr (fr_acknowledged sc', fr_delay sc')))" for d
      using "1.IH" [OF False f(1) refl f(2,3,4,5), of d] scan_note_ack [OF f(3)] by simp
    have assoc: "bindS (bindS m g) k = bindS m (\<lambda>s x. bindS (g s x) k)" for m g k
      by (auto simp: bindS_def split: prod.splits sum.splits)
    show ?thesis unfolding ack_packet_loop.simps [of input] flow_loop.simps [of input] using False f(1,2) by (simp add: ih assoc)
  qed
qed

lemma no_flow:
  assumes "scan_frames limit input sc = Inr sc'" "\<not> fr_flow sc'"
  shows "flow_loop input e = (e, Inr ()) \<and> \<not> fr_flow sc"
  using assms
proof (induction limit input sc arbitrary: e rule: scan_frames.induct)
  case (1 limit input sc)
  show ?case
  proof (cases "input = []")
    case True
    with "1.prems" show ?thesis by (simp add: scan_frames.simps [of limit] flow_loop.simps)
  next
    case False
    then obtain frame used sc1 where f: "decode_frame input = Inr (frame, used)" "used \<noteq> 0" "scan_frame limit frame used sc = Inr sc1"
        "\<not> length input < used" "scan_frames limit (drop used input) sc1 = Inr sc'"
      using "1.prems"(1) by (auto simp: scan_frames.simps [of limit input] split: sum.splits prod.splits if_splits)
    have ih: "flow_loop (drop used input) d = (d, Inr ())" "\<not> fr_flow sc1" for d
      using "1.IH" [OF False f(1) refl f(2,3,4,5) "1.prems"(2), of d] by auto
    have "apply_flow frame e = (e, Inr ()) \<and> \<not> fr_flow sc"
      using f(3) ih(2) by (auto simp: scan_frame_def apply_flow_def split: Frame.splits if_splits)
    then show ?thesis using False f(1,2) ih(1) by (subst flow_loop.simps) (simp add: bindS_def)
  qed
qed

text \<open>
  The receiver of any packet collects the acknowledgements in the pass that validates the frames, and applies
  credit in a second pass. On a packet it accepts with an acknowledgement, this changes the endpoint exactly as the
  receiver that decodes the packet once for both.
\<close>

theorem ack_paths_agree:
  assumes "short_decode False input = Inr (header, used)" "scan_frames limit (drop used input) blank_scan = Inr sc" "fr_has_ack sc"
  shows "apply_controls P input sc ingress e = receive_ack_packet_on_path P input ingress e"
proof -
  obtain e1 r1 where fl: "flow_loop (drop used input) e = (e1, r1)" by (rule prod.exhaust)
  have l: "ack_packet_loop (drop used input) ([], 0) e = bindS (e1, r1) (\<lambda>e1 _. (e1, Inr (fr_acknowledged sc, fr_delay sc)))"
    using ack_loop_scan [OF assms(2), of e] by (simp add: blank_scan_def fl)
  have f: "(if fr_flow sc then receive_flow_control_packet input e else (e, Inr ())) = (e1, r1)"
    using no_flow [OF assms(2), of e] fl assms(1) by (auto simp: receive_flow_control_packet_def)
  show ?thesis unfolding apply_controls_def f receive_ack_packet_on_path_def assms(1) sum.case prod.case l
    by (cases r1) (simp_all add: bindS_def assms(3))
qed

lemma ack_packet_flight:
  assumes "flight_inv e"
  obtains e' r where "receive_ack_packet_on_path P input ingress e = Some (e', r)" "flight_inv e'"
proof (cases "short_decode False input")
  case (Inl err)
  show ?thesis by (rule that [of e "Inl err"]) (simp_all add: receive_ack_packet_on_path_def Inl assms)
next
  case (Inr hu)
  obtain hd used where hu: "hu = (hd, used)" by (rule prod.exhaust)
  have q: "quiet e (fst (ack_packet_loop input acc e))" for input acc e
  proof (induction input acc e rule: ack_packet_loop.induct)
    case (1 input acc e)
    show ?case
    proof (cases "input = [] \<or> (\<forall>frame used. decode_frame input = Inr (frame, used) \<longrightarrow> used = 0)")
      case True
      then show ?thesis by (subst ack_packet_loop.simps) (auto split: sum.splits prod.splits)
    next
      case False
      then obtain frame used where d: "input \<noteq> []" "decode_frame input = Inr (frame, used)" "used \<noteq> 0" by blast
      have "quiet e (fst (bindS (apply_flow frame e) (\<lambda>e1 _. ack_packet_loop (drop used input) (note_ack frame acc) e1)))"
        by (rule bindS_quiet [OF apply_flow_quiet]) (rule 1 [OF d(1) d(2) refl d(3)])
      then show ?thesis using d by (subst ack_packet_loop.simps) simp
    qed
  qed
  obtain e1 r1 where l: "ack_packet_loop (drop used input) ([], 0) e = (e1, r1)" by (rule prod.exhaust)
  have inv: "flight_inv e1" using quiet_inv [OF q assms, of "drop used input" "([], 0)"] by (simp add: l)
  show ?thesis
  proof (cases r1)
    case err: (Inl err)
    show ?thesis by (rule that [of e1 "Inl err"]) (simp_all add: receive_ack_packet_on_path_def Inr hu l err inv)
  next
    case ok: (Inr ad)
    obtain e2 r2 where "apply_ack_ranges_on_path P (fst ad) (snd ad) ingress e1 = Some (e2, r2)" "flight_inv e2"
      by (rule apply_ack_flight [OF inv])
    then show ?thesis by (intro that [of e2 r2]) (auto simp: receive_ack_packet_on_path_def Inr hu l ok split: prod.split)
  qed
qed

end
