(* ===== verification/Packet_Protection.thy ===== *)
theory Packet_Protection
  imports Wire_Frames
begin

text \<open>
  Packet protection, \<^verbatim>\<open>quic-lite/src/crypto.rs\<close> and the two operations of \<^verbatim>\<open>EndpointState\<close> that use it
  (cargo feature \<^verbatim>\<open>packet-protection\<close>): the keys of the two directions and their derivation, the nonce of a
  packet, the associated data, sealing a packet in place and opening it. AES-128-GCM and HKDF-SHA256 are
  third-party crates and are parameters. Erasing secrets on drop has no observable effect and is left out.
\<close>

section \<open>Keys\<close>

definition FLAG_PROTECTED :: u8 where "FLAG_PROTECTED = FLAG_KEY_PHASE"
definition TRAFFIC_KEY_LEN :: usize where "TRAFFIC_KEY_LEN = 16"
definition TRAFFIC_IV_LEN :: usize where "TRAFFIC_IV_LEN = 12"
definition AEAD_TAG_LEN :: usize where "AEAD_TAG_LEN = 16"

definition canonical_short_header_aad :: "ShortHeader \<Rightarrow> ConnectionId \<Rightarrow> usize \<Rightarrow> u8 list result" where
  "canonical_short_header_aad h endpoint_dcid cap =
     (if cid_value endpoint_dcid = 0 then Inl Invalid
      else short_encode True (h\<lparr>sh_dcid := endpoint_dcid\<rparr>) cap)"

record DirectionKey =
  dk_key :: "u8 list"
  dk_iv :: "u8 list"

definition direction_key_new :: "u8 list \<Rightarrow> DirectionKey" where
  "direction_key_new material = \<lparr>dk_key = take TRAFFIC_KEY_LEN material, dk_iv = drop TRAFFIC_KEY_LEN material\<rparr>"

definition nonce :: "DirectionKey \<Rightarrow> u32 \<Rightarrow> u8 list" where
  "nonce k packet_number = take (TRAFFIC_IV_LEN - 4) (dk_iv k)
     @ map2 (XOR) (drop (TRAFFIC_IV_LEN - 4) (dk_iv k)) (be_bytes 4 packet_number)"

text \<open>
  AES-128-GCM is a parameter: sealing takes key, nonce, associated data and body and gives the
  encrypted body with its tag, opening is its converse; both may fail.
\<close>

type_synonym aead_seal = "u8 list \<Rightarrow> u8 list \<Rightarrow> u8 list \<Rightarrow> u8 list \<Rightarrow> (u8 list \<times> u8 list) option"
type_synonym aead_open = "u8 list \<Rightarrow> u8 list \<Rightarrow> u8 list \<Rightarrow> u8 list \<Rightarrow> u8 list \<Rightarrow> u8 list option"

definition dk_seal :: "aead_seal \<Rightarrow> DirectionKey \<Rightarrow> u32 \<Rightarrow> u8 list \<Rightarrow> u8 list \<Rightarrow> (u8 list \<times> u8 list) result" where
  "dk_seal enc k packet_number aad body = ok_or Invalid (enc (dk_key k) (nonce k packet_number) aad body)"

definition dk_open :: "aead_open \<Rightarrow> DirectionKey \<Rightarrow> u32 \<Rightarrow> u8 list \<Rightarrow> u8 list \<Rightarrow> u8 list \<Rightarrow> u8 list result" where
  "dk_open dec k packet_number aad body tag = ok_or Invalid (dec (dk_key k) (nonce k packet_number) aad body tag)"

record TrafficKeys =
  client_to_server :: DirectionKey
  server_to_client :: DirectionKey

record EndpointProtection =
  pr_send :: DirectionKey
  pr_receive :: DirectionKey

definition for_role :: "TrafficKeys \<Rightarrow> Role \<Rightarrow> EndpointProtection" where
  "for_role keys role = (case role of
     Client \<Rightarrow> \<lparr>pr_send = client_to_server keys, pr_receive = server_to_client keys\<rparr>
   | Server \<Rightarrow> \<lparr>pr_send = server_to_client keys, pr_receive = client_to_server keys\<rparr>)"

text \<open>HKDF-SHA256 is a parameter of salt, key material, context and output length.\<close>

type_synonym hkdf = "u8 list \<Rightarrow> u8 list \<Rightarrow> u8 list \<Rightarrow> usize \<Rightarrow> u8 list option"

definition derive_traffic_keys :: "hkdf \<Rightarrow> u8 list \<Rightarrow> u8 list \<Rightarrow> u8 list \<Rightarrow> ConnectionId \<Rightarrow> ConnectionId \<Rightarrow> TrafficKeys result" where
  "derive_traffic_keys kdf psk client_random server_random client_cid server_cid =
     (if cid_value client_cid = 0 \<or> cid_value server_cid = 0 \<or> client_cid = server_cid then Inl Invalid
      else let salt = client_random @ server_random;
               context = map of_char ''dmesh/quic-lite/traffic/v1/'' @ be_bytes 8 (cid_value client_cid)
                 @ be_bytes 8 (cid_value server_cid);
               expand = (\<lambda>label. ok_or Invalid (kdf salt psk (context @ label) (TRAFFIC_KEY_LEN + TRAFFIC_IV_LEN)))
           in bindE (expand (map of_char ''c2s'' @ [0])) (\<lambda>c2s.
              bindE (expand (map of_char ''s2c'' @ [0])) (\<lambda>s2c.
              Inr \<lparr>client_to_server = direction_key_new c2s, server_to_client = direction_key_new s2c\<rparr>)))"

section \<open>Packets\<close>

text \<open>
  \<^verbatim>\<open>EndpointState::protect_packet_in_place\<close> and \<^verbatim>\<open>open_packet_in_place\<close> over what they read of the endpoint: its
  keys, the identifier of the path and the next or expected packet number. \<open>packet\<close> is the packet in the
  caller's buffer of \<open>cap\<close> bytes; the result is the packet the buffer holds afterwards.
\<close>

definition protect_packet_in_place :: "aead_seal \<Rightarrow> EndpointProtection option \<Rightarrow> ConnectionId option \<Rightarrow> u32 \<Rightarrow> usize
    \<Rightarrow> u8 list \<Rightarrow> u8 list result" where
  "protect_packet_in_place enc protection destination next cap packet =
     bindE (ok_or Invalid protection) (\<lambda>pr.
     bindE (ok_or WrongConnectionId destination) (\<lambda>destination_cid.
     if length packet > cap then Inl Truncated
     else bindE (decode_with_expected True packet next) (\<lambda>(h, hl).
     if sh_flags h AND FLAG_PROTECTED \<noteq> 0 \<or> sh_dcid h \<noteq> destination_cid then Inl Invalid
     else bindE (ok_or BufferTooSmall (checked_add u64_max (length packet) AEAD_TAG_LEN)) (\<lambda>protected_len.
     if protected_len > cap then Inl BufferTooSmall
     else let h' = h\<lparr>sh_flags := sh_flags h OR FLAG_PROTECTED\<rparr> in
     bindE (canonical_short_header_aad h' destination_cid 16) (\<lambda>aad.
     bindE (dk_seal enc (pr_send pr) (sh_packet_number h') aad (drop hl packet)) (\<lambda>(body, tag).
     Inr ((packet ! 0 OR FLAG_PROTECTED) # drop 1 (take hl packet) @ body @ tag)))))))"

definition open_packet_in_place :: "aead_open \<Rightarrow> EndpointProtection option \<Rightarrow> ConnectionId option \<Rightarrow> u32 \<Rightarrow> usize
    \<Rightarrow> u8 list \<Rightarrow> u8 list result" where
  "open_packet_in_place dec protection local expected cap packet =
     bindE (ok_or Invalid protection) (\<lambda>pr.
     bindE (ok_or WrongConnectionId local) (\<lambda>local_cid.
     if length packet > cap then Inl Truncated
     else bindE (decode_with_expected True packet expected) (\<lambda>(h, hl).
     if sh_flags h AND FLAG_PROTECTED = 0 \<or> sh_dcid h \<noteq> local_cid then Inl Invalid
     else if length packet < sat_add64 hl AEAD_TAG_LEN then Inl Truncated
     else let body_end = length packet - AEAD_TAG_LEN in
     bindE (canonical_short_header_aad h local_cid 16) (\<lambda>aad.
     bindE (dk_open dec (pr_receive pr) (sh_packet_number h) aad (drop hl (take body_end packet)) (drop body_end packet)) (\<lambda>body.
     Inr (take hl packet @ body))))))"

definition configure_packet_protection :: "hkdf \<Rightarrow> EndpointProtection option \<Rightarrow> u32 \<Rightarrow> u32 option \<Rightarrow> Role \<Rightarrow> ConnectionId option
    \<Rightarrow> ConnectionId option \<Rightarrow> u8 list \<Rightarrow> u8 list \<Rightarrow> u8 list \<Rightarrow> EndpointProtection option result" where
  "configure_packet_protection kdf protection next highest role local peer psk client_random server_random =
     (if protection \<noteq> None \<or> next \<noteq> 0 \<or> highest \<noteq> None then Inl Invalid
      else bindE (ok_or WrongConnectionId local) (\<lambda>local_cid.
        bindE (ok_or WrongConnectionId peer) (\<lambda>peer_cid.
        let (client_cid, server_cid) = (case role of Client \<Rightarrow> (local_cid, peer_cid) | Server \<Rightarrow> (peer_cid, local_cid)) in
        bindE (derive_traffic_keys kdf psk client_random server_random client_cid server_cid) (\<lambda>keys.
        Inr (Some (for_role keys role))))))"

section \<open>Nonces\<close>

lemma be_bytes_inj: "be_bytes n a = be_bytes n b \<Longrightarrow> n \<le> 8 \<Longrightarrow> a < 2 ^ (8 * n) \<Longrightarrow> b < 2 ^ (8 * n) \<Longrightarrow> a = b"
  by (metis be_fold_bytes_mod mod_less)

lemma map2_xor_inj:
  fixes xs :: "u8 list"
  shows "map2 (XOR) xs ys = map2 (XOR) xs zs \<Longrightarrow> length ys = length xs \<Longrightarrow> length zs = length xs \<Longrightarrow> ys = zs"
proof (induction xs arbitrary: ys zs)
  case (Cons x xs)
  then obtain y ys' z zs' where "ys = y # ys'" "zs = z # zs'" by (metis length_Suc_conv)
  moreover have "x XOR y = x XOR z \<Longrightarrow> y = z"
    by (metis xor.left_neutral xor.assoc xor_self_eq)
  ultimately show ?case using Cons by auto
qed simp

text \<open>
  Claim C11. No nonce is used twice: under one direction key, two different packet numbers give two
  different nonces.
\<close>

theorem nonce_unique:
  assumes "length (dk_iv k) = TRAFFIC_IV_LEN" "a \<le> u32_max" "b \<le> u32_max"
  shows "nonce k a = nonce k b \<longleftrightarrow> a = b"
proof
  assume "nonce k a = nonce k b"
  then have "map2 (XOR) (drop 8 (dk_iv k)) (be_bytes 4 a) = map2 (XOR) (drop 8 (dk_iv k)) (be_bytes 4 b)"
    using assms(1) by (simp add: nonce_def TRAFFIC_IV_LEN_def)
  then have "be_bytes 4 a = be_bytes 4 b" by (rule map2_xor_inj) (use assms(1) in \<open>simp_all add: TRAFFIC_IV_LEN_def\<close>)
  then show "a = b" using assms(2,3) by (intro be_bytes_inj [of 4]) simp_all
qed simp

theorem nonce_unique_witness:
  "nonce \<lparr>dk_key = replicate 16 0, dk_iv = replicate 12 7\<rparr> 258 = replicate 10 7 @ [6, 5]
   \<and> nonce \<lparr>dk_key = replicate 16 0, dk_iv = replicate 12 7\<rparr> 259 \<noteq> replicate 10 7 @ [6, 5]"
proof -
  let ?k = "\<lparr>dk_key = replicate 16 0, dk_iv = replicate 12 7\<rparr> :: DirectionKey"
  have n: "nonce ?k 258 = replicate 10 7 @ [6, 5]" by code_simp
  have iv: "length (dk_iv ?k) = TRAFFIC_IV_LEN" by code_simp
  have "nonce ?k 259 \<noteq> nonce ?k 258" using nonce_unique [OF iv, of 259 258] by simp
  with n show ?thesis by metis
qed

section \<open>Sealed packets\<close>

definition aead_ok :: "aead_seal \<Rightarrow> aead_open \<Rightarrow> bool" where
  "aead_ok enc dec \<longleftrightarrow> (\<forall>k n a b c t. enc k n a b = Some (c, t) \<longrightarrow> length t = AEAD_TAG_LEN \<and> dec k n a c t = Some b)"

lemma reconstruct_flags:
  "reconstruct p e = Inr h \<Longrightarrow> reconstruct (p\<lparr>pre_flags := f\<rparr>) e = Inr (h\<lparr>sh_flags := f\<rparr>)"
  by (auto simp: reconstruct_def Let_def split: if_splits)

lemma reconstruct_fields:
  "reconstruct p e = Inr h \<Longrightarrow> sh_flags h = pre_flags p \<and> sh_dcid h = pre_dcid p"
  by (auto simp: reconstruct_def Let_def split: if_splits)

lemma protected_flag:
  fixes f :: u8
  shows "FLAG_PROTECTED \<noteq> 0" "(f OR FLAG_PROTECTED) AND FLAG_PROTECTED \<noteq> 0" "(f OR FLAG_PROTECTED) AND 3 = f AND 3"
    "short_flags_ok True f \<Longrightarrow> short_flags_ok True (f OR FLAG_PROTECTED)"
  by (simp_all add: FLAG_PROTECTED_def short_flags_ok_def flag_bits)

lemma short_shape_replace:
  assumes "short_shape True packet p cid tail" "f AND 3 = pre_flags p AND 3" "short_flags_ok True f"
  shows "short_shape True (f # drop 1 (take (header_len p) packet) @ rest) (p\<lparr>pre_flags := f\<rparr>) cid
    (take (pre_packet_number_len p) tail @ rest)"
  using assms by (auto simp: short_shape_def min_absorb2)

text \<open>
  Claim C10. A packet that one end protects, the other end opens: when both reconstruct the same packet number
  from it and the receiver's key is the sender's, opening gives back the packet byte for byte, marked
  as protected. AES-128-GCM enters by its law: what it seals, it opens, and its tag has sixteen bytes.
\<close>

theorem protected_roundtrip:
  assumes "aead_ok enc dec"
    and "decode_with_expected True packet next = Inr (h, hl)" "decode_with_expected True packet expected = Inr (h, hl)"
    and "protect_packet_in_place enc (Some pr) (Some cid) next cap packet = Inr out"
    and "pr_receive pr' = pr_send pr" "length out \<le> cap'" "cap' \<le> u64_max"
  shows "open_packet_in_place dec (Some pr') (Some cid) expected cap' out = Inr ((packet ! 0 OR FLAG_PROTECTED) # drop 1 packet)"
proof -
  from assms(2,3) obtain p where p: "decode_prefix True packet = Inr p" "reconstruct p next = Inr h"
      "reconstruct p expected = Inr h" "hl = header_len p"
    by (auto simp: decode_with_expected_def)
  from p(1) obtain c tail where sh: "short_shape True packet p c tail" by (rule decode_prefix_shapeD)
  let ?f = "packet ! 0 OR FLAG_PROTECTED"
  have f: "packet ! 0 = pre_flags p" "sh_flags h = pre_flags p" "sh_dcid h = pre_dcid p"
    using sh reconstruct_fields [OF p(2)] by (simp_all add: short_shape_def)
  let ?h = "h\<lparr>sh_flags := ?f\<rparr>"
  from assms(4) obtain aad body tag where s: "sh_dcid h = cid" "canonical_short_header_aad ?h cid 16 = Inr aad"
      "enc (dk_key (pr_send pr)) (nonce (pr_send pr) (sh_packet_number h)) aad (drop hl packet) = Some (body, tag)"
      "out = ?f # drop 1 (take hl packet) @ body @ tag"
    by (auto simp: protect_packet_in_place_def assms(2) Let_def dk_seal_def f split: if_splits)
  have t: "length tag = AEAD_TAG_LEN"
      "dec (dk_key (pr_send pr)) (nonce (pr_send pr) (sh_packet_number h)) aad body tag = Some (drop hl packet)"
    using assms(1) s(3) unfolding aead_ok_def by blast+
  have "short_shape True out (p\<lparr>pre_flags := ?f\<rparr>) c (take (pre_packet_number_len p) tail @ body @ tag)"
    unfolding s(4) p(4) using sh f(1) by (intro short_shape_replace) (auto simp: protected_flag short_shape_def)
  then have d: "decode_with_expected True out expected = Inr (?h, hl)"
    using reconstruct_flags [OF p(3), of ?f] by (simp add: decode_with_expected_def decode_prefix_shapeI p(4))
  have hl: "1 \<le> hl" "hl \<le> length packet" using sh p(4) by (auto simp: short_shape_def)
  define hd where "hd = ?f # drop 1 (take hl packet)"
  have o: "out = hd @ body @ tag" "length hd = hl" using hl by (simp_all add: hd_def s(4))
  then have "sat_add64 hl AEAD_TAG_LEN \<le> length out" by (simp add: sat_add_def t(1))
  moreover have "drop (length out - AEAD_TAG_LEN) out = tag" "drop hl (take (length out - AEAD_TAG_LEN) out) = body"
    "take hl out = hd" by (simp_all add: o t(1))
  moreover have "hd @ drop hl packet = ?f # drop 1 packet"
    using hl by (cases packet; cases hl) (simp_all add: hd_def)
  ultimately show ?thesis
    using assms(5,6) s(1,2) t by (simp add: open_packet_in_place_def d Let_def dk_open_def protected_flag not_less)
qed

definition toy_seal :: aead_seal where
  "toy_seal k n a b = Some (map ((XOR) (hd k)) b, take AEAD_TAG_LEN (a @ replicate 16 0))"

definition toy_open :: aead_open where
  "toy_open k n a c t = (if t = take AEAD_TAG_LEN (a @ replicate 16 0) then Some (map ((XOR) (hd k)) c) else None)"

lemma toy_aead_ok: "aead_ok toy_seal toy_open"
  by (auto simp: aead_ok_def toy_seal_def toy_open_def AEAD_TAG_LEN_def o_def simp flip: xor.assoc)

definition toy_key :: "u8 \<Rightarrow> DirectionKey" where
  "toy_key b = \<lparr>dk_key = replicate 16 b, dk_iv = replicate 12 b\<rparr>"

definition toy_protection :: "Role \<Rightarrow> EndpointProtection" where
  "toy_protection = for_role \<lparr>client_to_server = toy_key 0x5c, server_to_client = toy_key 0x36\<rparr>"

theorem protected_roundtrip_witness:
  "bindE (protect_packet_in_place toy_seal (Some (toy_protection Client)) (Some (ConnectionId 0x12345)) 70001 64
       [0x41, 0xa0, 0x01, 0x23, 0x45, 0x11, 0x70, 0xde, 0xad])
     (open_packet_in_place toy_open (Some (toy_protection Server)) (Some (ConnectionId 0x12345)) 69000 64)
   = Inr [0x45, 0xa0, 0x01, 0x23, 0x45, 0x11, 0x70, 0xde, 0xad]"
proof -
  let ?p = "[0x41, 0xa0, 0x01, 0x23, 0x45, 0x11, 0x70, 0xde, 0xad :: u8]"
  let ?h = "\<lparr>sh_flags = 0x41, sh_dcid = ConnectionId 0x12345, sh_packet_number = 70000, sh_packet_number_len = 2\<rparr>"
  let ?out = "[0x45, 0xa0, 0x01, 0x23, 0x45, 0x11, 0x70, 0x82, 0xf1]
    @ [0x45, 0xa0, 0x01, 0x23, 0x45, 0x11, 0x70] @ replicate 9 (0 :: u8)"
  have d: "decode_with_expected True ?p 70001 = Inr (?h, 7)" "decode_with_expected True ?p 69000 = Inr (?h, 7)"
    by code_simp+
  have s: "protect_packet_in_place toy_seal (Some (toy_protection Client)) (Some (ConnectionId 0x12345)) 70001 64 ?p = Inr ?out"
    by code_simp
  have r: "pr_receive (toy_protection Server) = pr_send (toy_protection Client)" "length ?out \<le> 64" "64 \<le> u64_max"
    by code_simp+
  have "(?p ! 0 OR FLAG_PROTECTED) # drop 1 ?p = [0x45, 0xa0, 0x01, 0x23, 0x45, 0x11, 0x70, 0xde, 0xad]" by code_simp
  then show ?thesis using protected_roundtrip [OF toy_aead_ok d s r] unfolding s bindE_simps by simp
qed

text \<open>
  The comments say that the associated data always names the peer's own identifier, which the receiver restores.
  The sender takes it from its path, and there it is the identifier of the next hop when a relay stands between:
  the receiver's associated data then names another identifier, and the packet is refused.
\<close>

theorem relayed_packet_refused:
  "bindE (protect_packet_in_place toy_seal (Some (toy_protection Client)) (Some (ConnectionId 0x2a)) 10 64
       [0x40, 0x2a, 0x09, 0xde, 0xad]) (\<lambda>sent.
     bindE (rewrite_dcid True sent (ConnectionId 0x33) 64)
       (open_packet_in_place toy_open (Some (toy_protection Server)) (Some (ConnectionId 0x33)) 9 64)) = Inl Invalid"
  by code_simp

section \<open>Agreement of keys\<close>

text \<open>
  Claim C12. Both ends of an association derive the same keys in opposite roles: from the same secret and the same
  random values, with each one's own identifier the other's peer, what the client sends with the server
  receives with, and the other way round; and the two ends refuse exactly the same configurations.
\<close>

theorem traffic_keys_agree:
  "case (configure_packet_protection kdf None 0 None Client (Some a) (Some b) psk cr sr,
         configure_packet_protection kdf None 0 None Server (Some b) (Some a) psk cr sr) of
     (Inr (Some c), Inr (Some s)) \<Rightarrow> pr_send c = pr_receive s \<and> pr_receive c = pr_send s
   | (Inl e, Inl e') \<Rightarrow> e = Invalid \<and> e' = Invalid
   | _ \<Rightarrow> False"
proof (cases "derive_traffic_keys kdf psk cr sr a b")
  case (Inl e)
  then have "e = Invalid"
    by (auto simp: derive_traffic_keys_def Let_def bindE_def ok_or_def split: if_splits sum.splits option.splits)
  with Inl show ?thesis by (simp add: configure_packet_protection_def)
next
  case (Inr keys)
  then show ?thesis by (simp add: configure_packet_protection_def for_role_def)
qed

end
