(* ===== verification/Stateless_Reset.thy ===== *)
theory Stateless_Reset
  imports Wire_Header
begin

text \<open>
  Stateless resets of \<^verbatim>\<open>quic-lite/src/lib.rs\<close>: the reset key derived from a device secret, the token of
  a connection identifier, the opaque reset packet sent for an unknown destination, and its
  recognition. HMAC-SHA256 is a library the sources call: it is the parameter \<open>hmac\<close>, a function
  of the key and of the concatenation of the updates, of which only the digest length is used.
\<close>

definition STATELESS_RESET_TOKEN_LEN :: usize where "STATELESS_RESET_TOKEN_LEN = 16"
definition STATELESS_RESET_MIN_PACKET_LEN :: usize where "STATELESS_RESET_MIN_PACKET_LEN = 21"

type_synonym mac = "u8 list \<Rightarrow> u8 list \<Rightarrow> u8 list"

definition label :: "string \<Rightarrow> u8 list" where
  "label s = map of_char s"

definition DEVICE_SECRET_RESET_KEY_LABEL :: "u8 list" where
  "DEVICE_SECRET_RESET_KEY_LABEL = label ''dmesh/quic-lite/reset-key/v1''"
definition STATELESS_RESET_TOKEN_LABEL :: "u8 list" where
  "STATELESS_RESET_TOKEN_LABEL = label ''dmesh/quic-lite/stateless-reset/v1''"
definition STATELESS_RESET_PREFIX_LABEL :: "u8 list" where
  "STATELESS_RESET_PREFIX_LABEL = label ''dmesh/quic-lite/stateless-reset/prefix/v1''"

datatype StatelessResetKey = StatelessResetKey (key_bytes: "u8 list")
datatype StatelessResetToken = StatelessResetToken (token_bytes: "u8 list")

definition from_device_secret :: "mac \<Rightarrow> u8 list \<Rightarrow> StatelessResetKey result" where
  "from_device_secret hmac secret =
     (if length secret < 16 then Inl Invalid
      else Inr (StatelessResetKey (hmac secret DEVICE_SECRET_RESET_KEY_LABEL)))"

text \<open>
  The identifier encoded into a buffer of eight bytes. No identifier needs more, so the
  \<^verbatim>\<open>expect\<close> of the source holds (\<open>cid_bytes_ok\<close> below).
\<close>

definition cid_bytes :: "ConnectionId \<Rightarrow> u8 list" where
  "cid_bytes cid = (case cid_encode cid 8 of Inr bs \<Rightarrow> bs | Inl _ \<Rightarrow> [])"

definition token_for :: "mac \<Rightarrow> StatelessResetKey \<Rightarrow> ConnectionId \<Rightarrow> StatelessResetToken" where
  "token_for hmac key cid =
     (let digest = hmac (key_bytes key) (STATELESS_RESET_TOKEN_LABEL @ cid_bytes cid)
      in StatelessResetToken (take STATELESS_RESET_TOKEN_LEN digest))"

definition encode_for_unknown_cid ::
  "mac \<Rightarrow> StatelessResetKey \<Rightarrow> u8 list \<Rightarrow> ConnectionId \<Rightarrow> nat \<Rightarrow> u8 list option result" where
  "encode_for_unknown_cid hmac key triggering_packet unknown_dcid cap =
     (if length triggering_packet < STATELESS_RESET_MIN_PACKET_LEN
         \<or> (case triggering_packet of [] \<Rightarrow> True | first # _ \<Rightarrow> first AND 0x80 \<noteq> 0)
      then Inr None
      else
        let used = min (length triggering_packet) cap
        in if used < STATELESS_RESET_MIN_PACKET_LEN then Inl BufferTooSmall
           else
             let token = token_for hmac key unknown_dcid
             in bindE (cid_encode unknown_dcid 8) (\<lambda>cid.
                let digest = hmac (key_bytes key) (STATELESS_RESET_PREFIX_LABEL @ cid @ be_bytes 8 used);
                    prefix = map (\<lambda>index. digest ! (index mod length digest) XOR (word_of_nat index * 0x9d))
                               [0..<used - STATELESS_RESET_TOKEN_LEN];
                    prefix1 = prefix[0 := prefix ! 0 AND 0x3f]
                in Inr (Some (prefix1 @ token_bytes token))))"

definition encode_for_unknown_packet ::
  "mac \<Rightarrow> bool \<Rightarrow> StatelessResetKey \<Rightarrow> u8 list \<Rightarrow> nat \<Rightarrow> u8 list option result" where
  "encode_for_unknown_packet hmac pp key triggering_packet cap =
     bindE (short_decode pp triggering_packet) (\<lambda>(header, _).
       encode_for_unknown_cid hmac key triggering_packet (sh_dcid header) cap)"

text \<open>The comparison of a received suffix with the token, without an early exit.\<close>

definition matches_packet :: "StatelessResetToken \<Rightarrow> u8 list \<Rightarrow> bool" where
  "matches_packet token input =
     (if length input < STATELESS_RESET_MIN_PACKET_LEN then False
      else
        let suffix = drop (length input - STATELESS_RESET_TOKEN_LEN) input;
            different = fold (\<lambda>(received, expected) d. d OR (received XOR expected)) (zip suffix (token_bytes token)) 0
        in different = 0)"

section \<open>Recognition\<close>

lemma cid_bytes_ok: "cid_encode cid 8 = Inr (cid_bytes cid)"
proof -
  obtain bs where "cid_encode cid 8 = Inr bs" using cid_encode_Inr_iff [of cid 8] cid_encoded_len_bound [of cid] by auto
  then show ?thesis by (simp add: cid_bytes_def)
qed

lemma or_eq_0: "(a :: u8) OR b = 0 \<longleftrightarrow> a = 0 \<and> b = 0"
  by (auto simp: bit_eq_iff bit_simps)

lemma xor_eq_0: "(a :: u8) XOR b = 0 \<longleftrightarrow> a = b"
  by (metis xor_self_eq xor.right_neutral xor.assoc xor.commute)

lemma compare_fold:
  "length xs = length ys \<Longrightarrow>
     fold (\<lambda>(received, expected) d. d OR (received XOR expected)) (zip xs ys) (d :: u8) = 0 \<longleftrightarrow> d = 0 \<and> xs = ys"
proof (induction xs ys arbitrary: d rule: list_induct2)
  case (Cons x xs y ys)
  then show ?case by (auto simp: or_eq_0 xor_eq_0)
qed simp

lemma matches_packet_iff:
  assumes "length (token_bytes token) = STATELESS_RESET_TOKEN_LEN"
  shows "matches_packet token input \<longleftrightarrow> STATELESS_RESET_MIN_PACKET_LEN \<le> length input
    \<and> drop (length input - STATELESS_RESET_TOKEN_LEN) input = token_bytes token"
proof (cases "length input < STATELESS_RESET_MIN_PACKET_LEN")
  case False
  then have "length (drop (length input - STATELESS_RESET_TOKEN_LEN) input) = length (token_bytes token)"
    using assms by (simp add: STATELESS_RESET_MIN_PACKET_LEN_def STATELESS_RESET_TOKEN_LEN_def)
  from compare_fold [OF this, of 0] False show ?thesis by (simp add: matches_packet_def Let_def)
qed (simp add: matches_packet_def)

text \<open>
  Comparing the suffix byte by byte without an early exit decides exactly whether a
  packet is long enough to be a reset and ends in the token.
\<close>

lemma matches_packet_exact:
  assumes "length (token_bytes token) = STATELESS_RESET_TOKEN_LEN"
  shows "matches_packet token input \<longleftrightarrow> (\<exists>front. input = front @ token_bytes token \<and> 5 \<le> length front)"
proof -
  have "STATELESS_RESET_MIN_PACKET_LEN \<le> length input \<and> drop (length input - STATELESS_RESET_TOKEN_LEN) input = token_bytes token
      \<longleftrightarrow> (\<exists>front. input = front @ token_bytes token \<and> 5 \<le> length front)"
  proof
    assume a: "STATELESS_RESET_MIN_PACKET_LEN \<le> length input
      \<and> drop (length input - STATELESS_RESET_TOKEN_LEN) input = token_bytes token"
    let ?f = "take (length input - STATELESS_RESET_TOKEN_LEN) input"
    have "input = ?f @ token_bytes token" using a by (metis append_take_drop_id)
    moreover have "5 \<le> length ?f"
      using a by (auto simp: STATELESS_RESET_MIN_PACKET_LEN_def STATELESS_RESET_TOKEN_LEN_def)
    ultimately show "\<exists>front. input = front @ token_bytes token \<and> 5 \<le> length front" by blast
  qed (use assms in \<open>auto simp: STATELESS_RESET_MIN_PACKET_LEN_def STATELESS_RESET_TOKEN_LEN_def\<close>)
  with matches_packet_iff [OF assms] show ?thesis by simp
qed

lemma matches_packet_exact_witness:
  "matches_packet (StatelessResetToken (replicate 16 7)) (replicate 5 1 @ replicate 16 7)"
  using matches_packet_exact [of "StatelessResetToken (replicate 16 7)" "replicate 5 1 @ replicate 16 7"]
  by (auto simp: STATELESS_RESET_TOKEN_LEN_def)

lemma masked_first_fails: "decode_routing_prefix pp ((b AND 0x3f) # rest) = Inl Invalid"
proof -
  have "(b AND 0x3f) AND 0x80 = 0" "(b AND 0x3f) AND 0x40 = 0" by (simp_all add: and.assoc)
  then show ?thesis by (simp add: decode_routing_prefix_def is_long_def decode_prefix_def FLAG_FIXED_def)
qed

lemma unknown_cid_reset:
  assumes "\<forall>k m. length (hmac k m) = 32"
    "encode_for_unknown_cid hmac key trigger cid cap = Inr (Some packet)"
  shows "matches_packet (token_for hmac key cid) packet \<and> length packet = min (length trigger) cap
    \<and> decode_routing_prefix pp packet = Inl Invalid"
proof -
  let ?u = "min (length trigger) cap"
  have u: "STATELESS_RESET_MIN_PACKET_LEN \<le> ?u" using assms(2)
    by (auto simp: encode_for_unknown_cid_def Let_def split: if_splits)
  define prefix where "prefix = map (\<lambda>index. hmac (key_bytes key) (STATELESS_RESET_PREFIX_LABEL @ cid_bytes cid @ be_bytes 8 ?u)
      ! (index mod length (hmac (key_bytes key) (STATELESS_RESET_PREFIX_LABEL @ cid_bytes cid @ be_bytes 8 ?u)))
      XOR (word_of_nat index * 0x9d)) [0..<?u - STATELESS_RESET_TOKEN_LEN]"
  have packet: "packet = prefix[0 := prefix ! 0 AND 0x3f] @ token_bytes (token_for hmac key cid)"
    using assms(2) u by (auto simp: encode_for_unknown_cid_def Let_def cid_bytes_ok prefix_def split: if_splits)
  have t: "length (token_bytes (token_for hmac key cid)) = STATELESS_RESET_TOKEN_LEN"
    using assms(1) by (simp add: token_for_def Let_def STATELESS_RESET_TOKEN_LEN_def)
  have len: "length prefix = ?u - STATELESS_RESET_TOKEN_LEN" by (simp add: prefix_def)
  then have "length packet = ?u"
    using u t unfolding packet by (simp add: STATELESS_RESET_MIN_PACKET_LEN_def STATELESS_RESET_TOKEN_LEN_def)
  moreover from this have "matches_packet (token_for hmac key cid) packet"
    using u t len by (simp add: matches_packet_iff) (simp add: packet)
  moreover obtain b rest where "prefix = b # rest"
    using len u by (cases prefix) (auto simp: STATELESS_RESET_MIN_PACKET_LEN_def STATELESS_RESET_TOKEN_LEN_def)
  then have "decode_routing_prefix pp packet = Inl Invalid" by (simp add: packet masked_first_fails)
  ultimately show ?thesis by simp
qed

text \<open>
  Claim C36. A restarted endpoint is recognised: the reset it sends for a packet of a connection it
  no longer knows matches the token it once issued for that destination, is no longer than the
  packet that triggered it, and cannot be mistaken for a packet, since no header parser accepts it.
  HMAC is only assumed to give 32 bytes.
\<close>

theorem reset_recognised:
  assumes "\<forall>k m. length (hmac k m) = 32"
    and "encode_for_unknown_packet hmac pp key trigger cap = Inr (Some packet)"
  shows "\<exists>header n. short_decode pp trigger = Inr (header, n)
    \<and> matches_packet (token_for hmac key (sh_dcid header)) packet
    \<and> length packet \<le> length trigger \<and> length packet \<le> cap
    \<and> decode_routing_prefix pp' packet = Inl Invalid"
proof -
  from assms(2) obtain header n where h: "short_decode pp trigger = Inr (header, n)"
    "encode_for_unknown_cid hmac key trigger (sh_dcid header) cap = Inr (Some packet)"
    by (auto simp: encode_for_unknown_packet_def)
  with unknown_cid_reset [OF assms(1) h(2), of pp'] show ?thesis by auto
qed

definition example_hmac :: mac where
  "example_hmac key message = replicate 32 (sum_list key + sum_list message)"

lemma reset_recognised_witness:
  "\<exists>packet header n. encode_for_unknown_packet example_hmac False (StatelessResetKey [1, 2]) (0x40 # 0x2a # replicate 30 9) 40
      = Inr (Some packet)
    \<and> short_decode False (0x40 # 0x2a # replicate 30 9) = Inr (header, n)
    \<and> matches_packet (token_for example_hmac (StatelessResetKey [1, 2]) (sh_dcid header)) packet"
proof -
  let ?e = "encode_for_unknown_packet example_hmac False (StatelessResetKey [1, 2]) (0x40 # 0x2a # replicate 30 9) 40"
  have l: "\<forall>k m. length (example_hmac k m) = 32" by (simp add: example_hmac_def)
  have "(case ?e of Inr (Some packet) \<Rightarrow> True | _ \<Rightarrow> False)" by code_simp
  then obtain packet where p: "?e = Inr (Some packet)" by (auto split: sum.splits option.splits)
  from reset_recognised [OF l p] p show ?thesis by blast
qed

end
