(* ===== verification/Bootstrap.thy ===== *)
theory Bootstrap
  imports Stateless_Reset Flow_Control
begin

text \<open>
  The bootstrap packets of \<^verbatim>\<open>quic-lite/src/lib.rs\<close>: the OPEN and OPEN_ACK packets that carry the
  receiver profile of each end in stream 0 of an Initial, their parsers, and the one header a relay
  rewrites while an association opens.
\<close>

section \<open>Data\<close>

definition CONTROL_STREAM_ID :: u64 where "CONTROL_STREAM_ID = 0"

record BootstrapOpen =
  client_receive_cid :: ConnectionId
  open_max_data :: u64
  open_max_stream_data :: u64
  open_max_datagram_frame_size :: u64
  open_max_in_flight_packets :: u16
  open_stateless_reset_token :: "StatelessResetToken option"
  requested_peer_limits :: "ReceiveWindowRequest option"

record BootstrapOpenAck =
  server_receive_cid :: ConnectionId
  ack_max_data :: u64
  ack_max_stream_data :: u64
  ack_max_datagram_frame_size :: u64
  ack_max_in_flight_packets :: u16
  ack_stateless_reset_token :: "StatelessResetToken option"

section \<open>The receiver profile\<close>

definition profile_version :: "bool \<Rightarrow> bool \<Rightarrow> bool \<Rightarrow> u64" where
  "profile_version token request datagram =
     (case (token, request) of
        (False, False) \<Rightarrow> 0 | (True, False) \<Rightarrow> 1 | (False, True) \<Rightarrow> 2 | (True, True) \<Rightarrow> 3)
     OR (if datagram then 4 else 0)"

definition put_request :: "ReceiveWindowRequest option \<Rightarrow> nat \<Rightarrow> u8 list result" where
  "put_request requested cap = (case requested of
     None \<Rightarrow> Inr []
   | Some request \<Rightarrow>
       if rw_max_data request = 0 \<or> rw_max_stream_data request = 0 then Inl BootstrapInvalid
       else put_all [rw_max_data request, rw_max_stream_data request] cap)"

definition put_datagram_size :: "u64 \<Rightarrow> nat \<Rightarrow> u8 list result" where
  "put_datagram_size dsize cap =
     (if dsize \<noteq> 0 then
        bindE (put_varint 0x20 cap) (\<lambda>a.
        bindE (put_varint dsize 8) (\<lambda>value.
        bindE (put_varint (length value) (cap - length a)) (\<lambda>l. Inr (a @ l @ value))))
      else Inr [])"

definition put_token :: "StatelessResetToken option \<Rightarrow> nat \<Rightarrow> u8 list result" where
  "put_token token cap = (case token of None \<Rightarrow> Inr [] | Some t \<Rightarrow> Inr (token_bytes t))"

text \<open>
  The parameters are collected in a buffer of 64 bytes, the profile in the caller's. The slice
  copies of the token and of the datagram size fit whatever is encoded (at most 62 bytes).
\<close>

definition encode_bootstrap_profile ::
  "nat \<Rightarrow> ConnectionLimits \<Rightarrow> u16 \<Rightarrow> StatelessResetToken option \<Rightarrow> ReceiveWindowRequest option \<Rightarrow> nat \<Rightarrow> u8 list result"
where
  "encode_bootstrap_profile kind limits in_flight token request cap =
     (if cap < 3 \<or> kind > 1 then Inl BufferTooSmall
      else
        bindE (put_varint (profile_version (token \<noteq> None) (request \<noteq> None) (max_datagram_frame_size limits \<noteq> 0)) (cap - 1)) (\<lambda>v.
        bindE (seqE (put_all [lim_max_data limits, lim_max_stream_data limits, in_flight])
                (seqE (put_token token) (seqE (put_request request) (put_datagram_size (max_datagram_frame_size limits)))) 64) (\<lambda>parameters.
        bindE (put_varint (length parameters) (cap - 1 - length v)) (\<lambda>l.
        if cap < 1 + length v + length l + length parameters then Inl BufferTooSmall
        else Inr (word_of_nat kind # v @ l @ parameters)))))"

text \<open>The extension loop: identifier, length and value, until nothing is left.\<close>

function extension_loop :: "u8 list \<Rightarrow> u64 \<Rightarrow> bool \<Rightarrow> u64 result" where
  "extension_loop tail dsize seen =
     (if tail = [] then Inr dsize
      else
        bindE (get_varint tail) (\<lambda>(i, n).
        bindE (get_varint (drop n tail)) (\<lambda>(len, n').
        let rest = drop n' (drop n tail)
        in if length rest < len then Inl Truncated
           else
             let value = take len rest
             in if i = 0x20 then
                  if seen then Inl BootstrapInvalid
                  else bindE (get_varint value) (\<lambda>(dsize', used).
                    if used \<noteq> len then Inl BootstrapInvalid
                    else extension_loop (drop len rest) dsize' True)
                else extension_loop (drop len rest) dsize seen)))"
  by pat_completeness auto

termination
  by (relation "measure (\<lambda>(tail, _, _). length tail)") (auto dest!: get_varint_bound)

definition skip_request :: "nat \<Rightarrow> u8 list \<Rightarrow> usize \<Rightarrow> usize result" where
  "skip_request expected_kind parameters at =
     (if expected_kind \<noteq> 0 then Inl BootstrapInvalid
      else if length parameters < at then Inl Truncated
      else bindE (get_varint (drop at parameters)) (\<lambda>(_, n).
           bindE (get_varint (drop (at + n) parameters)) (\<lambda>(_, n'). Inr (at + n + n'))))"

definition decode_extensions :: "nat \<Rightarrow> u64 \<Rightarrow> u8 list \<Rightarrow> usize \<Rightarrow> (u64 \<times> u8 list) result" where
  "decode_extensions expected_kind version parameters values_len =
     (if version AND 4 \<noteq> 0 then
        let at = (if version AND 1 \<noteq> 0 then values_len + STATELESS_RESET_TOKEN_LEN else values_len)
        in bindE (if version AND 2 \<noteq> 0 then skip_request expected_kind parameters at else Inr at) (\<lambda>at.
           if length parameters < at then Inl Truncated
           else bindE (extension_loop (drop at parameters) 0 False) (\<lambda>dsize. Inr (dsize, take at parameters)))
      else Inr (0, parameters))"

definition decode_request :: "u8 list \<Rightarrow> ReceiveWindowRequest result" where
  "decode_request request =
     bindE (get_varint request) (\<lambda>(data, data_len).
     bindE (get_varint (drop data_len request)) (\<lambda>(stream_data, stream_len).
     if data_len + stream_len \<noteq> length request \<or> data = 0 \<or> stream_data = 0 then Inl BootstrapInvalid
     else Inr \<lparr>rw_max_data = data, rw_max_stream_data = stream_data\<rparr>))"

definition decode_token_and_request ::
  "nat \<Rightarrow> u64 \<Rightarrow> u8 list \<Rightarrow> usize \<Rightarrow> (StatelessResetToken option \<times> ReceiveWindowRequest option) result" where
  "decode_token_and_request expected_kind version parameters values_len =
     (let tail = drop values_len parameters
      in if version AND 3 = 0 \<and> values_len = length parameters then Inr (None, None)
         else if version AND 3 = 1 \<and> values_len + STATELESS_RESET_TOKEN_LEN = length parameters
         then Inr (Some (StatelessResetToken tail), None)
         else if (version AND 3 = 2 \<or> version AND 3 = 3) \<and> expected_kind = 0 then
           bindE (if version AND 3 = 3 then
                    if length parameters < values_len + STATELESS_RESET_TOKEN_LEN then Inl BootstrapInvalid
                    else Inr (Some (StatelessResetToken (take STATELESS_RESET_TOKEN_LEN tail)), drop STATELESS_RESET_TOKEN_LEN tail)
                  else Inr (None, tail)) (\<lambda>(token, request).
           bindE (decode_request request) (\<lambda>r. Inr (token, Some r)))
         else Inl BootstrapInvalid)"

definition decode_bootstrap_profile :: "u8 list \<Rightarrow> nat
    \<Rightarrow> (ConnectionLimits \<times> u16 \<times> StatelessResetToken option \<times> ReceiveWindowRequest option) result" where
  "decode_bootstrap_profile input expected_kind = (case input of
     [] \<Rightarrow> Inl BootstrapInvalid
   | kind # body \<Rightarrow>
       if kind \<noteq> word_of_nat expected_kind then Inl BootstrapInvalid
       else
         bindE (get_varint body) (\<lambda>(version, version_len).
         if version > 7 then Inl BootstrapInvalid
         else
           bindE (get_varint (drop version_len body)) (\<lambda>(len, length_len).
           let parameters = drop (version_len + length_len) body
           in if length parameters \<noteq> len then Inl BootstrapInvalid
              else
                bindE (get_varint parameters) (\<lambda>(data, data_len).
                bindE (get_varint (drop data_len parameters)) (\<lambda>(stream_data, stream_len).
                bindE (get_varint (drop (data_len + stream_len) parameters)) (\<lambda>(packets, packets_len).
                let values_len = data_len + stream_len + packets_len
                in bindE (decode_extensions expected_kind version parameters values_len) (\<lambda>(datagram, parameters).
                   bindE (decode_token_and_request expected_kind version parameters values_len) (\<lambda>(token, request).
                   if values_len > length parameters \<or> data = 0 \<or> stream_data = 0 \<or> packets > u16_max
                   then Inl BootstrapInvalid
                   else Inr (default_limits\<lparr>lim_max_data := data, lim_max_stream_data := stream_data,
                              max_datagram_frame_size := datagram\<rparr>, packets, token, request)))))))))"

section \<open>OPEN and OPEN_ACK\<close>

definition encode_bootstrap_open ::
  "ConnectionId \<Rightarrow> u32 \<Rightarrow> ConnectionLimits \<Rightarrow> u16 \<Rightarrow> StatelessResetToken option \<Rightarrow> ReceiveWindowRequest option \<Rightarrow> nat \<Rightarrow> u8 list result"
where
  "encode_bootstrap_open client_cid packet_number limits in_flight token request cap =
     (if cid_value client_cid = 0 then Inl BootstrapInvalid
      else
        bindE (encode_bootstrap_profile 0 limits in_flight token request 96) (\<lambda>body.
        bindE (frame_encode (StreamF \<lparr>sf_id = CONTROL_STREAM_ID, sf_offset = 0, sf_fin = True, sf_data = body\<rparr>) 96) (\<lambda>frame.
        encode_long_packet LONG_PACKET_INITIAL None (Some client_cid) packet_number 1 frame cap)))"

text \<open>The stream-0 frame that fills the payload of both packets.\<close>

definition decode_bootstrap_stream :: "u8 list \<Rightarrow> usize \<Rightarrow> u8 list result" where
  "decode_bootstrap_stream input hlen =
     bindE (decode_frame (drop hlen input)) (\<lambda>(frame, used).
     if hlen + used \<noteq> length input then Inl BootstrapInvalid
     else (case frame of
       StreamF s \<Rightarrow>
         if sf_id s \<noteq> CONTROL_STREAM_ID \<or> sf_offset s \<noteq> 0 \<or> \<not> sf_fin s then Inl BootstrapInvalid
         else Inr (sf_data s)
     | _ \<Rightarrow> Inl BootstrapInvalid))"

definition decode_bootstrap_open :: "u8 list \<Rightarrow> (ShortHeader \<times> BootstrapOpen) result" where
  "decode_bootstrap_open input =
     bindE (decode_long_packet input) (\<lambda>(long, hlen, _).
     if lh_packet_type long \<noteq> LONG_PACKET_INITIAL \<or> lh_dcid long \<noteq> None then Inl BootstrapInvalid
     else
       bindE (ok_or BootstrapInvalid (lh_scid long)) (\<lambda>source_cid.
       bindE (decode_bootstrap_stream input hlen) (\<lambda>body.
       bindE (decode_bootstrap_profile body 0) (\<lambda>(limits, in_flight, token, request).
       bindE (ok_or BootstrapInvalid (ConnectionId_new 0)) (\<lambda>zero.
       Inr (\<lparr>sh_flags = FLAG_FIXED, sh_dcid = zero, sh_packet_number = lh_packet_number long,
             sh_packet_number_len = lh_packet_number_len long\<rparr>,
            \<lparr>client_receive_cid = source_cid, open_max_data = lim_max_data limits,
             open_max_stream_data = lim_max_stream_data limits,
             open_max_datagram_frame_size = max_datagram_frame_size limits,
             open_max_in_flight_packets = in_flight, open_stateless_reset_token = token,
             requested_peer_limits = request\<rparr>))))))"

definition encode_bootstrap_open_ack ::
  "ConnectionId \<Rightarrow> ConnectionId \<Rightarrow> u32 \<Rightarrow> ConnectionLimits \<Rightarrow> u16 \<Rightarrow> StatelessResetToken option \<Rightarrow> nat \<Rightarrow> u8 list result"
where
  "encode_bootstrap_open_ack client_cid server_cid packet_number limits in_flight token cap =
     (if cid_value client_cid = 0 \<or> cid_value server_cid = 0 \<or> client_cid = server_cid then Inl BootstrapInvalid
      else
        bindE (encode_bootstrap_profile 1 limits in_flight token None 96) (\<lambda>body.
        bindE (frame_encode (StreamF \<lparr>sf_id = CONTROL_STREAM_ID, sf_offset = 0, sf_fin = True, sf_data = body\<rparr>) 96) (\<lambda>frame.
        encode_long_packet LONG_PACKET_INITIAL (Some client_cid) (Some server_cid) packet_number 1 frame cap)))"

definition decode_bootstrap_open_ack :: "u8 list \<Rightarrow> ConnectionId \<Rightarrow> (ShortHeader \<times> BootstrapOpenAck) result" where
  "decode_bootstrap_open_ack input expected_client_cid =
     bindE (decode_long_packet input) (\<lambda>(long, hlen, _).
     if lh_packet_type long \<noteq> LONG_PACKET_INITIAL \<or> lh_dcid long \<noteq> Some expected_client_cid then Inl WrongConnectionId
     else
       bindE (decode_bootstrap_stream input hlen) (\<lambda>body.
       bindE (ok_or BootstrapInvalid (lh_scid long)) (\<lambda>server_cid.
       if server_cid = expected_client_cid then Inl BootstrapInvalid
       else
         bindE (decode_bootstrap_profile body 1) (\<lambda>(limits, in_flight, token, request).
         if request \<noteq> None then Inl BootstrapInvalid
         else
           Inr (\<lparr>sh_flags = FLAG_FIXED, sh_dcid = expected_client_cid, sh_packet_number = lh_packet_number long,
                 sh_packet_number_len = lh_packet_number_len long\<rparr>,
                \<lparr>server_receive_cid = server_cid, ack_max_data = lim_max_data limits,
                 ack_max_stream_data = lim_max_stream_data limits,
                 ack_max_datagram_frame_size = max_datagram_frame_size limits,
                 ack_max_in_flight_packets = in_flight, ack_stateless_reset_token = token\<rparr>)))))"

section \<open>The relay's rewriting of OPEN\<close>

definition rewrite_relay_open :: "bool \<Rightarrow> u8 list \<Rightarrow> ConnectionId option \<Rightarrow> ConnectionId \<Rightarrow> nat \<Rightarrow> u8 list result" where
  "rewrite_relay_open pp input outbound_dcid relay_receive_cid cap =
     (if cid_value relay_receive_cid = 0 then Inl BootstrapInvalid
      else
        bindE (rewrite_bootstrap_destination pp input DEFAULT_MAX_PACKET_SIZE) (\<lambda>direct.
        bindE (decode_bootstrap_open direct) (\<lambda>_.
        bindE (decode_long_packet direct) (\<lambda>(header, payload_at, payload_len).
        encode_long_packet LONG_PACKET_INITIAL outbound_dcid (Some relay_receive_cid) (lh_packet_number header)
          (lh_packet_number_len header) (take payload_len (drop payload_at direct)) cap))))"

section \<open>The profile round trip\<close>

declare extension_loop.simps [simp del]

lemma profile_version_le: "profile_version t r d \<le> 7"
  by (cases t; cases r; cases d; simp add: profile_version_def)

lemma put_datagram_size_extension:
  assumes "put_datagram_size dsize cap = Inr d" "dsize \<noteq> 0"
  shows "extension_loop d 0 False = Inr dsize"
proof -
  from assms obtain a val l where p: "put_varint 0x20 cap = Inr a" "put_varint dsize 8 = Inr val"
    "put_varint (length val) (cap - length a) = Inr l" "d = a @ l @ val"
    by (auto simp: put_datagram_size_def)
  have g: "get_varint (a @ l @ val) = Inr (0x20, length a)" "get_varint (l @ val) = Inr (length val, length l)"
    "get_varint val = Inr (dsize, length val)"
    using get_put_varint [OF p(1)] get_put_varint [OF p(3)] get_put_varint [OF p(2), of "[]"] by simp_all
  have "d \<noteq> []" using varint.enc_nonempty [OF _ p(1)] p(4) by simp
  then have "extension_loop d 0 False = extension_loop [] dsize True"
    by (subst extension_loop.simps) (auto simp: p(4) g)
  then show ?thesis by (simp add: extension_loop.simps)
qed

lemma put_request_parts:
  assumes "put_request (Some r) cap = Inr bs"
  obtains a b cap' where "put_varint (rw_max_data r) cap = Inr a" "put_varint (rw_max_stream_data r) cap' = Inr b"
    "bs = a @ b" "rw_max_data r \<noteq> 0" "rw_max_stream_data r \<noteq> 0"
  using assms by (auto simp: put_request_def split: if_splits)

lemma decode_put_request: "put_request (Some r) cap = Inr bs \<Longrightarrow> decode_request bs = Inr r"
proof -
  assume "put_request (Some r) cap = Inr bs"
  then obtain a b cap' where p: "put_varint (rw_max_data r) cap = Inr a" "put_varint (rw_max_stream_data r) cap' = Inr b"
    "bs = a @ b" "rw_max_data r \<noteq> 0" "rw_max_stream_data r \<noteq> 0" by (rule put_request_parts)
  have "get_varint (a @ b) = Inr (rw_max_data r, length a)" "get_varint b = Inr (rw_max_stream_data r, length b)"
    using get_put_varint [OF p(1)] get_put_varint [OF p(2), of "[]"] by simp_all
  with p show ?thesis by (cases r) (simp add: decode_request_def)
qed

lemma skip_put_request:
  "put_request (Some r) cap = Inr bs \<Longrightarrow> skip_request 0 (pre @ bs @ rest) (length pre) = Inr (length pre + length bs)"
proof -
  assume "put_request (Some r) cap = Inr bs"
  then obtain a b cap' where p: "put_varint (rw_max_data r) cap = Inr a" "put_varint (rw_max_stream_data r) cap' = Inr b"
    "bs = a @ b" "rw_max_data r \<noteq> 0" "rw_max_stream_data r \<noteq> 0" by (rule put_request_parts)
  have "get_varint (a @ b @ rest) = Inr (rw_max_data r, length a)" "get_varint (b @ rest) = Inr (rw_max_stream_data r, length b)"
    using get_put_varint [OF p(1)] get_put_varint [OF p(2)] by simp_all
  with p show ?thesis by (simp add: skip_request_def)
qed

definition token_ok :: "StatelessResetToken option \<Rightarrow> bool" where
  "token_ok token = (case token of None \<Rightarrow> True | Some t \<Rightarrow> length (token_bytes t) = STATELESS_RESET_TOKEN_LEN)"

lemma decode_extensions_put:
  assumes "put_request request c1 = Inr r" "put_datagram_size dsize c2 = Inr d" "token_ok token"
    "put_token token c3 = Inr t" "request \<noteq> None \<longrightarrow> kind = 0"
  shows "decode_extensions kind (profile_version (token \<noteq> None) (request \<noteq> None) (dsize \<noteq> 0)) (vs @ t @ r @ d) (length vs)
    = Inr (dsize, vs @ t @ r)"
proof (cases "dsize = 0")
  case True
  then have "d = []" using assms(2) by (simp add: put_datagram_size_def)
  with True show ?thesis
    by (cases "token = None"; cases "request = None") (simp_all add: decode_extensions_def profile_version_def)
next
  case False
  have x: "extension_loop d 0 False = Inr dsize" using put_datagram_size_extension assms(2) False by blast
  have lt: "length t = (if token \<noteq> None then STATELESS_RESET_TOKEN_LEN else 0)"
    using assms(3,4) by (auto simp: put_token_def token_ok_def split: option.splits)
  have at: "(if token \<noteq> None then length vs + STATELESS_RESET_TOKEN_LEN else length vs) = length (vs @ t)"
    by (simp add: lt)
  have skip: "(if request \<noteq> None then skip_request kind ((vs @ t) @ r @ d) (length (vs @ t)) else Inr (length (vs @ t)))
      = Inr (length (vs @ t @ r))"
  proof (cases request)
    case None
    then show ?thesis using assms(1) by (simp add: put_request_def)
  next
    case (Some q)
    then show ?thesis using skip_put_request [of q c1 r "vs @ t" d] assms(1,5) by simp
  qed
  then show ?thesis
    using False at x
    by (cases "token = None"; cases "request = None") (simp_all add: decode_extensions_def profile_version_def)
qed

lemma decode_token_and_request_put:
  assumes "put_request request c1 = Inr r" "token_ok token" "put_token token c3 = Inr t" "request \<noteq> None \<longrightarrow> kind = 0"
  shows "decode_token_and_request kind (profile_version (token \<noteq> None) (request \<noteq> None) d) (vs @ t @ r) (length vs)
    = Inr (token, request)"
proof (cases request)
  case None
  with assms show ?thesis
    by (cases token) (auto simp: decode_token_and_request_def profile_version_def put_request_def put_token_def token_ok_def)
next
  case (Some q)
  with assms decode_put_request [of q c1 r] show ?thesis
    by (cases token) (auto simp: decode_token_and_request_def profile_version_def put_token_def token_ok_def)
qed

lemma put_all_threeE:
  assumes "put_all [x, y, z] cap = Inr bs"
  obtains a b c c1 c2 c3 where "put_varint x c1 = Inr a" "put_varint y c2 = Inr b" "put_varint z c3 = Inr c" "bs = a @ b @ c"
  using assms by auto

lemma bootstrap_profile_roundtrip:
  assumes "encode_bootstrap_profile kind limits in_flight token request cap = Inr bs" "token_ok token"
    "request \<noteq> None \<longrightarrow> kind = 0" "lim_max_data limits \<noteq> 0" "lim_max_stream_data limits \<noteq> 0" "in_flight \<le> u16_max"
  shows "decode_bootstrap_profile bs kind =
    Inr (default_limits\<lparr>lim_max_data := lim_max_data limits, lim_max_stream_data := lim_max_stream_data limits,
      max_datagram_frame_size := max_datagram_frame_size limits\<rparr>, in_flight, token, request)"
proof -
  define pv where "pv = profile_version (token \<noteq> None) (request \<noteq> None) (max_datagram_frame_size limits \<noteq> 0)"
  from assms(1) obtain v ps l where v: "put_varint pv (cap - 1) = Inr v"
    and ps: "seqE (put_all [lim_max_data limits, lim_max_stream_data limits, in_flight])
      (seqE (put_token token) (seqE (put_request request) (put_datagram_size (max_datagram_frame_size limits)))) 64 = Inr ps"
    and l: "put_varint (length ps) (cap - 1 - length v) = Inr l"
    and bs: "bs = word_of_nat kind # v @ l @ ps"
    unfolding encode_bootstrap_profile_def pv_def [symmetric] by (auto split: if_splits simp del: put_all.simps del: seqE_InrE)
  from ps obtain a b c t r d c1 c2 c3 c4 c5 c6 where
    p: "put_varint (lim_max_data limits) c1 = Inr a" "put_varint (lim_max_stream_data limits) c2 = Inr b"
    "put_varint in_flight c3 = Inr c" "put_token token c4 = Inr t" "put_request request c5 = Inr r"
    "put_datagram_size (max_datagram_frame_size limits) c6 = Inr d"
    and eq: "ps = a @ b @ c @ t @ r @ d"
    by (elim seqE_InrE put_all_threeE) simp
  have g: "get_varint (v @ l @ a @ b @ c @ t @ r @ d) = Inr (pv, length v)"
    "get_varint (l @ a @ b @ c @ t @ r @ d) = Inr (length (a @ b @ c @ t @ r @ d), length l)"
    "get_varint (a @ b @ c @ t @ r @ d) = Inr (lim_max_data limits, length a)"
    "get_varint (b @ c @ t @ r @ d) = Inr (lim_max_stream_data limits, length b)"
    "get_varint (c @ t @ r @ d) = Inr (in_flight, length c)"
    using get_put_varint [OF v] get_put_varint [OF l] get_put_varint [OF p(1)] get_put_varint [OF p(2)]
      get_put_varint [OF p(3)] by (simp_all add: eq)
  have e: "decode_extensions kind pv (a @ b @ c @ t @ r @ d) (length a + length b + length c)
      = Inr (max_datagram_frame_size limits, a @ b @ c @ t @ r)"
    using decode_extensions_put [OF p(5,6) assms(2) p(4) assms(3), of "a @ b @ c"] unfolding pv_def by (simp add: add.assoc)
  have q: "decode_token_and_request kind pv (a @ b @ c @ t @ r) (length a + length b + length c) = Inr (token, request)"
    using decode_token_and_request_put [OF p(5) assms(2) p(4) assms(3), of _ "a @ b @ c"] unfolding pv_def by (simp add: add.assoc)
  show ?thesis
    using assms(4-6) profile_version_le [of "token \<noteq> None" "request \<noteq> None" "max_datagram_frame_size limits \<noteq> 0"]
    unfolding pv_def [symmetric] by (simp add: decode_bootstrap_profile_def bs eq g e q Let_def)
qed

section \<open>Opening an association\<close>

lemma decode_bootstrap_stream_payload:
  assumes "frame_encode (StreamF \<lparr>sf_id = CONTROL_STREAM_ID, sf_offset = 0, sf_fin = True, sf_data = body\<rparr>) cap = Inr frame"
    "drop hlen input = frame" "hlen + length frame = length input"
  shows "decode_bootstrap_stream input hlen = Inr body"
proof -
  let ?s = "StreamF \<lparr>sf_id = CONTROL_STREAM_ID, sf_offset = 0, sf_fin = True, sf_data = body\<rparr>"
  have "decode_frame frame = Inr (?s, length frame)"
    using assms(1) by (intro frame.dec_enc_exact) (simp_all add: frame_ok_def)
  with assms(2,3) show ?thesis by (simp add: decode_bootstrap_stream_def)
qed

text \<open>
  Claim C34. What the client opens with is what the server admits: an encoded OPEN decodes to the
  client's receive identifier, its limits, its packet budget, its reset token and the profile it
  requests of the peer, each present exactly when it was given; the packet number keeps its low byte.
\<close>

theorem open_roundtrip:
  assumes "encode_bootstrap_open cid pn limits in_flight token request cap = Inr packet"
    and "cid_value cid \<le> CID_MAX_VALUE" "token_ok token" "in_flight \<le> u16_max"
    and "lim_max_data limits \<noteq> 0" "lim_max_stream_data limits \<noteq> 0"
  shows "decode_bootstrap_open packet = Inr (
    \<lparr>sh_flags = FLAG_FIXED, sh_dcid = ConnectionId 0, sh_packet_number = pn mod 256, sh_packet_number_len = 1\<rparr>,
    \<lparr>client_receive_cid = cid, open_max_data = lim_max_data limits, open_max_stream_data = lim_max_stream_data limits,
     open_max_datagram_frame_size = max_datagram_frame_size limits, open_max_in_flight_packets = in_flight,
     open_stateless_reset_token = token, requested_peer_limits = request\<rparr>)"
proof -
  from assms(1) obtain body frame where
    b: "encode_bootstrap_profile 0 limits in_flight token request 96 = Inr body"
    and f: "frame_encode (StreamF \<lparr>sf_id = CONTROL_STREAM_ID, sf_offset = 0, sf_fin = True, sf_data = body\<rparr>) 96 = Inr frame"
    and p: "encode_long_packet LONG_PACKET_INITIAL None (Some cid) pn 1 frame cap = Inr packet"
    by (auto simp: encode_bootstrap_open_def split: if_splits)
  have long: "decode_long_packet packet = Inr (\<lparr>lh_packet_type = LONG_PACKET_INITIAL, lh_version = DMESH_LONG_HEADER_VERSION,
      lh_dcid = None, lh_scid = Some cid, lh_packet_number = pn mod 256, lh_packet_number_len = 1\<rparr>,
      length packet - length frame, length frame)" "drop (length packet - length frame) packet = frame"
    using long_packet_roundtrip [OF p] assms(2) by (simp_all add: opt_cid_ok_def)
  have "length packet - length frame + length frame = length packet"
    using long(2) by (metis length_drop diff_add diff_le_self diff_diff_cancel le_add_diff_inverse2)
  with f long(2) have "decode_bootstrap_stream packet (length packet - length frame) = Inr body"
    by (intro decode_bootstrap_stream_payload)
  then show ?thesis
    using long(1) bootstrap_profile_roundtrip [OF b assms(3)] assms(4-6)
    by (simp add: decode_bootstrap_open_def ConnectionId_new_def CID_MAX_VALUE_def)
qed

lemma open_roundtrip_witness:
  "\<exists>packet. encode_bootstrap_open (ConnectionId 77) 0 default_limits 32 (Some (StatelessResetToken (replicate 16 9)))
      (Some \<lparr>rw_max_data = 8000, rw_max_stream_data = 2000\<rparr>) 200 = Inr packet
    \<and> map_sum id (\<lambda>r. (client_receive_cid (snd r), requested_peer_limits (snd r))) (decode_bootstrap_open packet)
      = Inr (ConnectionId 77, Some \<lparr>rw_max_data = 8000, rw_max_stream_data = 2000\<rparr>)"
proof -
  let ?e = "encode_bootstrap_open (ConnectionId 77) 0 default_limits 32 (Some (StatelessResetToken (replicate 16 9)))
      (Some \<lparr>rw_max_data = 8000, rw_max_stream_data = 2000\<rparr>) 200"
  have "isOk ?e" by code_simp
  then obtain packet where p: "?e = Inr packet" by (auto simp: isOk_def split: sum.splits)
  have "cid_value (ConnectionId 77) \<le> CID_MAX_VALUE" "token_ok (Some (StatelessResetToken (replicate 16 9)))"
    "lim_max_data default_limits \<noteq> 0" "lim_max_stream_data default_limits \<noteq> 0"
    by code_simp+
  with open_roundtrip [OF p] p show ?thesis by simp
qed

text \<open>
  What the server grants is what the client learns: an encoded OPEN_ACK decodes, at the
  client it is for, to the server's receive identifier, limits, packet budget and reset token; any
  other client rejects it.
\<close>

theorem open_ack_roundtrip:
  assumes "encode_bootstrap_open_ack client server pn limits in_flight token cap = Inr packet"
    and "cid_value client \<le> CID_MAX_VALUE" "cid_value server \<le> CID_MAX_VALUE" "token_ok token" "in_flight \<le> u16_max"
    and "lim_max_data limits \<noteq> 0" "lim_max_stream_data limits \<noteq> 0"
  shows "decode_bootstrap_open_ack packet expected = (if expected \<noteq> client then Inl WrongConnectionId else Inr (
    \<lparr>sh_flags = FLAG_FIXED, sh_dcid = client, sh_packet_number = pn mod 256, sh_packet_number_len = 1\<rparr>,
    \<lparr>server_receive_cid = server, ack_max_data = lim_max_data limits, ack_max_stream_data = lim_max_stream_data limits,
     ack_max_datagram_frame_size = max_datagram_frame_size limits, ack_max_in_flight_packets = in_flight,
     ack_stateless_reset_token = token\<rparr>))"
proof -
  from assms(1) obtain body frame where n: "client \<noteq> server"
    and b: "encode_bootstrap_profile 1 limits in_flight token None 96 = Inr body"
    and f: "frame_encode (StreamF \<lparr>sf_id = CONTROL_STREAM_ID, sf_offset = 0, sf_fin = True, sf_data = body\<rparr>) 96 = Inr frame"
    and p: "encode_long_packet LONG_PACKET_INITIAL (Some client) (Some server) pn 1 frame cap = Inr packet"
    by (auto simp: encode_bootstrap_open_ack_def split: if_splits)
  have long: "decode_long_packet packet = Inr (\<lparr>lh_packet_type = LONG_PACKET_INITIAL, lh_version = DMESH_LONG_HEADER_VERSION,
      lh_dcid = Some client, lh_scid = Some server, lh_packet_number = pn mod 256, lh_packet_number_len = 1\<rparr>,
      length packet - length frame, length frame)" "drop (length packet - length frame) packet = frame"
    using long_packet_roundtrip [OF p] assms(2,3) by (simp_all add: opt_cid_ok_def)
  have "length packet - length frame + length frame = length packet"
    using long(2) by (metis length_drop diff_add diff_le_self diff_diff_cancel le_add_diff_inverse2)
  with f long(2) have "decode_bootstrap_stream packet (length packet - length frame) = Inr body"
    by (intro decode_bootstrap_stream_payload)
  then show ?thesis
    using long(1) bootstrap_profile_roundtrip [OF b assms(4)] assms(5-7) n
    by (auto simp: decode_bootstrap_open_ack_def)
qed

lemma open_ack_roundtrip_witness:
  "\<exists>packet. encode_bootstrap_open_ack (ConnectionId 77) (ConnectionId 5) 0 default_limits 8 None 200 = Inr packet
    \<and> decode_bootstrap_open_ack packet (ConnectionId 9) = Inl WrongConnectionId
    \<and> map_sum id (\<lambda>r. server_receive_cid (snd r)) (decode_bootstrap_open_ack packet (ConnectionId 77)) = Inr (ConnectionId 5)"
proof -
  let ?e = "encode_bootstrap_open_ack (ConnectionId 77) (ConnectionId 5) 0 default_limits 8 None 200"
  have "isOk ?e" by code_simp
  then obtain packet where p: "?e = Inr packet" by (auto simp: isOk_def split: sum.splits)
  have "cid_value (ConnectionId 77) \<le> CID_MAX_VALUE" "cid_value (ConnectionId 5) \<le> CID_MAX_VALUE" "token_ok None"
    "lim_max_data default_limits \<noteq> 0" "lim_max_stream_data default_limits \<noteq> 0"
    by code_simp+
  with open_ack_roundtrip [OF p] p show ?thesis by simp
qed

lemma decode_long_packet_bounds:
  assumes "decode_long_packet input = Inr (h, payload_at, payload_len)"
  shows "payload_at + payload_len = length input \<and> 1 \<le> lh_packet_number_len h \<and> lh_packet_number_len h \<le> 4
    \<and> lh_packet_number h < 2 ^ (8 * lh_packet_number_len h) \<and> opt_cid_ok (lh_dcid h) \<and> opt_cid_ok (lh_scid h)"
proof -
  let ?l = "unat ((input ! 0 AND 0x03) + 1)"
  have l: "1 \<le> ?l" "?l \<le> 4"
  proof -
    have "unat (input ! 0 AND 0x03) < 4"
      using unat_and_mask [of "input ! 0" 2] by (simp add: mask_bytes(4))
    then have "unat (input ! 0 AND 0x03) \<in> {0, 1, 2, 3}" by auto
    then show "1 \<le> ?l" "?l \<le> 4" by (auto simp: unat_word_ariths)
  qed
  have cid: "opt_cid_ok c" if "decode_long_cid input i = Inr (c, j)" for i c j
    using that cid_decode_max by (auto simp: decode_long_cid_def Let_def opt_cid_ok_def split: if_splits)
  from assms obtain dcid at scid at' at'' body_len used where
    p: "decode_long_cid input 5 = Inr (dcid, at)" "decode_long_cid input at = Inr (scid, at')"
      "get_varint (drop at'' input) = Inr (body_len, used)"
      "\<not> body_len < ?l" "length input = at'' + used + body_len"
    and h: "payload_at = at'' + used + ?l" "payload_len = body_len - ?l" "lh_dcid h = dcid" "lh_scid h = scid"
      "lh_packet_number_len h = ?l" "lh_packet_number h = be_fold 0 (take ?l (drop (at'' + used) input))"
    unfolding decode_long_packet_def Let_def by (auto split: if_splits)
  have len: "length (take ?l (drop (at'' + used) input)) = ?l" using p(4,5) by simp
  have "8 * ?l \<le> 64" using l(2) by simp
  then have "be_fold 0 (take ?l (drop (at'' + used) input)) < 2 ^ (8 * ?l)"
    using be_fold_bound [of 0 0 "take ?l (drop (at'' + used) input)"] len by simp
  with p h l cid [OF p(1)] cid [OF p(2)] show ?thesis by simp
qed



end
