(* ===== verification/Packet_Pool.thy ===== *)
theory Packet_Pool
  imports Transitions
begin

text \<open>
  Packet ownership in \<^verbatim>\<open>quic-lite/src/packet_pool.rs\<close>: the bounded queue of packet leases, a ring
  buffer, and the pool of packet slots shared by all bearers, whose free bits and reference counts
  are atomic variables.
\<close>

section \<open>The queue of leases\<close>

text \<open>A sequence of attempts, \<open>Some x\<close> to push and \<open>None\<close> to pop: what was taken in and what came out.\<close>

fun fifo_run :: "('e \<Rightarrow> 'q \<Rightarrow> 'q \<times> 'e option) \<Rightarrow> ('q \<Rightarrow> 'q \<times> 'e option) \<Rightarrow> 'e option list \<Rightarrow> 'q \<Rightarrow> 'q \<times> 'e list \<times> 'e list"
where
  "fifo_run push pop [] q = (q, [], [])"
| "fifo_run push pop (Some x # ops) q =
     (case push x q of (q1, r) \<Rightarrow> (case fifo_run push pop ops q1 of (q2, taken, popped) \<Rightarrow>
        (q2, (case r of None \<Rightarrow> x # taken | Some _ \<Rightarrow> taken), popped)))"
| "fifo_run push pop (None # ops) q =
     (case pop q of (q1, r) \<Rightarrow> (case fifo_run push pop ops q1 of (q2, taken, popped) \<Rightarrow>
        (q2, taken, (case r of None \<Rightarrow> popped | Some x \<Rightarrow> x # popped))))"

text \<open>
  The queue contract: a bounded FIFO that hands back what it does not take.
\<close>

locale bounded_fifo =
  fixes push :: "'e \<Rightarrow> 'q \<Rightarrow> 'q \<times> 'e option"
    and pop :: "'q \<Rightarrow> 'q \<times> 'e option"
    and contents :: "'q \<Rightarrow> 'e list"
    and room :: "'q \<Rightarrow> nat"
    and ok :: "'q \<Rightarrow> bool"
  assumes push_ok: "ok q \<Longrightarrow> ok (fst (push x q)) \<and> room (fst (push x q)) = room q"
    and pop_ok: "ok q \<Longrightarrow> ok (fst (pop q)) \<and> room (fst (pop q)) = room q"
    and push_spec: "ok q \<Longrightarrow> push x q = (q', r) \<Longrightarrow>
        (if length (contents q) < room q then contents q' = contents q @ [x] \<and> r = None else q' = q \<and> r = Some x)"
    and pop_spec: "ok q \<Longrightarrow> pop q = (q', r) \<Longrightarrow>
        (case contents q of [] \<Rightarrow> q' = q \<and> r = None | x # xs \<Rightarrow> contents q' = xs \<and> r = Some x)"
begin

text \<open>Nothing is lost, duplicated or reordered: what came out and what is left is what went in.\<close>

lemma run_fifo: "ok q \<Longrightarrow> fifo_run push pop ops q = (q', taken, popped) \<Longrightarrow>
    contents q @ taken = popped @ contents q' \<and> ok q' \<and> room q' = room q"
proof (induction ops arbitrary: q taken popped)
  case (Cons oper ops)
  show ?case
  proof (cases oper)
    case (Some x)
    obtain q1 r where p: "push x q = (q1, r)" by (cases "push x q")
    obtain taken1 where r: "fifo_run push pop ops q1 = (q', taken1, popped)"
      "taken = (case r of None \<Rightarrow> x # taken1 | Some _ \<Rightarrow> taken1)"
      using Cons.prems(2) p Some by (auto split: prod.splits)
    have k: "ok q1" "room q1 = room q" using push_ok [OF Cons.prems(1), of x] p by simp_all
    from push_spec [OF Cons.prems(1) p] show ?thesis
      using Cons.IH [OF k(1) r(1)] k r(2) by (cases "length (contents q) < room q") auto
  next
    case None
    obtain q1 r where p: "pop q = (q1, r)" by (cases "pop q")
    obtain popped1 where r: "fifo_run push pop ops q1 = (q', taken, popped1)"
      "popped = (case r of None \<Rightarrow> popped1 | Some x \<Rightarrow> x # popped1)"
      using Cons.prems(2) p None by (auto split: prod.splits)
    have k: "ok q1" "room q1 = room q" using pop_ok [OF Cons.prems(1)] p by simp_all
    from pop_spec [OF Cons.prems(1) p] show ?thesis
      using Cons.IH [OF k(1) r(1)] k r(2) by (cases "contents q") auto
  qed
qed simp

end

record 'e PacketLeaseQueue =
  entries :: "'e option list"
  q_head :: usize
  q_len :: usize

text \<open>The capacity \<open>n\<close> is nonzero; the source asserts it when the queue is built.\<close>

definition plq_new :: "usize \<Rightarrow> 'e PacketLeaseQueue" where
  "plq_new n = \<lparr>entries = replicate n None, q_head = 0, q_len = 0\<rparr>"

text \<open>
  \<open>contended\<close> is whether another owner holds the lock; the lease handed back is the error.
\<close>

definition try_push :: "bool \<Rightarrow> 'e \<Rightarrow> 'e PacketLeaseQueue \<Rightarrow> 'e PacketLeaseQueue \<times> 'e option" where
  "try_push contended packet q =
     (if contended then (q, Some packet)
      else if q_len q = length (entries q) then (q, Some packet)
      else
        let tail = (q_head q + q_len q) mod length (entries q)
        in (q\<lparr>entries := (entries q)[tail := Some packet], q_len := q_len q + 1\<rparr>, None))"

definition try_pop :: "bool \<Rightarrow> 'e PacketLeaseQueue \<Rightarrow> 'e PacketLeaseQueue \<times> 'e option" where
  "try_pop contended q =
     (if contended then (q, None)
      else if q_len q = 0 then (q, None)
      else
        let head = q_head q
        in (q\<lparr>q_head := (head + 1) mod length (entries q), q_len := q_len q - 1, entries := (entries q)[head := None]\<rparr>,
            entries q ! head))"

definition try_is_empty :: "bool \<Rightarrow> 'e PacketLeaseQueue \<Rightarrow> bool option" where
  "try_is_empty contended q = (if contended then None else Some (q_len q = 0))"

section \<open>The ring buffer is a queue\<close>

definition slot_at :: "'e PacketLeaseQueue \<Rightarrow> nat \<Rightarrow> nat" where
  "slot_at q i = (q_head q + i) mod length (entries q)"

definition plq_contents :: "'e PacketLeaseQueue \<Rightarrow> 'e list" where
  "plq_contents q = map (\<lambda>i. the (entries q ! slot_at q i)) [0..<q_len q]"

definition plq_ok :: "'e PacketLeaseQueue \<Rightarrow> bool" where
  "plq_ok q \<longleftrightarrow> q_head q < length (entries q) \<and> q_len q \<le> length (entries q)
     \<and> (\<forall>i < length (entries q). entries q ! slot_at q i \<noteq> None \<longleftrightarrow> i < q_len q)"

lemma slot_at_eq:
  "q_head q < length (entries q) \<Longrightarrow> i < length (entries q) \<Longrightarrow>
     slot_at q i = (if q_head q + i < length (entries q) then q_head q + i else q_head q + i - length (entries q))"
  by (simp add: slot_at_def mod_if)

lemma slot_at_inj:
  "q_head q < length (entries q) \<Longrightarrow> i < length (entries q) \<Longrightarrow> j < length (entries q) \<Longrightarrow>
     slot_at q i = slot_at q j \<longleftrightarrow> i = j"
  by (auto simp: slot_at_eq split: if_splits)

lemma slot_at_less: "q_head q < length (entries q) \<Longrightarrow> slot_at q i < length (entries q)"
  by (auto simp: slot_at_def intro!: mod_less_divisor)

lemma try_push_spec:
  assumes "plq_ok q" "q_len q < length (entries q)" "try_push False x q = (q', r)"
  shows "plq_ok q' \<and> plq_contents q' = plq_contents q @ [x] \<and> r = None \<and> length (entries q') = length (entries q)"
proof -
  let ?n = "length (entries q)" and ?t = "slot_at q (q_len q)"
  have h: "q_head q < ?n" using assms(1) by (simp add: plq_ok_def)
  have q': "q' = q\<lparr>entries := (entries q)[?t := Some x], q_len := q_len q + 1\<rparr>" "r = None"
    using assms(2,3) by (auto simp: try_push_def slot_at_def)
  have s: "slot_at q' i = slot_at q i" for i by (simp add: q' slot_at_def)
  have at: "entries q' ! slot_at q i = (if i = q_len q then Some x else entries q ! slot_at q i)" if "i < ?n" for i
    using that assms(2) h by (simp add: q' nth_list_update slot_at_less slot_at_inj)
  have len: "length (entries q') = ?n" "q_len q' = Suc (q_len q)" "q_head q' = q_head q" by (simp_all add: q')
  have "plq_ok q'"
    using assms(1,2) at unfolding plq_ok_def s len by (auto simp: less_Suc_eq split: if_splits)
  moreover have "plq_contents q' = plq_contents q @ [x]"
    using at assms(1,2) by (simp add: plq_contents_def s) (simp add: q' plq_ok_def)
  ultimately show ?thesis by (simp add: q')
qed

lemma try_pop_spec:
  assumes "plq_ok q" "q_len q \<noteq> 0" "try_pop False q = (q', r)"
  shows "plq_ok q' \<and> (\<exists>x. r = Some x \<and> plq_contents q = x # plq_contents q') \<and> length (entries q') = length (entries q)"
proof -
  let ?n = "length (entries q)"
  have h: "q_head q < ?n" "q_len q \<le> ?n" using assms(1) by (simp_all add: plq_ok_def)
  have q': "q' = q\<lparr>q_head := (q_head q + 1) mod ?n, q_len := q_len q - 1, entries := (entries q)[q_head q := None]\<rparr>"
    "r = entries q ! q_head q"
    using assms(2,3) by (auto simp: try_pop_def Let_def)
  have len: "length (entries q') = ?n" "q_len q' = q_len q - 1" "q_head q' < ?n"
    using h by (auto simp: q' intro!: mod_less_divisor)
  have s0: "slot_at q 0 = q_head q" using h by (simp add: slot_at_def)
  have s: "slot_at q' i = slot_at q (Suc i)" for i by (simp add: q' slot_at_def mod_simps)
  have n: "Suc (?n - 1) = ?n" using h by simp
  have "slot_at q' (?n - 1) = slot_at q ?n" unfolding s n ..
  then have wrap: "slot_at q' (?n - 1) = q_head q" using h by (simp add: slot_at_def)
  have at: "entries q' ! slot_at q' i = (if i = ?n - 1 then None else entries q ! slot_at q (Suc i))" if "i < ?n" for i
  proof (cases "i = ?n - 1")
    case True
    then show ?thesis using wrap h by (simp add: q')
  next
    case False
    then have "Suc i < ?n" using that by simp
    then have "slot_at q (Suc i) \<noteq> slot_at q 0" using slot_at_inj [of q "Suc i" 0] h by linarith
    then have "slot_at q (Suc i) \<noteq> q_head q" unfolding s0 .
    with False show ?thesis by (simp add: s) (simp add: q')
  qed
  have "plq_ok q'"
    using assms(1,2) len at h unfolding plq_ok_def by auto
  moreover have "plq_contents q = the (entries q ! q_head q) # plq_contents q'"
  proof -
    have "[0..<q_len q] = 0 # map Suc [0..<q_len q - 1]"
      using assms(2) by (metis Suc_pred' map_Suc_upt neq0_conv upt_conv_Cons)
    moreover have "map (\<lambda>i. the (entries q ! slot_at q (Suc i))) [0..<q_len q - 1]
        = map (\<lambda>i. the (entries q' ! slot_at q' i)) [0..<q_len q - 1]"
      using at h by auto
    ultimately show ?thesis by (simp add: plq_contents_def s0 len comp_def)
  qed
  moreover have "entries q ! q_head q \<noteq> None" using assms(1,2) h s0 unfolding plq_ok_def by (metis neq0_conv gr_implies_not0)
  ultimately show ?thesis by (auto simp: q'(2) len)
qed

lemma length_plq_contents [simp]: "length (plq_contents q) = q_len q"
  by (simp add: plq_contents_def)

interpretation lease_queue: bounded_fifo "try_push False" "try_pop False" plq_contents "\<lambda>q. length (entries q)" plq_ok
proof
  fix q q' :: "'e PacketLeaseQueue" and x r
  assume ok: "plq_ok q"
  then have le: "q_len q \<le> length (entries q)" by (simp add: plq_ok_def)
  obtain p1 p2 where p: "try_push False x q = (p1, p2)" by (cases "try_push False x q")
  obtain o1 o2 where o: "try_pop False q = (o1, o2)" by (cases "try_pop False q")
  have full: "try_push False x q = (q, Some x)" if "\<not> q_len q < length (entries q)"
    using that le by (simp add: try_push_def)
  have empty: "try_pop False q = (q, None)" if "q_len q = 0" using that by (simp add: try_pop_def)
  show "plq_ok (fst (try_push False x q)) \<and> length (entries (fst (try_push False x q))) = length (entries q)"
    using try_push_spec [OF ok _ p] full ok p by (cases "q_len q < length (entries q)") auto
  show "plq_ok (fst (try_pop False q)) \<and> length (entries (fst (try_pop False q))) = length (entries q)"
    using try_pop_spec [OF ok _ o] empty ok o by (cases "q_len q = 0") auto
  show "if length (plq_contents q) < length (entries q) then plq_contents q' = plq_contents q @ [x] \<and> r = None
      else q' = q \<and> r = Some x" if "try_push False x q = (q', r)"
    using that try_push_spec [OF ok _ that] full by auto
  show "case plq_contents q of [] \<Rightarrow> q' = q \<and> r = None | x # xs \<Rightarrow> plq_contents q' = xs \<and> r = Some x"
    if "try_pop False q = (q', r)"
  proof (cases "q_len q = 0")
    case True
    then have "plq_contents q = []" by (simp add: plq_contents_def)
    with True empty that show ?thesis by simp
  next
    case False
    with try_pop_spec [OF ok _ that] show ?thesis by auto
  qed
qed

text \<open>
  The ring of leases is a queue: over any sequence of pushes and pops the packets taken
  in come out in order, none lost, duplicated or kept behind, the ones still inside are exactly the
  occupied entries, and a packet that does not fit, or meets a held lock, goes back to its owner with
  the queue unchanged.
\<close>

theorem lease_queue_fifo:
  assumes "0 < n" "fifo_run (try_push False) (try_pop False) ops (plq_new n) = (q, taken, popped)"
  shows "taken = popped @ plq_contents q \<and> length (plq_contents q) \<le> n
    \<and> (\<forall>i < n. entries q ! slot_at q i \<noteq> None \<longleftrightarrow> i < length (plq_contents q))
    \<and> try_push True x q = (q, Some x) \<and> (length (plq_contents q) = n \<longrightarrow> try_push False x q = (q, Some x))"
proof -
  have "plq_ok (plq_new n :: 'a PacketLeaseQueue)"
    using assms(1) by (auto simp: plq_ok_def plq_new_def slot_at_def)
  from lease_queue.run_fifo [OF this assms(2)]
  have r: "plq_contents (plq_new n) @ taken = popped @ plq_contents q" "plq_ok q" "length (entries q) = n"
    by (simp_all add: plq_new_def)
  moreover have "plq_contents (plq_new n :: 'a PacketLeaseQueue) = []" by (simp add: plq_contents_def plq_new_def)
  ultimately show ?thesis by (auto simp: plq_ok_def try_push_def)
qed

lemma lease_queue_fifo_witness:
  "fst (snd (fifo_run (try_push False) (try_pop False) [Some 1, Some 2, Some 3, None, Some (4 :: nat), None] (plq_new 2)))
     = [1, 2, 4]
   \<and> snd (snd (fifo_run (try_push False) (try_pop False) [Some 1, Some 2, Some 3, None, Some (4 :: nat), None] (plq_new 2))) = [1, 2]"
proof -
  let ?r = "fifo_run (try_push False) (try_pop False) [Some 1, Some 2, Some 3, None, Some (4 :: nat), None] (plq_new 2)"
  have "?r = (fst ?r, fst (snd ?r), snd (snd ?r))" by simp
  from lease_queue_fifo [OF _ this, of 0] have "fst (snd ?r) = snd (snd ?r) @ plq_contents (fst ?r)" by simp
  moreover have "plq_contents (fst ?r) = [4]" "snd (snd ?r) = [1, 2]" by code_simp+
  ultimately show ?thesis by simp
qed

section \<open>The pool of packet slots\<close>

text \<open>
  \<open>SLOTS\<close> is the number of reference counts, at most 32; \<open>MTU\<close> is a parameter. The free bits are
  one atomic word, each reference count one atomic byte.
\<close>

record PacketPool =
  free :: "32 word"
  references :: "nat list"
  packets :: "u8 list list"

record PoolLease =
  pl_slot :: usize
  pl_start :: usize
  pl_len :: usize

record PacketWriter =
  pw_slot :: usize
  pw_start :: usize

definition count_ones :: "32 word \<Rightarrow> nat" where
  "count_ones w = length (filter (bit w) [0..<32])"

definition trailing_zeros :: "32 word \<Rightarrow> nat" where
  "trailing_zeros w = (case find (bit w) [0..<32] of None \<Rightarrow> 32 | Some i \<Rightarrow> i)"

definition slot_mask :: "usize \<Rightarrow> 32 word" where
  "slot_mask slots = (if slots = 32 then 0xffffffff else push_bit slots 1 - 1)"

definition pool_new :: "usize \<Rightarrow> usize \<Rightarrow> PacketPool" where
  "pool_new slots mtu = \<lparr>free = slot_mask slots, references = replicate slots 0, packets = replicate slots (replicate mtu 0)\<rparr>"

definition pool_available :: "PacketPool \<Rightarrow> usize" where
  "pool_available pool = count_ones (free pool)"

text \<open>
  One round of the loop of \<open>acquire_reserving\<close>, from the free bits \<open>current\<close> it observed before: the
  exchange succeeds only if they are still the free bits. The reference count is stored afterwards, as a
  step of its own.
\<close>

datatype attempt = Exhausted | Claimed usize | Retry "32 word"

definition acquire_attempt :: "usize \<Rightarrow> 32 word \<Rightarrow> PacketPool \<Rightarrow> PacketPool \<times> attempt" where
  "acquire_attempt reserved current pool =
     (if count_ones current \<le> reserved then (pool, Exhausted)
      else
        let b = trailing_zeros current; next = current AND NOT (push_bit b 1)
        in if free pool = current then (pool\<lparr>free := next\<rparr>, Claimed b) else (pool, Retry (free pool)))"

definition store_reference :: "usize \<Rightarrow> PacketPool \<Rightarrow> PacketPool" where
  "store_reference slot pool = pool\<lparr>references := (references pool)[slot := 1]\<rparr>"

text \<open>The call as a whole, undisturbed.\<close>

definition acquire_reserving :: "usize \<Rightarrow> PacketPool \<Rightarrow> PacketPool \<times> usize option" where
  "acquire_reserving reserved pool =
     (case acquire_attempt reserved (free pool) pool of
        (pool1, Claimed slot) \<Rightarrow> (store_reference slot pool1, Some slot)
      | (pool1, _) \<Rightarrow> (pool1, None))"

definition pool_acquire :: "PacketPool \<Rightarrow> PacketPool \<times> usize option" where
  "pool_acquire pool = acquire_reserving 0 pool"

definition pool_release :: "usize \<Rightarrow> PacketPool \<Rightarrow> PacketPool \<times> bool" where
  "pool_release slot pool =
     (if slot \<ge> length (references pool) then (pool, False)
      else
        let b = push_bit slot 1; previous = free pool
        in (pool\<lparr>free := previous OR b\<rparr>, previous AND b = 0))"

definition write_at :: "usize \<Rightarrow> usize \<Rightarrow> usize \<Rightarrow> u8 list \<Rightarrow> PacketPool \<Rightarrow> PacketPool \<times> bool" where
  "write_at mtu slot offset data pool =
     (if slot \<ge> length (references pool) \<or> sat_add64 offset (length data) > mtu then (pool, False)
      else
        let p = packets pool ! slot
        in (pool\<lparr>packets := (packets pool)[slot := take offset p @ data @ drop (offset + length data) p]\<rparr>, True))"

definition pool_packet :: "usize \<Rightarrow> usize \<Rightarrow> usize \<Rightarrow> PacketPool \<Rightarrow> u8 list option" where
  "pool_packet mtu slot len pool =
     (if slot \<ge> length (references pool) \<or> len > mtu then None else Some (take len (packets pool ! slot)))"

definition acquire_with_headroom :: "usize \<Rightarrow> usize \<Rightarrow> u8 list \<Rightarrow> PacketPool \<Rightarrow> PacketPool \<times> PoolLease option" where
  "acquire_with_headroom mtu headroom data pool =
     (if sat_add64 headroom (length data) > mtu then (pool, None)
      else (case pool_acquire pool of
          (pool1, None) \<Rightarrow> (pool1, None)
        | (pool1, Some slot) \<Rightarrow>
            (case write_at mtu slot headroom data pool1 of
               (pool2, False) \<Rightarrow> (fst (pool_release slot pool2), None)
             | (pool2, True) \<Rightarrow> (pool2, Some \<lparr>pl_slot = slot, pl_start = headroom, pl_len = length data\<rparr>))))"

definition acquire_writer_reserving :: "usize \<Rightarrow> usize \<Rightarrow> usize \<Rightarrow> PacketPool \<Rightarrow> PacketPool \<times> PacketWriter option" where
  "acquire_writer_reserving mtu headroom reserved pool =
     (if headroom > mtu then (pool, None)
      else (case acquire_reserving reserved pool of
          (pool1, None) \<Rightarrow> (pool1, None)
        | (pool1, Some slot) \<Rightarrow> (pool1, Some \<lparr>pw_slot = slot, pw_start = headroom\<rparr>)))"

text \<open>
  Committing consumes the writer; a refused commit drops it, which releases the slot.
\<close>

definition writer_drop :: "PacketWriter \<Rightarrow> PacketPool \<Rightarrow> PacketPool" where
  "writer_drop w pool = fst (pool_release (pw_slot w) pool)"

definition writer_commit :: "usize \<Rightarrow> PacketWriter \<Rightarrow> usize \<Rightarrow> PacketPool \<Rightarrow> PacketPool \<times> PoolLease option" where
  "writer_commit mtu w len pool =
     (if len > mtu - pw_start w then (writer_drop w pool, None)
      else (pool, Some \<lparr>pl_slot = pw_slot w, pl_start = pw_start w, pl_len = len\<rparr>))"

definition writer_commit_frame :: "usize \<Rightarrow> PacketWriter \<Rightarrow> usize \<Rightarrow> PacketPool \<Rightarrow> PacketPool \<times> PoolLease option" where
  "writer_commit_frame mtu w payload_len pool =
     (case checked_add u64_max (pw_start w) payload_len of
        None \<Rightarrow> (writer_drop w pool, None)
      | Some len \<Rightarrow>
          if len > mtu then (writer_drop w pool, None)
          else (pool, Some \<lparr>pl_slot = pw_slot w, pl_start = 0, pl_len = len\<rparr>))"

text \<open>
  Cloning and dropping a lease. The counts are bytes and wrap; \<open>False\<close> of a clone is the assertion that
  fails, \<open>True\<close> of the decrement that the last lease is gone and the slot is to be released.
\<close>

definition lease_clone :: "usize \<Rightarrow> PacketPool \<Rightarrow> PacketPool \<times> bool" where
  "lease_clone slot pool =
     (let previous = references pool ! slot
      in (pool\<lparr>references := (references pool)[slot := (previous + 1) mod 256]\<rparr>, previous \<noteq> 0 \<and> previous \<noteq> u8_max))"

definition lease_decrement :: "usize \<Rightarrow> PacketPool \<Rightarrow> PacketPool \<times> bool" where
  "lease_decrement slot pool =
     (let previous = references pool ! slot
      in (pool\<lparr>references := (references pool)[slot := (previous + 255) mod 256]\<rparr>, previous = 1))"

definition lease_drop :: "usize \<Rightarrow> PacketPool \<Rightarrow> PacketPool" where
  "lease_drop slot pool =
     (case lease_decrement slot pool of (pool1, final) \<Rightarrow> if final then fst (pool_release slot pool1) else pool1)"

definition as_mut_unique :: "PoolLease \<Rightarrow> PacketPool \<Rightarrow> u8 list option" where
  "as_mut_unique lease pool =
     (if references pool ! pl_slot lease \<noteq> 1 then None else Some (packets pool ! pl_slot lease))"

definition lease_payload :: "usize \<Rightarrow> PoolLease \<Rightarrow> PacketPool \<Rightarrow> u8 list option" where
  "lease_payload mtu lease pool =
     (case pool_packet mtu (pl_slot lease) mtu pool of
        None \<Rightarrow> None | Some p \<Rightarrow> Some (take (pl_len lease) (drop (pl_start lease) p)))"

definition lease_prepend :: "usize \<Rightarrow> u8 list \<Rightarrow> PoolLease \<Rightarrow> PacketPool \<Rightarrow> PacketPool \<times> PoolLease \<times> bool" where
  "lease_prepend mtu header lease pool =
     (if length header > pl_start lease then (pool, lease, False)
      else
        let start = pl_start lease - length header
        in (case write_at mtu (pl_slot lease) start header pool of
              (pool1, False) \<Rightarrow> (pool1, lease, False)
            | (pool1, True) \<Rightarrow> (pool1, lease\<lparr>pl_start := start, pl_len := pl_len lease + length header\<rparr>, True)))"

definition lease_strip_prefix :: "usize \<Rightarrow> PoolLease \<Rightarrow> PoolLease \<times> bool" where
  "lease_strip_prefix bytes lease =
     (if bytes > pl_len lease then (lease, False)
      else (lease\<lparr>pl_start := pl_start lease + bytes, pl_len := pl_len lease - bytes\<rparr>, True))"

section \<open>Who owns a slot\<close>

text \<open>
  Executions interleave the atomic operations of any number of tasks. A slot is free, between the
  exchange that claims it and the store of its count, held by one writer, shared by a number of leases,
  or between the decrement of its last lease and its release.
\<close>

datatype owner = Unowned | Claiming | Writing | Leased nat | Releasing

inductive pool_step :: "PacketPool \<times> (usize \<Rightarrow> owner) \<Rightarrow> PacketPool \<times> (usize \<Rightarrow> owner) \<Rightarrow> bool" where
  Claim: "acquire_attempt reserved current pool = (pool', Claimed s) \<Longrightarrow> pool_step (pool, own) (pool', own(s := Claiming))"
| Refused: "acquire_attempt reserved current pool = (pool', r) \<Longrightarrow> \<forall>s. r \<noteq> Claimed s \<Longrightarrow> pool_step (pool, own) (pool', own)"
| Store_lease: "own s = Claiming \<Longrightarrow> pool_step (pool, own) (store_reference s pool, own(s := Leased 1))"
| Store_writer: "own s = Claiming \<Longrightarrow> pool_step (pool, own) (store_reference s pool, own(s := Writing))"
| Commit: "own s = Writing \<Longrightarrow> pool_step (pool, own) (pool, own(s := Leased 1))"
| Drop_writer: "own s = Writing \<Longrightarrow> pool_step (pool, own) (fst (pool_release s pool), own(s := Unowned))"
| Clone: "own s = Leased n \<Longrightarrow> lease_clone s pool = (pool', True) \<Longrightarrow> pool_step (pool, own) (pool', own(s := Leased (n + 1)))"
| Decrement: "own s = Leased n \<Longrightarrow> lease_decrement s pool = (pool', final) \<Longrightarrow>
    pool_step (pool, own) (pool', own(s := (if final then Releasing else Leased (n - 1))))"
| Release: "own s = Releasing \<Longrightarrow> pool_step (pool, own) (fst (pool_release s pool), own(s := Unowned))"
| Write: "write_at mtu s offset data pool = (pool', r) \<Longrightarrow> pool_step (pool, own) (pool', own)"

definition owned_ok :: "bool \<Rightarrow> nat \<Rightarrow> owner \<Rightarrow> bool" where
  "owned_ok is_free refs w = (case w of
     Unowned \<Rightarrow> is_free
   | Claiming \<Rightarrow> \<not> is_free
   | Writing \<Rightarrow> \<not> is_free \<and> refs = 1
   | Leased n \<Rightarrow> \<not> is_free \<and> refs = n \<and> 1 \<le> n \<and> n \<le> 255
   | Releasing \<Rightarrow> \<not> is_free)"

fun pool_inv :: "PacketPool \<times> (usize \<Rightarrow> owner) \<Rightarrow> bool" where
  "pool_inv (pool, own) \<longleftrightarrow> length (references pool) \<le> 32
     \<and> (\<forall>s < length (references pool). owned_ok (bit (free pool) s) (references pool ! s) (own s))
     \<and> (\<forall>s. length (references pool) \<le> s \<longrightarrow> own s = Unowned \<and> \<not> bit (free pool) s)"

fun pool_start :: "PacketPool \<times> (usize \<Rightarrow> owner) \<Rightarrow> bool" where
  "pool_start (pool, own) \<longleftrightarrow> (\<exists>slots mtu. slots \<le> 32 \<and> pool = pool_new slots mtu) \<and> own = (\<lambda>s. Unowned)"

lemma bit_slot_mask: "slots \<le> 32 \<Longrightarrow> bit (slot_mask slots) s \<longleftrightarrow> s < slots"
proof -
  assume "slots \<le> 32"
  then have "slot_mask slots = mask slots"
    by (auto simp: slot_mask_def mask_eq_exp_minus_1 push_bit_eq_mult)
  with \<open>slots \<le> 32\<close> show ?thesis by (auto simp: bit_mask_iff)
qed

lemma trailing_zeros_bit: "0 < count_ones w \<Longrightarrow> bit w (trailing_zeros w) \<and> trailing_zeros w < 32"
proof -
  assume "0 < count_ones w"
  then have "filter (bit w) [0..<32] \<noteq> []" by (simp add: count_ones_def)
  then have "find (bit w) [0..<32] \<noteq> None" by (auto simp: find_None_iff filter_empty_conv)
  then show ?thesis by (auto simp: trailing_zeros_def find_upt_Some split: option.splits)
qed

lemma bit_clear: "b < 32 \<Longrightarrow> bit ((w :: 32 word) AND NOT (2 ^ b)) s \<longleftrightarrow> bit w s \<and> s \<noteq> b"
  by (auto simp: bit_simps dest: bit_imp_le_length)

lemma bit_set: "b < 32 \<Longrightarrow> bit ((w :: 32 word) OR 2 ^ b) s \<longleftrightarrow> bit w s \<or> s = b"
  by (auto simp: bit_simps)

lemma claim_spec:
  assumes "acquire_attempt reserved current pool = (pool', Claimed s)"
  shows "bit (free pool) s \<and> s < 32 \<and> references pool' = references pool
    \<and> (\<forall>i. bit (free pool') i \<longleftrightarrow> bit (free pool) i \<and> i \<noteq> s)"
proof -
  have c: "reserved < count_ones current" "free pool = current" "s = trailing_zeros current"
    "pool' = pool\<lparr>free := current AND NOT (push_bit s 1)\<rparr>"
    using assms by (auto simp: acquire_attempt_def Let_def split: if_splits)
  have "0 < count_ones current" using c(1) by simp
  from trailing_zeros_bit [OF this] show ?thesis using c by (simp add: bit_clear)
qed

lemma release_spec:
  assumes "s < length (references pool)" "length (references pool) \<le> 32"
  shows "references (fst (pool_release s pool)) = references pool
    \<and> (\<forall>i. bit (free (fst (pool_release s pool))) i \<longleftrightarrow> bit (free pool) i \<or> i = s)"
  using assms by (simp add: pool_release_def Let_def bit_set)

lemma pool_inv_step: "pool_step x y \<Longrightarrow> pool_inv x \<Longrightarrow> pool_inv y"
proof (induction rule: pool_step.induct)
  case (Claim reserved current pool pool' s own)
  from claim_spec [OF Claim(1)] Claim(2) show ?case by (auto simp: owned_ok_def split: owner.splits)
next
  case (Refused reserved current pool pool' r own)
  then have "pool' = pool" by (auto simp: acquire_attempt_def Let_def split: if_splits)
  with Refused show ?case by simp
next
  case (Store_lease own s pool)
  then have "s < length (references pool)" by (metis pool_inv.simps owner.distinct(1) not_le_imp_less)
  with Store_lease show ?case by (auto simp: store_reference_def owned_ok_def nth_list_update)
next
  case (Store_writer own s pool)
  then have "s < length (references pool)" by (metis pool_inv.simps owner.distinct(1) not_le_imp_less)
  with Store_writer show ?case by (auto simp: store_reference_def owned_ok_def nth_list_update)
next
  case (Commit own s pool)
  then show ?case by (auto simp: owned_ok_def split: owner.splits)
next
  case (Drop_writer own s pool)
  then have "s < length (references pool)" by (metis pool_inv.simps owner.distinct(3) not_le_imp_less)
  with Drop_writer release_spec [of s pool] show ?case by (auto simp: owned_ok_def split: owner.splits)
next
  case (Clone own s n pool pool')
  then have "s < length (references pool)" by (metis pool_inv.simps owner.distinct(5) not_le_imp_less)
  with Clone show ?case by (auto simp: lease_clone_def Let_def owned_ok_def nth_list_update split: owner.splits)
next
  case (Decrement own s n pool pool' final)
  then have s: "s < length (references pool)" by (metis pool_inv.simps owner.distinct(5) not_le_imp_less)
  then have n: "references pool ! s = n" "1 \<le> n" "n \<le> 255" "\<not> bit (free pool) s"
    using Decrement by (auto simp: owned_ok_def split: owner.splits)
  then have "(n + 255) mod 256 = n - 1" by (cases n) simp_all
  then have p: "pool' = pool\<lparr>references := (references pool)[s := n - 1]\<rparr>" "final \<longleftrightarrow> n = 1"
    using Decrement(2) n(1) by (auto simp: lease_decrement_def Let_def)
  have "owned_ok (bit (free pool) s) (n - 1) (if final then Releasing else Leased (n - 1))"
    using n p(2) by (auto simp: owned_ok_def)
  with Decrement(3) s show ?case by (auto simp: p(1) nth_list_update split: if_splits)
next
  case (Release own s pool)
  then have "s < length (references pool)" by (metis pool_inv.simps owner.distinct(7) not_le_imp_less)
  with Release release_spec [of s pool] show ?case by (auto simp: owned_ok_def split: owner.splits)
next
  case (Write mtu s offset data pool pool' r own)
  then have "references pool' = references pool" "free pool' = free pool"
    by (auto simp: write_at_def Let_def split: if_splits)
  with Write show ?case by simp
qed

interpretation packet_pool: stateful pool_start pool_step pool_inv
proof
  show "pool_inv x" if "pool_start x" for x
    using that by (cases x) (auto simp: pool_new_def owned_ok_def bit_slot_mask)
  show "pool_inv y" if "pool_inv x" "pool_step x y" for x y
    using that pool_inv_step by blast
qed

lemma count_ones_card:
  assumes "n \<le> 32" "\<forall>s. bit w s \<longrightarrow> s < n"
  shows "count_ones w = card {s. s < n \<and> bit w s}"
proof -
  have "count_ones w = card (set (filter (bit w) [0..<32]))"
    unfolding count_ones_def by (rule distinct_card [symmetric]) simp
  also have "set (filter (bit w) [0..<32]) = {s. s < n \<and> bit w s}" using assms by auto
  finally show ?thesis .
qed



section \<open>Headers in place\<close>

definition lease_ok :: "usize \<Rightarrow> PoolLease \<Rightarrow> PacketPool \<Rightarrow> bool" where
  "lease_ok mtu lease pool \<longleftrightarrow> pl_slot lease < length (references pool) \<and> length (packets pool) = length (references pool)
     \<and> length (packets pool ! pl_slot lease) = mtu \<and> pl_start lease + pl_len lease \<le> mtu \<and> mtu \<le> u64_max"

text \<open>
  A bearer header goes into the headroom without moving the packet: after a prepend the lease
  reads as the header followed by the packet it read before, stripping it gives the packet back, and no
  byte of any other slot changes; without the headroom nothing changes.
\<close>

theorem prepend_keeps_payload:
  assumes "lease_ok mtu lease pool" "lease_prepend mtu header lease pool = (pool', lease', ready)"
  shows "if length header \<le> pl_start lease
    then ready \<and> lease_ok mtu lease' pool'
      \<and> lease_payload mtu lease' pool' = map_option (\<lambda>payload. header @ payload) (lease_payload mtu lease pool)
      \<and> lease_strip_prefix (length header) lease' = (lease, True)
      \<and> lease_payload mtu lease pool' = lease_payload mtu lease pool
      \<and> (\<forall>s. s \<noteq> pl_slot lease \<longrightarrow> packets pool' ! s = packets pool ! s)
    else \<not> ready \<and> pool' = pool \<and> lease' = lease"
proof (cases "length header \<le> pl_start lease")
  case False
  with assms(2) show ?thesis by (simp add: lease_prepend_def)
next
  case True
  let ?s = "pl_slot lease" and ?at = "pl_start lease - length header"
  let ?p = "packets pool ! ?s"
  have k: "?s < length (references pool)" "?s < length (packets pool)" "length ?p = mtu"
    "pl_start lease + pl_len lease \<le> mtu" "mtu \<le> u64_max" "length (packets pool) = length (references pool)"
    using assms(1) by (simp_all add: lease_ok_def)
  define q where "q = take ?at ?p @ header @ drop (pl_start lease) ?p"
  have w: "write_at mtu ?s ?at header pool = (pool\<lparr>packets := (packets pool)[?s := q]\<rparr>, True)"
    using True k by (simp add: write_at_def Let_def sat_add_def q_def)
  have r: "pool' = pool\<lparr>packets := (packets pool)[?s := q]\<rparr>" "ready"
    "lease' = lease\<lparr>pl_start := ?at, pl_len := pl_len lease + length header\<rparr>"
    using assms(2) True w by (auto simp: lease_prepend_def Let_def)
  have lq: "length q = mtu" using True k by (simp add: q_def)
  have read: "lease_payload mtu lease pool = Some (take (pl_len lease) (drop (pl_start lease) ?p))"
    using k by (simp add: lease_payload_def pool_packet_def)
  have "lease_payload mtu lease' pool' = Some (take (pl_len lease + length header) (drop ?at q))"
    using k lq by (simp add: lease_payload_def pool_packet_def r)
  also have "drop ?at q = header @ drop (pl_start lease) ?p" using True k by (simp add: q_def)
  finally have new: "lease_payload mtu lease' pool' = Some (header @ take (pl_len lease) (drop (pl_start lease) ?p))"
    by simp
  have "drop (pl_start lease) q = drop (pl_start lease) ?p" using True k by (simp add: q_def)
  then have old: "lease_payload mtu lease pool' = lease_payload mtu lease pool"
    using k lq by (simp add: lease_payload_def pool_packet_def r)
  show ?thesis using True k lq r read new old
    by (simp add: lease_ok_def lease_strip_prefix_def)
qed

lemma prepend_keeps_payload_witness:
  "\<exists>lease. snd (acquire_with_headroom 16 4 [1, 2, 3] (pool_new 2 16)) = Some lease
    \<and> lease_payload 16 (fst (snd (lease_prepend 16 [9, 8] lease (fst (acquire_with_headroom 16 4 [1, 2, 3] (pool_new 2 16))))))
        (fst (lease_prepend 16 [9, 8] lease (fst (acquire_with_headroom 16 4 [1, 2, 3] (pool_new 2 16))))) = Some [9, 8, 1, 2, 3]"
proof -
  let ?a = "acquire_with_headroom 16 4 [1, 2, 3] (pool_new 2 16)"
  let ?l = "\<lparr>pl_slot = 0, pl_start = 4, pl_len = 3\<rparr> :: PoolLease"
  have a: "snd ?a = Some ?l" "lease_ok 16 ?l (fst ?a)" "lease_payload 16 ?l (fst ?a) = Some [1, 2, 3]" by code_simp+
  have "lease_prepend 16 [9, 8] ?l (fst ?a) = (fst (lease_prepend 16 [9, 8] ?l (fst ?a)),
      fst (snd (lease_prepend 16 [9, 8] ?l (fst ?a))), snd (snd (lease_prepend 16 [9, 8] ?l (fst ?a))))" by simp
  from prepend_keeps_payload [OF a(2) this] a show ?thesis by simp
qed

end
