(* ===== verification/Peer_Table.thy ===== *)
theory Peer_Table
  imports Transitions
begin

text \<open>
  The peer table of \<^verbatim>\<open>quic-lite/src/peer_table.rs\<close>: a fixed number of slots that name the native
  addresses of a bearer by opaque handles. A handle holds the slot and its generation; removing a
  peer advances the generation of the slot, so that no copy of the old handle names a later peer.
\<close>

section \<open>The table\<close>

record 'a PeerEntry =
  generation :: u32
  entry_address :: "'a option"

type_synonym 'a PeerL2Table = "'a PeerEntry list"

definition PeerL2Address_new :: "u64 \<Rightarrow> u64 option" where
  "PeerL2Address_new value = (if value = 0 then None else Some value)"

definition pt_new :: "usize \<Rightarrow> 'a PeerL2Table" where
  "pt_new peers = replicate peers \<lparr>generation = 1, entry_address = None\<rparr>"

text \<open>
  \<open>None\<close> is a failed \<^verbatim>\<open>expect\<close>: the slot beyond 32 bits, or the handle zero.
\<close>

definition handle :: "'a PeerL2Table \<Rightarrow> usize \<Rightarrow> u64 option" where
  "handle t slot =
     (if slot > u32_max then None
      else PeerL2Address_new (push_bit 32 (generation (t ! slot)) OR sat_add u32_max slot 1))"

definition decode_handle :: "u64 \<Rightarrow> (usize \<times> u32) option" where
  "decode_handle h =
     (let gen = drop_bit 32 h; encoded_slot = take_bit 32 h
      in if gen > u32_max then None
         else (case checked_sub encoded_slot 1 of
           None \<Rightarrow> None | Some slot \<Rightarrow> if gen \<noteq> 0 then Some (slot, gen) else None))"

definition get_or_insert :: "'a \<Rightarrow> 'a PeerL2Table \<Rightarrow> 'a PeerL2Table \<times> u64 option" where
  "get_or_insert peer t =
     (case position (\<lambda>candidate. entry_address candidate = Some peer) t of
        Some slot \<Rightarrow> (t, handle t slot)
      | None \<Rightarrow>
          (case position (\<lambda>entry. entry_address entry = None \<and> generation entry \<noteq> 0) t of
             None \<Rightarrow> (t, None)
           | Some slot \<Rightarrow>
               let t1 = t[slot := (t ! slot)\<lparr>entry_address := Some peer\<rparr>] in (t1, handle t1 slot)))"

definition peer_of :: "'a PeerL2Table \<Rightarrow> u64 \<Rightarrow> 'a option" where
  "peer_of t h =
     (case decode_handle h of
        None \<Rightarrow> None
      | Some (slot, gen) \<Rightarrow>
          if slot < length t \<and> generation (t ! slot) = gen then entry_address (t ! slot) else None)"

definition address_of :: "'a PeerL2Table \<Rightarrow> 'a \<Rightarrow> u64 option" where
  "address_of t peer =
     (case position (\<lambda>candidate. entry_address candidate = Some peer) t of
        None \<Rightarrow> None | Some slot \<Rightarrow> handle t slot)"

definition remove_peer :: "u64 \<Rightarrow> 'a PeerL2Table \<Rightarrow> 'a PeerL2Table \<times> 'a option" where
  "remove_peer h t =
     (case decode_handle h of
        None \<Rightarrow> (t, None)
      | Some (slot, gen) \<Rightarrow>
          if \<not> slot < length t then (t, None)
          else if generation (t ! slot) \<noteq> gen then (t, None)
          else (case entry_address (t ! slot) of
              None \<Rightarrow> (t, None)
            | Some address \<Rightarrow>
                (t[slot := \<lparr>generation = (case checked_add u32_max (generation (t ! slot)) 1 of None \<Rightarrow> 0 | Some g \<Rightarrow> g),
                            entry_address = None\<rparr>], Some address)))"

section \<open>Handles\<close>

definition pt_inv :: "'a PeerL2Table \<Rightarrow> bool" where
  "pt_inv t \<longleftrightarrow> length t \<le> u32_max
     \<and> (\<forall>i < length t. generation (t ! i) \<le> u32_max \<and> (entry_address (t ! i) \<noteq> None \<longrightarrow> generation (t ! i) \<noteq> 0))
     \<and> (\<forall>i < length t. \<forall>j < length t. entry_address (t ! i) = entry_address (t ! j)
          \<longrightarrow> entry_address (t ! i) = None \<or> i = j)"

lemma handle_eq:
  assumes "slot < length t" "length t \<le> u32_max"
  shows "handle t slot = Some (generation (t ! slot) * 2 ^ 32 + (slot + 1))"
proof -
  have "push_bit 32 (generation (t ! slot)) OR (slot + 1) = generation (t ! slot) * 2 ^ 32 + (slot + 1)"
    using assms by (intro push_bit_or_add) simp
  with assms show ?thesis by (simp add: handle_def PeerL2Address_new_def sat_add_def)
qed

lemma decode_handle_eq:
  assumes "slot < u32_max" "gen \<le> u32_max" "gen \<noteq> 0"
  shows "decode_handle (gen * 2 ^ 32 + (slot + 1)) = Some (slot, gen)"
proof -
  have "(gen * 2 ^ 32 + (slot + 1)) div 2 ^ 32 = gen" "(gen * 2 ^ 32 + (slot + 1)) mod 2 ^ 32 = slot + 1"
    using assms(1) by simp_all
  with assms show ?thesis by (simp add: decode_handle_def Let_def drop_bit_eq_div take_bit_eq_mod checked_sub_def)
qed

lemma peer_of_handle:
  assumes "pt_inv t" "slot < length t" "entry_address (t ! slot) = Some a" "handle t slot = Some h"
  shows "peer_of t h = Some a"
proof -
  have g: "generation (t ! slot) \<le> u32_max" "generation (t ! slot) \<noteq> 0" "length t \<le> u32_max"
    using assms(1-3) by (auto simp: pt_inv_def)
  then have "h = generation (t ! slot) * 2 ^ 32 + (slot + 1)" using assms(2,4) by (simp add: handle_eq)
  with g assms(2,3) show ?thesis
    using decode_handle_eq [of slot "generation (t ! slot)"] by (simp add: peer_of_def)
qed

lemma peer_of_update:
  "slot < length t \<Longrightarrow> entry_address (t ! slot) = None \<Longrightarrow> peer_of t h = Some a \<Longrightarrow>
     peer_of (t[slot := (t ! slot)\<lparr>entry_address := Some p\<rparr>]) h = Some a"
  by (auto simp: peer_of_def nth_list_update split: option.splits if_splits)

inductive pt_step :: "'a PeerL2Table \<Rightarrow> 'a PeerL2Table \<Rightarrow> bool" where
  Insert: "pt_step t (fst (get_or_insert peer t))"
| Remove: "pt_step t (fst (remove_peer h t))"

definition pt_start :: "'a PeerL2Table \<Rightarrow> bool" where
  "pt_start t \<longleftrightarrow> (\<exists>peers \<le> u32_max. t = pt_new peers)"

lemma pt_inv_insert: "pt_inv t \<Longrightarrow> pt_inv (fst (get_or_insert peer t))"
  by (auto simp: pt_inv_def get_or_insert_def position_Some position_None Let_def nth_list_update split: option.splits)

lemma pt_inv_remove: "pt_inv t \<Longrightarrow> pt_inv (fst (remove_peer h t))"
  by (auto simp: pt_inv_def remove_peer_def nth_list_update checked_add_def split: option.splits if_splits)

interpretation peer_table: stateful pt_start pt_step pt_inv
proof
  show "pt_inv t" if "pt_start t" for t :: "'a PeerL2Table"
    using that by (auto simp: pt_start_def pt_inv_def pt_new_def)
  show "pt_inv t'" if "pt_inv t" "pt_step t t'" for t t' :: "'a PeerL2Table"
    using that(2,1) by cases (auto intro: pt_inv_insert pt_inv_remove)
qed

text \<open>
  A bearer address has one handle as long as it is known: looking an address up, or
  meeting it for the first time, gives a handle that resolves to it and is the one reported for it,
  asking again changes nothing, every handle in use keeps its meaning, and the table refuses only
  when no slot is free.
\<close>

theorem peer_handle_resolves:
  assumes "peers \<le> u32_max" "pt_step\<^sup>*\<^sup>* (pt_new peers) t" "get_or_insert p t = (t', result)"
  shows "case result of
      None \<Rightarrow> t' = t \<and> (\<forall>entry \<in> set t. entry_address entry \<noteq> None \<or> generation entry = 0)
    | Some h \<Rightarrow> peer_of t' h = Some p \<and> address_of t' p = Some h \<and> get_or_insert p t' = (t', Some h)
        \<and> (\<forall>h' a. peer_of t h' = Some a \<longrightarrow> peer_of t' h' = Some a)"
proof -
  have i: "pt_inv t" using peer_table.inv_reachable assms(1,2) by (auto simp: pt_start_def)
  then have i': "pt_inv t'" using pt_inv_insert [of t p] assms(3) by simp
  have len: "length t \<le> u32_max" using i by (simp add: pt_inv_def)
  show ?thesis
  proof (cases "position (\<lambda>candidate. entry_address candidate = Some p) t")
    case (Some slot)
    then have s: "slot < length t" "entry_address (t ! slot) = Some p" by (auto simp: position_Some)
    have r: "t' = t" "result = handle t slot" using assms(3) Some by (auto simp: get_or_insert_def)
    with s Some peer_of_handle [OF i s] len assms(3) show ?thesis
      by (simp add: handle_eq address_of_def)
  next
    case none: None
    show ?thesis
    proof (cases "position (\<lambda>entry. entry_address entry = None \<and> generation entry \<noteq> 0) t")
      case None
      then have "t' = t" "result = None" using none assms(3) by (auto simp: get_or_insert_def)
      with None show ?thesis by (fastforce simp: position_None in_set_conv_nth)
    next
      case (Some slot)
      then have s: "slot < length t" "entry_address (t ! slot) = None" by (auto simp: position_Some)
      have r: "t' = t[slot := (t ! slot)\<lparr>entry_address := Some p\<rparr>]" "result = handle t' slot"
        using assms(3) none Some by (auto simp: get_or_insert_def Let_def)
      have s': "slot < length t'" "entry_address (t' ! slot) = Some p" using s r by simp_all
      have "position (\<lambda>candidate. entry_address candidate = Some p) t' = Some slot"
        using none s r by (auto simp: position_Some position_None nth_list_update)
      moreover obtain h where h: "handle t' slot = Some h" using s' len r by (simp add: handle_eq)
      moreover have "\<forall>h' a. peer_of t h' = Some a \<longrightarrow> peer_of t' h' = Some a"
        using peer_of_update [OF s] r by simp
      ultimately show ?thesis using peer_of_handle [OF i' s' h] r by (simp add: address_of_def get_or_insert_def)
    qed
  qed
qed

lemma peer_handle_resolves_witness:
  "\<exists>h. snd (get_or_insert (7 :: nat) (pt_new 2)) = Some h \<and> peer_of (fst (get_or_insert (7 :: nat) (pt_new 2))) h = Some 7"
proof -
  have "snd (get_or_insert (7 :: nat) (pt_new 2)) = Some 4294967297" by code_simp
  moreover have "get_or_insert (7 :: nat) (pt_new 2) = (fst (get_or_insert (7 :: nat) (pt_new 2)), snd (get_or_insert (7 :: nat) (pt_new 2)))" by simp
  from peer_handle_resolves [OF _ rtranclp.rtrancl_refl this] calculation show ?thesis by simp
qed

text \<open>The generation of a slot only grows; zero, the retired slot, counts as beyond the last.\<close>

definition age :: "'a PeerL2Table \<Rightarrow> usize \<Rightarrow> nat" where
  "age t slot = (if generation (t ! slot) = 0 then u32_max + 1 else generation (t ! slot))"

lemma pt_step_age: "pt_inv t \<Longrightarrow> pt_step t t' \<Longrightarrow> length t' = length t \<and> (slot < length t \<longrightarrow> age t slot \<le> age t' slot)"
  by (erule pt_step.cases)
    (auto simp: age_def get_or_insert_def remove_peer_def Let_def nth_list_update checked_add_def pt_inv_def
      position_Some split: option.splits if_splits)

lemma pt_run_age:
  assumes "pt_step\<^sup>*\<^sup>* t t'" "pt_inv t" "slot < length t"
  shows "length t' = length t \<and> age t slot \<le> age t' slot"
  using assms(1)
proof (induction rule: rtranclp_induct)
  case (step u v)
  then show ?case
    using peer_table.inv_run [OF assms(2) step.hyps(1)] pt_step_age [of u v slot] assms(3) by auto
qed simp

text \<open>
  Claim C37. A handle that was removed is dead for ever: whatever peers are added and removed
  afterwards, also into the same slot and until its generations are used up, it never resolves again.
\<close>

theorem removed_handle_never_resolves:
  assumes "peers \<le> u32_max" "pt_step\<^sup>*\<^sup>* (pt_new peers) t" "remove_peer h t = (t', Some a)" "pt_step\<^sup>*\<^sup>* t' t''"
  shows "peer_of t h = Some a \<and> peer_of t'' h = None"
proof -
  have i: "pt_inv t" using peer_table.inv_reachable assms(1,2) by (auto simp: pt_start_def)
  then have i': "pt_inv t'" using pt_inv_remove [of t h] assms(3) by simp
  obtain slot gen where d: "decode_handle h = Some (slot, gen)" "slot < length t" "generation (t ! slot) = gen"
    "entry_address (t ! slot) = Some a"
    using assms(3) by (auto simp: remove_peer_def split: option.splits if_splits)
  have g: "gen \<noteq> 0" "gen \<le> u32_max" using i d by (auto simp: pt_inv_def)
  have "length t' = length t" "gen < age t' slot"
    using assms(3) d g by (auto simp: remove_peer_def age_def checked_add_def split: if_splits)
  then have "gen < age t'' slot" "length t'' = length t" using pt_run_age [OF assms(4) i', of slot] d(2) by auto
  then have "generation (t'' ! slot) \<noteq> gen" using g by (auto simp: age_def split: if_splits)
  with d show ?thesis by (simp add: peer_of_def)
qed

lemma removed_handle_never_resolves_witness:
  "peer_of (fst (get_or_insert (9 :: nat) (fst (remove_peer 4294967297 (fst (get_or_insert 7 (pt_new 1))))))) 4294967297 = None"
proof -
  let ?t = "fst (get_or_insert (7 :: nat) (pt_new 1))"
  let ?u = "fst (remove_peer 4294967297 ?t)"
  have r: "pt_step\<^sup>*\<^sup>* (pt_new 1) ?t" by (intro r_into_rtranclp pt_step.Insert)
  have "snd (remove_peer 4294967297 ?t) = Some 7" by code_simp
  then have m: "remove_peer 4294967297 ?t = (?u, Some 7)" by (simp add: prod_eq_iff)
  have "pt_step\<^sup>*\<^sup>* ?u (fst (get_or_insert 9 ?u))" by (intro r_into_rtranclp pt_step.Insert)
  from removed_handle_never_resolves [OF _ r m this] show ?thesis by simp
qed

end
