(* ===== verification/Setup_Table.thy ===== *)
theory Setup_Table
  imports Transitions Wire_Codec
begin

text \<open>
  The setup transactions of a relay, \<open>SetupTransactionTable\<close> of \<^verbatim>\<open>quic-lite/src/relay.rs\<close>: a bounded
  table that admits a path setup once per previous hop and transaction identifier, keeps the reply for
  retries, and accounts for the reply memory it has promised. Requests and replies are opaque bytes here.
\<close>

section \<open>State\<close>

record ForwardNextHop =
  hop_bearer :: u16
  hop_peer :: u64

record SetupRelayState =
  forward_cid :: ConnectionId
  reverse_cid :: ConnectionId
  reverse_target :: ConnectionId
  sr_lease_duration_us :: u64
  sr_packet_quota :: u64

datatype SetupTransactionError = TxMissing | TxExpired | TxReplyTooLarge | TxConflict

datatype SetupTransactionLookup =
    TxNew | TxPendingRetry | TxWasExpired | TxReplay "u8 list" | TxIsConflict | TxFull | TxInvalid

record SetupTransaction =
  previous_hop :: ForwardNextHop
  tx_id :: u64
  tx_request :: "u8 list"
  tx_reply :: "u8 list"
  downstream_reply :: "u8 list"
  downstream_hop :: "ForwardNextHop option"
  relay_state :: "SetupRelayState option"
  reply_ready :: bool
  tx_expired :: bool
  pending_deadline_us :: u64
  cache_expiry_us :: u64
  tx_reserved :: usize

record SetupTransactionTable =
  tx_entries :: "SetupTransaction list"
  max_pending :: usize
  max_cached_replies :: usize
  max_request_bytes :: usize
  max_reply_bytes :: usize
  max_reserved_reply_bytes :: usize
  reserved_reply_bytes :: usize
  pending_count :: usize
  cached_count :: usize
  retention_us :: u64

definition setup_new :: "usize \<Rightarrow> usize \<Rightarrow> usize \<Rightarrow> usize \<Rightarrow> usize \<Rightarrow> u64 \<Rightarrow> SetupTransactionTable" where
  "setup_new pending cached request reply reserved retention =
     \<lparr>tx_entries = [], max_pending = pending, max_cached_replies = cached, max_request_bytes = request,
      max_reply_bytes = reply, max_reserved_reply_bytes = reserved, reserved_reply_bytes = 0,
      pending_count = 0, cached_count = 0, retention_us = retention\<rparr>"

definition tx_key :: "ForwardNextHop \<Rightarrow> u64 \<Rightarrow> SetupTransaction \<Rightarrow> bool" where
  "tx_key hop i e \<longleftrightarrow> previous_hop e = hop \<and> tx_id e = i"

section \<open>Expiry\<close>

text \<open>The counters of the table, as the loop of \<open>expire\<close> updates them: pending, cached and reserved.\<close>

type_synonym counters = "usize \<times> usize \<times> usize"

definition counters_of :: "SetupTransactionTable \<Rightarrow> counters" where
  "counters_of t = (pending_count t, cached_count t, reserved_reply_bytes t)"

definition set_counters :: "counters \<Rightarrow> SetupTransactionTable \<Rightarrow> SetupTransactionTable" where
  "set_counters c t = (case c of (pending, cached, reserved) \<Rightarrow>
     t\<lparr>pending_count := pending, cached_count := cached, reserved_reply_bytes := reserved\<rparr>)"

definition mark_expired :: "u64 \<Rightarrow> SetupTransaction \<Rightarrow> counters \<Rightarrow> SetupTransaction \<times> counters" where
  "mark_expired retention e c =
     (if reply_ready e \<or> tx_expired e then (e, c)
      else (case c of (pending, cached, reserved) \<Rightarrow>
        (e\<lparr>tx_expired := True, cache_expiry_us := sat_add64 (pending_deadline_us e) retention, tx_reply := [],
           tx_reserved := 0\<rparr>,
         (pending - 1, cached, reserved - tx_reserved e))))"

definition remove_counters :: "SetupTransaction \<Rightarrow> counters \<Rightarrow> counters" where
  "remove_counters e c = (case c of (pending, cached, reserved) \<Rightarrow>
     (if \<not> reply_ready e \<and> \<not> tx_expired e then pending - 1 else pending,
      if reply_ready e then cached - 1 else cached, reserved - tx_reserved e))"

fun expire_loop :: "u64 \<Rightarrow> u64 \<Rightarrow> SetupTransaction list \<Rightarrow> counters \<Rightarrow> SetupTransaction list \<times> counters \<times> usize" where
  "expire_loop now_us retention [] c = ([], c, 0)"
| "expire_loop now_us retention (e # es) c =
     (let pending_expired = (\<not> reply_ready e \<and> \<not> tx_expired e \<and> pending_deadline_us e \<le> now_us);
          (e1, c1) = (if pending_expired then mark_expired retention e c else (e, c))
      in if (reply_ready e1 \<or> tx_expired e1) \<and> cache_expiry_us e1 \<le> now_us
         then (case expire_loop now_us retention es (remove_counters e1 c1) of (es', c', n) \<Rightarrow> (es', c', n + 1))
         else (case expire_loop now_us retention es c1 of (es', c', n) \<Rightarrow>
           (e1 # es', c', n + (if pending_expired then 1 else 0))))"

definition setup_expire :: "u64 \<Rightarrow> SetupTransactionTable \<Rightarrow> SetupTransactionTable \<times> usize" where
  "setup_expire now_us t =
     (case expire_loop now_us (retention_us t) (tx_entries t) (counters_of t) of
        (es, c, n) \<Rightarrow> (set_counters c (t\<lparr>tx_entries := es\<rparr>), n))"

section \<open>Operations\<close>

text \<open>\<open>mem\<close> is whether the three allocations for a new transaction succeed.\<close>

definition setup_begin :: "bool \<Rightarrow> ForwardNextHop \<Rightarrow> u64 \<Rightarrow> u8 list \<Rightarrow> usize \<Rightarrow> u64 \<Rightarrow> u64 \<Rightarrow> SetupTransactionTable
    \<Rightarrow> SetupTransactionTable \<times> SetupTransactionLookup" where
  "setup_begin mem hop i request reply_capacity now_us deadline t =
     (let t = fst (setup_expire now_us t)
      in if i = 0 \<or> request = [] \<or> length request > max_request_bytes t \<or> reply_capacity = 0
            \<or> reply_capacity > max_reply_bytes t \<or> deadline \<le> now_us then (t, TxInvalid)
         else (case find (tx_key hop i) (tx_entries t) of
           Some e \<Rightarrow>
             (t, if tx_request e \<noteq> request then TxIsConflict
                 else if tx_expired e then TxWasExpired
                 else if reply_ready e then TxReplay (tx_reply e)
                 else TxPendingRetry)
         | None \<Rightarrow>
             (case checked_add u64_max (reserved_reply_bytes t) reply_capacity of
                None \<Rightarrow> (t, TxFull)
              | Some reserved \<Rightarrow>
                  if pending_count t \<ge> max_pending t \<or> length (tx_entries t) \<ge> max_cached_replies t
                     \<or> reserved > max_reserved_reply_bytes t \<or> \<not> mem then (t, TxFull)
                  else
                    (t\<lparr>tx_entries := tx_entries t @
                         [\<lparr>previous_hop = hop, tx_id = i, tx_request = request, tx_reply = [], downstream_reply = [],
                           downstream_hop = None, relay_state = None, reply_ready = False, tx_expired = False,
                           pending_deadline_us = deadline, cache_expiry_us = 0, tx_reserved = reply_capacity\<rparr>],
                       pending_count := pending_count t + 1, reserved_reply_bytes := reserved\<rparr>, TxNew))))"

definition setup_complete :: "ForwardNextHop \<Rightarrow> u64 \<Rightarrow> u8 list \<Rightarrow> u64 \<Rightarrow> SetupTransactionTable
    \<Rightarrow> SetupTransactionTable \<times> (SetupTransactionError + unit)" where
  "setup_complete hop i reply now_us t =
     (case find (tx_key hop i) (tx_entries t) of
        None \<Rightarrow> (t, Inl TxMissing)
      | Some e \<Rightarrow>
          if tx_expired e \<or> now_us \<ge> pending_deadline_us e then (t, Inl TxExpired)
          else if reply_ready e then (t, Inl TxMissing)
          else if reply = [] \<or> length reply > tx_reserved e then (t, Inl TxReplyTooLarge)
          else
            (t\<lparr>tx_entries := update_first (tx_key hop i)
                 (\<lambda>e. e\<lparr>tx_reply := tx_reply e @ reply, reply_ready := True,
                        cache_expiry_us := sat_add64 now_us (retention_us t)\<rparr>) (tx_entries t),
               pending_count := pending_count t - 1, cached_count := cached_count t + 1\<rparr>, Inr ()))"

definition set_downstream_hop :: "ForwardNextHop \<Rightarrow> u64 \<Rightarrow> ForwardNextHop \<Rightarrow> SetupTransactionTable
    \<Rightarrow> SetupTransactionTable \<times> (SetupTransactionError + unit)" where
  "set_downstream_hop hop i downstream t =
     (case find (tx_key hop i) (tx_entries t) of
        None \<Rightarrow> (t, Inl TxMissing)
      | Some e \<Rightarrow>
          if tx_expired e \<or> reply_ready e then (t, Inl TxExpired)
          else if (case downstream_hop e of None \<Rightarrow> False | Some existing \<Rightarrow> existing \<noteq> downstream)
          then (t, Inl TxConflict)
          else (t\<lparr>tx_entries := update_first (tx_key hop i) (\<lambda>e. e\<lparr>downstream_hop := Some downstream\<rparr>) (tx_entries t)\<rparr>,
                Inr ()))"

definition setup_downstream_hop :: "ForwardNextHop \<Rightarrow> u64 \<Rightarrow> SetupTransactionTable \<Rightarrow> ForwardNextHop option" where
  "setup_downstream_hop hop i t =
     (case find (tx_key hop i) (tx_entries t) of None \<Rightarrow> None | Some e \<Rightarrow> downstream_hop e)"

definition set_relay_state :: "ForwardNextHop \<Rightarrow> u64 \<Rightarrow> SetupRelayState \<Rightarrow> SetupTransactionTable
    \<Rightarrow> SetupTransactionTable \<times> (SetupTransactionError + unit)" where
  "set_relay_state hop i st t =
     (case find (tx_key hop i) (tx_entries t) of
        None \<Rightarrow> (t, Inl TxMissing)
      | Some e \<Rightarrow>
          if tx_expired e \<or> reply_ready e then (t, Inl TxExpired)
          else if (case relay_state e of None \<Rightarrow> False | Some existing \<Rightarrow> existing \<noteq> st) then (t, Inl TxConflict)
          else (t\<lparr>tx_entries := update_first (tx_key hop i) (\<lambda>e. e\<lparr>relay_state := Some st\<rparr>) (tx_entries t)\<rparr>, Inr ()))"

definition setup_relay_state :: "ForwardNextHop \<Rightarrow> u64 \<Rightarrow> SetupTransactionTable \<Rightarrow> SetupRelayState option" where
  "setup_relay_state hop i t =
     (case find (tx_key hop i) (tx_entries t) of None \<Rightarrow> None | Some e \<Rightarrow> relay_state e)"

definition complete_from_downstream :: "ForwardNextHop \<Rightarrow> u64 \<Rightarrow> u8 list \<Rightarrow> u64 \<Rightarrow> SetupTransactionTable
    \<Rightarrow> SetupTransactionTable \<times> (SetupTransactionError + ForwardNextHop)" where
  "complete_from_downstream downstream i reply now_us t =
     (case find (\<lambda>e. downstream_hop e = Some downstream \<and> tx_id e = i) (tx_entries t) of
        None \<Rightarrow> (t, Inl TxMissing)
      | Some e \<Rightarrow>
          (case setup_complete (previous_hop e) i reply now_us t of
             (t1, Inl err) \<Rightarrow> (t1, Inl err)
           | (t1, Inr _) \<Rightarrow> (t1, Inr (previous_hop e))))"

definition setup_cancel :: "ForwardNextHop \<Rightarrow> u64 \<Rightarrow> SetupTransactionTable \<Rightarrow> SetupTransactionTable \<times> bool" where
  "setup_cancel hop i t =
     (case find (tx_key hop i) (tx_entries t) of
        None \<Rightarrow> (t, False)
      | Some e \<Rightarrow>
          (case mark_expired (retention_us t) e (counters_of t) of (e', c) \<Rightarrow>
             (set_counters c (t\<lparr>tx_entries := update_first (tx_key hop i) (\<lambda>_. e') (tx_entries t)\<rparr>), True)))"

definition setup_next_deadline :: "SetupTransactionTable \<Rightarrow> u64 option" where
  "setup_next_deadline t =
     (case map (\<lambda>e. if reply_ready e \<or> tx_expired e then cache_expiry_us e else pending_deadline_us e) (tx_entries t) of
        [] \<Rightarrow> None | d # ds \<Rightarrow> Some (fold min ds d))"

section \<open>The accounts of the table\<close>

definition key_of :: "SetupTransaction \<Rightarrow> ForwardNextHop \<times> u64" where
  "key_of e = (previous_hop e, tx_id e)"

lemma tx_key_iff: "tx_key hop i e \<longleftrightarrow> key_of e = (hop, i)"
  by (auto simp: tx_key_def key_of_def)

lemma tx_key_eq: "tx_key hop i = (\<lambda>e. key_of e = (hop, i))"
  by (auto simp: tx_key_iff)

definition live :: "SetupTransaction \<Rightarrow> bool" where
  "live e \<longleftrightarrow> \<not> reply_ready e \<and> \<not> tx_expired e"

definition entry_ok :: "SetupTransaction \<Rightarrow> bool" where
  "entry_ok e \<longleftrightarrow> \<not> (reply_ready e \<and> tx_expired e) \<and> (tx_expired e \<longrightarrow> tx_reserved e = 0 \<and> tx_reply e = [])
     \<and> (live e \<longrightarrow> tx_reply e = []) \<and> length (tx_reply e) \<le> tx_reserved e"

definition live1 :: "SetupTransaction \<Rightarrow> nat" where
  "live1 e = (if live e then 1 else 0)"

definition ready1 :: "SetupTransaction \<Rightarrow> nat" where
  "ready1 e = (if reply_ready e then 1 else 0)"

definition n_live :: "SetupTransaction list \<Rightarrow> nat" where
  "n_live es = sum_list (map live1 es)"

definition n_ready :: "SetupTransaction list \<Rightarrow> nat" where
  "n_ready es = sum_list (map ready1 es)"

definition n_reserved :: "SetupTransaction list \<Rightarrow> nat" where
  "n_reserved es = sum_list (map tx_reserved es)"

lemmas account_defs = n_live_def n_ready_def n_reserved_def

lemma accounts_Nil [simp]: "n_live [] = 0" "n_ready [] = 0" "n_reserved [] = 0"
  by (simp_all add: account_defs)

lemma accounts_Cons [simp]:
  "n_live (e # es) = live1 e + n_live es" "n_ready (e # es) = ready1 e + n_ready es"
  "n_reserved (e # es) = tx_reserved e + n_reserved es"
  by (simp_all add: account_defs)

lemma accounts_append [simp]:
  "n_live (es @ fs) = n_live es + n_live fs" "n_ready (es @ fs) = n_ready es + n_ready fs"
  "n_reserved (es @ fs) = n_reserved es + n_reserved fs"
  by (simp_all add: account_defs)

definition setup_inv :: "SetupTransactionTable \<Rightarrow> bool" where
  "setup_inv t \<longleftrightarrow> distinct (map key_of (tx_entries t)) \<and> (\<forall>e \<in> set (tx_entries t). entry_ok e)
     \<and> counters_of t = (n_live (tx_entries t), n_ready (tx_entries t), n_reserved (tx_entries t))
     \<and> pending_count t \<le> max_pending t \<and> length (tx_entries t) \<le> max_cached_replies t
     \<and> reserved_reply_bytes t \<le> max_reserved_reply_bytes t"

text \<open>What expiry keeps of one entry: nothing, or the entry, perhaps marked.\<close>

definition expire_entry :: "u64 \<Rightarrow> u64 \<Rightarrow> SetupTransaction \<Rightarrow> SetupTransaction option" where
  "expire_entry now_us retention e =
     (let e1 = (if live e \<and> pending_deadline_us e \<le> now_us then fst (mark_expired retention e (0, 0, 0)) else e)
      in if \<not> live e1 \<and> cache_expiry_us e1 \<le> now_us then None else Some e1)"

lemma expire_loop_eq:
  "\<forall>e \<in> set es. entry_ok e \<Longrightarrow>
   \<exists>n. expire_loop now_us retention es (p + n_live es, k + n_ready es, r + n_reserved es)
     = (let es' = List.map_filter (expire_entry now_us retention) es
        in (es', (p + n_live es', k + n_ready es', r + n_reserved es'), n))"
proof (induction es arbitrary: p k r)
  case (Cons e es)
  define e1 where "e1 = (if live e \<and> pending_deadline_us e \<le> now_us then fst (mark_expired retention e (0, 0, 0)) else e)"
  have kept: "expire_entry now_us retention e = (if \<not> live e1 \<and> cache_expiry_us e1 \<le> now_us then None else Some e1)"
    by (simp add: expire_entry_def e1_def [symmetric] Let_def)
  have step: "(if \<not> reply_ready e \<and> \<not> tx_expired e \<and> pending_deadline_us e \<le> now_us
        then mark_expired retention e (p + (live1 e + n_live es), k + (ready1 e + n_ready es), r + (tx_reserved e + n_reserved es))
        else (e, p + (live1 e + n_live es), k + (ready1 e + n_ready es), r + (tx_reserved e + n_reserved es)))
      = (e1, (p + live1 e1) + n_live es, (k + ready1 e1) + n_ready es, (r + tx_reserved e1) + n_reserved es)"
    by (auto simp: e1_def mark_expired_def live_def live1_def ready1_def)
  have ok: "entry_ok e1" using Cons.prems by (auto simp: e1_def entry_ok_def mark_expired_def live_def)
  have gone: "remove_counters e1 ((p + live1 e1) + n_live es, (k + ready1 e1) + n_ready es, (r + tx_reserved e1) + n_reserved es)
      = (p + n_live es, k + n_ready es, r + n_reserved es)"
    using ok by (auto simp: remove_counters_def live_def live1_def ready1_def entry_ok_def)
  have es: "\<forall>e \<in> set es. entry_ok e" using Cons.prems by simp
  have settled: "reply_ready e1 \<or> tx_expired e1 \<longleftrightarrow> \<not> live e1" by (auto simp: live_def)
  show ?case
    unfolding expire_loop.simps Let_def accounts_Cons step prod.case settled List.map_filter_simps kept
    using Cons.IH [OF es, of p k r] Cons.IH [OF es, of "p + live1 e1" "k + ready1 e1" "r + tx_reserved e1"]
    by (cases "\<not> live e1 \<and> cache_expiry_us e1 \<le> now_us") (fastforce simp: gone Let_def)+
qed (simp add: List.map_filter_simps)

lemma find_tx: "find (tx_key hop i) es = Some e \<Longrightarrow> key_of e = (hop, i) \<and> e \<in> set es"
  by (auto simp: find_Some_iff tx_key_iff)

lemma accounts_update_first:
  assumes "find (tx_key hop i) es = Some e"
  shows "n_live (update_first (tx_key hop i) f es) + live1 e = n_live es + live1 (f e)"
    "n_ready (update_first (tx_key hop i) f es) + ready1 e = n_ready es + ready1 (f e)"
    "n_reserved (update_first (tx_key hop i) f es) + tx_reserved e = n_reserved es + tx_reserved (f e)"
  using assms unfolding account_defs by (simp_all add: sum_update_first)

lemma expire_entry_Some:
  assumes "expire_entry now_us retention e = Some e'"
  shows "key_of e' = key_of e" "tx_request e' = tx_request e" "entry_ok e \<Longrightarrow> entry_ok e'"
    "live1 e' \<le> live1 e" "tx_reserved e' \<le> tx_reserved e"
  using assms by (auto simp: expire_entry_def Let_def mark_expired_def key_of_def entry_ok_def live_def live1_def split: if_splits)

lemma set_map_filter_iff: "y \<in> set (List.map_filter f xs) \<longleftrightarrow> (\<exists>x \<in> set xs. f x = Some y)"
  by (induction xs) (auto simp: List.map_filter_simps split: option.splits)

lemma map_filter_accounts:
  fixes now_us retention es
  defines "es' \<equiv> List.map_filter (expire_entry now_us retention) es"
  shows "n_live es' \<le> n_live es" "n_reserved es' \<le> n_reserved es" "length es' \<le> length es"
    "distinct (map key_of es) \<Longrightarrow> distinct (map key_of es')"
proof -
  show "n_live es' \<le> n_live es" "n_reserved es' \<le> n_reserved es" "length es' \<le> length es"
    unfolding es'_def by (induction es) (auto simp: List.map_filter_simps add_le_mono trans_le_add2 expire_entry_Some split: option.splits)
  show "distinct (map key_of es')" if "distinct (map key_of es)"
    using that unfolding es'_def
  proof (induction es)
    case (Cons e es)
    have "key_of e \<notin> key_of ` set (List.map_filter (expire_entry now_us retention) es)"
      using Cons.prems by (auto simp: set_map_filter_iff expire_entry_Some(1))
    with Cons show ?case by (auto simp: List.map_filter_simps expire_entry_Some(1) split: option.splits)
  qed (simp add: List.map_filter_simps)
qed

lemma setup_expire_eq:
  assumes "setup_inv t"
  shows "fst (setup_expire now_us t) = (let es = List.map_filter (expire_entry now_us (retention_us t)) (tx_entries t)
     in set_counters (n_live es, n_ready es, n_reserved es) (t\<lparr>tx_entries := es\<rparr>))"
  using expire_loop_eq [of "tx_entries t" now_us "retention_us t" 0 0 0] assms
  by (auto simp: setup_expire_def setup_inv_def Let_def)

lemma setup_inv_expire:
  assumes "setup_inv t"
  shows "setup_inv (fst (setup_expire now_us t))"
proof -
  let ?es = "List.map_filter (expire_entry now_us (retention_us t)) (tx_entries t)"
  have "\<forall>e \<in> set ?es. entry_ok e"
    using assms expire_entry_Some(3) by (auto simp: set_map_filter_iff setup_inv_def)
  with assms map_filter_accounts [where now_us = now_us and retention = "retention_us t" and es = "tx_entries t"] show ?thesis
    by (simp add: setup_expire_eq setup_inv_def set_counters_def counters_of_def Let_def)
qed


lemma accounts_member:
  assumes "find (tx_key hop i) es = Some e"
  shows "live1 e \<le> n_live es" "ready1 e \<le> n_ready es" "tx_reserved e \<le> n_reserved es"
  using find_tx [OF assms] by (auto simp: account_defs intro!: member_le_sum_list)

lemma setup_inv_update:
  assumes t: "setup_inv t" and e: "find (tx_key hop i) (tx_entries t) = Some e"
    and f: "\<And>e. key_of (f e) = key_of e" "entry_ok (f e)" "tx_reserved (f e) \<le> tx_reserved e" "live1 (f e) \<le> live1 e"
    and c: "c = (n_live (tx_entries t) - live1 e + live1 (f e), n_ready (tx_entries t) - ready1 e + ready1 (f e),
                 n_reserved (tx_entries t) - tx_reserved e + tx_reserved (f e))"
  shows "setup_inv (set_counters c (t\<lparr>tx_entries := update_first (tx_key hop i) f (tx_entries t)\<rparr>))"
proof -
  let ?es = "update_first (tx_key hop i) f (tx_entries t)"
  have "map key_of ?es = map key_of (tx_entries t)" by (rule map_key_update_first) (rule f)
  moreover have "entry_ok x" if "x \<in> set ?es" for x
  proof -
    have "e = y" if "tx_key hop i y" "y \<in> set (tx_entries t)" for y
      using t e that find_key_unique [of key_of "tx_entries t" y] by (simp add: setup_inv_def tx_key_eq tx_key_iff)
    with that f(2) t show ?thesis by (auto simp: setup_inv_def dest!: set_update_first)
  qed
  ultimately show ?thesis
    using accounts_member [OF e]
      t f(3,4) accounts_update_first [OF e, of f] by (auto simp: setup_inv_def set_counters_def counters_of_def c)
qed

lemma setup_inv_begin:
  assumes "setup_inv t"
  shows "setup_inv (fst (setup_begin mem hop i request reply_capacity now_us deadline t))"
proof -
  have "setup_inv (fst (setup_expire now_us t))" using assms by (rule setup_inv_expire)
  then show ?thesis
    unfolding setup_begin_def Let_def
    by (auto simp: setup_inv_def counters_of_def checked_add_def entry_ok_def live_def live1_def ready1_def find_None_iff tx_key_iff
         split: option.splits) (auto simp: key_of_def)
qed

lemma setup_inv_complete:
  assumes "setup_inv t"
  shows "setup_inv (fst (setup_complete hop i reply now_us t))"
proof (cases "find (tx_key hop i) (tx_entries t)")
  case (Some e)
  let ?f = "\<lambda>e. e\<lparr>tx_reply := tx_reply e @ reply, reply_ready := True, cache_expiry_us := sat_add64 now_us (retention_us t)\<rparr>"
  have "setup_inv (fst (setup_complete hop i reply now_us t))"
    if live: "\<not> tx_expired e" "\<not> reply_ready e" and g: "\<not> pending_deadline_us e \<le> now_us" "reply \<noteq> []" "\<not> tx_reserved e < length reply"
  proof -
    have "entry_ok e" using assms find_tx [OF Some] by (simp add: setup_inv_def)
    then have "entry_ok (?f e)" using live g by (simp add: entry_ok_def live_def)
    moreover have one: "live1 e = 1" "ready1 e = 0" "live1 (?f e) = 0" "ready1 (?f e) = 1"
      using live by (simp_all add: live1_def ready1_def live_def)
    moreover have "counters_of t = (n_live (tx_entries t), n_ready (tx_entries t), n_reserved (tx_entries t))"
      using assms by (simp add: setup_inv_def)
    ultimately have "setup_inv (set_counters (pending_count t - 1, cached_count t + 1, reserved_reply_bytes t)
        (t\<lparr>tx_entries := update_first (tx_key hop i) ?f (tx_entries t)\<rparr>))"
      using accounts_member [OF Some] by (intro setup_inv_update [OF assms Some]) (simp_all add: key_of_def counters_of_def)
    then show ?thesis using live g Some by (simp add: setup_complete_def set_counters_def)
  qed
  with assms Some show ?thesis by (auto simp: setup_complete_def)
qed (simp add: setup_complete_def assms)

lemma setup_inv_mark:
  assumes t: "setup_inv t" and e: "find (tx_key hop i) (tx_entries t) = Some e"
    and f: "\<And>e. key_of (f e) = key_of e" "reply_ready (f e) = reply_ready e" "tx_expired (f e) = tx_expired e"
      "tx_reply (f e) = tx_reply e" "tx_reserved (f e) = tx_reserved e"
  shows "setup_inv (t\<lparr>tx_entries := update_first (tx_key hop i) f (tx_entries t)\<rparr>)"
proof -
  have "entry_ok (f e) = entry_ok e" "live1 (f e) = live1 e" "ready1 (f e) = ready1 e"
    using f by (simp_all add: entry_ok_def live1_def live_def ready1_def)
  moreover have "entry_ok e" using t find_tx [OF e] by (simp add: setup_inv_def)
  moreover have "counters_of t = (n_live (tx_entries t), n_ready (tx_entries t), n_reserved (tx_entries t))"
    using t by (simp add: setup_inv_def)
  ultimately have "setup_inv (set_counters (counters_of t) (t\<lparr>tx_entries := update_first (tx_key hop i) f (tx_entries t)\<rparr>))"
    using accounts_member [OF e] f by (intro setup_inv_update [OF t e]) simp_all
  then show ?thesis by (simp add: set_counters_def counters_of_def)
qed

lemma setup_inv_set:
  assumes "setup_inv t"
  shows "setup_inv (fst (set_downstream_hop hop i downstream t))" "setup_inv (fst (set_relay_state hop i st t))"
  using assms by (auto simp: set_downstream_hop_def set_relay_state_def key_of_def intro!: setup_inv_mark split: option.splits)

lemma setup_inv_complete_from:
  "setup_inv t \<Longrightarrow> setup_inv (fst (complete_from_downstream downstream i reply now_us t))"
  using setup_inv_complete [of t]
  by (auto simp: complete_from_downstream_def split: option.splits prod.splits sum.splits) (metis fst_conv)+

lemma setup_inv_cancel:
  assumes "setup_inv t"
  shows "setup_inv (fst (setup_cancel hop i t))"
proof (cases "find (tx_key hop i) (tx_entries t)")
  case (Some e)
  define e' where "e' = fst (mark_expired (retention_us t) e (counters_of t))"
  have c: "counters_of t = (n_live (tx_entries t), n_ready (tx_entries t), n_reserved (tx_entries t))"
    and ok: "entry_ok e" using assms find_tx [OF Some] by (auto simp: setup_inv_def)
  have "entry_ok e'" "tx_reserved e' \<le> tx_reserved e" "live1 e' \<le> live1 e" "key_of e' = key_of e"
    using ok by (auto simp: e'_def mark_expired_def entry_ok_def live1_def live_def key_of_def split: prod.splits)
  moreover have "snd (mark_expired (retention_us t) e (counters_of t))
    = (n_live (tx_entries t) - live1 e + live1 e', n_ready (tx_entries t) - ready1 e + ready1 e',
       n_reserved (tx_entries t) - tx_reserved e + tx_reserved e')"
    using accounts_member [OF Some] by (auto simp: c e'_def mark_expired_def live1_def live_def ready1_def)
  ultimately have "setup_inv (set_counters (snd (mark_expired (retention_us t) e (counters_of t)))
      (t\<lparr>tx_entries := update_first (tx_key hop i) (\<lambda>x. if key_of x = (hop, i) then e' else x) (tx_entries t)\<rparr>))"
    using find_tx [OF Some] by (intro setup_inv_update [OF assms Some]) simp_all
  moreover have "update_first (tx_key hop i) (\<lambda>x. if key_of x = (hop, i) then e' else x) es = update_first (tx_key hop i) (\<lambda>_. e') es" for es
    by (induction es) (auto simp: tx_key_iff)
  ultimately show ?thesis
    using Some by (cases "mark_expired (retention_us t) e (counters_of t)") (simp add: setup_cancel_def e'_def)
qed (simp add: setup_cancel_def assms)

section \<open>Runs\<close>

text \<open>The operations of the table, with clocks before \<open>limit\<close>.\<close>

inductive setup_step :: "u64 \<Rightarrow> SetupTransactionTable \<Rightarrow> SetupTransactionTable \<Rightarrow> bool" for limit where
  Begin: "now_us < limit \<Longrightarrow> setup_step limit t (fst (setup_begin mem hop i request reply_capacity now_us deadline t))"
| Complete: "now_us < limit \<Longrightarrow> setup_step limit t (fst (setup_complete hop i reply now_us t))"
| SetHop: "setup_step limit t (fst (set_downstream_hop hop i downstream t))"
| SetRelay: "setup_step limit t (fst (set_relay_state hop i st t))"
| CompleteFrom: "now_us < limit \<Longrightarrow> setup_step limit t (fst (complete_from_downstream downstream i reply now_us t))"
| Cancel: "setup_step limit t (fst (setup_cancel hop i t))"
| Expire: "now_us < limit \<Longrightarrow> setup_step limit t (fst (setup_expire now_us t))"

definition setup_start :: "SetupTransactionTable \<Rightarrow> bool" where
  "setup_start t \<longleftrightarrow> (\<exists>pending cached request reply reserved retention. t = setup_new pending cached request reply reserved retention)"

interpretation setup_table: stateful setup_start "setup_step limit" setup_inv for limit
proof
  show "setup_inv t" if "setup_start t" for t
    using that by (auto simp: setup_start_def setup_inv_def setup_new_def counters_of_def)
  show "setup_inv t'" if "setup_inv t" "setup_step limit t t'" for t t'
    using that(2,1)
    by cases (auto intro: setup_inv_begin setup_inv_complete setup_inv_set setup_inv_complete_from setup_inv_cancel setup_inv_expire)
qed

lemma accounts_length: "n_live es = length (filter live es)" "n_ready es = length (filter reply_ready es)"
  by (induction es) (simp_all add: live1_def ready1_def)

definition has_reply :: "u64 \<Rightarrow> ForwardNextHop \<Rightarrow> u64 \<Rightarrow> u8 list \<Rightarrow> u8 list \<Rightarrow> SetupTransactionTable \<Rightarrow> bool" where
  "has_reply limit hop i request reply t \<longleftrightarrow> (case find (tx_key hop i) (tx_entries t) of
     None \<Rightarrow> False
   | Some e \<Rightarrow> reply_ready e \<and> tx_request e = request \<and> tx_reply e = reply \<and> limit \<le> cache_expiry_us e)"

lemma find_tx_update:
  "(\<And>x. find (tx_key hop i) es = Some x \<Longrightarrow> key_of (f x) = key_of x) \<Longrightarrow>
   find (tx_key hop' i') (update_first (tx_key hop i) f es)
     = (if (hop', i') = (hop, i) then map_option f (find (tx_key hop i) es) else find (tx_key hop' i') es)"
  by (induction es) (auto simp: tx_key_iff)

lemma has_reply_expire:
  assumes "setup_inv t" "has_reply limit hop i request reply t" "now_us < limit"
  shows "has_reply limit hop i request reply (fst (setup_expire now_us t))"
proof -
  let ?es = "List.map_filter (expire_entry now_us (retention_us t)) (tx_entries t)"
  obtain e where e: "find (tx_key hop i) (tx_entries t) = Some e" "reply_ready e" "tx_request e = request"
      "tx_reply e = reply" "limit \<le> cache_expiry_us e"
    using assms(2) by (auto simp: has_reply_def split: option.splits)
  then have "expire_entry now_us (retention_us t) e = Some e"
    using assms(3) by (auto simp: expire_entry_def live_def)
  then have "e \<in> set ?es" using find_tx [OF e(1)] by (auto simp: set_map_filter_iff)
  moreover have "distinct (map key_of ?es)"
    using assms(1) by (intro map_filter_accounts(4)) (simp add: setup_inv_def)
  ultimately have "find (tx_key hop i) ?es = Some e"
    using find_key_unique [of key_of ?es e] find_tx [OF e(1)] by (simp add: tx_key_eq)
  with e show ?thesis by (simp add: has_reply_def setup_expire_eq [OF assms(1)] set_counters_def Let_def)
qed

lemma find_append_Some: "find P xs = Some x \<Longrightarrow> find P (xs @ ys) = Some x"
  by (induction xs) auto

lemma has_reply_begin:
  assumes "setup_inv t" "has_reply limit hop i request reply t" "now_us < limit"
  shows "has_reply limit hop i request reply (fst (setup_begin mem hop' i' request' reply_capacity now_us deadline t))"
  using has_reply_expire [OF assms] unfolding setup_begin_def Let_def
  by (auto simp: has_reply_def find_append_Some split: option.splits)

lemma has_reply_update:
  assumes "has_reply limit hop i request reply t"
    and "\<And>x. find (tx_key hop' i') (tx_entries t) = Some x \<Longrightarrow> key_of (f x) = key_of x"
    and "\<And>x. find (tx_key hop' i') (tx_entries t) = Some x \<Longrightarrow> \<not> reply_ready x \<or> f x = x"
  shows "has_reply limit hop i request reply (set_counters c (t\<lparr>tx_entries := update_first (tx_key hop' i') f (tx_entries t)\<rparr>))"
  using assms by (auto simp: has_reply_def find_tx_update set_counters_def split: option.splits prod.splits)

lemma has_reply_complete:
  assumes "has_reply limit hop i request reply t"
  shows "has_reply limit hop i request reply (fst (setup_complete hop' i' reply' now_us t))"
proof -
  let ?f = "\<lambda>e. e\<lparr>tx_reply := tx_reply e @ reply', reply_ready := True, cache_expiry_us := sat_add64 now_us (retention_us t)\<rparr>"
  have "has_reply limit hop i request reply (set_counters (pending_count t - 1, cached_count t + 1, reserved_reply_bytes t)
      (t\<lparr>tx_entries := update_first (tx_key hop' i') ?f (tx_entries t)\<rparr>))"
    if "find (tx_key hop' i') (tx_entries t) = Some e" "\<not> reply_ready e" for e
    using that by (intro has_reply_update [OF assms]) (auto simp: key_of_def)
  with assms show ?thesis by (auto simp: setup_complete_def set_counters_def split: option.splits)
qed

lemma has_reply_mark:
  assumes "has_reply limit hop i request reply t" "find (tx_key hop' i') (tx_entries t) = Some e"
    and "\<not> reply_ready e" "key_of (f e) = key_of e"
  shows "has_reply limit hop i request reply (t\<lparr>tx_entries := update_first (tx_key hop' i') f (tx_entries t)\<rparr>)"
  using has_reply_update [OF assms(1), of hop' i' f "counters_of t"] assms(2-4) by (simp add: set_counters_def counters_of_def)

lemma has_reply_set:
  assumes "has_reply limit hop i request reply t"
  shows "has_reply limit hop i request reply (fst (set_downstream_hop hop' i' downstream t))"
    "has_reply limit hop i request reply (fst (set_relay_state hop' i' st t))"
  using assms by (auto simp: set_downstream_hop_def set_relay_state_def key_of_def intro!: has_reply_mark split: option.splits)

lemma has_reply_complete_from:
  "has_reply limit hop i request reply t \<Longrightarrow> has_reply limit hop i request reply (fst (complete_from_downstream downstream i' reply' now_us t))"
  using has_reply_complete [of limit hop i request reply t]
  by (auto simp: complete_from_downstream_def split: option.splits prod.splits sum.splits) (metis fst_conv)+

lemma has_reply_cancel:
  assumes "has_reply limit hop i request reply t"
  shows "has_reply limit hop i request reply (fst (setup_cancel hop' i' t))"
proof (cases "find (tx_key hop' i') (tx_entries t)")
  case (Some e)
  obtain e' c where m: "mark_expired (retention_us t) e (counters_of t) = (e', c)" by (rule prod.exhaust)
  then have "key_of e' = key_of e" "reply_ready e \<longrightarrow> e' = e"
    by (auto simp: mark_expired_def key_of_def split: if_splits prod.splits)
  with Some m show ?thesis by (auto simp: setup_cancel_def intro!: has_reply_update [OF assms])
qed (simp add: setup_cancel_def assms)

interpretation setup_reply: stateful "\<lambda>t. setup_inv t \<and> has_reply limit hop i request reply t" "setup_step limit"
  "\<lambda>t. setup_inv t \<and> has_reply limit hop i request reply t" for limit hop i request reply
proof
  show "setup_inv t' \<and> has_reply limit hop i request reply t'"
    if "setup_inv t \<and> has_reply limit hop i request reply t" "setup_step limit t t'" for t t'
  proof
    show "setup_inv t'" using that setup_table.inv_step by blast
    show "has_reply limit hop i request reply t'"
      using that(2,1) by cases
        (auto intro: has_reply_begin has_reply_complete has_reply_set has_reply_complete_from has_reply_cancel has_reply_expire)
  qed
qed

lemma setup_complete_has_reply:
  assumes "setup_inv t" "find (tx_key hop i) (tx_entries t) = Some e" "setup_complete hop i reply now_us t = (t1, Inr ())"
  shows "has_reply (sat_add64 now_us (retention_us t)) hop i (tx_request e) reply t1"
proof -
  have live: "\<not> tx_expired e" "\<not> reply_ready e"
    using assms(2,3) by (auto simp: setup_complete_def split: if_splits)
  moreover have "entry_ok e" using assms(1) find_tx [OF assms(2)] by (simp add: setup_inv_def)
  ultimately have "tx_reply e = []" by (simp add: entry_ok_def live_def)
  moreover have "tx_entries t1 = update_first (tx_key hop i)
      (\<lambda>e. e\<lparr>tx_reply := tx_reply e @ reply, reply_ready := True, cache_expiry_us := sat_add64 now_us (retention_us t)\<rparr>) (tx_entries t)"
    using assms(2,3) by (auto simp: setup_complete_def split: if_splits)
  ultimately show ?thesis using assms(2) by (simp add: has_reply_def find_tx_update key_of_def)
qed

end
