(* ===== verification/Setup_Codec.thy ===== *)
theory Setup_Codec
  imports Setup_Table Flow_Control
begin

text \<open>
  The messages that set up a circuit through relays (\<^verbatim>\<open>quic-lite/src/relay.rs\<close>): the request with one
  instruction block per hop, the rewriting of it by each relay, the reply, and the check of a reply against
  the pending transaction. A position in the input is modelled by the bytes that are left to read.
\<close>

section \<open>Constants and primitives\<close>

definition SETUP_VERSION :: u8 where "SETUP_VERSION = 1"
definition SETUP_REQUEST_VERSION :: u8 where "SETUP_REQUEST_VERSION = 2"
definition MAX_SETUP_BLOCKS :: usize where "MAX_SETUP_BLOCKS = 8"
definition MAX_SETUP_BLOCK_BYTES :: usize where "MAX_SETUP_BLOCK_BYTES = 256"
definition MAX_SETUP_BODY_BYTES :: usize where "MAX_SETUP_BODY_BYTES = DEFAULT_MAX_PACKET_SIZE - 64"
definition DEFAULT_SETUP_REPLY_BYTES :: usize where "DEFAULT_SETUP_REPLY_BYTES = 256"
definition SETUP_BLOCK_RELAY :: u8 where "SETUP_BLOCK_RELAY = 1"
definition MAX_SETUP_BOOTSTRAP_ACK_BYTES :: usize where "MAX_SETUP_BOOTSTRAP_ACK_BYTES = 128"
definition MAX_SETUP_HOP_ADDRESS_BYTES :: usize where "MAX_SETUP_HOP_ADDRESS_BYTES = 18"
definition MAX_NEARBY_RETURN_RELAYS :: usize where "MAX_NEARBY_RETURN_RELAYS = 3"

definition put_setup_byte :: "u8 \<Rightarrow> nat \<Rightarrow> u8 list result" where
  "put_setup_byte v cap = (if cap = 0 then Inl BufferTooSmall else Inr [v])"

definition take_setup_byte :: "u8 list \<Rightarrow> (u8 \<times> u8 list) result" where
  "take_setup_byte input = (case input of [] \<Rightarrow> Inl Invalid | b # rest \<Rightarrow> Inr (b, rest))"

definition take_varint :: "u8 list \<Rightarrow> (u64 \<times> u8 list) result" where
  "take_varint input = bindE (get_varint input) (\<lambda>(v, used). Inr (v, drop used input))"

definition take_cid :: "u8 list \<Rightarrow> (ConnectionId \<times> u8 list) result" where
  "take_cid input = bindE (cid_decode input) (\<lambda>(cid, used). Inr (cid, drop used input))"

section \<open>Hop instructions and endpoint payloads\<close>

record SetupHopInstruction =
  address_kind :: u8
  address_len :: u8
  address :: "u8 list"
  lease_us :: u64
  hop_quota :: u64

definition hop_encode :: "SetupHopInstruction \<Rightarrow> nat \<Rightarrow> u8 list result" where
  "hop_encode h cap =
     (let len = unat (address_len h)
      in if address_kind h = 0 \<or> len = 0 \<or> len > MAX_SETUP_HOP_ADDRESS_BYTES \<or> lease_us h = 0 \<or> hop_quota h = 0
         then Inl Invalid
         else bindE (seqE (put_setup_byte (address_kind h)) (seqE (put_setup_byte (address_len h))
             (seqE (put_slice (take len (address h))) (seqE (put_varint (lease_us h)) (put_varint (hop_quota h))))) cap) (\<lambda>out.
           if length out > MAX_SETUP_BLOCK_BYTES then Inl Invalid else Inr out))"

definition hop_decode :: "u8 list \<Rightarrow> SetupHopInstruction result" where
  "hop_decode input =
     bindE (take_setup_byte input) (\<lambda>(kind, rest).
     bindE (take_setup_byte rest) (\<lambda>(len, rest).
     if kind = 0 \<or> unat len = 0 \<or> unat len > MAX_SETUP_HOP_ADDRESS_BYTES \<or> length rest < unat len then Inl Invalid
     else
       let addr = take (unat len) rest @ replicate (MAX_SETUP_HOP_ADDRESS_BYTES - unat len) 0
       in bindE (take_varint (drop (unat len) rest)) (\<lambda>(lease, rest).
          bindE (take_varint rest) (\<lambda>(quota, rest).
          if lease = 0 \<or> quota = 0 \<or> rest \<noteq> [] then Inl Invalid
          else Inr \<lparr>address_kind = kind, address_len = len, address = addr, lease_us = lease, hop_quota = quota\<rparr>))))"

record SetupJoinEndpoint =
  join_cid :: ConnectionId
  opener_receive_cid :: ConnectionId

definition join_encode :: "SetupJoinEndpoint \<Rightarrow> nat \<Rightarrow> u8 list result" where
  "join_encode j cap =
     (if cid_value (join_cid j) = 0 \<or> cid_value (opener_receive_cid j) = 0 then Inl Invalid
      else seqE (cid_encode (join_cid j)) (cid_encode (opener_receive_cid j)) cap)"

definition join_decode :: "u8 list \<Rightarrow> SetupJoinEndpoint result" where
  "join_decode input =
     bindE (take_cid input) (\<lambda>(j, rest).
     bindE (take_cid rest) (\<lambda>(opener, rest).
     if cid_value j = 0 \<or> cid_value opener = 0 \<or> rest \<noteq> [] then Inl Invalid
     else Inr \<lparr>join_cid = j, opener_receive_cid = opener\<rparr>))"

text \<open>
  \<^verbatim>\<open>RelayHop\<close> has the fields of a hop instruction, and the code copies them one by one. The hints are the
  entries in use of the fixed array of \<^verbatim>\<open>NearbyRelayHints\<close>.
\<close>

record NearbyRelayHint =
  relay_id :: "u8 list"
  hint_hop :: SetupHopInstruction

definition hints_new :: "NearbyRelayHint list \<Rightarrow> NearbyRelayHint list option" where
  "hints_new hints =
     (if length hints > MAX_NEARBY_RETURN_RELAYS then None
      else if list_ex (\<lambda>i. relay_id (hints ! i) = replicate 8 0
                 \<or> list_ex (\<lambda>previous. relay_id previous = relay_id (hints ! i)) (take i hints)) [0..<length hints]
      then None else Some hints)"

record SetupCreateEndpoint =
  initial_packet :: "u8 list"
  return_hints :: "NearbyRelayHint list"

fun encode_hints :: "NearbyRelayHint list \<Rightarrow> nat \<Rightarrow> u8 list result" where
  "encode_hints [] cap = Inr []"
| "encode_hints (hint # hints) cap =
     seqE (put_slice (relay_id hint)) (\<lambda>cap.
       bindE (hop_encode (hint_hop hint) MAX_SETUP_BLOCK_BYTES) (\<lambda>hop.
         seqE (put_varint (length hop)) (seqE (put_slice hop) (encode_hints hints)) cap)) cap"

definition create_encode :: "SetupCreateEndpoint \<Rightarrow> nat \<Rightarrow> u8 list result" where
  "create_encode c cap =
     (if initial_packet c = [] \<or> length (return_hints c) > MAX_NEARBY_RETURN_RELAYS then Inl Invalid
      else bindE (seqE (put_varint (length (initial_packet c)))
          (seqE (put_slice (initial_packet c @ [word_of_nat (length (return_hints c))])) (encode_hints (return_hints c))) cap) (\<lambda>out.
        if length out > MAX_SETUP_BLOCK_BYTES then Inl BufferTooSmall else Inr out))"

fun decode_hints :: "nat \<Rightarrow> u8 list \<Rightarrow> (NearbyRelayHint list \<times> u8 list) result" where
  "decode_hints 0 rest = Inr ([], rest)"
| "decode_hints (Suc n) rest =
     bindE (guardE Truncated (8 \<le> length rest)) (\<lambda>_.
     bindE (take_varint (drop 8 rest)) (\<lambda>(len, after).
     bindE (guardE Truncated (len \<le> length after)) (\<lambda>_.
     bindE (hop_decode (take len after)) (\<lambda>hop.
     bindE (decode_hints n (drop len after)) (\<lambda>(hints, rest').
       Inr (\<lparr>relay_id = take 8 rest, hint_hop = hop\<rparr> # hints, rest'))))))"

definition create_decode :: "u8 list \<Rightarrow> u8 \<Rightarrow> (u8 list \<times> NearbyRelayHint list) result" where
  "create_decode payload block_version =
     (if block_version = 1 then Inr (payload, [])
      else if block_version \<noteq> 2 then Inl Invalid
      else bindE (take_varint payload) (\<lambda>(len, rest).
        if len = 0 \<or> len \<ge> length rest then Inl Invalid
        else bindE (take_setup_byte (drop len rest)) (\<lambda>(count, hints_at).
          if unat count > MAX_NEARBY_RETURN_RELAYS then Inl Invalid
          else bindE (decode_hints (unat count) hints_at) (\<lambda>(hints, end).
            if end \<noteq> [] then Inl Invalid
            else bindE (ok_or Invalid (hints_new hints)) (\<lambda>hints. Inr (take len rest, hints))))))"

section \<open>The request\<close>

datatype SetupMode = CreateMode | JoinMode

datatype RelayRouteMode = Layered | VipRouted | Telescoping

record SetupCircuitKey =
  sck_opener_role :: Role
  sck_sequence :: u64

record SetupBlock =
  blk_kind :: u8
  blk_version :: u8
  blk_protection :: u8
  blk_payload :: "u8 list"

record SetupRequest =
  rq_transaction_id :: u64
  rq_mode :: SetupMode
  rq_route_mode :: RelayRouteMode
  rq_circuit :: SetupCircuitKey
  destination_vip :: "u64 option"
  previous_reverse_cid :: "ConnectionId option"
  rq_blocks :: "SetupBlock list"

definition block_bad :: "SetupBlock \<Rightarrow> bool" where
  "block_bad b \<longleftrightarrow> blk_kind b = 0 \<or> blk_version b = 0 \<or> blk_protection b \<noteq> 0 \<or> blk_payload b = []
     \<or> length (blk_payload b) > MAX_SETUP_BLOCK_BYTES"

definition mode_byte :: "SetupMode \<Rightarrow> u8" where
  "mode_byte m = (case m of CreateMode \<Rightarrow> 0 | JoinMode \<Rightarrow> 1)"

definition route_mode_byte :: "RelayRouteMode \<Rightarrow> u8" where
  "route_mode_byte m = (case m of Layered \<Rightarrow> 0 | VipRouted \<Rightarrow> 1 | Telescoping \<Rightarrow> 2)"

definition role_byte :: "Role \<Rightarrow> u8" where
  "role_byte r = (case r of Client \<Rightarrow> 0 | Server \<Rightarrow> 1)"

definition put_vip :: "u64 option \<Rightarrow> nat \<Rightarrow> u8 list result" where
  "put_vip vip = (case vip of
     Some v \<Rightarrow> seqE (put_setup_byte 1) (put_slice (be_bytes 8 v)) | None \<Rightarrow> put_setup_byte 0)"

definition put_reverse_cid :: "ConnectionId option \<Rightarrow> nat \<Rightarrow> u8 list result" where
  "put_reverse_cid cid = (case cid of
     Some c \<Rightarrow> seqE (put_setup_byte 1) (cid_encode c) | None \<Rightarrow> put_setup_byte 0)"

text \<open>The fields before the blocks; requests of version one have no byte for the route mode.\<close>

definition put_request_head :: "u8 \<Rightarrow> u64 \<Rightarrow> SetupMode \<Rightarrow> RelayRouteMode \<Rightarrow> SetupCircuitKey \<Rightarrow> u64 option \<Rightarrow> ConnectionId option
    \<Rightarrow> usize \<Rightarrow> nat \<Rightarrow> u8 list result" where
  "put_request_head version transaction_id mode route_mode circuit vip rcid count =
     seqE (put_setup_byte version) (seqE (put_varint transaction_id) (seqE (put_setup_byte (mode_byte mode))
     (seqE (if version \<ge> SETUP_REQUEST_VERSION then put_setup_byte (route_mode_byte route_mode) else (\<lambda>cap. Inr []))
     (seqE (put_setup_byte (role_byte (sck_opener_role circuit))) (seqE (put_varint (sck_sequence circuit))
     (seqE (put_vip vip) (seqE (put_reverse_cid rcid) (put_varint count))))))))"

definition put_block :: "SetupBlock \<Rightarrow> nat \<Rightarrow> u8 list result" where
  "put_block b = seqE (put_setup_byte (blk_kind b)) (seqE (put_setup_byte (blk_version b)) (seqE (put_setup_byte (blk_protection b))
     (seqE (put_varint (length (blk_payload b))) (put_slice (blk_payload b)))))"

text \<open>\<open>used\<close> is the number of bytes written before the block.\<close>

fun put_blocks :: "SetupBlock list \<Rightarrow> usize \<Rightarrow> nat \<Rightarrow> u8 list result" where
  "put_blocks [] used cap = Inr []"
| "put_blocks (b # bs) used cap = bindE (put_block b cap) (\<lambda>out.
     if used + length out > MAX_SETUP_BODY_BYTES then Inl Invalid
     else bindE (put_blocks bs (used + length out) (cap - length out)) (\<lambda>rest. Inr (out @ rest)))"

definition request_encode :: "SetupRequest \<Rightarrow> nat \<Rightarrow> u8 list result" where
  "request_encode rq cap =
     (if rq_transaction_id rq = 0 \<or> sck_sequence (rq_circuit rq) = 0 \<or> rq_blocks rq = [] \<or> length (rq_blocks rq) > MAX_SETUP_BLOCKS
         \<or> destination_vip rq = Some 0 \<or> (case previous_reverse_cid rq of None \<Rightarrow> False | Some cid \<Rightarrow> cid_value cid = 0)
         \<or> list_ex block_bad (rq_blocks rq)
      then Inl Invalid
      else bindE (put_request_head SETUP_REQUEST_VERSION (rq_transaction_id rq) (rq_mode rq) (rq_route_mode rq) (rq_circuit rq)
          (destination_vip rq) (previous_reverse_cid rq) (length (rq_blocks rq)) cap) (\<lambda>head.
        bindE (put_blocks (rq_blocks rq) (length head) (cap - length head)) (\<lambda>blocks. Inr (head @ blocks))))"

definition request_encode_packet :: "SetupRequest \<Rightarrow> nat \<Rightarrow> u8 list result" where
  "request_encode_packet rq cap = bindE (request_encode rq MAX_SETUP_BODY_BYTES) (\<lambda>body.
     encode_long_packet LONG_PACKET_PATH_OPEN None None 0 1 body cap)"

record SetupBlockBytes =
  bb_bytes :: "u8 list"
  bb_count :: usize

record SetupRequestView =
  rv_version :: u8
  rv_transaction_id :: u64
  rv_mode :: SetupMode
  rv_route_mode :: RelayRouteMode
  rv_circuit :: SetupCircuitKey
  rv_destination_vip :: "u64 option"
  rv_previous_reverse_cid :: "ConnectionId option"
  rv_blocks :: SetupBlockBytes
  rv_raw :: "u8 list"

definition take_mode :: "u8 list \<Rightarrow> (SetupMode \<times> u8 list) result" where
  "take_mode input = bindE (take_setup_byte input) (\<lambda>(b, rest).
     if b = 0 then Inr (CreateMode, rest) else if b = 1 then Inr (JoinMode, rest) else Inl Invalid)"

definition take_route_mode :: "u8 \<Rightarrow> u8 list \<Rightarrow> (RelayRouteMode \<times> u8 list) result" where
  "take_route_mode version input =
     (if version = SETUP_VERSION then Inr (Layered, input)
      else bindE (take_setup_byte input) (\<lambda>(b, rest).
        if b = 0 then Inr (Layered, rest) else if b = 1 then Inr (VipRouted, rest)
        else if b = 2 then Inr (Telescoping, rest) else Inl Invalid))"

definition take_role :: "u8 list \<Rightarrow> (Role \<times> u8 list) result" where
  "take_role input = bindE (take_setup_byte input) (\<lambda>(b, rest).
     if b = 0 then Inr (Client, rest) else if b = 1 then Inr (Server, rest) else Inl Invalid)"

definition take_vip :: "u8 list \<Rightarrow> (u64 option \<times> u8 list) result" where
  "take_vip input = bindE (take_setup_byte input) (\<lambda>(b, rest).
     if b = 0 then Inr (None, rest)
     else if b = 1 then
       (if length rest < 8 then Inl Invalid
        else let vip = be_fold 0 (take 8 rest)
             in if vip = 0 then Inl Invalid else Inr (Some vip, drop 8 rest))
     else Inl Invalid)"

definition take_reverse_cid :: "u8 list \<Rightarrow> (ConnectionId option \<times> u8 list) result" where
  "take_reverse_cid input = bindE (take_setup_byte input) (\<lambda>(b, rest).
     if b = 0 then Inr (None, rest)
     else if b = 1 then bindE (take_cid rest) (\<lambda>(cid, rest).
       if cid_value cid = 0 then Inl Invalid else Inr (Some cid, rest))
     else Inl Invalid)"

fun skip_blocks :: "nat \<Rightarrow> u8 list \<Rightarrow> u8 list result" where
  "skip_blocks 0 rest = Inr rest"
| "skip_blocks (Suc n) rest =
     bindE (take_setup_byte rest) (\<lambda>(kind, rest).
     bindE (take_setup_byte rest) (\<lambda>(version, rest).
     bindE (take_setup_byte rest) (\<lambda>(protection, rest).
     bindE (take_varint rest) (\<lambda>(len, rest).
       if kind = 0 \<or> version = 0 \<or> protection \<noteq> 0 \<or> len = 0 \<or> len > MAX_SETUP_BLOCK_BYTES \<or> length rest < len
       then Inl Invalid else skip_blocks n (drop len rest)))))"

definition request_decode :: "u8 list \<Rightarrow> SetupRequestView result" where
  "request_decode input =
     (if length input > MAX_SETUP_BODY_BYTES \<or> (case input of [] \<Rightarrow> True | v # _ \<Rightarrow> v \<noteq> SETUP_VERSION \<and> v \<noteq> SETUP_REQUEST_VERSION)
      then Inl Invalid
      else
        let version = hd input
        in bindE (take_varint (tl input)) (\<lambda>(transaction_id, rest).
           bindE (take_mode rest) (\<lambda>(mode, rest).
           bindE (take_route_mode version rest) (\<lambda>(route_mode, rest).
           bindE (take_role rest) (\<lambda>(role, rest).
           bindE (take_varint rest) (\<lambda>(sequence, rest).
           bindE (take_vip rest) (\<lambda>(vip, rest).
           bindE (take_reverse_cid rest) (\<lambda>(rcid, rest).
           bindE (take_varint rest) (\<lambda>(count, blocks).
           if transaction_id = 0 \<or> sequence = 0 \<or> count = 0 \<or> count > MAX_SETUP_BLOCKS then Inl Invalid
           else bindE (skip_blocks count blocks) (\<lambda>end.
             if end \<noteq> [] then Inl Invalid
             else Inr \<lparr>rv_version = version, rv_transaction_id = transaction_id, rv_mode = mode, rv_route_mode = route_mode,
                       rv_circuit = \<lparr>sck_opener_role = role, sck_sequence = sequence\<rparr>, rv_destination_vip = vip,
                       rv_previous_reverse_cid = rcid,
                       rv_blocks = \<lparr>bb_bytes = blocks, bb_count = count\<rparr>, rv_raw = input\<rparr>))))))))))"

definition decode_setup_request_packet :: "u8 list \<Rightarrow> SetupRequestView result" where
  "decode_setup_request_packet input = bindE (decode_long_packet input) (\<lambda>(header, body_at, body_len).
     if lh_packet_type header \<noteq> LONG_PACKET_PATH_OPEN \<or> lh_dcid header \<noteq> None \<or> lh_scid header \<noteq> None then Inl Invalid
     else request_decode (take body_len (drop body_at input)))"

section \<open>Blocks of a received request\<close>

definition take_block :: "u8 list \<Rightarrow> (SetupBlock \<times> u8 list) option" where
  "take_block bytes =
     (case take_setup_byte bytes of Inl _ \<Rightarrow> None | Inr (kind, rest) \<Rightarrow>
      case take_setup_byte rest of Inl _ \<Rightarrow> None | Inr (version, rest) \<Rightarrow>
      case take_setup_byte rest of Inl _ \<Rightarrow> None | Inr (protection, rest) \<Rightarrow>
      case take_varint rest of Inl _ \<Rightarrow> None | Inr (len, rest) \<Rightarrow>
        if length rest < len then None
        else Some (\<lparr>blk_kind = kind, blk_version = version, blk_protection = protection, blk_payload = take len rest\<rparr>, drop len rest))"

fun block_at :: "nat \<Rightarrow> u8 list \<Rightarrow> SetupBlock option" where
  "block_at 0 bytes = map_option fst (take_block bytes)"
| "block_at (Suc i) bytes = (case take_block bytes of None \<Rightarrow> None | Some (_, rest) \<Rightarrow> block_at i rest)"

definition blocks_get :: "SetupBlockBytes \<Rightarrow> usize \<Rightarrow> SetupBlock option" where
  "blocks_get bb i = (if i \<ge> bb_count bb then None else block_at i (bb_bytes bb))"

definition current_hop_instruction :: "SetupRequestView \<Rightarrow> SetupHopInstruction result" where
  "current_hop_instruction v = bindE (ok_or Invalid (blocks_get (rv_blocks v) 0)) (\<lambda>b.
     if blk_kind b \<noteq> SETUP_BLOCK_RELAY \<or> blk_version b \<noteq> 1 \<or> blk_protection b \<noteq> 0 then Inl Invalid
     else hop_decode (blk_payload b))"

fun drop_blocks :: "nat \<Rightarrow> u8 list \<Rightarrow> u8 list result" where
  "drop_blocks 0 rest = Inr rest"
| "drop_blocks (Suc n) rest =
     bindE (take_setup_byte rest) (\<lambda>(_, rest).
     bindE (take_setup_byte rest) (\<lambda>(_, rest).
     bindE (take_setup_byte rest) (\<lambda>(_, rest).
     bindE (take_varint rest) (\<lambda>(len, rest).
     bindE (guardE Invalid (len \<le> length rest)) (\<lambda>_. drop_blocks n (drop len rest))))))"

definition encode_after_first_block_with_reverse_cid :: "SetupRequestView \<Rightarrow> ConnectionId option \<Rightarrow> nat \<Rightarrow> u8 list result" where
  "encode_after_first_block_with_reverse_cid v rcid cap =
     (let consumed = (if rv_route_mode v \<noteq> Telescoping then 1 else 0 :: nat)
      in if bb_count (rv_blocks v) \<le> consumed then Inl Invalid
         else bindE (current_hop_instruction v) (\<lambda>_.
           bindE (drop_blocks consumed (bb_bytes (rv_blocks v))) (\<lambda>remaining.
           bindE (seqE (put_request_head (rv_version v) (rv_transaction_id v) (rv_mode v) (rv_route_mode v) (rv_circuit v)
               (rv_destination_vip v) rcid (bb_count (rv_blocks v) - consumed)) (put_slice remaining) cap) (\<lambda>out.
             if length out > MAX_SETUP_BODY_BYTES then Inl Invalid else Inr out))))"

definition encode_after_first_block :: "SetupRequestView \<Rightarrow> nat \<Rightarrow> u8 list result" where
  "encode_after_first_block v cap = encode_after_first_block_with_reverse_cid v (rv_previous_reverse_cid v) cap"

definition encode_packet_after_first_block_with_reverse_cid :: "SetupRequestView \<Rightarrow> ConnectionId option \<Rightarrow> nat \<Rightarrow> u8 list result" where
  "encode_packet_after_first_block_with_reverse_cid v rcid cap =
     bindE (encode_after_first_block_with_reverse_cid v rcid MAX_SETUP_BODY_BYTES) (\<lambda>body.
       encode_long_packet LONG_PACKET_PATH_OPEN None None 0 1 body cap)"

section \<open>The reply\<close>

datatype SetupResult =
    Accepted (endpoint_cid: ConnectionId) (accepted_lease_us: u64)
  | Rejected (reject_code: u64)

text \<open>The acknowledgement bytes in use, and the relay identifiers in use, of the two fixed arrays.\<close>

record SetupReply =
  rp_transaction_id :: u64
  rp_circuit :: SetupCircuitKey
  rp_result :: SetupResult
  bootstrap_ack :: "u8 list option"
  relay_cids :: "ConnectionId list"

definition ack_from_slice :: "u8 list \<Rightarrow> u8 list result" where
  "ack_from_slice input = (if input = [] \<or> length input > MAX_SETUP_BOOTSTRAP_ACK_BYTES then Inl Invalid else Inr input)"

definition relay_cids_first :: "ConnectionId list \<Rightarrow> ConnectionId option" where
  "relay_cids_first cids = (case cids of [] \<Rightarrow> None | cid # _ \<Rightarrow> Some cid)"

definition relay_cids_get :: "ConnectionId list \<Rightarrow> usize \<Rightarrow> ConnectionId option" where
  "relay_cids_get cids i = (if i < length cids then Some (cids ! i) else None)"

definition relay_cids_prepend :: "ConnectionId \<Rightarrow> ConnectionId list \<Rightarrow> ConnectionId list result" where
  "relay_cids_prepend cid cids =
     (if cid_value cid = 0 \<or> length cids \<ge> MAX_SETUP_BLOCKS - 1 then Inl Invalid else Inr (cid # cids))"

fun put_cids :: "ConnectionId list \<Rightarrow> nat \<Rightarrow> u8 list result" where
  "put_cids [] cap = Inr []"
| "put_cids (cid # cids) cap = seqE (cid_encode cid) (put_cids cids) cap"

definition relay_cids_encode :: "ConnectionId list \<Rightarrow> nat \<Rightarrow> u8 list result" where
  "relay_cids_encode cids = seqE (put_varint (length cids)) (put_cids cids)"

fun take_cids :: "nat \<Rightarrow> u8 list \<Rightarrow> (ConnectionId list \<times> u8 list) result" where
  "take_cids 0 rest = Inr ([], rest)"
| "take_cids (Suc n) rest = bindE (take_cid rest) (\<lambda>(cid, rest).
     if cid_value cid = 0 then Inl Invalid
     else bindE (take_cids n rest) (\<lambda>(cids, rest). Inr (cid # cids, rest)))"

definition relay_cids_decode :: "u8 list \<Rightarrow> (ConnectionId list \<times> u8 list) result" where
  "relay_cids_decode input = bindE (take_varint input) (\<lambda>(len, rest).
     if len > MAX_SETUP_BLOCKS - 1 then Inl Invalid else take_cids len rest)"

definition put_result :: "SetupResult \<Rightarrow> nat \<Rightarrow> u8 list result" where
  "put_result r = (case r of
     Accepted cid lease \<Rightarrow>
       if cid_value cid \<noteq> 0 \<and> lease \<noteq> 0 then seqE (put_setup_byte 0) (seqE (cid_encode cid) (put_varint lease))
       else (\<lambda>cap. Inl Invalid)
   | Rejected code \<Rightarrow>
       if code = 0 then (\<lambda>cap. Inl Invalid) else seqE (put_setup_byte 1) (put_varint code))"

definition put_ack :: "SetupResult \<Rightarrow> u8 list option \<Rightarrow> nat \<Rightarrow> u8 list result" where
  "put_ack r ack = (case (r, ack) of
     (Accepted _ _, Some bytes) \<Rightarrow> seqE (put_setup_byte 1) (seqE (put_varint (length bytes)) (put_slice bytes))
   | (_, None) \<Rightarrow> put_setup_byte 0
   | (Rejected _, Some _) \<Rightarrow> (\<lambda>cap. Inl Invalid))"

definition is_rejected :: "SetupResult \<Rightarrow> bool" where
  "is_rejected r = (case r of Accepted _ _ \<Rightarrow> False | Rejected _ \<Rightarrow> True)"

definition reply_encode :: "SetupReply \<Rightarrow> nat \<Rightarrow> u8 list result" where
  "reply_encode rp cap =
     (if rp_transaction_id rp = 0 \<or> sck_sequence (rp_circuit rp) = 0 then Inl Invalid
      else bindE (seqE (put_setup_byte SETUP_VERSION) (seqE (put_varint (rp_transaction_id rp))
          (seqE (put_setup_byte (role_byte (sck_opener_role (rp_circuit rp)))) (seqE (put_varint (sck_sequence (rp_circuit rp)))
          (seqE (put_result (rp_result rp)) (seqE (put_ack (rp_result rp) (bootstrap_ack rp))
          (if is_rejected (rp_result rp) \<and> relay_cids rp \<noteq> [] then (\<lambda>cap. Inl Invalid) else relay_cids_encode (relay_cids rp))))))) cap) (\<lambda>out.
        if length out > MAX_SETUP_BODY_BYTES then Inl Invalid else Inr out))"

definition reply_encode_packet :: "SetupReply \<Rightarrow> nat \<Rightarrow> u8 list result" where
  "reply_encode_packet rp cap = bindE (reply_encode rp DEFAULT_SETUP_REPLY_BYTES) (\<lambda>body.
     encode_long_packet LONG_PACKET_PATH_OPEN_ACK None None 0 1 body cap)"

definition take_result :: "u8 list \<Rightarrow> (SetupResult \<times> u8 list) result" where
  "take_result input = bindE (take_setup_byte input) (\<lambda>(b, rest).
     if b = 0 then
       bindE (take_cid rest) (\<lambda>(cid, rest).
       if cid_value cid = 0 then Inl Invalid
       else bindE (take_varint rest) (\<lambda>(lease, rest).
         if lease = 0 then Inl Invalid else Inr (Accepted cid lease, rest)))
     else if b = 1 then
       bindE (take_varint rest) (\<lambda>(code, rest). if code = 0 then Inl Invalid else Inr (Rejected code, rest))
     else Inl Invalid)"

definition take_ack :: "u8 list \<Rightarrow> (u8 list option \<times> u8 list) result" where
  "take_ack input = bindE (take_setup_byte input) (\<lambda>(b, rest).
     if b = 0 then Inr (None, rest)
     else if b = 1 then
       bindE (take_varint rest) (\<lambda>(len, rest).
       bindE (guardE Invalid (len \<le> length rest)) (\<lambda>_.
       bindE (ack_from_slice (take len rest)) (\<lambda>ack. Inr (Some ack, drop len rest))))
     else Inl Invalid)"

definition reply_decode :: "u8 list \<Rightarrow> SetupReply result" where
  "reply_decode input =
     (if length input > MAX_SETUP_BODY_BYTES \<or> (case input of [] \<Rightarrow> True | v # _ \<Rightarrow> v \<noteq> SETUP_VERSION) then Inl Invalid
      else
        bindE (take_varint (tl input)) (\<lambda>(transaction_id, rest).
        bindE (take_role rest) (\<lambda>(role, rest).
        bindE (take_varint rest) (\<lambda>(sequence, rest).
        bindE (take_result rest) (\<lambda>(res, rest).
        bindE (take_ack rest) (\<lambda>(ack, rest).
        bindE (relay_cids_decode rest) (\<lambda>(cids, rest).
          if is_rejected res \<and> ack \<noteq> None then Inl Invalid
          else if is_rejected res \<and> cids \<noteq> [] then Inl Invalid
          else if transaction_id = 0 \<or> sequence = 0 \<or> rest \<noteq> [] then Inl Invalid
          else Inr \<lparr>rp_transaction_id = transaction_id, rp_circuit = \<lparr>sck_opener_role = role, sck_sequence = sequence\<rparr>,
                    rp_result = res, bootstrap_ack = ack, relay_cids = cids\<rparr>)))))))"

definition decode_setup_reply_packet :: "u8 list \<Rightarrow> SetupReply result" where
  "decode_setup_reply_packet input = bindE (decode_long_packet input) (\<lambda>(header, body_at, body_len).
     if lh_packet_type header \<noteq> LONG_PACKET_PATH_OPEN_ACK \<or> lh_dcid header \<noteq> None \<or> lh_scid header \<noteq> None then Inl Invalid
     else reply_decode (take body_len (drop body_at input)))"

section \<open>Checking a reply against its transaction\<close>

datatype SetupDownstreamReply =
    ReplayReply ForwardNextHop "u8 list"
  | NewReply ForwardNextHop SetupRelayState

definition from_downstream :: "ForwardNextHop \<Rightarrow> u64 \<Rightarrow> SetupTransaction \<Rightarrow> bool" where
  "from_downstream downstream i e \<longleftrightarrow> downstream_hop e = Some downstream \<and> tx_id e = i"

definition new_downstream_reply :: "SetupTransaction \<Rightarrow> SetupTransactionError + SetupDownstreamReply" where
  "new_downstream_reply e = bindE (ok_or TxMissing (relay_state e)) (\<lambda>st. Inr (NewReply (previous_hop e) st))"

definition validate_downstream_reply :: "bool \<Rightarrow> ForwardNextHop \<Rightarrow> u64 \<Rightarrow> SetupCircuitKey \<Rightarrow> u8 list \<Rightarrow> SetupTransactionTable
    \<Rightarrow> SetupTransactionTable \<times> (SetupTransactionError + SetupDownstreamReply)" where
  "validate_downstream_reply mem downstream i circuit reply t =
     (case find (from_downstream downstream i) (tx_entries t) of
        None \<Rightarrow> (t, Inl TxMissing)
      | Some e \<Rightarrow>
          if tx_expired e then (t, Inl TxExpired)
          else (case decode_setup_reply_packet reply of
            Inl _ \<Rightarrow> (t, Inl TxConflict)
          | Inr decoded \<Rightarrow>
              if rp_transaction_id decoded \<noteq> i \<or> rp_circuit decoded \<noteq> circuit then (t, Inl TxConflict)
              else if downstream_reply e \<noteq> [] then
                (if downstream_reply e \<noteq> reply then (t, Inl TxConflict)
                 else if reply_ready e then (t, Inr (ReplayReply (previous_hop e) (tx_reply e)))
                 else (t, new_downstream_reply e))
              else if reply = [] \<or> length reply > max_reply_bytes t \<or> \<not> mem then (t, Inl TxReplyTooLarge)
              else (t\<lparr>tx_entries := update_first (from_downstream downstream i)
                       (\<lambda>e. e\<lparr>downstream_reply := downstream_reply e @ reply\<rparr>) (tx_entries t)\<rparr>,
                    new_downstream_reply e)))"

section \<open>Reading back what was written\<close>

lemma put_setup_byte_Inr [simp]: "put_setup_byte v cap = Inr bs \<longleftrightarrow> bs = [v] \<and> cap \<noteq> 0"
  by (auto simp: put_setup_byte_def)

lemma take_setup_byte_Cons [simp]: "take_setup_byte (b # rest) = Inr (b, rest)"
  by (simp add: take_setup_byte_def)

lemma take_varint_put: "put_varint v cap = Inr a \<Longrightarrow> take_varint (a @ rest) = Inr (v, rest)"
  by (simp add: take_varint_def get_put_varint)

lemma take_cid_put: "cid_value c \<le> CID_MAX_VALUE \<Longrightarrow> cid_encode c cap = Inr a \<Longrightarrow> take_cid (a @ rest) = Inr (c, rest)"
  by (simp add: take_cid_def cid_decode_encode)

lemmas read_back = take_varint_put take_cid_put

lemma take_mode_byte [simp]: "take_mode (mode_byte m # rest) = Inr (m, rest)"
  by (cases m) (simp_all add: take_mode_def mode_byte_def)

lemma take_role_byte [simp]: "take_role (role_byte r # rest) = Inr (r, rest)"
  by (cases r) (simp_all add: take_role_def role_byte_def)

lemma take_route_mode_byte: "take_route_mode SETUP_REQUEST_VERSION (route_mode_byte m # rest) = Inr (m, rest)"
  by (cases m) (simp_all add: take_route_mode_def route_mode_byte_def SETUP_VERSION_def SETUP_REQUEST_VERSION_def)

definition vip_ok :: "u64 option \<Rightarrow> bool" where
  "vip_ok vip = (case vip of None \<Rightarrow> True | Some v \<Rightarrow> 0 < v \<and> v \<le> u64_max)"

definition rcid_ok :: "ConnectionId option \<Rightarrow> bool" where
  "rcid_ok rcid = (case rcid of None \<Rightarrow> True | Some c \<Rightarrow> 0 < cid_value c \<and> cid_value c \<le> CID_MAX_VALUE)"

lemma take_vip_put: "vip_ok vip \<Longrightarrow> put_vip vip cap = Inr a \<Longrightarrow> take_vip (a @ rest) = Inr (vip, rest)"
  using be_fold_be_bytes [of 0 8]
  by (cases vip) (auto simp: vip_ok_def put_vip_def take_vip_def Let_def)

lemma take_reverse_cid_put: "rcid_ok rcid \<Longrightarrow> put_reverse_cid rcid cap = Inr a \<Longrightarrow> take_reverse_cid (a @ rest) = Inr (rcid, rest)"
  by (cases rcid) (auto simp: rcid_ok_def put_reverse_cid_def take_reverse_cid_def read_back)

lemma request_decode_head:
  assumes h: "put_request_head version tid mode route circuit vip rcid count cap = Inr head"
    and v: "version = SETUP_REQUEST_VERSION \<or> version = SETUP_VERSION \<and> route = Layered"
    and ok: "vip_ok vip" "rcid_ok rcid" "length (head @ blocks) \<le> MAX_SETUP_BODY_BYTES"
  shows "request_decode (head @ blocks) =
    (if tid = 0 \<or> sck_sequence circuit = 0 \<or> count = 0 \<or> count > MAX_SETUP_BLOCKS then Inl Invalid
     else bindE (skip_blocks count blocks) (\<lambda>end. if end \<noteq> [] then Inl Invalid
       else Inr \<lparr>rv_version = version, rv_transaction_id = tid, rv_mode = mode, rv_route_mode = route, rv_circuit = circuit,
                 rv_destination_vip = vip, rv_previous_reverse_cid = rcid,
                 rv_blocks = \<lparr>bb_bytes = blocks, bb_count = count\<rparr>, rv_raw = head @ blocks\<rparr>))"
proof -
  have ver: "\<not> SETUP_REQUEST_VERSION \<le> SETUP_VERSION" "SETUP_VERSION \<noteq> SETUP_REQUEST_VERSION"
    by code_simp+
  have route: "take_route_mode version (a @ rest) = Inr (route, rest)"
    if "(if version \<ge> SETUP_REQUEST_VERSION then put_setup_byte (route_mode_byte route) else (\<lambda>cap. Inr [])) c = Inr a" for a c rest
    using that v ver by (auto simp: take_route_mode_byte) (auto simp: take_route_mode_def)
  obtain ro sq where circ: "circuit = \<lparr>sck_opener_role = ro, sck_sequence = sq\<rparr>" by (cases circuit)
  show ?thesis
    using h unfolding put_request_head_def
  proof (elim seqE_InrE)
    fix b1 b2 b3 b4 b5 b6 b7 b8 a1 a2 a3 a4 a5 a6 a7 a8
    assume w: "put_setup_byte version cap = Inr a1" "put_varint tid (cap - length a1) = Inr a2"
      "put_setup_byte (mode_byte mode) (cap - length a1 - length a2) = Inr a3"
      "(if version \<ge> SETUP_REQUEST_VERSION then put_setup_byte (route_mode_byte route) else (\<lambda>cap. Inr []))
         (cap - length a1 - length a2 - length a3) = Inr a4"
      "put_setup_byte (role_byte (sck_opener_role circuit)) (cap - length a1 - length a2 - length a3 - length a4) = Inr a5"
      "put_varint (sck_sequence circuit) (cap - length a1 - length a2 - length a3 - length a4 - length a5) = Inr a6"
      "put_vip vip (cap - length a1 - length a2 - length a3 - length a4 - length a5 - length a6) = Inr a7"
      "put_reverse_cid rcid (cap - length a1 - length a2 - length a3 - length a4 - length a5 - length a6 - length a7) = Inr a8"
      "put_varint count (cap - length a1 - length a2 - length a3 - length a4 - length a5 - length a6 - length a7 - length a8) = Inr b8"
      and b: "head = a1 @ b1" "b1 = a2 @ b2" "b2 = a3 @ b3" "b3 = a4 @ b4" "b4 = a5 @ b5" "b5 = a6 @ b6" "b6 = a7 @ b7" "b7 = a8 @ b8"
    have head: "head @ blocks = version # a2 @ mode_byte mode # a4 @ role_byte (sck_opener_role circuit) # a6 @ a7 @ a8 @ b8 @ blocks"
      using w(1,3,5) by (simp add: b)
    have "\<not> length (head @ blocks) > MAX_SETUP_BODY_BYTES" using ok(3) by simp
    then show ?thesis
      using v ver
      by (cases "skip_blocks count blocks") (auto simp: request_decode_def head circ take_varint_put [OF w(2)] route [OF w(4)] take_varint_put [OF w(6)]
          take_vip_put [OF ok(1) w(7)] take_reverse_cid_put [OF ok(2) w(8)] take_varint_put [OF w(9)])
  qed
qed

lemma put_block_take:
  assumes "put_block b cap = Inr a"
  shows "take_block (a @ rest) = Some (b, rest)"
  using assms unfolding put_block_def
  by (elim seqE_InrE) (simp add: take_block_def take_varint_put)

lemma skip_take_block:
  "skip_blocks (Suc n) bytes = Inr e \<Longrightarrow> \<exists>b rest. take_block bytes = Some (b, rest) \<and> \<not> block_bad b \<and> skip_blocks n rest = Inr e
     \<and> drop_blocks 1 bytes = Inr rest"
  by (auto simp: take_block_def block_bad_def split: if_splits)

lemma take_skip_block:
  "take_block bytes = Some (b, rest) \<Longrightarrow> \<not> block_bad b \<Longrightarrow> skip_blocks (Suc n) bytes = skip_blocks n rest"
  by (auto simp: take_block_def block_bad_def split: sum.splits if_splits)

lemma put_blocks_read:
  assumes "put_blocks bs used cap = Inr out" "\<forall>b \<in> set bs. \<not> block_bad b"
  shows "skip_blocks (length bs) (out @ rest) = Inr rest \<and> (\<forall>i < length bs. block_at i (out @ rest) = Some (bs ! i))
    \<and> (bs = [] \<or> used + length out \<le> MAX_SETUP_BODY_BYTES)"
  using assms
proof (induction bs arbitrary: used cap out)
  case (Cons b bs)
  obtain a o2 where a: "put_block b cap = Inr a" "used + length a \<le> MAX_SETUP_BODY_BYTES"
    and o: "put_blocks bs (used + length a) (cap - length a) = Inr o2" "out = a @ o2"
    using Cons.prems(1) by (auto split: if_splits)
  have t: "take_block (out @ rest) = Some (b, o2 @ rest)" using put_block_take [OF a(1)] o(2) by simp
  have IH: "skip_blocks (length bs) (o2 @ rest) = Inr rest \<and> (\<forall>i < length bs. block_at i (o2 @ rest) = Some (bs ! i))
      \<and> (bs = [] \<or> used + length a + length o2 \<le> MAX_SETUP_BODY_BYTES)"
    using Cons.IH [OF o(1)] Cons.prems(2) by simp
  have "block_at i (out @ rest) = Some ((b # bs) ! i)" if "i < length (b # bs)" for i
    using that IH t by (cases i) auto
  moreover have "skip_blocks (length (b # bs)) (out @ rest) = Inr rest"
    using take_skip_block [OF t] IH Cons.prems(2) by simp
  ultimately show ?case using IH a(2) o by (cases bs) auto
qed simp

definition request_view :: "SetupRequest \<Rightarrow> SetupRequestView \<Rightarrow> bool" where
  "request_view rq v \<longleftrightarrow> rv_transaction_id v = rq_transaction_id rq \<and> rv_mode v = rq_mode rq \<and> rv_route_mode v = rq_route_mode rq
     \<and> rv_circuit v = rq_circuit rq \<and> rv_destination_vip v = destination_vip rq \<and> rv_previous_reverse_cid v = previous_reverse_cid rq
     \<and> bb_count (rv_blocks v) = length (rq_blocks rq) \<and> map (blocks_get (rv_blocks v)) [0..<length (rq_blocks rq)] = map Some (rq_blocks rq)"

definition request_ok :: "SetupRequest \<Rightarrow> bool" where
  "request_ok rq \<longleftrightarrow> (case destination_vip rq of None \<Rightarrow> True | Some v \<Rightarrow> v \<le> u64_max)
     \<and> (case previous_reverse_cid rq of None \<Rightarrow> True | Some c \<Rightarrow> cid_value c \<le> CID_MAX_VALUE)"

lemma request_decode_encode:
  assumes "request_ok rq" "request_encode rq cap = Inr bytes"
  shows "\<exists>v. request_decode bytes = Inr v \<and> request_view rq v \<and> rv_raw v = bytes"
proof -
  obtain head blocks where h: "put_request_head SETUP_REQUEST_VERSION (rq_transaction_id rq) (rq_mode rq) (rq_route_mode rq) (rq_circuit rq)
        (destination_vip rq) (previous_reverse_cid rq) (length (rq_blocks rq)) cap = Inr head"
    and b: "put_blocks (rq_blocks rq) (length head) (cap - length head) = Inr blocks" and bytes: "bytes = head @ blocks"
    and g: "rq_transaction_id rq \<noteq> 0" "sck_sequence (rq_circuit rq) \<noteq> 0" "rq_blocks rq \<noteq> []" "length (rq_blocks rq) \<le> MAX_SETUP_BLOCKS"
      "destination_vip rq \<noteq> Some 0" "\<not> (case previous_reverse_cid rq of None \<Rightarrow> False | Some cid \<Rightarrow> cid_value cid = 0)"
      "\<not> list_ex block_bad (rq_blocks rq)"
    using assms(2) by (auto simp: request_encode_def split: if_splits)
  have ok: "vip_ok (destination_vip rq)" "rcid_ok (previous_reverse_cid rq)"
    using assms(1) g(5,6) by (auto simp: request_ok_def vip_ok_def rcid_ok_def split: option.splits)
  have good: "\<forall>b \<in> set (rq_blocks rq). \<not> block_bad b" using g(7) by (auto simp: list_ex_iff)
  have r: "skip_blocks (length (rq_blocks rq)) blocks = Inr []" "\<And>i. i < length (rq_blocks rq) \<Longrightarrow> block_at i blocks = Some (rq_blocks rq ! i)"
    "length head + length blocks \<le> MAX_SETUP_BODY_BYTES"
    using put_blocks_read [OF b good, of "[]"] g(3) by auto
  have len: "length (head @ blocks) \<le> MAX_SETUP_BODY_BYTES" using r(3) by simp
  have "map (blocks_get \<lparr>bb_bytes = blocks, bb_count = length (rq_blocks rq)\<rparr>) [0..<length (rq_blocks rq)] = map Some (rq_blocks rq)"
    by (rule nth_equalityI) (simp_all add: blocks_get_def r(2))
  then show ?thesis
    using g(1-4) r(1) request_decode_head [OF h _ ok len] by (simp add: bytes request_view_def not_less)
qed

lemma take_vip_ok: "take_vip input = Inr (vip, rest) \<Longrightarrow> vip_ok vip"
  using be_fold_bound [of 0 0 "take 8 (tl input)"]
  by (auto simp: take_vip_def take_setup_byte_def vip_ok_def Let_def split: list.splits if_splits)

lemma take_reverse_cid_ok: "take_reverse_cid input = Inr (rcid, rest) \<Longrightarrow> rcid_ok rcid"
  by (auto simp: take_reverse_cid_def take_cid_def rcid_ok_def dest!: cid_decode_max split: if_splits)

lemma request_decode_view:
  assumes "request_decode input = Inr v"
  shows "rv_version v = SETUP_REQUEST_VERSION \<or> rv_version v = SETUP_VERSION \<and> rv_route_mode v = Layered"
    "rv_transaction_id v \<noteq> 0" "sck_sequence (rv_circuit v) \<noteq> 0" "bb_count (rv_blocks v) \<le> MAX_SETUP_BLOCKS" "bb_count (rv_blocks v) \<noteq> 0"
    "vip_ok (rv_destination_vip v)" "skip_blocks (bb_count (rv_blocks v)) (bb_bytes (rv_blocks v)) = Inr []"
proof -
  obtain version rest0 where i: "input = version # rest0" "version = SETUP_VERSION \<or> version = SETUP_REQUEST_VERSION"
    using assms by (auto simp: request_decode_def split: list.splits if_splits)
  obtain tid mode route role sequence vip rcid count blocks r1 r2 r3 r4 r5 r6 r7 where
    d: "take_route_mode version r2 = Inr (route, r3)" "take_vip r5 = Inr (vip, r6)" "skip_blocks count blocks = Inr []"
      "tid \<noteq> 0" "sequence \<noteq> 0" "count \<noteq> 0" "count \<le> MAX_SETUP_BLOCKS"
      "v = \<lparr>rv_version = version, rv_transaction_id = tid, rv_mode = mode, rv_route_mode = route,
                       rv_circuit = \<lparr>sck_opener_role = role, sck_sequence = sequence\<rparr>, rv_destination_vip = vip,
                       rv_previous_reverse_cid = rcid,
                       rv_blocks = \<lparr>bb_bytes = blocks, bb_count = count\<rparr>, rv_raw = input\<rparr>"
    using assms by (auto simp: request_decode_def i(1) Let_def not_less split: if_splits)
  then show "rv_version v = SETUP_REQUEST_VERSION \<or> rv_version v = SETUP_VERSION \<and> rv_route_mode v = Layered"
    using i(2) by (auto simp: take_route_mode_def split: if_splits)
  show "rv_transaction_id v \<noteq> 0" "sck_sequence (rv_circuit v) \<noteq> 0" "bb_count (rv_blocks v) \<le> MAX_SETUP_BLOCKS" "bb_count (rv_blocks v) \<noteq> 0"
    "vip_ok (rv_destination_vip v)" "skip_blocks (bb_count (rv_blocks v)) (bb_bytes (rv_blocks v)) = Inr []"
    using d take_vip_ok by auto
qed

lemma blocks_get_shift:
  assumes "take_block bytes = Some (b, rest)"
  shows "blocks_get \<lparr>bb_bytes = rest, bb_count = n\<rparr> i = blocks_get \<lparr>bb_bytes = bytes, bb_count = Suc n\<rparr> (Suc i)"
  using assms by (simp add: blocks_get_def)

lemma relay_request_forward:
  assumes "request_decode input = Inr v" "encode_after_first_block_with_reverse_cid v rcid cap = Inr out" "rcid_ok rcid"
  defines "consumed \<equiv> (if rv_route_mode v = Telescoping then 0 else 1)"
  shows "\<exists>v'. request_decode out = Inr v' \<and> rv_version v' = rv_version v \<and> rv_transaction_id v' = rv_transaction_id v
    \<and> rv_mode v' = rv_mode v \<and> rv_route_mode v' = rv_route_mode v \<and> rv_circuit v' = rv_circuit v
    \<and> rv_destination_vip v' = rv_destination_vip v \<and> rv_previous_reverse_cid v' = rcid
    \<and> bb_count (rv_blocks v') = bb_count (rv_blocks v) - consumed
    \<and> (\<forall>i. blocks_get (rv_blocks v') i = blocks_get (rv_blocks v) (i + consumed))"
proof -
  note v = request_decode_view [OF assms(1)]
  let ?n = "bb_count (rv_blocks v)" and ?bytes = "bb_bytes (rv_blocks v)"
  obtain remaining head where r: "consumed < ?n" "drop_blocks consumed ?bytes = Inr remaining"
    and h: "put_request_head (rv_version v) (rv_transaction_id v) (rv_mode v) (rv_route_mode v) (rv_circuit v)
        (rv_destination_vip v) rcid (?n - consumed) cap = Inr head"
    and out: "out = head @ remaining" "length (head @ remaining) \<le> MAX_SETUP_BODY_BYTES"
    using assms(2) by (auto simp: encode_after_first_block_with_reverse_cid_def consumed_def Let_def not_le split: if_splits)
  have rest: "skip_blocks (?n - consumed) remaining = Inr []
      \<and> (\<forall>i. blocks_get \<lparr>bb_bytes = remaining, bb_count = ?n - consumed\<rparr> i = blocks_get (rv_blocks v) (i + consumed))"
  proof (cases "rv_route_mode v = Telescoping")
    case True
    with r v(7) show ?thesis by (simp add: consumed_def blocks_get_def)
  next
    case False
    then have c: "consumed = 1" by (simp add: consumed_def)
    obtain n where n: "?n = Suc n" using r(1) by (cases ?n) auto
    then obtain b rest where t: "take_block ?bytes = Some (b, rest)" "skip_blocks n rest = Inr []" "drop_blocks 1 ?bytes = Inr rest"
      using skip_take_block v(7) by metis
    then have "remaining = rest" using r(2) c by simp
    with t n c show ?thesis using blocks_get_shift [OF t(1), of n] by (simp add: blocks_get_def)
  qed
  have "request_decode out = Inr \<lparr>rv_version = rv_version v, rv_transaction_id = rv_transaction_id v, rv_mode = rv_mode v,
      rv_route_mode = rv_route_mode v, rv_circuit = rv_circuit v, rv_destination_vip = rv_destination_vip v, rv_previous_reverse_cid = rcid,
      rv_blocks = \<lparr>bb_bytes = remaining, bb_count = ?n - consumed\<rparr>, rv_raw = head @ remaining\<rparr>"
    using request_decode_head [OF h v(1,6) assms(3) out(2)] v(2-4) r(1) rest by (simp add: out(1) not_less)
  with rest show ?thesis by simp
qed

definition reply_ok :: "SetupReply \<Rightarrow> bool" where
  "reply_ok rp \<longleftrightarrow> (case rp_result rp of Accepted cid _ \<Rightarrow> cid_value cid \<le> CID_MAX_VALUE | Rejected _ \<Rightarrow> True)
     \<and> (case bootstrap_ack rp of None \<Rightarrow> True | Some ack \<Rightarrow> ack_from_slice ack = Inr ack)
     \<and> list_all (\<lambda>cid. 0 < cid_value cid \<and> cid_value cid \<le> CID_MAX_VALUE) (relay_cids rp) \<and> length (relay_cids rp) \<le> MAX_SETUP_BLOCKS - 1"

lemma take_cids_put:
  "list_all (\<lambda>cid. 0 < cid_value cid \<and> cid_value cid \<le> CID_MAX_VALUE) cids \<Longrightarrow> put_cids cids cap = Inr a \<Longrightarrow>
    take_cids (length cids) (a @ rest) = Inr (cids, rest)"
  by (induction cids arbitrary: cap a) (auto simp: take_cid_put)

lemma relay_cids_read:
  assumes "list_all (\<lambda>cid. 0 < cid_value cid \<and> cid_value cid \<le> CID_MAX_VALUE) cids" "length cids \<le> MAX_SETUP_BLOCKS - 1"
    and "relay_cids_encode cids cap = Inr a"
  shows "relay_cids_decode (a @ rest) = Inr (cids, rest)"
  using assms(2,3) take_cids_put [OF assms(1)] unfolding relay_cids_encode_def
  by (elim seqE_InrE) (simp add: relay_cids_decode_def take_varint_put not_less)

lemma take_result_put:
  assumes "case r of Accepted cid _ \<Rightarrow> cid_value cid \<le> CID_MAX_VALUE | Rejected _ \<Rightarrow> True" "put_result r cap = Inr a"
  shows "take_result (a @ rest) = Inr (r, rest)"
  using assms by (cases r) (auto simp: put_result_def take_result_def read_back split: if_splits)

lemma take_ack_put:
  assumes "case ack of None \<Rightarrow> True | Some b \<Rightarrow> ack_from_slice b = Inr b" "put_ack r ack cap = Inr a"
  shows "take_ack (a @ rest) = Inr (ack, rest)" "is_rejected r \<Longrightarrow> ack = None"
  using assms by (cases r; cases ack; auto simp: put_ack_def take_ack_def read_back is_rejected_def)+

lemma reply_decode_encode:
  assumes "reply_ok rp" "reply_encode rp cap = Inr bytes"
  shows "reply_decode bytes = Inr rp"
proof -
  let ?r = "rp_result rp"
  obtain a1 a2 a3 a4 a5 c1 c2 c3 c4 c5 where w: "put_varint (rp_transaction_id rp) c1 = Inr a1" "put_varint (sck_sequence (rp_circuit rp)) c2 = Inr a2"
      "put_result ?r c3 = Inr a3" "put_ack ?r (bootstrap_ack rp) c4 = Inr a4" "relay_cids_encode (relay_cids rp) c5 = Inr a5"
    and g: "rp_transaction_id rp \<noteq> 0" "sck_sequence (rp_circuit rp) \<noteq> 0" "\<not> (is_rejected ?r \<and> relay_cids rp \<noteq> [])"
    and bytes: "bytes = SETUP_VERSION # a1 @ role_byte (sck_opener_role (rp_circuit rp)) # a2 @ a3 @ a4 @ a5" "length bytes \<le> MAX_SETUP_BODY_BYTES"
    using assms(2) by (auto simp: reply_encode_def split: if_splits)
  have ok: "case ?r of Accepted cid _ \<Rightarrow> cid_value cid \<le> CID_MAX_VALUE | Rejected _ \<Rightarrow> True"
    "case bootstrap_ack rp of None \<Rightarrow> True | Some ack \<Rightarrow> ack_from_slice ack = Inr ack"
    "list_all (\<lambda>cid. 0 < cid_value cid \<and> cid_value cid \<le> CID_MAX_VALUE) (relay_cids rp)" "length (relay_cids rp) \<le> MAX_SETUP_BLOCKS - 1"
    using assms(1) by (simp_all add: reply_ok_def)
  have "\<not> length bytes > MAX_SETUP_BODY_BYTES" using bytes(2) by simp
  then show ?thesis
    using g take_ack_put(2) [OF ok(2) w(4)] relay_cids_read [OF ok(3,4) w(5), of "[]"]
    by (auto simp: reply_decode_def bytes(1) take_varint_put [OF w(1)] take_varint_put [OF w(2)] take_result_put [OF ok(1) w(3)]
        take_ack_put(1) [OF ok(2) w(4)])
qed

lemma hop_decode_encode:
  assumes "hop_encode h cap = Inr bytes" "address h = take (unat (address_len h)) (address h) @ replicate (MAX_SETUP_HOP_ADDRESS_BYTES - unat (address_len h)) 0"
    and "length (address h) = MAX_SETUP_HOP_ADDRESS_BYTES"
  shows "hop_decode bytes = Inr h"
proof -
  let ?l = "unat (address_len h)"
  obtain a1 a2 c1 c2 where w: "put_varint (lease_us h) c1 = Inr a1" "put_varint (hop_quota h) c2 = Inr a2"
    and g: "address_kind h \<noteq> 0" "?l \<noteq> 0" "?l \<le> MAX_SETUP_HOP_ADDRESS_BYTES" "lease_us h \<noteq> 0" "hop_quota h \<noteq> 0"
    and bytes: "bytes = address_kind h # address_len h # take ?l (address h) @ a1 @ a2"
    using assms(1) by (auto simp: hop_encode_def Let_def split: if_splits)
  have len: "length (take ?l (address h)) = ?l" using g(3) assms(3) by simp
  have v: "take_varint (a1 @ a2) = Inr (lease_us h, a2)" "take_varint a2 = Inr (hop_quota h, [])"
    using take_varint_put [OF w(1)] take_varint_put [OF w(2), of "[]"] by simp_all
  show ?thesis
    using g v assms(2) len by (simp add: hop_decode_def bytes Let_def)
qed

lemma join_decode_encode:
  assumes "join_encode j cap = Inr bytes" "cid_value (join_cid j) \<le> CID_MAX_VALUE" "cid_value (opener_receive_cid j) \<le> CID_MAX_VALUE"
  shows "join_decode bytes = Inr j"
proof -
  obtain a b c d where w: "cid_encode (join_cid j) c = Inr a" "cid_encode (opener_receive_cid j) d = Inr b" "bytes = a @ b"
    "cid_value (join_cid j) \<noteq> 0" "cid_value (opener_receive_cid j) \<noteq> 0"
    using assms(1) by (auto simp: join_encode_def split: if_splits)
  then show ?thesis
    using take_cid_put [OF assms(2) w(1)] take_cid_put [OF assms(3) w(2), of "[]"] by (simp add: join_decode_def)
qed

section \<open>The hints of a creating request\<close>

lemma decode_hints_encode:
  assumes "encode_hints hints cap = Inr a"
    and "\<forall>hint \<in> set hints. length (relay_id hint) = 8 \<and> length (address (hint_hop hint)) = MAX_SETUP_HOP_ADDRESS_BYTES
      \<and> drop (unat (address_len (hint_hop hint))) (address (hint_hop hint))
        = replicate (MAX_SETUP_HOP_ADDRESS_BYTES - unat (address_len (hint_hop hint))) 0"
  shows "decode_hints (length hints) (a @ rest) = Inr (hints, rest)"
  using assms
proof (induction hints arbitrary: cap a)
  case (Cons hint hints)
  obtain hop b c1 c2 c3 v where w: "hop_encode (hint_hop hint) MAX_SETUP_BLOCK_BYTES = Inr hop" "put_varint (length hop) c1 = Inr v"
      "encode_hints hints c2 = Inr b" "a = relay_id hint @ v @ hop @ b"
    using Cons.prems(1) by auto
  have "address (hint_hop hint) = take (unat (address_len (hint_hop hint))) (address (hint_hop hint))
      @ replicate (MAX_SETUP_HOP_ADDRESS_BYTES - unat (address_len (hint_hop hint))) 0"
    using Cons.prems(2) by (metis append_take_drop_id list.set_intros(1))
  then have h: "hop_decode hop = Inr (hint_hop hint)"
    using hop_decode_encode [OF w(1)] Cons.prems(2) by simp
  have IH: "decode_hints (length hints) (b @ rest) = Inr (hints, rest)" using Cons.IH [OF w(3)] Cons.prems(2) by simp
  have "length (relay_id hint) = 8" using Cons.prems(2) by simp
  then show ?case using h IH take_varint_put [OF w(2), of "hop @ b @ rest"] by (simp add: w(4))
qed simp

section \<open>The table with the check of replies\<close>

lemma find_update_keep:
  "(\<And>x. P x \<Longrightarrow> Q (f x) = Q x) \<Longrightarrow> find Q (update_first P f xs) = find Q xs
     \<or> (\<exists>x. find Q xs = Some x \<and> P x \<and> find Q (update_first P f xs) = Some (f x))"
  by (induction xs) auto

lemma setup_inv_validate:
  assumes "setup_inv t"
  shows "setup_inv (fst (validate_downstream_reply mem downstream i circuit reply t))"
proof -
  let ?f = "\<lambda>e. e\<lparr>downstream_reply := downstream_reply e @ reply\<rparr>" and ?P = "from_downstream downstream i"
  let ?es = "update_first ?P ?f (tx_entries t)"
  have live: "live (?f e) = live e" for e by (simp add: live_def)
  have "map key_of ?es = map key_of (tx_entries t)" "map live1 ?es = map live1 (tx_entries t)"
    "map ready1 ?es = map ready1 (tx_entries t)" "map tx_reserved ?es = map tx_reserved (tx_entries t)"
    by (rule map_key_update_first; simp add: key_of_def live1_def ready1_def live)+
  moreover have "\<forall>e \<in> set ?es. entry_ok e"
    using assms by (auto simp: setup_inv_def entry_ok_def live dest!: set_update_first)
  ultimately have "setup_inv (t\<lparr>tx_entries := ?es\<rparr>)"
    using assms by (simp add: setup_inv_def counters_of_def account_defs)
  with assms show ?thesis by (auto simp: validate_downstream_reply_def split: option.splits sum.splits)
qed

lemma has_reply_validate:
  assumes "has_reply limit hop i request reply t"
  shows "has_reply limit hop i request reply (fst (validate_downstream_reply mem downstream j circuit r t))"
proof -
  let ?f = "\<lambda>e. e\<lparr>downstream_reply := downstream_reply e @ r\<rparr>"
  have "has_reply limit hop i request reply (t\<lparr>tx_entries := update_first (from_downstream downstream j) ?f (tx_entries t)\<rparr>)"
    using assms find_update_keep [of "from_downstream downstream j" "tx_key hop i" ?f "tx_entries t"]
    by (auto simp: has_reply_def tx_key_def split: option.splits)
  with assms show ?thesis by (auto simp: validate_downstream_reply_def split: option.splits sum.splits)
qed

inductive relay_setup_step :: "u64 \<Rightarrow> SetupTransactionTable \<Rightarrow> SetupTransactionTable \<Rightarrow> bool" for limit where
  Table: "setup_step limit t t' \<Longrightarrow> relay_setup_step limit t t'"
| Validate: "relay_setup_step limit t (fst (validate_downstream_reply mem downstream i circuit reply t))"

interpretation relay_setup: stateful setup_start "relay_setup_step limit" setup_inv for limit
proof
  show "setup_inv t" if "setup_start t" for t using that by (rule setup_table.inv_start)
  show "setup_inv t'" if "setup_inv t" "relay_setup_step limit t t'" for t t'
    using that(2,1) by cases (auto intro: setup_table.inv_step setup_inv_validate)
qed

interpretation relay_reply: stateful "\<lambda>t. setup_inv t \<and> has_reply limit hop i request reply t" "relay_setup_step limit"
  "\<lambda>t. setup_inv t \<and> has_reply limit hop i request reply t" for limit hop i request reply
proof
  show "setup_inv t' \<and> has_reply limit hop i request reply t'"
    if "setup_inv t \<and> has_reply limit hop i request reply t" "relay_setup_step limit t t'" for t t'
    using that(2)
  proof cases
    case Table
    with that(1) show ?thesis by (rule setup_reply.inv_step)
  next
    case Validate
    with that(1) show ?thesis by (auto intro: setup_inv_validate has_reply_validate)
  qed
qed

section \<open>Properties\<close>

text \<open>
  Claim C23. The table's accounts are exact and bounded in every state it reaches: the counters are the
  numbers of pending and answered transactions, the reserved bytes are the sum of the reservations, no
  previous hop has two transactions with one identifier, every cached reply fits its reservation, and all
  three configured limits hold.
\<close>

theorem setup_table_bounded:
  assumes "setup_start t\<^sub>0" "(relay_setup_step limit)\<^sup>*\<^sup>* t\<^sub>0 t"
  shows "pending_count t = length (filter live (tx_entries t)) \<and> cached_count t = length (filter reply_ready (tx_entries t))
    \<and> reserved_reply_bytes t = sum_list (map tx_reserved (tx_entries t))
    \<and> distinct (map (\<lambda>e. (previous_hop e, tx_id e)) (tx_entries t))
    \<and> list_all (\<lambda>e. length (tx_reply e) \<le> tx_reserved e) (tx_entries t)
    \<and> pending_count t \<le> max_pending t \<and> length (tx_entries t) \<le> max_cached_replies t
    \<and> reserved_reply_bytes t \<le> max_reserved_reply_bytes t"
  using relay_setup.inv_reachable [OF assms]
  by (simp add: setup_inv_def counters_of_def accounts_length n_reserved_def list_all_iff entry_ok_def key_of_def [abs_def])

text \<open>
  Claim C24. A setup is answered once: after a transaction completes, and until its reply leaves the cache,
  every retry with the same request is answered with the exact reply bytes, whatever other setups are
  begun, answered, completed, cancelled or expired in between, and a different request under the same identifier is
  a conflict.
\<close>

theorem setup_reply_replayed:
  assumes "setup_inv t" "find (tx_key hop i) (tx_entries t) = Some e"
    and "setup_complete hop i reply now_us t = (t1, Inr ())"
    and "(relay_setup_step (sat_add64 now_us (retention_us t)))\<^sup>*\<^sup>* t1 t2"
    and "later < sat_add64 now_us (retention_us t)" "later < deadline" "i \<noteq> 0" "request \<noteq> []"
    and "length request \<le> max_request_bytes t2" "reply_capacity \<noteq> 0" "reply_capacity \<le> max_reply_bytes t2"
  shows "snd (setup_begin mem hop i request reply_capacity later deadline t2)
    = (if request = tx_request e then TxReplay reply else TxIsConflict)"
proof -
  let ?T = "sat_add64 now_us (retention_us t)"
  have "has_reply ?T hop i (tx_request e) reply t1" using setup_complete_has_reply [OF assms(1-3)] .
  moreover have "setup_inv t1" using setup_inv_complete [OF assms(1), of hop i reply now_us] assms(3) by simp
  ultimately have "setup_inv t2 \<and> has_reply ?T hop i (tx_request e) reply t2"
    using relay_reply.inv_run [where limit = ?T and hop = hop and i = i and request = "tx_request e" and reply = reply]
      assms(4) by blast
  then have "has_reply ?T hop i (tx_request e) reply (fst (setup_expire later t2))"
    using has_reply_expire assms(5) by blast
  moreover have "max_request_bytes (fst (setup_expire later t2)) = max_request_bytes t2"
    "max_reply_bytes (fst (setup_expire later t2)) = max_reply_bytes t2"
    by (simp_all add: setup_expire_def set_counters_def split: prod.splits)
  moreover have "entry_ok e'" if "find (tx_key hop i) (tx_entries (fst (setup_expire later t2))) = Some e'" for e'
    using find_tx [OF that] setup_inv_expire [of t2 later] \<open>setup_inv t2 \<and> _\<close> by (simp add: setup_inv_def)
  ultimately show ?thesis
    using assms(6-11) by (auto simp: setup_begin_def Let_def has_reply_def entry_ok_def split: option.splits)
qed

definition hop1 :: ForwardNextHop where
  "hop1 = \<lparr>hop_bearer = 1, hop_peer = 7\<rparr>"

definition begun_table :: SetupTransactionTable where
  "begun_table = fst (setup_begin True hop1 5 [1, 2] 8 100 200 (setup_new 2 4 16 16 32 1000))"

lemma begun_table_reached: "(relay_setup_step 101)\<^sup>*\<^sup>* (setup_new 2 4 16 16 32 1000) begun_table"
  unfolding begun_table_def by (intro r_into_rtranclp Table Begin) simp

lemma setup_start_new: "setup_start (setup_new 2 4 16 16 32 1000)"
  unfolding setup_start_def by blast

theorem setup_table_bounded_witness:
  "setup_start (setup_new 2 4 16 16 32 1000) \<and> pending_count begun_table = 1 \<and> reserved_reply_bytes begun_table = 8
    \<and> pending_count begun_table \<le> max_pending begun_table"
proof -
  have "pending_count begun_table = 1 \<and> reserved_reply_bytes begun_table = 8" by code_simp
  with setup_table_bounded [OF setup_start_new begun_table_reached] setup_start_new show ?thesis by blast
qed

theorem setup_reply_replayed_witness:
  "snd (setup_begin False hop1 5 [1, 2] 8 150 300 (fst (setup_complete hop1 5 [9] 120 begun_table))) = TxReplay [9]"
proof -
  have f: "find (tx_key hop1 5) (tx_entries begun_table) = Some (hd (tx_entries begun_table))" by code_simp
  have c: "setup_complete hop1 5 [9] 120 begun_table = (fst (setup_complete hop1 5 [9] 120 begun_table), Inr ())" by code_simp
  have l: "(150::nat) < sat_add64 120 (retention_us begun_table)" by code_simp
  have m: "length [1, 2 :: u8] \<le> max_request_bytes (fst (setup_complete hop1 5 [9] 120 begun_table))"
    "8 \<le> max_reply_bytes (fst (setup_complete hop1 5 [9] 120 begun_table))" by code_simp+
  have "tx_request (hd (tx_entries begun_table)) = [1, 2]" by code_simp
  with setup_reply_replayed [OF relay_setup.inv_reachable [OF setup_start_new begun_table_reached] f c rtranclp.rtrancl_refl
      l, of 300 "[1, 2]" 8 False] m show ?thesis by simp
qed

text \<open>
  A reply from downstream is accepted only if it is a well-formed acknowledgement of this very
  transaction and circuit, and the first one accepted is pinned: the same bytes are accepted again without
  any change, with the same outcome or, once the transaction is answered, as a replay of the answer; other
  bytes are refused.
\<close>

theorem downstream_reply_pinned:
  assumes "validate_downstream_reply mem downstream i circuit reply t = (t1, Inr x)"
  shows "(\<exists>decoded. decode_setup_reply_packet reply = Inr decoded \<and> rp_transaction_id decoded = i \<and> rp_circuit decoded = circuit)
    \<and> (\<exists>x'. validate_downstream_reply mem' downstream i circuit reply t1 = (t1, Inr x') \<and> (x' = x \<or> (\<exists>hop r. x' = ReplayReply hop r)))
    \<and> (reply' \<noteq> reply \<longrightarrow> (\<exists>err. validate_downstream_reply mem' downstream i circuit' reply' t1 = (t1, Inl err)))"
proof -
  let ?f = "\<lambda>e. e\<lparr>downstream_reply := downstream_reply e @ reply\<rparr>" and ?P = "from_downstream downstream i"
  obtain e decoded where e: "find ?P (tx_entries t) = Some e" "\<not> tx_expired e" "decode_setup_reply_packet reply = Inr decoded"
    "rp_transaction_id decoded = i" "rp_circuit decoded = circuit"
    using assms by (auto simp: validate_downstream_reply_def split: option.splits sum.splits if_splits)
  have upd: "find ?P (update_first ?P ?f es) = map_option ?f (find ?P es)" for es
    by (induction es) (auto simp: from_downstream_def)
  consider "downstream_reply e = reply" "reply \<noteq> []" "t1 = t"
      "(if reply_ready e then Inr (ReplayReply (previous_hop e) (tx_reply e)) else new_downstream_reply e) = Inr x"
    | "downstream_reply e = []" "reply \<noteq> []" "t1 = t\<lparr>tx_entries := update_first ?P ?f (tx_entries t)\<rparr>" "new_downstream_reply e = Inr x"
    using assms e by (auto simp: validate_downstream_reply_def split: if_splits)
  then show ?thesis
  proof cases
    case 1
    then show ?thesis using e by (auto simp: validate_downstream_reply_def split: sum.splits if_splits)
  next
    case 2
    have f: "find ?P (tx_entries t1) = Some (?f e)" using 2(3) e(1) by (simp add: upd)
    have "new_downstream_reply (?f e) = new_downstream_reply e" by (simp add: new_downstream_reply_def)
    with f show ?thesis using e 2 by (auto simp: validate_downstream_reply_def split: sum.splits if_splits)
  qed
qed

lemma setup_packet_body:
  assumes "encode_long_packet t None None 0 1 body cap = Inr bytes"
  shows "\<exists>at. decode_long_packet bytes = Inr (\<lparr>lh_packet_type = t, lh_version = DMESH_LONG_HEADER_VERSION,
      lh_dcid = None, lh_scid = None, lh_packet_number = 0, lh_packet_number_len = 1\<rparr>, at, length body)
    \<and> take (length body) (drop at bytes) = body"
  using long_packet_roundtrip [OF assms] by (auto simp: opt_cid_ok_def)

text \<open>
  Claim C29. A setup request survives the wire: the packet a node sends for a request decodes to the same
  transaction, mode, route, circuit, destination and reverse identifier, and its blocks are read back one by
  one as they were given.
\<close>

theorem setup_request_roundtrip:
  assumes "request_ok rq" "request_encode_packet rq cap = Inr bytes"
  shows "\<exists>v. decode_setup_request_packet bytes = Inr v \<and> request_view rq v"
proof -
  obtain body where b: "request_encode rq MAX_SETUP_BODY_BYTES = Inr body"
    "encode_long_packet LONG_PACKET_PATH_OPEN None None 0 1 body cap = Inr bytes"
    using assms(2) by (auto simp: request_encode_packet_def)
  obtain v where "request_decode body = Inr v" "request_view rq v" using request_decode_encode [OF assms(1) b(1)] by blast
  with setup_packet_body [OF b(2)] show ?thesis by (auto simp: decode_setup_request_packet_def)
qed

text \<open>
  Claim C30. A relay passes a request on unchanged except for its own block: the forwarded packet decodes to
  the same transaction, mode, route, circuit and destination with the relay's reverse identifier, and its
  blocks are exactly those after the first, or all of them when the route is telescoping.
\<close>

theorem relay_consumes_one_block:
  assumes "decode_setup_request_packet input = Inr v"
    and "encode_packet_after_first_block_with_reverse_cid v rcid cap = Inr out" "rcid_ok rcid"
  shows "\<exists>v'. decode_setup_request_packet out = Inr v' \<and> rv_version v' = rv_version v \<and> rv_transaction_id v' = rv_transaction_id v
    \<and> rv_mode v' = rv_mode v \<and> rv_route_mode v' = rv_route_mode v \<and> rv_circuit v' = rv_circuit v
    \<and> rv_destination_vip v' = rv_destination_vip v \<and> rv_previous_reverse_cid v' = rcid
    \<and> bb_count (rv_blocks v') = bb_count (rv_blocks v) - (if rv_route_mode v = Telescoping then 0 else 1)
    \<and> (\<forall>i. blocks_get (rv_blocks v') i = blocks_get (rv_blocks v) (i + (if rv_route_mode v = Telescoping then 0 else 1)))"
proof -
  obtain body where d: "request_decode body = Inr v"
    using assms(1) by (auto simp: decode_setup_request_packet_def split: if_splits)
  obtain body' where b: "encode_after_first_block_with_reverse_cid v rcid MAX_SETUP_BODY_BYTES = Inr body'"
    "encode_long_packet LONG_PACKET_PATH_OPEN None None 0 1 body' cap = Inr out"
    using assms(2) by (auto simp: encode_packet_after_first_block_with_reverse_cid_def)
  have "decode_setup_request_packet out = request_decode body'"
    using setup_packet_body [OF b(2)] by (auto simp: decode_setup_request_packet_def)
  with relay_request_forward [OF d b(1) assms(3)] show ?thesis by simp
qed

text \<open>
  A setup reply survives the wire: the packet of every well-formed reply decodes to that reply.
\<close>

theorem setup_reply_roundtrip:
  assumes "reply_ok rp" "reply_encode_packet rp cap = Inr bytes"
  shows "decode_setup_reply_packet bytes = Inr rp"
proof -
  obtain body where b: "reply_encode rp DEFAULT_SETUP_REPLY_BYTES = Inr body"
    "encode_long_packet LONG_PACKET_PATH_OPEN_ACK None None 0 1 body cap = Inr bytes"
    using assms(2) by (auto simp: reply_encode_packet_def)
  with setup_packet_body [OF b(2)] reply_decode_encode [OF assms(1) b(1)] show ?thesis by (auto simp: decode_setup_reply_packet_def)
qed

definition example_request :: SetupRequest where
  "example_request = \<lparr>rq_transaction_id = 7, rq_mode = CreateMode, rq_route_mode = Layered,
     rq_circuit = \<lparr>sck_opener_role = Client, sck_sequence = 1\<rparr>, destination_vip = Some 99, previous_reverse_cid = Some (ConnectionId 300),
     rq_blocks = [\<lparr>blk_kind = 1, blk_version = 1, blk_protection = 0, blk_payload = [1, 2, 3, 4, 60, 5]\<rparr>,
                  \<lparr>blk_kind = 2, blk_version = 1, blk_protection = 0, blk_payload = [8, 9]\<rparr>]\<rparr>"

definition example_request_packet :: "u8 list" where
  "example_request_packet = (case request_encode_packet example_request 200 of Inr bytes \<Rightarrow> bytes | Inl _ \<Rightarrow> [])"

definition example_view :: SetupRequestView where
  "example_view = (case decode_setup_request_packet example_request_packet of Inr v \<Rightarrow> v | Inl _ \<Rightarrow> undefined)"

definition example_reply :: SetupReply where
  "example_reply = \<lparr>rp_transaction_id = 7, rp_circuit = \<lparr>sck_opener_role = Client, sck_sequence = 1\<rparr>,
     rp_result = Accepted (ConnectionId 300) 60, bootstrap_ack = Some [1, 2], relay_cids = [ConnectionId 5]\<rparr>"

definition example_reply_packet :: "u8 list" where
  "example_reply_packet = (case reply_encode_packet example_reply 200 of Inr bytes \<Rightarrow> bytes | Inl _ \<Rightarrow> [])"

theorem setup_request_roundtrip_witness:
  "request_ok example_request \<and> (\<exists>v. decode_setup_request_packet example_request_packet = Inr v \<and> request_view example_request v)"
proof -
  have "request_ok example_request" "request_encode_packet example_request 200 = Inr example_request_packet" by code_simp+
  with setup_request_roundtrip show ?thesis by blast
qed

theorem setup_reply_roundtrip_witness:
  "reply_ok example_reply \<and> decode_setup_reply_packet example_reply_packet = Inr example_reply"
proof -
  have "reply_ok example_reply" "reply_encode_packet example_reply 200 = Inr example_reply_packet" by code_simp+
  with setup_reply_roundtrip show ?thesis by blast
qed

theorem relay_consumes_one_block_witness:
  "\<exists>out v'. encode_packet_after_first_block_with_reverse_cid example_view (Some (ConnectionId 6)) 200 = Inr out
    \<and> decode_setup_request_packet out = Inr v' \<and> rv_previous_reverse_cid v' = Some (ConnectionId 6)
    \<and> bb_count (rv_blocks v') = 1"
proof -
  have d: "decode_setup_request_packet example_request_packet = Inr example_view" by code_simp
  have ok: "rcid_ok (Some (ConnectionId 6))" by code_simp
  have "isOk (encode_packet_after_first_block_with_reverse_cid example_view (Some (ConnectionId 6)) 200)" by code_simp
  then obtain out where o: "encode_packet_after_first_block_with_reverse_cid example_view (Some (ConnectionId 6)) 200 = Inr out"
    by (auto simp: isOk_def split: sum.splits)
  have "bb_count (rv_blocks example_view) - (if rv_route_mode example_view = Telescoping then 0 else 1) = 1" by code_simp
  with relay_consumes_one_block [OF d o ok] o show ?thesis by auto
qed

definition awaiting_table :: SetupTransactionTable where
  "awaiting_table = fst (set_relay_state hop1 7 \<lparr>forward_cid = ConnectionId 1, reverse_cid = ConnectionId 2,
       reverse_target = ConnectionId 3, sr_lease_duration_us = 60, sr_packet_quota = 5\<rparr>
     (fst (set_downstream_hop hop1 7 \<lparr>hop_bearer = 2, hop_peer = 8\<rparr>
     (fst (setup_begin True hop1 7 [1] 100 0 50 (setup_new 2 4 16 200 200 1000))))))"

theorem downstream_reply_pinned_witness:
  "(\<exists>x. snd (validate_downstream_reply True \<lparr>hop_bearer = 2, hop_peer = 8\<rparr> 7 (rp_circuit example_reply) example_reply_packet awaiting_table) = Inr x)
    \<and> (\<exists>err. snd (validate_downstream_reply True \<lparr>hop_bearer = 2, hop_peer = 8\<rparr> 7 (rp_circuit example_reply) [1]
          (fst (validate_downstream_reply True \<lparr>hop_bearer = 2, hop_peer = 8\<rparr> 7 (rp_circuit example_reply) example_reply_packet awaiting_table))) = Inl err)"
proof -
  let ?v = "validate_downstream_reply True \<lparr>hop_bearer = 2, hop_peer = 8\<rparr> 7 (rp_circuit example_reply)"
  have "isOk (snd (?v example_reply_packet awaiting_table))" by code_simp
  then obtain x where x: "?v example_reply_packet awaiting_table = (fst (?v example_reply_packet awaiting_table), Inr x)"
    by (cases "?v example_reply_packet awaiting_table") (auto simp: isOk_def split: sum.splits)
  moreover have "[1] \<noteq> example_reply_packet" by code_simp
  ultimately show ?thesis
    using downstream_reply_pinned [OF x, of True "[1]" "rp_circuit example_reply"] by (metis snd_conv)
qed

end
