(* ===== verification/Dcid_Registry.thy ===== *)
theory Dcid_Registry
  imports Setup_Codec Stateless_Reset
begin

text \<open>
  The destination registry and the packet router of \<^verbatim>\<open>quic-lite/src/relay.rs\<close>: one namespace of local
  connection identifiers for endpoints and forwarding rules, kept as a sorted vector, with the leases and
  quotas of the rules and the routing of a packet by its destination.
\<close>

section \<open>State\<close>

datatype ForwardDestination = ToConnection ConnectionId | ToBootstrap

record 'n ForwardRule =
  next_hop :: 'n
  fr_destination :: ForwardDestination
  lease_duration_us :: u64
  lease_expires_at_us :: u64
  lease_group_id :: u64
  packet_quota :: u64
  forwarded_packets :: u64
  forwarded_control_packets :: u64
  quota_window_started_us :: u64

datatype ('e, 'n) DcidTarget = EndpointTarget 'e | ForwardTarget "'n ForwardRule"

datatype DcidRegistryError =
  InvalidConnectionId | Occupied | RegistryFull | MissingTarget | WrongTarget | InvalidLeaseGroup

record ('e, 'n) DcidRegistry =
  reg_entries :: "(ConnectionId \<times> ('e, 'n) DcidTarget) list"
  max_entries :: usize

definition registry_new :: "('e, 'n) DcidRegistry" where
  "registry_new = \<lparr>reg_entries = [], max_entries = u64_max\<rparr>"

definition set_max_entries :: "usize \<Rightarrow> ('e, 'n) DcidRegistry \<Rightarrow> ('e, 'n) DcidRegistry" where
  "set_max_entries m r = r\<lparr>max_entries := m\<rparr>"

section \<open>Binary search\<close>

text \<open>
  \<^verbatim>\<open>slice::binary_search_by_key\<close>: the window of \<open>size\<close> entries from \<open>base\<close> is halved until one is left.
  \<open>Inr\<close> is the index of the key, \<open>Inl\<close> the index at which it can be inserted.
\<close>

fun search_window :: "u64 \<Rightarrow> u64 list \<Rightarrow> usize \<Rightarrow> usize \<Rightarrow> usize" where
  "search_window k ks base n =
     (if n \<le> 1 then base
      else let half = n div 2; mid = base + half
           in search_window k ks (if ks ! mid > k then base else mid) (n - half))"

declare search_window.simps [simp del]

definition binary_search :: "u64 \<Rightarrow> u64 list \<Rightarrow> usize + usize" where
  "binary_search k ks =
     (if ks = [] then Inl 0
      else let base = search_window k ks 0 (length ks)
           in if ks ! base = k then Inr base
              else Inl (base + (if ks ! base < k then 1 else 0)))"

definition reg_find :: "('e, 'n) DcidRegistry \<Rightarrow> ConnectionId \<Rightarrow> usize + usize" where
  "reg_find r dcid = binary_search (cid_value dcid) (map (\<lambda>(cid, _). cid_value cid) (reg_entries r))"

section \<open>Operations of the registry\<close>

definition vec_insert :: "usize \<Rightarrow> 'a \<Rightarrow> 'a list \<Rightarrow> 'a list" where
  "vec_insert i x xs = take i xs @ x # drop i xs"

definition vec_remove :: "usize \<Rightarrow> 'a list \<Rightarrow> 'a list" where
  "vec_remove i xs = take i xs @ drop (i + 1) xs"

definition target_at :: "('e, 'n) DcidRegistry \<Rightarrow> usize \<Rightarrow> ('e, 'n) DcidTarget" where
  "target_at r i = snd (reg_entries r ! i)"

definition reg_contains :: "('e, 'n) DcidRegistry \<Rightarrow> ConnectionId \<Rightarrow> bool" where
  "reg_contains r dcid = isOk (reg_find r dcid)"

definition reg_insert :: "bool \<Rightarrow> ConnectionId \<Rightarrow> ('e, 'n) DcidTarget \<Rightarrow> ('e, 'n) DcidRegistry
    \<Rightarrow> ('e, 'n) DcidRegistry \<times> (DcidRegistryError + unit)" where
  "reg_insert mem dcid tgt r =
     (if cid_value dcid = 0 then (r, Inl InvalidConnectionId)
      else (case reg_find r dcid of
          Inr _ \<Rightarrow> (r, Inl Occupied)
        | Inl i \<Rightarrow>
            if length (reg_entries r) \<ge> max_entries r \<or> \<not> mem then (r, Inl RegistryFull)
            else (r\<lparr>reg_entries := vec_insert i (dcid, tgt) (reg_entries r)\<rparr>, Inr ())))"

definition insert_endpoint :: "bool \<Rightarrow> ConnectionId \<Rightarrow> 'e \<Rightarrow> ('e, 'n) DcidRegistry
    \<Rightarrow> ('e, 'n) DcidRegistry \<times> (DcidRegistryError + unit)" where
  "insert_endpoint mem dcid e r = reg_insert mem dcid (EndpointTarget e) r"

definition install_forward :: "bool \<Rightarrow> ConnectionId \<Rightarrow> 'n ForwardRule \<Rightarrow> ('e, 'n) DcidRegistry
    \<Rightarrow> ('e, 'n) DcidRegistry \<times> (DcidRegistryError + unit)" where
  "install_forward mem dcid rule r =
     (if lease_group_id rule \<noteq> 0 then (r, Inl InvalidLeaseGroup) else reg_insert mem dcid (ForwardTarget rule) r)"

definition in_group :: "u64 \<Rightarrow> ('e, 'n) DcidTarget \<Rightarrow> bool" where
  "in_group g tgt = (case tgt of EndpointTarget _ \<Rightarrow> False | ForwardTarget rule \<Rightarrow> lease_group_id rule = g)"

definition pair_mismatch :: "ConnectionId \<Rightarrow> 'n ForwardRule \<Rightarrow> ConnectionId \<Rightarrow> 'n ForwardRule \<Rightarrow> bool" where
  "pair_mismatch c1 r1 c2 r2 \<longleftrightarrow>
     c1 = c2 \<or> lease_group_id r1 = 0 \<or> lease_group_id r1 \<noteq> lease_group_id r2
     \<or> lease_duration_us r1 \<noteq> lease_duration_us r2 \<or> lease_expires_at_us r1 \<noteq> lease_expires_at_us r2
     \<or> packet_quota r1 \<noteq> packet_quota r2 \<or> forwarded_packets r1 \<noteq> 0 \<or> forwarded_packets r2 \<noteq> 0
     \<or> forwarded_control_packets r1 \<noteq> 0 \<or> forwarded_control_packets r2 \<noteq> 0"

text \<open>The index that \<^verbatim>\<open>find(..).unwrap_err()\<close> gives; both identifiers are known to be absent there.\<close>

definition insertion_index :: "('e, 'n) DcidRegistry \<Rightarrow> ConnectionId \<Rightarrow> usize" where
  "insertion_index r dcid = (case reg_find r dcid of Inl i \<Rightarrow> i | Inr i \<Rightarrow> i)"

definition install_forward_pair :: "bool \<Rightarrow> ConnectionId \<Rightarrow> 'n ForwardRule \<Rightarrow> ConnectionId \<Rightarrow> 'n ForwardRule
    \<Rightarrow> ('e, 'n) DcidRegistry \<Rightarrow> ('e, 'n) DcidRegistry \<times> (DcidRegistryError + unit)" where
  "install_forward_pair mem c1 r1 c2 r2 r =
     (if cid_value c1 = 0 \<or> cid_value c2 = 0 then (r, Inl InvalidConnectionId)
      else if pair_mismatch c1 r1 c2 r2 then (r, Inl InvalidLeaseGroup)
      else if list_ex (\<lambda>(_, tgt). in_group (lease_group_id r1) tgt) (reg_entries r) then (r, Inl Occupied)
      else if reg_contains r c1 \<or> reg_contains r c2 then (r, Inl Occupied)
      else if sat_add64 (length (reg_entries r)) 2 > max_entries r \<or> \<not> mem then (r, Inl RegistryFull)
      else
        let (low, low_rule, high, high_rule) =
              (if cid_value c1 < cid_value c2 then (c1, r1, c2, r2) else (c2, r2, c1, r1));
            ra = r\<lparr>reg_entries := vec_insert (insertion_index r low) (low, ForwardTarget low_rule) (reg_entries r)\<rparr>;
            rb = ra\<lparr>reg_entries := vec_insert (insertion_index ra high) (high, ForwardTarget high_rule) (reg_entries ra)\<rparr>
        in (rb, Inr ()))"

definition drop_group :: "u64 \<Rightarrow> ('e, 'n) DcidRegistry \<Rightarrow> ('e, 'n) DcidRegistry" where
  "drop_group g r = r\<lparr>reg_entries := filter (\<lambda>(_, tgt). \<not> in_group g tgt) (reg_entries r)\<rparr>"

definition remove_forward_pair :: "ConnectionId \<Rightarrow> ConnectionId \<Rightarrow> ('e, 'n) DcidRegistry \<Rightarrow> ('e, 'n) DcidRegistry \<times> bool" where
  "remove_forward_pair c1 c2 r =
     (case (reg_find r c1, reg_find r c2) of
        (Inr i1, Inr i2) \<Rightarrow>
          (case (target_at r i1, target_at r i2) of
             (ForwardTarget f1, ForwardTarget f2) \<Rightarrow>
               if c1 = c2 \<or> lease_group_id f1 = 0 \<or> lease_group_id f1 \<noteq> lease_group_id f2 then (r, False)
               else (drop_group (lease_group_id f1) r, True)
           | _ \<Rightarrow> (r, False))
      | _ \<Rightarrow> (r, False))"

definition install_forward_idempotent :: "bool \<Rightarrow> ConnectionId \<Rightarrow> 'n ForwardRule \<Rightarrow> ('e, 'n) DcidRegistry
    \<Rightarrow> ('e, 'n) DcidRegistry \<times> (DcidRegistryError + bool)" where
  "install_forward_idempotent mem dcid rule r =
     (if cid_value dcid = 0 then (r, Inl InvalidConnectionId)
      else (case reg_find r dcid of
          Inr i \<Rightarrow> (r, if target_at r i = ForwardTarget rule then Inr False else Inl Occupied)
        | Inl _ \<Rightarrow> (case reg_insert mem dcid (ForwardTarget rule) r of
              (r1, Inl e) \<Rightarrow> (r1, Inl e) | (r1, Inr _) \<Rightarrow> (r1, Inr True))))"

definition set_target :: "usize \<Rightarrow> ('e, 'n) DcidTarget \<Rightarrow> ('e, 'n) DcidRegistry \<Rightarrow> ('e, 'n) DcidRegistry" where
  "set_target i tgt r = r\<lparr>reg_entries := (reg_entries r)[i := (fst (reg_entries r ! i), tgt)]\<rparr>"

definition update_forward :: "ConnectionId \<Rightarrow> 'n ForwardRule \<Rightarrow> ('e, 'n) DcidRegistry
    \<Rightarrow> ('e, 'n) DcidRegistry \<times> (DcidRegistryError + unit)" where
  "update_forward dcid rule r =
     (case reg_find r dcid of
        Inl _ \<Rightarrow> (r, Inl MissingTarget)
      | Inr i \<Rightarrow>
          (case target_at r i of
             EndpointTarget _ \<Rightarrow> (r, Inl WrongTarget)
           | ForwardTarget _ \<Rightarrow> (set_target i (ForwardTarget rule) r, Inr ())))"

definition remove_at :: "usize \<Rightarrow> ('e, 'n) DcidRegistry \<Rightarrow> ('e, 'n) DcidRegistry" where
  "remove_at i r = r\<lparr>reg_entries := vec_remove i (reg_entries r)\<rparr>"

definition reg_remove :: "ConnectionId \<Rightarrow> ('e, 'n) DcidRegistry \<Rightarrow> ('e, 'n) DcidRegistry \<times> ('e, 'n) DcidTarget option" where
  "reg_remove dcid r = (case reg_find r dcid of
     Inl _ \<Rightarrow> (r, None) | Inr i \<Rightarrow> (remove_at i r, Some (target_at r i)))"

datatype ('e, 'n) DcidIngress = EndpointIngress ShortHeaderPrefix 'e | ForwardIngress ShortHeaderPrefix "'n ForwardRule"

definition ingress :: "('e, 'n) DcidRegistry \<Rightarrow> ShortHeaderPrefix \<Rightarrow> DcidRegistryError + ('e, 'n) DcidIngress" where
  "ingress r p = (case reg_find r (pre_dcid p) of
     Inl _ \<Rightarrow> Inl MissingTarget
   | Inr i \<Rightarrow> Inr (case target_at r i of
       EndpointTarget e \<Rightarrow> EndpointIngress p e | ForwardTarget rule \<Rightarrow> ForwardIngress p rule))"

fun endpoint_matching :: "('e \<Rightarrow> bool) \<Rightarrow> (ConnectionId \<times> ('e, 'n) DcidTarget) list \<Rightarrow> 'e option" where
  "endpoint_matching P [] = None"
| "endpoint_matching P ((_, tgt) # es) = (case tgt of
     EndpointTarget e \<Rightarrow> if P e then Some e else endpoint_matching P es
   | ForwardTarget _ \<Rightarrow> endpoint_matching P es)"

definition next_forward_lease_deadline :: "('e, 'n) DcidRegistry \<Rightarrow> u64 option" where
  "next_forward_lease_deadline r =
     (case List.map_filter (\<lambda>(_, tgt). case tgt of
             ForwardTarget rule \<Rightarrow> Some (lease_expires_at_us rule) | EndpointTarget _ \<Rightarrow> None) (reg_entries r) of
        [] \<Rightarrow> None | d # ds \<Rightarrow> Some (fold min ds d))"

definition lease_alive :: "u64 \<Rightarrow> ('e, 'n) DcidTarget \<Rightarrow> bool" where
  "lease_alive now_us tgt = (case tgt of ForwardTarget rule \<Rightarrow> lease_expires_at_us rule > now_us | EndpointTarget _ \<Rightarrow> True)"

definition expire_forward_leases :: "u64 \<Rightarrow> ('e, 'n) DcidRegistry \<Rightarrow> ('e, 'n) DcidRegistry \<times> usize" where
  "expire_forward_leases now_us r =
     (let r1 = r\<lparr>reg_entries := filter (\<lambda>(_, tgt). lease_alive now_us tgt) (reg_entries r)\<rparr>
      in (r1, length (reg_entries r) - length (reg_entries r1)))"

section \<open>The router\<close>

record ('e, 'n) PacketRouter =
  router_registry :: "('e, 'n) DcidRegistry"
  setup_transactions :: SetupTransactionTable
  router_reset_key :: "StatelessResetKey option"

definition DEFAULT_MAX_PENDING_SETUPS :: usize where "DEFAULT_MAX_PENDING_SETUPS = 4"
definition DEFAULT_MAX_CACHED_SETUP_REPLIES :: usize where "DEFAULT_MAX_CACHED_SETUP_REPLIES = 8"
definition DEFAULT_SETUP_REPLY_STORAGE_BYTES :: usize where "DEFAULT_SETUP_REPLY_STORAGE_BYTES = 1024"
definition DEFAULT_SETUP_REPLY_RETENTION_US :: u64 where "DEFAULT_SETUP_REPLY_RETENTION_US = 5000000"

definition router_new :: "StatelessResetKey option \<Rightarrow> ('e, 'n) PacketRouter" where
  "router_new key = \<lparr>router_registry = registry_new,
     setup_transactions = setup_new DEFAULT_MAX_PENDING_SETUPS DEFAULT_MAX_CACHED_SETUP_REPLIES MAX_SETUP_BODY_BYTES
       DEFAULT_SETUP_REPLY_BYTES DEFAULT_SETUP_REPLY_STORAGE_BYTES DEFAULT_SETUP_REPLY_RETENTION_US,
     router_reset_key = key\<rparr>"

text \<open>An operation of the registry, or of the setup table, on the router that holds it.\<close>

definition on_registry :: "(('e, 'n) DcidRegistry \<Rightarrow> ('e, 'n) DcidRegistry \<times> 'a) \<Rightarrow> ('e, 'n) PacketRouter \<Rightarrow> ('e, 'n) PacketRouter \<times> 'a" where
  "on_registry f rt = (case f (router_registry rt) of (r, x) \<Rightarrow> (rt\<lparr>router_registry := r\<rparr>, x))"

definition on_setup :: "(SetupTransactionTable \<Rightarrow> SetupTransactionTable \<times> 'a) \<Rightarrow> ('e, 'n) PacketRouter \<Rightarrow> ('e, 'n) PacketRouter \<times> 'a" where
  "on_setup f rt = (case f (setup_transactions rt) of (t, x) \<Rightarrow> (rt\<lparr>setup_transactions := t\<rparr>, x))"

definition register_endpoint :: "bool \<Rightarrow> ConnectionId \<Rightarrow> 'e \<Rightarrow> ('e, 'n) PacketRouter
    \<Rightarrow> ('e, 'n) PacketRouter \<times> (DcidRegistryError + unit)" where
  "register_endpoint mem dcid e = on_registry (insert_endpoint mem dcid e)"

definition register_forward :: "bool \<Rightarrow> ConnectionId \<Rightarrow> 'n ForwardRule \<Rightarrow> ('e, 'n) PacketRouter
    \<Rightarrow> ('e, 'n) PacketRouter \<times> (DcidRegistryError + unit)" where
  "register_forward mem dcid rule = on_registry (install_forward mem dcid rule)"

definition register_forward_pair :: "bool \<Rightarrow> ConnectionId \<Rightarrow> 'n ForwardRule \<Rightarrow> ConnectionId \<Rightarrow> 'n ForwardRule
    \<Rightarrow> ('e, 'n) PacketRouter \<Rightarrow> ('e, 'n) PacketRouter \<times> (DcidRegistryError + unit)" where
  "register_forward_pair mem c1 r1 c2 r2 = on_registry (install_forward_pair mem c1 r1 c2 r2)"

definition begin_setup_transaction :: "bool \<Rightarrow> ForwardNextHop \<Rightarrow> u64 \<Rightarrow> u8 list \<Rightarrow> usize \<Rightarrow> u64 \<Rightarrow> u64 \<Rightarrow> ('e, 'n) PacketRouter
    \<Rightarrow> ('e, 'n) PacketRouter \<times> SetupTransactionLookup" where
  "begin_setup_transaction mem hop i request reply_capacity now_us deadline =
     on_setup (setup_begin mem hop i request reply_capacity now_us deadline)"

definition set_setup_downstream_hop :: "ForwardNextHop \<Rightarrow> u64 \<Rightarrow> ForwardNextHop \<Rightarrow> ('e, 'n) PacketRouter
    \<Rightarrow> ('e, 'n) PacketRouter \<times> (SetupTransactionError + unit)" where
  "set_setup_downstream_hop hop i downstream = on_setup (set_downstream_hop hop i downstream)"

definition set_setup_relay_state :: "ForwardNextHop \<Rightarrow> u64 \<Rightarrow> SetupRelayState \<Rightarrow> ('e, 'n) PacketRouter
    \<Rightarrow> ('e, 'n) PacketRouter \<times> (SetupTransactionError + unit)" where
  "set_setup_relay_state hop i st = on_setup (set_relay_state hop i st)"

definition validate_setup_downstream_reply :: "bool \<Rightarrow> ForwardNextHop \<Rightarrow> u64 \<Rightarrow> SetupCircuitKey \<Rightarrow> u8 list \<Rightarrow> ('e, 'n) PacketRouter
    \<Rightarrow> ('e, 'n) PacketRouter \<times> (SetupTransactionError + SetupDownstreamReply)" where
  "validate_setup_downstream_reply mem downstream i circuit reply = on_setup (validate_downstream_reply mem downstream i circuit reply)"

definition complete_setup_from_downstream :: "ForwardNextHop \<Rightarrow> u64 \<Rightarrow> u8 list \<Rightarrow> u64 \<Rightarrow> ('e, 'n) PacketRouter
    \<Rightarrow> ('e, 'n) PacketRouter \<times> (SetupTransactionError + ForwardNextHop)" where
  "complete_setup_from_downstream downstream i reply now_us = on_setup (complete_from_downstream downstream i reply now_us)"

definition complete_setup_transaction :: "ForwardNextHop \<Rightarrow> u64 \<Rightarrow> u8 list \<Rightarrow> u64 \<Rightarrow> ('e, 'n) PacketRouter
    \<Rightarrow> ('e, 'n) PacketRouter \<times> (SetupTransactionError + unit)" where
  "complete_setup_transaction hop i reply now_us = on_setup (setup_complete hop i reply now_us)"

definition cancel_setup_transaction :: "ForwardNextHop \<Rightarrow> u64 \<Rightarrow> ('e, 'n) PacketRouter \<Rightarrow> ('e, 'n) PacketRouter \<times> bool" where
  "cancel_setup_transaction hop i = on_setup (setup_cancel hop i)"

definition expire_setup_transactions :: "u64 \<Rightarrow> ('e, 'n) PacketRouter \<Rightarrow> ('e, 'n) PacketRouter \<times> usize" where
  "expire_setup_transactions now_us = on_setup (setup_expire now_us)"

definition endpoint_for_cid :: "('e, 'n) PacketRouter \<Rightarrow> ConnectionId \<Rightarrow> 'e option" where
  "endpoint_for_cid rt dcid = (case reg_find (router_registry rt) dcid of
     Inl _ \<Rightarrow> None
   | Inr i \<Rightarrow> (case target_at (router_registry rt) i of EndpointTarget e \<Rightarrow> Some e | ForwardTarget _ \<Rightarrow> None))"

definition remove_endpoint :: "ConnectionId \<Rightarrow> 'e \<Rightarrow> ('e, 'n) PacketRouter \<Rightarrow> ('e, 'n) PacketRouter \<times> bool" where
  "remove_endpoint dcid expected = on_registry (\<lambda>r. case reg_find r dcid of
     Inl _ \<Rightarrow> (r, False)
   | Inr i \<Rightarrow> if target_at r i = EndpointTarget expected then (remove_at i r, True) else (r, False))"

definition remove_forward :: "ConnectionId \<Rightarrow> ('e, 'n) PacketRouter \<Rightarrow> ('e, 'n) PacketRouter \<times> bool" where
  "remove_forward dcid = on_registry (\<lambda>r. case reg_find r dcid of
     Inl _ \<Rightarrow> (r, False)
   | Inr i \<Rightarrow> (case target_at r i of ForwardTarget _ \<Rightarrow> (remove_at i r, True) | EndpointTarget _ \<Rightarrow> (r, False)))"

definition router_remove_forward_pair :: "ConnectionId \<Rightarrow> ConnectionId \<Rightarrow> ('e, 'n) PacketRouter \<Rightarrow> ('e, 'n) PacketRouter \<times> bool" where
  "router_remove_forward_pair c1 c2 = on_registry (remove_forward_pair c1 c2)"

section \<open>Quotas\<close>

definition renew_quota_window :: "u64 \<Rightarrow> 'n ForwardRule \<Rightarrow> 'n ForwardRule" where
  "renew_quota_window now_us rule =
     (let window_us = max (lease_duration_us rule) 1;
          elapsed_us = now_us - quota_window_started_us rule
      in if elapsed_us \<ge> window_us
         then rule\<lparr>quota_window_started_us :=
                sat_add64 (quota_window_started_us rule) (sat_mul64 (elapsed_us div window_us) window_us),
              forwarded_packets := 0, forwarded_control_packets := 0\<rparr>
         else rule)"

definition consume_rule :: "bool \<Rightarrow> u64 \<Rightarrow> 'n ForwardRule \<Rightarrow> 'n ForwardRule \<times> bool" where
  "consume_rule control now_us rule =
     (if packet_quota rule = 0 then (rule, True)
      else
        let rule = renew_quota_window now_us rule;
            control_reserve = max (packet_quota rule div 16) 1
        in if forwarded_packets rule \<ge> packet_quota rule then (rule, False)
           else if \<not> control \<and> forwarded_packets rule \<ge> packet_quota rule - control_reserve then (rule, False)
           else (rule\<lparr>forwarded_packets := sat_add64 (forwarded_packets rule) 1,
                      forwarded_control_packets :=
                        (if control then sat_add64 (forwarded_control_packets rule) 1
                         else forwarded_control_packets rule)\<rparr>, True))"

definition consume_forward_quota :: "ConnectionId \<Rightarrow> bool \<Rightarrow> u64 \<Rightarrow> ('e, 'n) PacketRouter \<Rightarrow> ('e, 'n) PacketRouter \<times> bool" where
  "consume_forward_quota dcid control now_us = on_registry (\<lambda>r. case reg_find r dcid of
     Inl _ \<Rightarrow> (r, False)
   | Inr i \<Rightarrow> (case target_at r i of
       EndpointTarget _ \<Rightarrow> (r, False)
     | ForwardTarget rule \<Rightarrow>
         (case consume_rule control now_us rule of (rule', ok) \<Rightarrow> (set_target i (ForwardTarget rule') r, ok))))"

section \<open>Leases\<close>

definition forward_lease_active :: "bool \<Rightarrow> u8 list \<Rightarrow> u64 \<Rightarrow> ('e, 'n) PacketRouter \<Rightarrow> ('e, 'n) PacketRouter \<times> bool result" where
  "forward_lease_active pp input now_us = on_registry (\<lambda>r. case decode_routing_prefix pp input of
     Inl err \<Rightarrow> (r, Inl err)
   | Inr p \<Rightarrow> (case reg_find r (pre_dcid p) of
       Inl _ \<Rightarrow> (r, Inr True)
     | Inr i \<Rightarrow> (case target_at r i of
         EndpointTarget _ \<Rightarrow> (r, Inr True)
       | ForwardTarget rule \<Rightarrow>
           if lease_expires_at_us rule > now_us then (r, Inr True)
           else if lease_group_id rule = 0 then (remove_at i r, Inr False)
           else (drop_group (lease_group_id rule) r, Inr False))))"

definition renew_lease :: "u64 \<Rightarrow> ('e, 'n) DcidTarget \<Rightarrow> ('e, 'n) DcidTarget" where
  "renew_lease expires_at_us tgt = (case tgt of
     EndpointTarget e \<Rightarrow> EndpointTarget e
   | ForwardTarget rule \<Rightarrow> ForwardTarget (rule\<lparr>lease_expires_at_us := expires_at_us\<rparr>))"

definition refresh_forward_lease :: "bool \<Rightarrow> u8 list \<Rightarrow> u64 \<Rightarrow> ('e, 'n) PacketRouter \<Rightarrow> ('e, 'n) PacketRouter \<times> bool result" where
  "refresh_forward_lease pp input now_us rt = (case forward_lease_active pp input now_us rt of
     (rt1, Inl err) \<Rightarrow> (rt1, Inl err)
   | (rt1, Inr active) \<Rightarrow>
       if \<not> active then (rt1, Inr False)
       else on_registry (\<lambda>r. case decode_routing_prefix pp input of
         Inl err \<Rightarrow> (r, Inl err)
       | Inr p \<Rightarrow> (case reg_find r (pre_dcid p) of
           Inl _ \<Rightarrow> (r, Inr True)
         | Inr i \<Rightarrow> (case target_at r i of
             EndpointTarget _ \<Rightarrow> (r, Inr True)
           | ForwardTarget rule \<Rightarrow>
               let expires_at_us = sat_add64 now_us (lease_duration_us rule)
               in if lease_group_id rule = 0
                  then (set_target i (renew_lease expires_at_us (target_at r i)) r, Inr True)
                  else (r\<lparr>reg_entries := map (\<lambda>(cid, tgt).
                          (cid, if in_group (lease_group_id rule) tgt then renew_lease expires_at_us tgt else tgt))
                        (reg_entries r)\<rparr>, Inr True)))) rt1)"

definition router_expire_forward_leases :: "u64 \<Rightarrow> ('e, 'n) PacketRouter \<Rightarrow> ('e, 'n) PacketRouter \<times> usize" where
  "router_expire_forward_leases now_us = on_registry (expire_forward_leases now_us)"

section \<open>Routing\<close>

datatype ('e, 'n) RouterTarget = ToEndpoint 'e | ToForward "'n ForwardRule" | NoTarget

text \<open>\<open>None\<close> is the \<^verbatim>\<open>unreachable!\<close> arm: a lookup that fails for another reason than a missing key.\<close>

definition router_target :: "bool \<Rightarrow> ('e, 'n) PacketRouter \<Rightarrow> u8 list \<Rightarrow> ('e, 'n) RouterTarget result option" where
  "router_target pp rt input = (case decode_routing_prefix pp input of
     Inl err \<Rightarrow> Some (Inl err)
   | Inr p \<Rightarrow> (case ingress (router_registry rt) p of
       Inr (EndpointIngress _ e) \<Rightarrow> Some (Inr (ToEndpoint e))
     | Inr (ForwardIngress _ rule) \<Rightarrow> Some (Inr (ToForward rule))
     | Inl MissingTarget \<Rightarrow> Some (Inr NoTarget)
     | Inl _ \<Rightarrow> None))"

definition encode_stateless_reset :: "mac \<Rightarrow> bool \<Rightarrow> ('e, 'n) PacketRouter \<Rightarrow> u8 list \<Rightarrow> nat \<Rightarrow> u8 list option result" where
  "encode_stateless_reset hmac pp rt input cap = (case router_reset_key rt of
     Some key \<Rightarrow> encode_for_unknown_packet hmac pp key input cap | None \<Rightarrow> Inr None)"

definition reset_token_for :: "mac \<Rightarrow> ('e, 'n) PacketRouter \<Rightarrow> ConnectionId \<Rightarrow> StatelessResetToken option" where
  "reset_token_for hmac rt cid = map_option (\<lambda>key. token_for hmac key cid) (router_reset_key rt)"

definition path_probe_token_for :: "ConnectionId \<Rightarrow> u32 \<Rightarrow> u64 option" where
  "path_probe_token_for cid packet_number = Some (max packet_number 1)"

datatype ('e, 'n) DcidPacket =
    EndpointPacket ConnectionId 'e
  | ForwardPacket ConnectionId "'n ForwardRule" "u8 list"

datatype DcidPacketError = HeaderError error | RegistryError DcidRegistryError | RewriteError error

definition map_err :: "('a \<Rightarrow> 'b) \<Rightarrow> 'a + 'c \<Rightarrow> 'b + 'c" where
  "map_err f x = (case x of Inl a \<Rightarrow> Inl (f a) | Inr c \<Rightarrow> Inr c)"

definition dispatch_packet :: "bool \<Rightarrow> ('e, 'n) DcidRegistry \<Rightarrow> u8 list \<Rightarrow> nat \<Rightarrow> DcidPacketError + ('e, 'n) DcidPacket" where
  "dispatch_packet pp r input cap =
     bindE (map_err HeaderError (decode_routing_prefix pp input)) (\<lambda>p.
     bindE (map_err RegistryError (ingress r p)) (\<lambda>i. case i of
       EndpointIngress p e \<Rightarrow> Inr (EndpointPacket (pre_dcid p) e)
     | ForwardIngress _ rule \<Rightarrow>
         bindE (map_err RewriteError (case fr_destination rule of
             ToConnection dcid \<Rightarrow> rewrite_dcid pp input dcid cap
           | ToBootstrap \<Rightarrow> rewrite_bootstrap_destination pp input cap)) (\<lambda>out.
           Inr (ForwardPacket (pre_dcid p) rule out))))"

section \<open>The registry is a finite map\<close>

lemma search_window_spec:
  assumes "sorted_wrt (<) ks" "0 < n" "base + n \<le> length ks" "base = 0 \<or> ks ! base \<le> k"
    and "\<And>j. base + n \<le> j \<Longrightarrow> j < length ks \<Longrightarrow> k < ks ! j"
  defines "b \<equiv> search_window k ks base n"
  shows "b < length ks \<and> (b = 0 \<or> ks ! b \<le> k) \<and> (\<forall>j. b < j \<longrightarrow> j < length ks \<longrightarrow> k < ks ! j)"
  using assms(2-5) unfolding b_def
proof (induction n arbitrary: base rule: less_induct)
  case (less n)
  show ?case
  proof (cases "n \<le> 1")
    case True
    with less.prems show ?thesis by (auto simp: search_window.simps [of k ks base n] Suc_le_eq)
  next
    case False
    let ?half = "n div 2" and ?mid = "base + n div 2"
    have half: "0 < ?half" "?half < n" using False by auto
    have mid: "?mid < length ks" using less.prems(2) half by linarith
    have above: "k < ks ! j" if "k < ks ! ?mid" "?mid \<le> j" "j < length ks" for j
      using that sorted_wrt_nth_less [OF assms(1), of ?mid j] by (cases "j = ?mid") auto
    define base' where "base' = (if ks ! ?mid > k then base else ?mid)"
    have "search_window k ks base n = search_window k ks base' (n - ?half)"
      using False by (subst search_window.simps) (simp add: Let_def base'_def)
    moreover have "base' + (n - ?half) \<le> length ks" using less.prems(2) half by (auto simp: base'_def)
    moreover have "base' = 0 \<or> ks ! base' \<le> k" using less.prems(3) by (auto simp: base'_def)
    moreover have "k < ks ! j" if "base' + (n - ?half) \<le> j" "j < length ks" for j
    proof (cases "ks ! ?mid > k")
      case True
      have "base + (n - ?half) \<le> j" using that(1) True by (simp add: base'_def)
      then have "?mid \<le> j" by linarith
      then show ?thesis using above [OF True _ that(2)] by simp
    next
      case False
      then have "base + n \<le> j" using that(1) half by (simp add: base'_def)
      then show ?thesis using that(2) by (rule less.prems(4))
    qed
    ultimately show ?thesis using less.IH [of "n - ?half" base'] half by simp
  qed
qed

lemma binary_search_spec:
  assumes "sorted_wrt (<) ks"
  shows "binary_search k ks = Inr i \<Longrightarrow> i < length ks \<and> ks ! i = k"
    and "binary_search k ks = Inl i \<Longrightarrow> i \<le> length ks \<and> (\<forall>j < i. ks ! j < k) \<and> (\<forall>j < length ks. i \<le> j \<longrightarrow> k < ks ! j)"
proof -
  have b: "ks \<noteq> [] \<Longrightarrow> search_window k ks 0 (length ks) = b \<Longrightarrow> b < length ks \<and> (b = 0 \<or> ks ! b \<le> k)
      \<and> (\<forall>j. b < j \<longrightarrow> j < length ks \<longrightarrow> k < ks ! j)" for b
    using search_window_spec [OF assms, of "length ks" 0 k] by auto
  show "i < length ks \<and> ks ! i = k" if "binary_search k ks = Inr i"
    using that b by (auto simp: binary_search_def Let_def split: if_splits)
  show "i \<le> length ks \<and> (\<forall>j < i. ks ! j < k) \<and> (\<forall>j < length ks. i \<le> j \<longrightarrow> k < ks ! j)"
    if s: "binary_search k ks = Inl i"
  proof (cases "ks = []")
    case False
    define base where "base = search_window k ks 0 (length ks)"
    have base: "base < length ks" "base = 0 \<or> ks ! base \<le> k" "\<forall>j. base < j \<longrightarrow> j < length ks \<longrightarrow> k < ks ! j"
      using b [OF False base_def [symmetric]] by auto
    have less: "ks ! j < ks ! base" if "j < base" for j
      using that base(1) sorted_wrt_nth_less [OF assms] by blast
    have i: "ks ! base \<noteq> k" "i = base + (if ks ! base < k then 1 else 0)"
      using s False by (auto simp: binary_search_def Let_def base_def split: if_splits)
    show ?thesis
    proof (cases "ks ! base < k")
      case True
      have "ks ! j < k" if "j < i" for j
        using that i(2) less [of j] True by (cases "j = base") auto
      moreover have "i = Suc base" using True i(2) by simp
      ultimately show ?thesis using base(1,3) by (simp add: Suc_le_eq)
    next
      case f: False
      then have "base = 0" using base(2) i(1) by auto
      moreover have "k < ks ! j" if "j < length ks" for j
        using that f i(1) base(3) \<open>base = 0\<close> by (cases "j = 0") auto
      ultimately show ?thesis using i(2) f by simp
    qed
  qed (use s in \<open>simp add: binary_search_def\<close>)
qed

abbreviation reg_keys :: "('e, 'n) DcidRegistry \<Rightarrow> u64 list" where
  "reg_keys r \<equiv> map (\<lambda>(cid, _). cid_value cid) (reg_entries r)"

definition reg_inv :: "('e, 'n) DcidRegistry \<Rightarrow> bool" where
  "reg_inv r \<longleftrightarrow> sorted_wrt (<) (reg_keys r) \<and> 0 \<notin> set (reg_keys r)"

definition lookup :: "('e, 'n) DcidRegistry \<Rightarrow> ConnectionId \<Rightarrow> ('e, 'n) DcidTarget option" where
  "lookup r = map_of (reg_entries r)"

lemma map_of_split:
  assumes "\<And>v. (k, v) \<notin> set xs" "\<And>v. (k, v) \<notin> set ys"
  shows "map_of (xs @ (k, v) # ys) = (map_of (xs @ ys))(k \<mapsto> v)" "map_of (xs @ ys) k = None"
proof -
  have "map_of xs k = None" "map_of ys k = None" using assms by (auto simp: map_of_eq_None_iff)
  then show "map_of (xs @ (k, v) # ys) = (map_of (xs @ ys))(k \<mapsto> v)" "map_of (xs @ ys) k = None"
    by (auto simp: fun_eq_iff map_add_def split: option.splits)
qed

lemma reg_find_Inr:
  assumes "reg_inv r" "reg_find r dcid = Inr i"
  shows "i < length (reg_entries r)" "reg_entries r ! i = (dcid, target_at r i)"
    "\<exists>xs ys. reg_entries r = xs @ (dcid, target_at r i) # ys \<and> length xs = i
       \<and> (\<forall>v. (dcid, v) \<notin> set xs) \<and> (\<forall>v. (dcid, v) \<notin> set ys)"
proof -
  let ?es = "reg_entries r"
  have s: "sorted_wrt (<) (reg_keys r)" using assms(1) by (simp add: reg_inv_def)
  have i: "i < length ?es" "reg_keys r ! i = cid_value dcid"
    using binary_search_spec(1) [OF s, of "cid_value dcid" i] assms(2) by (auto simp: reg_find_def)
  then show "i < length ?es" by simp
  from i have "cid_value (fst (?es ! i)) = cid_value dcid" by (simp add: case_prod_beta)
  then show e: "?es ! i = (dcid, target_at r i)"
    by (cases "?es ! i") (simp add: target_at_def ConnectionId.expand)
  have eq: "take i ?es @ (dcid, target_at r i) # drop (Suc i) ?es = ?es" using i(1) e by (metis id_take_nth_drop)
  have "distinct (map fst ?es)"
    using s by (auto simp: sorted_wrt_iff_nth_less distinct_conv_nth case_prod_beta) (metis linorder_neqE_nat nat_neq_iff)
  then have "distinct (map fst (take i ?es @ (dcid, target_at r i) # drop (Suc i) ?es))" by (simp only: eq)
  then have "dcid \<notin> fst ` set (take i ?es)" "dcid \<notin> fst ` set (drop (Suc i) ?es)" by auto
  then have "\<forall>v. (dcid, v) \<notin> set (take i ?es)" "\<forall>v. (dcid, v) \<notin> set (drop (Suc i) ?es)" by force+
  with eq i(1) show "\<exists>xs ys. ?es = xs @ (dcid, target_at r i) # ys \<and> length xs = i
       \<and> (\<forall>v. (dcid, v) \<notin> set xs) \<and> (\<forall>v. (dcid, v) \<notin> set ys)"
    by (intro exI [of _ "take i ?es"] exI [of _ "drop (Suc i) ?es"]) simp
qed

lemma reg_find_Inl:
  assumes "reg_inv r" "reg_find r dcid = Inl i"
  shows "\<exists>xs ys. reg_entries r = xs @ ys \<and> length xs = i \<and> (\<forall>(c, v) \<in> set xs. cid_value c < cid_value dcid)
       \<and> (\<forall>(c, v) \<in> set ys. cid_value dcid < cid_value c)"
proof -
  let ?es = "reg_entries r"
  have s: "sorted_wrt (<) (reg_keys r)" using assms(1) by (simp add: reg_inv_def)
  have i: "i \<le> length ?es" "\<And>j. j < i \<Longrightarrow> reg_keys r ! j < cid_value dcid"
     "\<And>j. j < length ?es \<Longrightarrow> i \<le> j \<Longrightarrow> cid_value dcid < reg_keys r ! j"
    using binary_search_spec(2) [OF s, of "cid_value dcid" i] assms(2) by (auto simp: reg_find_def)
  have "\<forall>(c, v) \<in> set (take i ?es). cid_value c < cid_value dcid"
    using i(1,2) by (fastforce simp: in_set_conv_nth case_prod_beta)
  moreover have "\<forall>(c, v) \<in> set (drop i ?es). cid_value dcid < cid_value c"
  proof (clarsimp simp: in_set_conv_nth)
    fix c v j assume "j < length ?es - i" "?es ! (i + j) = (c, v)"
    then show "cid_value dcid < cid_value c" using i(3) [of "i + j"] by simp
  qed
  ultimately show ?thesis using i(1) by (intro exI [of _ "take i ?es"] exI [of _ "drop i ?es"]) auto
qed

lemma reg_find_lookup:
  assumes "reg_inv r"
  shows "reg_find r dcid = Inr i \<Longrightarrow> lookup r dcid = Some (target_at r i)"
    and "reg_find r dcid = Inl i \<Longrightarrow> lookup r dcid = None"
proof -
  show "lookup r dcid = Some (target_at r i)" if f: "reg_find r dcid = Inr i"
  proof -
    obtain xs ys where "reg_entries r = xs @ (dcid, target_at r i) # ys" "\<And>v. (dcid, v) \<notin> set xs" "\<And>v. (dcid, v) \<notin> set ys"
      using reg_find_Inr(3) [OF assms f] by blast
    moreover from this have "map_of xs dcid = None" by (auto simp: map_of_eq_None_iff)
    ultimately show ?thesis by (simp add: lookup_def map_add_def)
  qed
  show "lookup r dcid = None" if f: "reg_find r dcid = Inl i"
    using reg_find_Inl [OF assms f] by (auto simp: lookup_def map_of_eq_None_iff)
qed

lemma reg_inv_parts:
  "reg_inv r \<longleftrightarrow> sorted_wrt (\<lambda>x y. cid_value (fst x) < cid_value (fst y)) (reg_entries r) \<and> (\<forall>(c, v) \<in> set (reg_entries r). cid_value c \<noteq> 0)"
  by (auto simp: reg_inv_def sorted_wrt_map case_prod_beta) force

text \<open>Each way of changing the vector, as a change of the map it represents.\<close>

lemma insert_at_absent:
  fixes r :: "('e, 'n) DcidRegistry" and dcid i tgt
  assumes "reg_inv r" "reg_find r dcid = Inl i" "cid_value dcid \<noteq> 0"
  defines "r' \<equiv> r\<lparr>reg_entries := vec_insert i (dcid, tgt) (reg_entries r)\<rparr>"
  shows "reg_inv r'" "lookup r' = (lookup r)(dcid \<mapsto> tgt)" "length (reg_entries r') = Suc (length (reg_entries r))"
proof -
  obtain xs ys where e: "reg_entries r = xs @ ys" "length xs = i"
    "\<forall>(c, v) \<in> set xs. cid_value c < cid_value dcid" "\<forall>(c, v) \<in> set ys. cid_value dcid < cid_value c"
    using reg_find_Inl [OF assms(1,2)] by blast
  have new: "reg_entries r' = xs @ (dcid, tgt) # ys" using e by (simp add: r'_def vec_insert_def)
  show "reg_inv r'"
    using assms(1,3) e by (auto simp: reg_inv_parts new sorted_wrt_append)
  have "(dcid, v) \<notin> set xs" "(dcid, v) \<notin> set ys" for v using e(3,4) by auto
  then show "lookup r' = (lookup r)(dcid \<mapsto> tgt)" unfolding lookup_def new e(1) by (rule map_of_split(1))
  show "length (reg_entries r') = Suc (length (reg_entries r))" by (simp add: new e(1))
qed

lemma remove_present:
  assumes "reg_inv r" "reg_find r dcid = Inr i"
  shows "reg_inv (remove_at i r)" "lookup (remove_at i r) = (lookup r)(dcid := None)"
proof -
  obtain xs ys where e: "reg_entries r = xs @ (dcid, target_at r i) # ys" "length xs = i"
    "\<And>v. (dcid, v) \<notin> set xs" "\<And>v. (dcid, v) \<notin> set ys"
    using reg_find_Inr(3) [OF assms] by blast
  have new: "reg_entries (remove_at i r) = xs @ ys" using e(1,2) by (simp add: remove_at_def vec_remove_def)
  show "reg_inv (remove_at i r)" using assms(1) by (auto simp: reg_inv_parts new e(1) sorted_wrt_append)
  show "lookup (remove_at i r) = (lookup r)(dcid := None)"
    unfolding lookup_def new e(1) map_of_split(1) [OF e(3,4)] using map_of_split(2) [OF e(3,4)] by auto
qed

lemma set_present:
  assumes "reg_inv r" "reg_find r dcid = Inr i"
  shows "reg_inv (set_target i tgt r)" "lookup (set_target i tgt r) = (lookup r)(dcid \<mapsto> tgt)"
proof -
  obtain xs ys where e: "reg_entries r = xs @ (dcid, target_at r i) # ys" "length xs = i"
    "\<And>v. (dcid, v) \<notin> set xs" "\<And>v. (dcid, v) \<notin> set ys"
    using reg_find_Inr(3) [OF assms] by blast
  have new: "reg_entries (set_target i tgt r) = xs @ (dcid, tgt) # ys" using e(1,2) by (auto simp: set_target_def)
  show "reg_inv (set_target i tgt r)" using assms(1) by (auto simp: reg_inv_parts new e(1) sorted_wrt_append)
  show "lookup (set_target i tgt r) = (lookup r)(dcid \<mapsto> tgt)"
    unfolding lookup_def new e(1) map_of_split(1) [OF e(3,4)] by auto
qed

lemma map_of_filter_snd:
  "distinct (map fst es) \<Longrightarrow> map_of (filter (\<lambda>(_, v). P v) es) k = (case map_of es k of Some v \<Rightarrow> if P v then Some v else None | None \<Rightarrow> None)"
  by (induction es) (auto simp: map_of_eq_None_iff split: option.splits)

lemma reg_inv_distinct: "reg_inv r \<Longrightarrow> distinct (map fst (reg_entries r))"
  by (auto simp: reg_inv_parts sorted_wrt_iff_nth_less distinct_conv_nth) (metis linorder_neqE_nat nat_neq_iff)

lemma filter_registry:
  fixes r :: "('e, 'n) DcidRegistry" and P
  assumes "reg_inv r"
  defines "r' \<equiv> r\<lparr>reg_entries := filter (\<lambda>(_, v). P v) (reg_entries r)\<rparr>"
  shows "reg_inv r'" "lookup r' k = (case lookup r k of Some v \<Rightarrow> if P v then Some v else None | None \<Rightarrow> None)"
  using assms(1) map_of_filter_snd [OF reg_inv_distinct [OF assms(1)]]
  by (auto simp: r'_def reg_inv_parts lookup_def sorted_wrt_filter)

lemma map_registry:
  fixes r :: "('e, 'n) DcidRegistry" and f
  assumes "reg_inv r"
  defines "r' \<equiv> r\<lparr>reg_entries := map (\<lambda>(c, v). (c, f v)) (reg_entries r)\<rparr>"
  shows "reg_inv r'" "lookup r' k = map_option f (lookup r k)"
proof -
  show "reg_inv r'" using assms(1) by (auto simp: r'_def reg_inv_parts sorted_wrt_map case_prod_beta)
  show "lookup r' k = map_option f (lookup r k)" by (simp add: r'_def lookup_def map_of_map)
qed

lemma reg_find_cases:
  assumes "reg_inv r"
  obtains (Found) i tgt where "reg_find r dcid = Inr i" "target_at r i = tgt" "lookup r dcid = Some tgt"
  | (Absent) i where "reg_find r dcid = Inl i" "lookup r dcid = None"
  using reg_find_lookup [OF assms] by (cases "reg_find r dcid") auto

lemma reg_insert_spec:
  assumes "reg_inv r"
  shows "snd (reg_insert mem dcid tgt r) = (if cid_value dcid = 0 then Inl InvalidConnectionId
      else if lookup r dcid \<noteq> None then Inl Occupied
      else if length (reg_entries r) \<ge> max_entries r \<or> \<not> mem then Inl RegistryFull else Inr ())"
    and "snd (reg_insert mem dcid tgt r) \<noteq> Inr () \<Longrightarrow> fst (reg_insert mem dcid tgt r) = r"
    and "snd (reg_insert mem dcid tgt r) = Inr () \<Longrightarrow> reg_inv (fst (reg_insert mem dcid tgt r))
      \<and> lookup (fst (reg_insert mem dcid tgt r)) = (lookup r)(dcid \<mapsto> tgt)"
  by (cases rule: reg_find_cases [OF assms, of dcid];
      auto simp: reg_insert_def dest: insert_at_absent [OF assms] split: if_splits)+

lemma reg_insert_inv: "reg_inv r \<Longrightarrow> reg_inv (fst (reg_insert mem dcid tgt r))"
  using reg_insert_spec(2,3) by metis

lemma reg_remove_spec:
  assumes "reg_inv r"
  shows "snd (reg_remove dcid r) = lookup r dcid" "reg_inv (fst (reg_remove dcid r))"
    "lookup (fst (reg_remove dcid r)) = (lookup r)(dcid := None)"
  by (cases rule: reg_find_cases [OF assms, of dcid];
      auto simp: reg_remove_def remove_present [OF assms] assms fun_eq_iff)+

lemma ingress_spec:
  assumes "reg_inv r"
  shows "ingress r p = (case lookup r (pre_dcid p) of
      None \<Rightarrow> Inl MissingTarget
    | Some (EndpointTarget e) \<Rightarrow> Inr (EndpointIngress p e)
    | Some (ForwardTarget rule) \<Rightarrow> Inr (ForwardIngress p rule))"
  by (cases rule: reg_find_cases [OF assms, of "pre_dcid p"]) (auto simp: ingress_def split: DcidTarget.splits)

lemma update_forward_spec:
  assumes "reg_inv r"
  shows "update_forward dcid rule r = (case lookup r dcid of
      None \<Rightarrow> (r, Inl MissingTarget)
    | Some (EndpointTarget e) \<Rightarrow> (r, Inl WrongTarget)
    | Some (ForwardTarget _) \<Rightarrow> (fst (update_forward dcid rule r), Inr ()))"
    "reg_inv (fst (update_forward dcid rule r))"
    "snd (update_forward dcid rule r) = Inr () \<Longrightarrow> lookup (fst (update_forward dcid rule r)) = (lookup r)(dcid \<mapsto> ForwardTarget rule)"
  by (cases rule: reg_find_cases [OF assms, of dcid];
      auto simp: update_forward_def set_present [OF assms] assms split: DcidTarget.splits)+

text \<open>What the users of a directory of identifiers rely on.\<close>

locale directory =
  fixes wf :: "'s \<Rightarrow> bool" and get :: "'s \<Rightarrow> 'k \<Rightarrow> 'v option"
    and put :: "'k \<Rightarrow> 'v \<Rightarrow> 's \<Rightarrow> 's option" and del :: "'k \<Rightarrow> 's \<Rightarrow> 's"
  assumes put_law: "wf s \<Longrightarrow> put k v s = Some s' \<Longrightarrow> wf s' \<and> get s k = None \<and> get s' = (get s)(k \<mapsto> v)"
    and put_occupied: "wf s \<Longrightarrow> get s k \<noteq> None \<Longrightarrow> put k v s = None"
    and del_law: "wf s \<Longrightarrow> wf (del k s) \<and> get (del k s) = (get s)(k := None)"
begin

lemma put_keeps: "wf s \<Longrightarrow> put k v s = Some s' \<Longrightarrow> get s j = Some w \<Longrightarrow> get s' j = Some w"
  using put_law by fastforce

lemma put_once: "wf s \<Longrightarrow> put k v s = Some s' \<Longrightarrow> put k w s' = None"
  using put_law put_occupied by (metis fun_upd_same option.distinct(1))

lemma del_put: "wf s \<Longrightarrow> put k v s = Some s' \<Longrightarrow> get (del k s') = get s"
  using put_law del_law by (metis fun_upd_triv fun_upd_upd)

lemma two_puts:
  assumes "wf s" "put j v s = Some s1" "put k w s1 = Some s2"
  shows "wf s2" "j \<noteq> k" "get s2 = (get s)(j \<mapsto> v, k \<mapsto> w)"
  using put_law [OF assms(1,2)] put_law [of s1 k w s2] assms(3) by auto

end

text \<open>The insertion that \<open>insert\<close> and \<open>install_forward_pair\<close> share, where the key is absent.\<close>

definition reg_put :: "ConnectionId \<Rightarrow> ('e, 'n) DcidTarget \<Rightarrow> ('e, 'n) DcidRegistry \<Rightarrow> ('e, 'n) DcidRegistry option" where
  "reg_put dcid tgt r = (if cid_value dcid = 0 \<or> reg_contains r dcid then None
     else Some (r\<lparr>reg_entries := vec_insert (insertion_index r dcid) (dcid, tgt) (reg_entries r)\<rparr>))"

lemma reg_contains_lookup: "reg_inv r \<Longrightarrow> reg_contains r dcid \<longleftrightarrow> lookup r dcid \<noteq> None"
  by (cases rule: reg_find_cases [of r dcid]) (auto simp: reg_contains_def)

interpretation dcids: directory reg_inv lookup reg_put "\<lambda>dcid r. fst (reg_remove dcid r)"
proof
  fix r r' :: "('e, 'n) DcidRegistry" and k v
  assume r: "reg_inv r"
  show "reg_inv r' \<and> lookup r k = None \<and> lookup r' = (lookup r)(k \<mapsto> v)" if "reg_put k v r = Some r'"
    using that insert_at_absent [OF r] reg_contains_lookup [OF r, of k]
    by (cases rule: reg_find_cases [OF r, of k]) (auto simp: reg_put_def insertion_index_def split: if_splits)
  show "reg_put k v r = None" if "lookup r k \<noteq> None"
    using that reg_contains_lookup [OF r, of k] by (simp add: reg_put_def)
  show "reg_inv (fst (reg_remove k r)) \<and> lookup (fst (reg_remove k r)) = (lookup r)(k := None)"
    using reg_remove_spec [OF r] by blast
qed

section \<open>The two directions of a circuit\<close>

lemma group_absent:
  assumes "reg_inv r"
  shows "list_ex (\<lambda>(_, tgt). in_group g tgt) (reg_entries r) \<longleftrightarrow> (\<exists>dcid tgt. lookup r dcid = Some tgt \<and> in_group g tgt)"
  using reg_inv_distinct [OF assms] by (auto simp: list_ex_iff lookup_def)

lemma install_forward_pair_spec:
  assumes "reg_inv r"
  shows "snd (install_forward_pair mem c1 r1 c2 r2 r) \<noteq> Inr () \<Longrightarrow> fst (install_forward_pair mem c1 r1 c2 r2 r) = r"
    and "snd (install_forward_pair mem c1 r1 c2 r2 r) = Inr () \<Longrightarrow> reg_inv (fst (install_forward_pair mem c1 r1 c2 r2 r))
      \<and> lookup (fst (install_forward_pair mem c1 r1 c2 r2 r)) = (lookup r)(c1 \<mapsto> ForwardTarget r1, c2 \<mapsto> ForwardTarget r2)
      \<and> \<not> pair_mismatch c1 r1 c2 r2 \<and> lookup r c1 = None \<and> lookup r c2 = None
      \<and> (\<forall>dcid tgt. lookup r dcid = Some tgt \<longrightarrow> \<not> in_group (lease_group_id r1) tgt)"
proof -
  show "fst (install_forward_pair mem c1 r1 c2 r2 r) = r" if "snd (install_forward_pair mem c1 r1 c2 r2 r) \<noteq> Inr ()"
    using that by (auto simp: install_forward_pair_def Let_def split: if_splits prod.splits)
  assume ok: "snd (install_forward_pair mem c1 r1 c2 r2 r) = Inr ()"
  then have c: "cid_value c1 \<noteq> 0" "cid_value c2 \<noteq> 0" "\<not> pair_mismatch c1 r1 c2 r2" "lookup r c1 = None" "lookup r c2 = None"
    "\<And>dcid tgt. lookup r dcid = Some tgt \<Longrightarrow> \<not> in_group (lease_group_id r1) tgt"
    "sat_add64 (length (reg_entries r)) 2 \<le> max_entries r"
    and m: "mem" and g: "\<not> list_ex (\<lambda>(_, tgt). in_group (lease_group_id r1) tgt) (reg_entries r)"
    using group_absent [OF assms, of "lease_group_id r1"] reg_contains_lookup [OF assms]
    by (auto simp: install_forward_pair_def split: if_splits)
  obtain low lr high hr where lh: "(if cid_value c1 < cid_value c2 then (c1, r1, c2, r2) else (c2, r2, c1, r1)) = (low, lr, high, hr)"
    by (cases "cid_value c1 < cid_value c2") auto
  define ra where "ra = r\<lparr>reg_entries := vec_insert (insertion_index r low) (low, ForwardTarget lr) (reg_entries r)\<rparr>"
  define rb where "rb = ra\<lparr>reg_entries := vec_insert (insertion_index ra high) (high, ForwardTarget hr) (reg_entries ra)\<rparr>"
  have inst: "install_forward_pair mem c1 r1 c2 r2 r = (rb, Inr ())"
    using c m g reg_contains_lookup [OF assms] by (simp add: install_forward_pair_def lh ra_def rb_def Let_def not_less)
  have ne: "c1 \<noteq> c2" using c(3) by (auto simp: pair_mismatch_def)
  show "reg_inv (fst (install_forward_pair mem c1 r1 c2 r2 r))
      \<and> lookup (fst (install_forward_pair mem c1 r1 c2 r2 r)) = (lookup r)(c1 \<mapsto> ForwardTarget r1, c2 \<mapsto> ForwardTarget r2)
      \<and> \<not> pair_mismatch c1 r1 c2 r2 \<and> lookup r c1 = None \<and> lookup r c2 = None
      \<and> (\<forall>dcid tgt. lookup r dcid = Some tgt \<longrightarrow> \<not> in_group (lease_group_id r1) tgt)"
  proof -
    have low: "lookup r low = None" "cid_value low \<noteq> 0" "lookup r high = None" "cid_value high \<noteq> 0" "low \<noteq> high"
      using lh c ne by (auto split: if_splits)
    have p1: "reg_put low (ForwardTarget lr) r = Some ra"
      using low(1,2) reg_contains_lookup [OF assms] by (simp add: reg_put_def ra_def)
    have ra: "reg_inv ra" "lookup ra = (lookup r)(low \<mapsto> ForwardTarget lr)" using dcids.put_law [OF assms p1] by auto
    have p2: "reg_put high (ForwardTarget hr) ra = Some rb"
      using low ra(2) reg_contains_lookup [OF ra(1)] by (simp add: reg_put_def rb_def)
    have "(lookup r)(low \<mapsto> ForwardTarget lr, high \<mapsto> ForwardTarget hr) = (lookup r)(c1 \<mapsto> ForwardTarget r1, c2 \<mapsto> ForwardTarget r2)"
      using lh ne by (auto simp: fun_upd_twist split: if_splits)
    with dcids.two_puts [OF assms p1 p2] show ?thesis using c(3-6) by (simp add: inst)
  qed
qed

section \<open>Leases of a circuit\<close>

definition lease_terms :: "'n ForwardRule \<Rightarrow> u64 \<times> u64 \<times> u64" where
  "lease_terms f = (lease_duration_us f, lease_expires_at_us f, packet_quota f)"

text \<open>Rules of one lease group agree on their lease and quota.\<close>

definition groups_agree :: "(ConnectionId \<Rightarrow> ('e, 'n) DcidTarget option) \<Rightarrow> bool" where
  "groups_agree m \<longleftrightarrow> (\<forall>c1 c2 f1 f2. m c1 = Some (ForwardTarget f1) \<longrightarrow> m c2 = Some (ForwardTarget f2)
     \<longrightarrow> lease_group_id f1 = lease_group_id f2 \<longrightarrow> lease_group_id f1 \<noteq> 0 \<longrightarrow> lease_terms f1 = lease_terms f2)"

definition router_inv :: "('e, 'n) PacketRouter \<Rightarrow> bool" where
  "router_inv rt \<longleftrightarrow> reg_inv (router_registry rt) \<and> groups_agree (lookup (router_registry rt)) \<and> setup_inv (setup_transactions rt)"

lemma groups_agree_le:
  "groups_agree m \<Longrightarrow> (\<And>c tgt. m' c = Some tgt \<Longrightarrow> m c = Some tgt) \<Longrightarrow> groups_agree m'"
  unfolding groups_agree_def by meson

lemma groups_agree_upd:
  assumes "groups_agree m" "\<And>f. tgt = ForwardTarget f \<Longrightarrow> lease_group_id f = 0 \<or>
      (\<exists>f'. m c = Some (ForwardTarget f') \<and> lease_group_id f' = lease_group_id f \<and> lease_terms f' = lease_terms f)"
  shows "groups_agree (m(c \<mapsto> tgt))"
  unfolding groups_agree_def
proof (intro allI impI)
  fix c1 c2 f1 f2
  assume 1: "(m(c \<mapsto> tgt)) c1 = Some (ForwardTarget f1)" and 2: "(m(c \<mapsto> tgt)) c2 = Some (ForwardTarget f2)"
    and g: "lease_group_id f1 = lease_group_id f2" "lease_group_id f1 \<noteq> 0"
  have old: "\<exists>f'. m c' = Some (ForwardTarget f') \<and> lease_group_id f' = lease_group_id f \<and> lease_terms f' = lease_terms f"
    if "(m(c \<mapsto> tgt)) c' = Some (ForwardTarget f)" "lease_group_id f \<noteq> 0" for c' f
    using that assms(2) by (cases "c' = c") auto
  obtain f1' f2' where "m c1 = Some (ForwardTarget f1')" "lease_group_id f1' = lease_group_id f1" "lease_terms f1' = lease_terms f1"
    "m c2 = Some (ForwardTarget f2')" "lease_group_id f2' = lease_group_id f2" "lease_terms f2' = lease_terms f2"
    using old [OF 1 g(2)] old [OF 2] g by auto
  with assms(1) g show "lease_terms f1 = lease_terms f2" unfolding groups_agree_def by metis
qed

lemma groups_agree_pair:
  assumes "groups_agree m" "\<not> pair_mismatch c1 r1 c2 r2" "\<And>c tgt. m c = Some tgt \<Longrightarrow> \<not> in_group (lease_group_id r1) tgt"
  shows "groups_agree (m(c1 \<mapsto> ForwardTarget r1, c2 \<mapsto> ForwardTarget r2))"
proof -
  have same: "lease_group_id r1 = lease_group_id r2" "lease_terms r1 = lease_terms r2"
    using assms(2) by (auto simp: pair_mismatch_def lease_terms_def)
  have one: "lease_group_id f = lease_group_id r1 \<and> lease_terms f = lease_terms r1
      \<or> m c = Some (ForwardTarget f) \<and> lease_group_id f \<noteq> lease_group_id r1"
    if "(m(c1 \<mapsto> ForwardTarget r1, c2 \<mapsto> ForwardTarget r2)) c = Some (ForwardTarget f)" for c f
    using that same assms(3) [of c "ForwardTarget f"] by (auto simp: in_group_def split: if_splits)
  show ?thesis
    unfolding groups_agree_def
  proof (intro allI impI)
    fix a b f1 f2
    assume "(m(c1 \<mapsto> ForwardTarget r1, c2 \<mapsto> ForwardTarget r2)) a = Some (ForwardTarget f1)"
      "(m(c1 \<mapsto> ForwardTarget r1, c2 \<mapsto> ForwardTarget r2)) b = Some (ForwardTarget f2)"
      and g: "lease_group_id f1 = lease_group_id f2" "lease_group_id f1 \<noteq> 0"
    from this(1,2) [THEN one] assms(1) g show "lease_terms f1 = lease_terms f2" unfolding groups_agree_def by metis
  qed
qed

lemma groups_agree_renew:
  assumes "groups_agree m"
  shows "groups_agree (\<lambda>c. map_option (\<lambda>tgt. if in_group g tgt then renew_lease t tgt else tgt) (m c))"
proof -
  let ?r = "\<lambda>tgt. if in_group g tgt then renew_lease t tgt else tgt"
  have one: "\<exists>f'. m c = Some (ForwardTarget f') \<and> f = (if lease_group_id f' = g then f'\<lparr>lease_expires_at_us := t\<rparr> else f')"
    if "map_option ?r (m c) = Some (ForwardTarget f)" for c f
  proof (cases "m c")
    case (Some tgt)
    with that show ?thesis by (cases tgt) (auto simp: renew_lease_def in_group_def split: if_splits)
  qed (use that in simp)
  show ?thesis
    unfolding groups_agree_def
  proof (intro allI impI)
    fix a b f1 f2
    assume "map_option ?r (m a) = Some (ForwardTarget f1)" "map_option ?r (m b) = Some (ForwardTarget f2)"
      and g: "lease_group_id f1 = lease_group_id f2" "lease_group_id f1 \<noteq> 0"
    then obtain f1' f2' where o: "m a = Some (ForwardTarget f1')" "m b = Some (ForwardTarget f2')"
      and n: "f1 = (if lease_group_id f1' = g then f1'\<lparr>lease_expires_at_us := t\<rparr> else f1')"
        "f2 = (if lease_group_id f2' = g then f2'\<lparr>lease_expires_at_us := t\<rparr> else f2')"
      using one by blast
    have same: "lease_group_id f1' = lease_group_id f1" "lease_group_id f2' = lease_group_id f2" using n by auto
    then have "lease_terms f1' = lease_terms f2'" using assms o g unfolding groups_agree_def by metis
    moreover have "lease_group_id f1' = lease_group_id f2'" using same g(1) by simp
    ultimately show "lease_terms f1 = lease_terms f2" by (cases "lease_group_id f2' = g") (simp_all add: lease_terms_def n)
  qed
qed

inductive router_step :: "('e, 'n) PacketRouter \<Rightarrow> ('e, 'n) PacketRouter \<Rightarrow> bool" where
  Register: "router_step rt (fst (register_endpoint mem dcid e rt))"
| Forward: "router_step rt (fst (register_forward mem dcid rule rt))"
| Pair: "router_step rt (fst (register_forward_pair mem c1 r1 c2 r2 rt))"
| RemoveEndpoint: "router_step rt (fst (remove_endpoint dcid e rt))"
| RemoveForward: "router_step rt (fst (remove_forward dcid rt))"
| RemovePair: "router_step rt (fst (router_remove_forward_pair c1 c2 rt))"
| Consume: "router_step rt (fst (consume_forward_quota dcid control now_us rt))"
| Active: "router_step rt (fst (forward_lease_active pp input now_us rt))"
| Refresh: "router_step rt (fst (refresh_forward_lease pp input now_us rt))"
| ExpireLeases: "router_step rt (fst (router_expire_forward_leases now_us rt))"
| SetMax: "router_step rt (rt\<lparr>router_registry := set_max_entries m (router_registry rt)\<rparr>)"
| SetupStep: "relay_setup_step limit (setup_transactions rt) t \<Longrightarrow> router_step rt (rt\<lparr>setup_transactions := t\<rparr>)"

definition registry_ok :: "('e, 'n) DcidRegistry \<Rightarrow> bool" where
  "registry_ok r \<longleftrightarrow> reg_inv r \<and> groups_agree (lookup r)"

lemma on_registry_inv:
  assumes "router_inv rt" "\<And>r. registry_ok r \<Longrightarrow> registry_ok (fst (f r))"
  shows "router_inv (fst (on_registry f rt))"
  using assms by (auto simp: router_inv_def registry_ok_def on_registry_def split: prod.splits) (metis fst_conv)+

lemma registry_ok_insert:
  assumes "registry_ok r" "\<And>f. tgt = ForwardTarget f \<Longrightarrow> lease_group_id f = 0"
  shows "registry_ok (fst (reg_insert mem dcid tgt r))"
proof (cases "snd (reg_insert mem dcid tgt r) = Inr ()")
  case True
  with assms reg_insert_spec(3) [of r mem dcid tgt] show ?thesis by (auto simp: registry_ok_def intro!: groups_agree_upd)
qed (use assms reg_insert_spec(2) [of r mem dcid tgt] in \<open>simp add: registry_ok_def\<close>)

lemma registry_ok_pair: "registry_ok r \<Longrightarrow> registry_ok (fst (install_forward_pair mem c1 r1 c2 r2 r))"
  using install_forward_pair_spec [of r mem c1 r1 c2 r2] unfolding registry_ok_def
  by (cases "snd (install_forward_pair mem c1 r1 c2 r2 r) = Inr ()") (auto intro!: groups_agree_pair)

lemma registry_ok_remove: "registry_ok r \<Longrightarrow> reg_find r dcid = Inr i \<Longrightarrow> registry_ok (remove_at i r)"
  unfolding registry_ok_def using remove_present [of r dcid i]
  by (auto elim!: groups_agree_le split: if_splits)

lemma registry_ok_filter:
  assumes "registry_ok r"
  shows "registry_ok (r\<lparr>reg_entries := filter (\<lambda>(_, tgt). P tgt) (reg_entries r)\<rparr>)"
proof -
  have r: "reg_inv r" and g: "groups_agree (lookup r)" using assms by (auto simp: registry_ok_def)
  from g have "groups_agree (lookup (r\<lparr>reg_entries := filter (\<lambda>(_, tgt). P tgt) (reg_entries r)\<rparr>))"
    by (rule groups_agree_le) (auto simp: filter_registry(2) [OF r] split: option.splits if_splits)
  with filter_registry(1) [OF r, of P] show ?thesis by (simp add: registry_ok_def)
qed

lemma registry_ok_set:
  assumes "registry_ok r" "reg_find r dcid = Inr i" "target_at r i = ForwardTarget f"
    and "lease_group_id f' = lease_group_id f" "lease_group_id f = 0 \<or> lease_terms f' = lease_terms f"
  shows "registry_ok (set_target i (ForwardTarget f') r)"
proof -
  have r: "reg_inv r" and g: "groups_agree (lookup r)" using assms(1) by (auto simp: registry_ok_def)
  have "lookup r dcid = Some (ForwardTarget f)" using reg_find_lookup(1) [OF r assms(2)] assms(3) by simp
  then have "groups_agree ((lookup r)(dcid \<mapsto> ForwardTarget f'))"
    using assms(4,5) by (intro groups_agree_upd [OF g]) auto
  with set_present [OF r assms(2)] show ?thesis by (simp add: registry_ok_def)
qed

lemma renew_quota_window_cases:
  obtains "renew_quota_window now_us f = f"
  | w where "renew_quota_window now_us f = f\<lparr>quota_window_started_us := w, forwarded_packets := 0, forwarded_control_packets := 0\<rparr>"
  unfolding renew_quota_window_def Let_def by (metis (no_types))

lemma renew_quota_window_keeps [simp]:
  "lease_group_id (renew_quota_window now_us f) = lease_group_id f" "packet_quota (renew_quota_window now_us f) = packet_quota f"
  "lease_duration_us (renew_quota_window now_us f) = lease_duration_us f"
  "lease_expires_at_us (renew_quota_window now_us f) = lease_expires_at_us f"
  by (cases rule: renew_quota_window_cases [of now_us f]; simp)+

lemma consume_rule_keeps: "lease_group_id (fst (consume_rule control now_us f)) = lease_group_id f"
  "lease_terms (fst (consume_rule control now_us f)) = lease_terms f"
  by (auto simp: consume_rule_def lease_terms_def Let_def)

lemma registry_ok_consume:
  assumes "registry_ok r"
  shows "registry_ok (fst (case reg_find r dcid of
     Inl _ \<Rightarrow> (r, False)
   | Inr i \<Rightarrow> (case target_at r i of
       EndpointTarget _ \<Rightarrow> (r, False)
     | ForwardTarget rule \<Rightarrow>
         (case consume_rule control now_us rule of (rule', ok) \<Rightarrow> (set_target i (ForwardTarget rule') r, ok)))))"
proof (cases "reg_find r dcid")
  case (Inr i)
  show ?thesis
  proof (cases "target_at r i")
    case (ForwardTarget f)
    have "registry_ok (set_target i (ForwardTarget (fst (consume_rule control now_us f))) r)"
      by (rule registry_ok_set [OF assms Inr ForwardTarget]) (simp_all add: consume_rule_keeps)
    then show ?thesis using Inr ForwardTarget by (simp add: case_prod_beta)
  qed (simp add: Inr assms)
qed (simp add: assms)

lemma drop_group_ok: "registry_ok r \<Longrightarrow> registry_ok (drop_group g r)"
  unfolding drop_group_def by (rule registry_ok_filter [where P = "\<lambda>tgt. \<not> in_group g tgt"])

lemma registry_ok_renew:
  assumes "registry_ok r"
  shows "registry_ok (r\<lparr>reg_entries := map (\<lambda>(cid, tgt). (cid, if in_group g tgt then renew_lease t tgt else tgt)) (reg_entries r)\<rparr>)"
proof -
  have r: "reg_inv r" and g: "groups_agree (lookup r)" using assms by (auto simp: registry_ok_def)
  have "lookup (r\<lparr>reg_entries := map (\<lambda>(cid, tgt). (cid, if in_group g tgt then renew_lease t tgt else tgt)) (reg_entries r)\<rparr>)
    = (\<lambda>c. map_option (\<lambda>tgt. if in_group g tgt then renew_lease t tgt else tgt) (lookup r c))"
    using map_registry(2) [OF r, of "\<lambda>tgt. if in_group g tgt then renew_lease t tgt else tgt"] by (intro ext)
  with groups_agree_renew [OF g] map_registry(1) [OF r, of "\<lambda>tgt. if in_group g tgt then renew_lease t tgt else tgt"]
  show ?thesis by (simp add: registry_ok_def)
qed

lemma forward_lease_active_ok:
  assumes "registry_ok r"
  shows "registry_ok (fst (case decode_routing_prefix pp input of
     Inl err \<Rightarrow> (r, Inl err)
   | Inr p \<Rightarrow> (case reg_find r (pre_dcid p) of
       Inl _ \<Rightarrow> (r, Inr True)
     | Inr i \<Rightarrow> (case target_at r i of
         EndpointTarget _ \<Rightarrow> (r, Inr True)
       | ForwardTarget rule \<Rightarrow>
           if lease_expires_at_us rule > now_us then (r, Inr True)
           else if lease_group_id rule = 0 then (remove_at i r, Inr False)
           else (drop_group (lease_group_id rule) r, Inr False)))))"
  using assms by (auto split: sum.splits DcidTarget.splits intro: registry_ok_remove drop_group_ok)

lemma router_inv_active: "router_inv rt \<Longrightarrow> router_inv (fst (forward_lease_active pp input now_us rt))"
  unfolding forward_lease_active_def by (erule on_registry_inv) (rule forward_lease_active_ok)

lemma router_inv_refresh:
  assumes "router_inv rt"
  shows "router_inv (fst (refresh_forward_lease pp input now_us rt))"
proof (cases "forward_lease_active pp input now_us rt")
  case (Pair rt1 res)
  have rt1: "router_inv rt1" using router_inv_active [OF assms, of pp input now_us] Pair by simp
  show ?thesis
  proof (cases res)
    case (Inr active)
    show ?thesis
    proof (cases active)
      case True
      then show ?thesis
        unfolding refresh_forward_lease_def Pair Inr using rt1
        by (simp, intro on_registry_inv)
          (auto simp: Let_def renew_lease_def split: sum.splits DcidTarget.splits intro: registry_ok_renew registry_ok_set)
    qed (use rt1 Pair Inr in \<open>simp add: refresh_forward_lease_def\<close>)
  qed (use rt1 Pair in \<open>simp add: refresh_forward_lease_def\<close>)
qed

lemma router_inv_ops:
  assumes "router_inv rt"
  shows "router_inv (fst (register_endpoint mem dcid e rt))" "router_inv (fst (register_forward mem dcid rule rt))"
    "router_inv (fst (register_forward_pair mem c1 r1 c2 r2 rt))" "router_inv (fst (remove_endpoint dcid e rt))"
    "router_inv (fst (remove_forward dcid rt))" "router_inv (fst (router_remove_forward_pair c1 c2 rt))"
    "router_inv (fst (consume_forward_quota dcid control now_us rt))" "router_inv (fst (router_expire_forward_leases now_us rt))"
proof -
  show "router_inv (fst (register_endpoint mem dcid e rt))"
    unfolding register_endpoint_def insert_endpoint_def using assms by (rule on_registry_inv) (auto intro: registry_ok_insert)
  show "router_inv (fst (register_forward mem dcid rule rt))"
    unfolding register_forward_def install_forward_def using assms
    by (rule on_registry_inv) (auto intro: registry_ok_insert)
  show "router_inv (fst (register_forward_pair mem c1 r1 c2 r2 rt))"
    unfolding register_forward_pair_def using assms by (rule on_registry_inv) (rule registry_ok_pair)
  show "router_inv (fst (remove_endpoint dcid e rt))"
    unfolding remove_endpoint_def using assms by (rule on_registry_inv) (auto intro: registry_ok_remove split: sum.splits)
  show "router_inv (fst (remove_forward dcid rt))"
    unfolding remove_forward_def using assms
    by (rule on_registry_inv) (auto intro: registry_ok_remove split: sum.splits DcidTarget.splits)
  show "router_inv (fst (router_remove_forward_pair c1 c2 rt))"
    unfolding router_remove_forward_pair_def remove_forward_pair_def using assms
    by (rule on_registry_inv) (auto intro: drop_group_ok split: sum.splits DcidTarget.splits)
  show "router_inv (fst (consume_forward_quota dcid control now_us rt))"
    unfolding consume_forward_quota_def using assms by (rule on_registry_inv) (rule registry_ok_consume)
  show "router_inv (fst (router_expire_forward_leases now_us rt))"
    unfolding router_expire_forward_leases_def expire_forward_leases_def Let_def using assms
    by (rule on_registry_inv) (simp add: registry_ok_filter)
qed

definition router_start :: "('e, 'n) PacketRouter \<Rightarrow> bool" where
  "router_start rt \<longleftrightarrow> (\<exists>key. rt = router_new key)"

lemma setup_inv_router_new: "setup_inv (setup_transactions (router_new key))"
  by (rule setup_table.inv_start) (simp add: router_new_def setup_start_def, blast)

interpretation router: stateful router_start router_step router_inv
proof
  show "router_inv rt" if "router_start rt" for rt :: "('e, 'n) PacketRouter"
    using that setup_inv_router_new
    by (auto simp: router_start_def router_inv_def) (auto simp: reg_inv_def groups_agree_def lookup_def router_new_def registry_new_def)
  show "router_inv rt'" if "router_inv rt" "router_step rt rt'" for rt rt' :: "('e, 'n) PacketRouter"
    using that(2,1)
  proof cases
    case (SetupStep limit t)
    then show ?thesis using that(1) relay_setup.inv_step by (auto simp: router_inv_def)
  next
    case (SetMax m)
    then show ?thesis using that(1) by (simp add: router_inv_def set_max_entries_def reg_inv_def lookup_def)
  qed (auto intro: router_inv_ops router_inv_active router_inv_refresh)
qed

section \<open>Quota windows\<close>

fun consume_run :: "(bool \<times> u64) list \<Rightarrow> 'n ForwardRule \<Rightarrow> 'n ForwardRule \<times> bool list" where
  "consume_run [] rule = (rule, [])"
| "consume_run ((control, now_us) # reqs) rule =
     (case consume_rule control now_us rule of (rule1, ok) \<Rightarrow>
      case consume_run reqs rule1 of (rule2, oks) \<Rightarrow> (rule2, ok # oks))"

lemma renew_quota_window_eq:
  fixes f :: "'n ForwardRule"
  assumes "quota_window_started_us f \<le> now_us" "now_us \<le> u64_max"
  defines "w \<equiv> max (lease_duration_us f) 1"
  shows "quota_window_started_us (renew_quota_window now_us f)
      = quota_window_started_us f + (now_us - quota_window_started_us f) div w * w"
    "forwarded_packets (renew_quota_window now_us f) = (if now_us < quota_window_started_us f + w then forwarded_packets f else 0)"
proof -
  have le: "(now_us - quota_window_started_us f) div w * w \<le> now_us - quota_window_started_us f" by simp
  then have m: "sat_mul64 ((now_us - quota_window_started_us f) div w) w = (now_us - quota_window_started_us f) div w * w"
    using assms(2) by (intro sat_mul_exact) linarith
  have a: "sat_add64 (quota_window_started_us f) ((now_us - quota_window_started_us f) div w * w)
      = quota_window_started_us f + (now_us - quota_window_started_us f) div w * w"
    using assms(1,2) le by (intro sat_add_exact) linarith
  have r: "renew_quota_window now_us f = (if w \<le> now_us - quota_window_started_us f
      then f\<lparr>quota_window_started_us := quota_window_started_us f + (now_us - quota_window_started_us f) div w * w,
             forwarded_packets := 0, forwarded_control_packets := 0\<rparr> else f)"
    unfolding renew_quota_window_def Let_def w_def [symmetric] m a by (rule refl)
  show "quota_window_started_us (renew_quota_window now_us f)
      = quota_window_started_us f + (now_us - quota_window_started_us f) div w * w"
    by (cases "w \<le> now_us - quota_window_started_us f") (simp_all add: r)
  show "forwarded_packets (renew_quota_window now_us f) = (if now_us < quota_window_started_us f + w then forwarded_packets f else 0)"
  proof (cases "w \<le> now_us - quota_window_started_us f")
    case True
    then have "\<not> now_us < quota_window_started_us f + w" using assms(1) by linarith
    with True show ?thesis by (simp add: r)
  next
    case False
    then have "now_us < quota_window_started_us f + w" using assms(1) by linarith
    with False show ?thesis by (simp add: r)
  qed
qed

definition admitted :: "u64 \<Rightarrow> u64 \<Rightarrow> (bool \<times> u64) list \<Rightarrow> bool list \<Rightarrow> (bool \<times> u64) list" where
  "admitted lo hi reqs oks = map fst (filter (\<lambda>((_, t), ok). ok \<and> lo \<le> t \<and> t < hi) (zip reqs oks))"

definition quota_window :: "'n ForwardRule \<Rightarrow> u64" where
  "quota_window f = max (lease_duration_us f) 1"

definition data_share :: "'n ForwardRule \<Rightarrow> u64" where
  "data_share f = packet_quota f - max (packet_quota f div 16) 1"

lemma consume_rule_step:
  fixes f :: "'n ForwardRule"
  assumes "quota_window_started_us f \<le> t" "t \<le> u64_max" "0 < packet_quota f" "packet_quota f \<le> u64_max"
    and "consume_rule control t f = (f1, ok)"
  defines "fwd \<equiv> (if t < quota_window_started_us f + quota_window f then forwarded_packets f else 0)"
  shows "quota_window_started_us f1 = quota_window_started_us f + (t - quota_window_started_us f) div quota_window f * quota_window f"
    "forwarded_packets f1 = fwd + (if ok then 1 else 0)" "ok \<Longrightarrow> fwd < packet_quota f" "ok \<Longrightarrow> \<not> control \<Longrightarrow> fwd < data_share f"
    "packet_quota f1 = packet_quota f" "quota_window f1 = quota_window f"
proof -
  let ?g = "renew_quota_window t f"
  have fwd: "forwarded_packets ?g = fwd" and st: "quota_window_started_us ?g
      = quota_window_started_us f + (t - quota_window_started_us f) div quota_window f * quota_window f"
    using renew_quota_window_eq [OF assms(1,2)] by (simp_all add: fwd_def quota_window_def)
  have c: "consume_rule control t f = (if forwarded_packets ?g \<ge> packet_quota f then (?g, False)
      else if \<not> control \<and> forwarded_packets ?g \<ge> data_share f then (?g, False)
      else (?g\<lparr>forwarded_packets := sat_add64 (forwarded_packets ?g) 1,
               forwarded_control_packets := (if control then sat_add64 (forwarded_control_packets ?g) 1
                                             else forwarded_control_packets ?g)\<rparr>, True))"
    using assms(3) by (simp add: consume_rule_def data_share_def Let_def)
  consider "f1 = ?g" "\<not> ok" | "quota_window_started_us f1 = quota_window_started_us ?g" "lease_duration_us f1 = lease_duration_us f"
      "packet_quota f1 = packet_quota f" "forwarded_packets f1 = sat_add64 fwd 1" "ok"
      "fwd < packet_quota f" "control \<or> fwd < data_share f"
    using assms(5) c fwd by (auto split: if_splits)
  then show "quota_window_started_us f1 = quota_window_started_us f + (t - quota_window_started_us f) div quota_window f * quota_window f"
    "forwarded_packets f1 = fwd + (if ok then 1 else 0)" "ok \<Longrightarrow> fwd < packet_quota f" "ok \<Longrightarrow> \<not> control \<Longrightarrow> fwd < data_share f"
    "packet_quota f1 = packet_quota f" "quota_window f1 = quota_window f"
    using assms(4) fwd st by (cases; simp add: sat_add_def quota_window_def)+
qed

lemma admitted_Cons: "admitted lo hi ((c, t) # reqs) (ok # oks)
    = (if ok \<and> lo \<le> t \<and> t < hi then [(c, t)] else []) @ admitted lo hi reqs oks"
  by (simp add: admitted_def)

lemma admitted_late: "\<forall>(c, t) \<in> set reqs. hi \<le> t \<Longrightarrow> admitted lo hi reqs oks = []"
  by (auto simp: admitted_def filter_empty_conv dest!: set_zip_leftD)

lemma consume_run_bound:
  fixes f :: "'n ForwardRule"
  assumes "sorted (map snd reqs)" "\<forall>(c, t) \<in> set reqs. quota_window_started_us f \<le> t \<and> t \<le> u64_max"
    and "0 < packet_quota f" "packet_quota f \<le> u64_max"
  defines "lo k \<equiv> quota_window_started_us f + k * quota_window f"
  shows "length (admitted (lo k) (lo k + quota_window f) reqs (snd (consume_run reqs f)))
      \<le> packet_quota f - (if k = 0 then forwarded_packets f else 0)
    \<and> length (filter (\<lambda>(c, _). \<not> c) (admitted (lo k) (lo k + quota_window f) reqs (snd (consume_run reqs f))))
      \<le> data_share f - (if k = 0 then forwarded_packets f else 0)"
  using assms(1-4) unfolding lo_def
proof (induction reqs arbitrary: f k)
  case (Cons req reqs)
  obtain c t where req: "req = (c, t)" by (cases req)
  obtain f1 ok where step: "consume_rule c t f = (f1, ok)" by (cases "consume_rule c t f")
  let ?s = "quota_window_started_us f" and ?w = "quota_window f"
  define j where "j = (t - ?s) div ?w"
  have w: "0 < ?w" by (simp add: quota_window_def)
  have t: "?s \<le> t" "t \<le> u64_max" "\<forall>(c', t') \<in> set reqs. t \<le> t' \<and> t' \<le> u64_max"
    using Cons.prems(1,2) by (auto simp: req)
  note f1 = consume_rule_step [OF t(1,2) Cons.prems(3,4) step, folded j_def]
  have at: "?s + j * ?w \<le> t" "t < ?s + j * ?w + ?w"
  proof -
    have "j * ?w + (t - ?s) mod ?w = t - ?s" by (simp add: j_def)
    moreover have "(t - ?s) mod ?w < ?w" using w by simp
    ultimately show "?s + j * ?w \<le> t" "t < ?s + j * ?w + ?w" using t(1) by linarith+
  qed
  have ds: "data_share f1 = data_share f" using f1(5) by (simp add: data_share_def)
  have s1: "quota_window_started_us f1 = ?s + j * ?w" using f1(1) by simp
  have IH: "length (admitted (?s + (j + i) * ?w) (?s + (j + i) * ?w + ?w) reqs (snd (consume_run reqs f1)))
      \<le> packet_quota f - (if i = 0 then forwarded_packets f1 else 0)
    \<and> length (filter (\<lambda>(c, _). \<not> c) (admitted (?s + (j + i) * ?w) (?s + (j + i) * ?w + ?w) reqs (snd (consume_run reqs f1))))
      \<le> data_share f - (if i = 0 then forwarded_packets f1 else 0)" for i
  proof -
    have e: "?s + (j + i) * ?w = ?s + j * ?w + i * ?w" by (simp add: algebra_simps)
    have "\<forall>(c', t') \<in> set reqs. quota_window_started_us f1 \<le> t' \<and> t' \<le> u64_max"
      using t(3) at(1) by (fastforce simp: s1)
    then show ?thesis
      unfolding e using Cons.IH [of f1 i] Cons.prems f1(5,6) by (simp only: s1 ds req list.map sorted_wrt.simps)
  qed
  have run: "snd (consume_run (req # reqs) f) = ok # snd (consume_run reqs f1)"
    by (simp add: req step split: prod.splits)
  have hd: "admitted lo hi (req # reqs) (snd (consume_run (req # reqs) f))
      = (if ok \<and> lo \<le> t \<and> t < hi then [(c, t)] else []) @ admitted lo hi reqs (snd (consume_run reqs f1))" for lo hi
    unfolding run unfolding req by (rule admitted_Cons)
  consider "k < j" | "k = j" | i where "k = j + i" "0 < i"
    by (metis less_imp_add_positive linorder_neqE_nat)
  then show ?case
  proof cases
    case 1
    then have "?s + k * ?w + ?w \<le> ?s + j * ?w" by (metis Suc_leI add.assoc add_le_cancel_left mult_Suc mult_le_mono1 add.commute)
    then have "?s + k * ?w + ?w \<le> t" using at(1) by linarith
    moreover from this t(3) have "admitted (?s + k * ?w) (?s + k * ?w + ?w) reqs (snd (consume_run reqs f1)) = []"
      by (intro admitted_late) fastforce
    ultimately show ?thesis unfolding hd by simp
  next
    case 2
    have z: "j = 0 \<longleftrightarrow> t < ?s + ?w" using at w by (cases j) auto
    show ?thesis
      unfolding hd using IH [of 0] f1(2-4) at 2 z by (cases ok; cases c; cases "t < ?s + ?w") auto
  next
    case 3
    then have "t < ?s + k * ?w"
      using at(2) w by (cases i) (auto simp: algebra_simps)
    with IH [of i] 3 show ?thesis unfolding hd by simp
  qed
qed (simp add: admitted_def)

text \<open>
  Claim C27. The packet quota of a forwarding rule holds in every quota window: whatever the sequence of
  packets (in the order of the clock), at most \<open>packet_quota\<close> are admitted in any window of the lease
  duration counted from the rule's start, and data packets never take the share reserved for control.
\<close>

theorem quota_enforced:
  fixes f :: "'n ForwardRule"
  assumes "sorted (map snd reqs)" "\<forall>(c, t) \<in> set reqs. quota_window_started_us f \<le> t \<and> t \<le> u64_max"
    and "0 < packet_quota f" "packet_quota f \<le> u64_max"
    and "lo = quota_window_started_us f + k * max (lease_duration_us f) 1" "hi = lo + max (lease_duration_us f) 1"
  shows "length (admitted lo hi reqs (snd (consume_run reqs f))) \<le> packet_quota f
    \<and> length (filter (\<lambda>(c, _). \<not> c) (admitted lo hi reqs (snd (consume_run reqs f)))) \<le> packet_quota f - max (packet_quota f div 16) 1"
proof -
  have "packet_quota f - n \<le> packet_quota f" "data_share f - n \<le> packet_quota f - max (packet_quota f div 16) 1" for n
    by (simp_all add: data_share_def)
  with consume_run_bound [OF assms(1-4), of k] show ?thesis
    unfolding assms(5,6) quota_window_def by (meson le_trans)
qed

definition example_rule :: "nat ForwardRule" where
  "example_rule = \<lparr>next_hop = 1, fr_destination = ToConnection (ConnectionId 9), lease_duration_us = 10,
     lease_expires_at_us = 100, lease_group_id = 3, packet_quota = 2, forwarded_packets = 0,
     forwarded_control_packets = 0, quota_window_started_us = 0\<rparr>"

definition example_requests :: "(bool \<times> u64) list" where
  "example_requests = [(False, 1), (False, 2), (True, 3), (True, 4), (False, 12)]"

theorem quota_enforced_witness:
  "snd (consume_run example_requests example_rule) = [True, False, True, False, True]
    \<and> length (admitted 0 10 example_requests (snd (consume_run example_requests example_rule))) \<le> packet_quota example_rule"
proof -
  have "sorted (map snd example_requests)" by code_simp
  moreover have "\<forall>(c, t) \<in> set example_requests. quota_window_started_us example_rule \<le> t \<and> t \<le> u64_max" by code_simp
  moreover have "0 < packet_quota example_rule" "packet_quota example_rule \<le> u64_max"
    "0 = quota_window_started_us example_rule + 0 * max (lease_duration_us example_rule) 1"
    "10 = 0 + max (lease_duration_us example_rule) 1" by code_simp+
  moreover have "snd (consume_run example_requests example_rule) = [True, False, True, False, True]" by code_simp
  ultimately show ?thesis using quota_enforced [of example_requests example_rule 0 0 10] by blast
qed

section \<open>Properties of the router\<close>

text \<open>
  Claim C25. The sorted vector behaves as a finite map from local identifiers to targets: an insertion succeeds
  exactly for a nonzero identifier that is free while the capacity (and memory) lasts, and then adds that one
  entry, a failed operation changes nothing, a removal returns and drops the entry, and a packet is handed to
  the target registered under its destination. The binary search stays exact throughout.
\<close>

theorem registry_refines_map:
  assumes "reg_inv r"
  shows "(snd (reg_insert mem dcid tgt r) = Inr () \<longleftrightarrow>
        cid_value dcid \<noteq> 0 \<and> lookup r dcid = None \<and> length (reg_entries r) < max_entries r \<and> mem)
    \<and> lookup (fst (reg_insert mem dcid tgt r)) = (if snd (reg_insert mem dcid tgt r) = Inr () then (lookup r)(dcid \<mapsto> tgt) else lookup r)
    \<and> reg_inv (fst (reg_insert mem dcid tgt r))
    \<and> snd (reg_remove dcid r) = lookup r dcid \<and> lookup (fst (reg_remove dcid r)) = (lookup r)(dcid := None)
    \<and> reg_inv (fst (reg_remove dcid r))
    \<and> ingress r p = (case lookup r (pre_dcid p) of
        None \<Rightarrow> Inl MissingTarget
      | Some (EndpointTarget e) \<Rightarrow> Inr (EndpointIngress p e)
      | Some (ForwardTarget rule) \<Rightarrow> Inr (ForwardIngress p rule))"
  using reg_insert_spec [OF assms, of mem dcid tgt] reg_insert_inv [OF assms, of mem dcid tgt] reg_remove_spec [OF assms, of dcid]
    ingress_spec [OF assms, of p]
  by (auto split: if_splits)

definition example_pair :: "(nat, nat) DcidRegistry" where
  "example_pair = fst (install_forward_pair True (ConnectionId 6) example_rule (ConnectionId 5) (example_rule\<lparr>next_hop := 2\<rparr>) registry_new)"

lemma registry_new_inv: "reg_inv (registry_new :: (nat, nat) DcidRegistry)"
  by (simp add: reg_inv_def registry_new_def)

lemma example_pair_inv: "reg_inv example_pair"
  by code_simp

theorem registry_refines_map_witness:
  "reg_inv example_pair \<and> snd (reg_insert True (ConnectionId 7) (EndpointTarget 1) example_pair) = Inr ()
    \<and> lookup (fst (reg_insert True (ConnectionId 7) (EndpointTarget 1) example_pair)) (ConnectionId 7) = Some (EndpointTarget 1)"
proof -
  have "snd (reg_insert True (ConnectionId 7) (EndpointTarget 1) example_pair) = Inr ()" by code_simp
  with registry_refines_map [OF example_pair_inv, of True "ConnectionId 7" "EndpointTarget 1"] example_pair_inv show ?thesis
    by (metis fun_upd_same)
qed

text \<open>
  Claim C26. The two directions of a circuit share one lease in every state the router reaches: rules of one
  group agree on duration, expiry and quota, expiry removes both or neither, and once the lease of one is found
  to have run out, no rule of its group is left.
\<close>

theorem circuit_shares_lease:
  assumes "router_start rt\<^sub>0" "router_step\<^sup>*\<^sup>* rt\<^sub>0 rt"
    and "lookup (router_registry rt) c1 = Some (ForwardTarget f1)" "lookup (router_registry rt) c2 = Some (ForwardTarget f2)"
    and "lease_group_id f1 = lease_group_id f2" "lease_group_id f1 \<noteq> 0"
  shows "lease_expires_at_us f1 = lease_expires_at_us f2 \<and> lease_duration_us f1 = lease_duration_us f2 \<and> packet_quota f1 = packet_quota f2
    \<and> (lookup (fst (expire_forward_leases now_us (router_registry rt))) c1 = None \<longleftrightarrow>
       lookup (fst (expire_forward_leases now_us (router_registry rt))) c2 = None)
    \<and> (decode_routing_prefix pp input = Inr p \<and> pre_dcid p = c1 \<and> forward_lease_active pp input now_us rt = (rt', Inr False)
       \<longrightarrow> lookup (router_registry rt') c1 = None \<and> lookup (router_registry rt') c2 = None)"
proof -
  have inv: "router_inv rt" by (rule router.inv_reachable [OF assms(1,2)])
  then have r: "reg_inv (router_registry rt)" and g: "groups_agree (lookup (router_registry rt))" by (auto simp: router_inv_def)
  have same: "lease_terms f1 = lease_terms f2" using g assms(3-6) unfolding groups_agree_def by blast
  then have "lease_expires_at_us f1 = lease_expires_at_us f2 \<and> lease_duration_us f1 = lease_duration_us f2 \<and> packet_quota f1 = packet_quota f2"
    by (simp add: lease_terms_def)
  moreover from this have "lookup (fst (expire_forward_leases now_us (router_registry rt))) c1 = None \<longleftrightarrow>
      lookup (fst (expire_forward_leases now_us (router_registry rt))) c2 = None"
    using assms(3,4) by (simp add: expire_forward_leases_def Let_def filter_registry(2) [OF r] lease_alive_def)
  moreover have "lookup (router_registry rt') c1 = None \<and> lookup (router_registry rt') c2 = None"
    if "decode_routing_prefix pp input = Inr p" "pre_dcid p = c1" "forward_lease_active pp input now_us rt = (rt', Inr False)"
  proof -
    obtain i where i: "reg_find (router_registry rt) c1 = Inr i" "target_at (router_registry rt) i = ForwardTarget f1"
      using assms(3) by (cases rule: reg_find_cases [OF r, of c1]) auto
    then have "rt' = rt\<lparr>router_registry := drop_group (lease_group_id f1) (router_registry rt)\<rparr>"
      using that assms(6) by (auto simp: forward_lease_active_def on_registry_def split: if_splits)
    then show ?thesis
      using assms(3-5) by (simp add: drop_group_def filter_registry(2) [OF r] in_group_def)
  qed
  ultimately show ?thesis by auto
qed

definition example_router :: "(nat, nat) PacketRouter" where
  "example_router = fst (register_forward_pair True (ConnectionId 6) example_rule (ConnectionId 5) (example_rule\<lparr>next_hop := 2\<rparr>) (router_new None))"

theorem circuit_shares_lease_witness:
  "lookup (router_registry example_router) (ConnectionId 5) \<noteq> None
    \<and> (lookup (fst (expire_forward_leases 200 (router_registry example_router))) (ConnectionId 5) = None \<longleftrightarrow>
       lookup (fst (expire_forward_leases 200 (router_registry example_router))) (ConnectionId 6) = None)"
proof -
  have l: "lookup (router_registry example_router) (ConnectionId 5) = Some (ForwardTarget (example_rule\<lparr>next_hop := 2\<rparr>))"
    "lookup (router_registry example_router) (ConnectionId 6) = Some (ForwardTarget example_rule)"
    "lease_group_id (example_rule\<lparr>next_hop := 2\<rparr>) = lease_group_id example_rule" "lease_group_id (example_rule\<lparr>next_hop := 2\<rparr>) \<noteq> 0"
    by code_simp+
  have "router_start (router_new None :: (nat, nat) PacketRouter)" by (auto simp: router_start_def)
  moreover have "router_step\<^sup>*\<^sup>* (router_new None) example_router"
    unfolding example_router_def by (intro r_into_rtranclp router_step.Pair)
  ultimately show ?thesis using circuit_shares_lease [OF _ _ l] l(1) by (metis option.distinct(1))
qed

text \<open>
  A circuit is installed atomically: either the registry is unchanged and an error is reported, or
  both directions are installed, under identifiers and a lease group that nobody held, so that packets of the
  one direction are dispatched to its rule with only the destination rewritten, and every packet for another
  identifier is dispatched as before.
\<close>

theorem circuit_install_atomic:
  assumes "reg_inv r" "install_forward_pair mem c1 r1 c2 r2 r = (r', res)"
  shows "(res \<noteq> Inr () \<longrightarrow> r' = r)
    \<and> (res = Inr () \<longrightarrow> lookup r c1 = None \<and> lookup r c2 = None
        \<and> (\<forall>dcid f. lookup r dcid = Some (ForwardTarget f) \<longrightarrow> lease_group_id f \<noteq> lease_group_id r1)
        \<and> (decode_routing_prefix pp input = Inr p \<longrightarrow>
            dispatch_packet pp r' input cap =
              (if pre_dcid p \<in> {c1, c2}
               then (let rule = (if pre_dcid p = c1 then r1 else r2)
                     in map_err RewriteError (bindE (case fr_destination rule of
                          ToConnection d \<Rightarrow> rewrite_dcid pp input d cap
                        | ToBootstrap \<Rightarrow> rewrite_bootstrap_destination pp input cap) (\<lambda>out. Inr (ForwardPacket (pre_dcid p) rule out))))
               else dispatch_packet pp r input cap)))"
proof -
  have ok: "reg_inv r' \<and> lookup r' = (lookup r)(c1 \<mapsto> ForwardTarget r1, c2 \<mapsto> ForwardTarget r2)
      \<and> \<not> pair_mismatch c1 r1 c2 r2 \<and> lookup r c1 = None \<and> lookup r c2 = None
      \<and> (\<forall>dcid tgt. lookup r dcid = Some tgt \<longrightarrow> \<not> in_group (lease_group_id r1) tgt)" if "res = Inr ()"
    using install_forward_pair_spec(2) [OF assms(1), of mem c1 r1 c2 r2] assms(2) that by simp
  have "dispatch_packet pp r' input cap =
      (if pre_dcid p \<in> {c1, c2}
       then (let rule = (if pre_dcid p = c1 then r1 else r2)
             in map_err RewriteError (bindE (case fr_destination rule of
                  ToConnection d \<Rightarrow> rewrite_dcid pp input d cap
                | ToBootstrap \<Rightarrow> rewrite_bootstrap_destination pp input cap) (\<lambda>out. Inr (ForwardPacket (pre_dcid p) rule out))))
       else dispatch_packet pp r input cap)" if "res = Inr ()" "decode_routing_prefix pp input = Inr p"
  proof -
    have b: "bindE (map_err RewriteError m) (\<lambda>out. Inr (k out)) = map_err RewriteError (bindE m (\<lambda>out. Inr (k out)))" for m :: "u8 list result" and k :: "u8 list \<Rightarrow> ('a, 'b) DcidPacket"
      by (cases m) (simp_all add: map_err_def)
    have "c1 \<noteq> c2" using ok [OF that(1)] by (auto simp: pair_mismatch_def)
    then show ?thesis
      using ok [OF that(1)] ingress_spec [OF assms(1), of p] ingress_spec [of r' p] that(2)
      by (auto simp: dispatch_packet_def map_err_def [of HeaderError] map_err_def [of RegistryError] b Let_def)
  qed
  moreover have "lease_group_id f \<noteq> lease_group_id r1" if "res = Inr ()" "lookup r dcid = Some (ForwardTarget f)" for dcid f
    using ok [OF that(1)] that(2) by (fastforce simp: in_group_def)
  ultimately show ?thesis
    using ok install_forward_pair_spec(1) [OF assms(1), of mem c1 r1 c2 r2] assms(2) by auto
qed

theorem circuit_install_atomic_witness:
  "reg_inv (registry_new :: (nat, nat) DcidRegistry) \<and> lookup (registry_new :: (nat, nat) DcidRegistry) (ConnectionId 6) = None
    \<and> dispatch_packet False example_pair [0x40, 6, 1, 2, 3] 16 = Inr (ForwardPacket (ConnectionId 6) example_rule [0x40, 9, 1, 2, 3])"
proof -
  have i: "install_forward_pair True (ConnectionId 6) example_rule (ConnectionId 5) (example_rule\<lparr>next_hop := 2\<rparr>) registry_new = (example_pair, Inr ())"
    by code_simp
  have p: "decode_routing_prefix False [0x40, 6, 1, 2, 3] = Inr \<lparr>pre_flags = 0x40, pre_dcid = ConnectionId 6,
      truncated_packet_number = 1, pre_packet_number_len = 1, header_len = 3\<rparr>" by code_simp
  have r: "fr_destination example_rule = ToConnection (ConnectionId 9)"
    "rewrite_dcid False [0x40, 6, 1, 2, 3] (ConnectionId 9) 16 = Inr [0x40, 9, 1, 2, 3]" by code_simp+
  show ?thesis
    using circuit_install_atomic [OF registry_new_inv i, of False "[0x40, 6, 1, 2, 3]" _ 16] p r registry_new_inv
    by (simp add: map_err_def)
qed

end
