(* ===== verification/Uart_Codec.thy ===== *)
theory Uart_Codec
  imports Mesh_Prelude
begin

text \<open>
  The serial framing of \<^verbatim>\<open>uart-codec/src/codec.rs\<close>: the PPP/HDLC encoder that writes a frame into
  buffers of any size, the one-shot encoder, and the incremental decoder.
\<close>

section \<open>Encoder\<close>

datatype uart_error = EmptyPayload | PayloadTooLarge

definition UART_FLAG :: u8 where "UART_FLAG = 0x7e"
definition UART_ESCAPE :: u8 where "UART_ESCAPE = 0x7d"
definition UART_ESCAPE_XOR :: u8 where "UART_ESCAPE_XOR = 0x20"
definition DEFAULT_RECORD_MAX :: usize where "DEFAULT_RECORD_MAX = 4000"

datatype EncodeState = OpeningFlag | InPayload | Escape u8 | ClosingFlag | Done

record EncoderCursor =
  cur_prefix :: "u8 option"
  cur_offset :: usize
  cur_state :: EncodeState

definition cursor_new :: "u8 option \<Rightarrow> EncoderCursor" where
  "cursor_new prefix = \<lparr>cur_prefix = prefix, cur_offset = 0, cur_state = OpeningFlag\<rparr>"

definition cursor_raw :: EncoderCursor where "cursor_raw = cursor_new None"

definition cursor_prefixed :: "u8 \<Rightarrow> EncoderCursor" where "cursor_prefixed prefix = cursor_new (Some prefix)"

definition must_escape :: "u8 \<Rightarrow> bool" where
  "must_escape byte \<longleftrightarrow> byte = UART_FLAG \<or> byte = UART_ESCAPE"

text \<open>The escaping half of the payload state: what is written, and the state that follows.\<close>

definition emit :: "u8 \<Rightarrow> EncoderCursor \<Rightarrow> u8 \<times> EncoderCursor" where
  "emit byte c =
     (if must_escape byte then (UART_ESCAPE, c\<lparr>cur_state := Escape (byte XOR UART_ESCAPE_XOR)\<rparr>) else (byte, c))"

text \<open>
  One round of the loop of \<open>write\<close>: the byte written, or none where the source continues without
  writing. The cursor is used with the payload it was started on, so its offset is at most the
  length (\<open>cursor_ok\<close> below).
\<close>

definition cursor_step :: "u8 list \<Rightarrow> EncoderCursor \<Rightarrow> u8 option \<times> EncoderCursor" where
  "cursor_step payload c = (case cur_state c of
     OpeningFlag \<Rightarrow> (Some UART_FLAG, c\<lparr>cur_state := InPayload\<rparr>)
   | InPayload \<Rightarrow>
       (case cur_prefix c of
          Some prefix \<Rightarrow> (case emit prefix (c\<lparr>cur_prefix := None\<rparr>) of (b, c') \<Rightarrow> (Some b, c'))
        | None \<Rightarrow>
            if cur_offset c = length payload then (None, c\<lparr>cur_state := ClosingFlag\<rparr>)
            else (case emit (payload ! cur_offset c) (c\<lparr>cur_offset := cur_offset c + 1\<rparr>) of (b, c') \<Rightarrow> (Some b, c')))
   | Escape byte \<Rightarrow> (Some byte, c\<lparr>cur_state := InPayload\<rparr>)
   | ClosingFlag \<Rightarrow> (Some UART_FLAG, c\<lparr>cur_state := Done\<rparr>)
   | Done \<Rightarrow> (None, c))"

lemma cursor_step_silent: "cursor_step payload c = (None, c') \<Longrightarrow> cur_state c \<noteq> Done \<Longrightarrow>
    cur_state c = InPayload \<and> cur_state c' = ClosingFlag"
  by (auto simp: cursor_step_def split: EncodeState.splits option.splits if_splits prod.splits)

function cursor_write :: "u8 list \<Rightarrow> nat \<Rightarrow> EncoderCursor \<Rightarrow> EncoderCursor \<times> u8 list" where
  "cursor_write payload cap c =
     (if cap = 0 \<or> cur_state c = Done then (c, [])
      else (case cursor_step payload c of
          (None, c') \<Rightarrow> cursor_write payload cap c'
        | (Some byte, c') \<Rightarrow> (case cursor_write payload (cap - 1) c' of (c'', bytes) \<Rightarrow> (c'', byte # bytes))))"
  by pat_completeness auto

termination
  by (relation "measures [\<lambda>(_, cap, _). cap, \<lambda>(_, _, c). if cur_state c = InPayload then 1 else 0]")
    (auto dest: cursor_step_silent [OF sym])

declare cursor_write.simps [simp del]

definition cursor_is_finished :: "EncoderCursor \<Rightarrow> bool" where
  "cursor_is_finished c \<longleftrightarrow> cur_state c = Done"

record Encoder =
  enc_payload :: "u8 list"
  enc_cursor :: EncoderCursor

definition encoder_new :: "u8 list \<Rightarrow> nat \<Rightarrow> uart_error + Encoder" where
  "encoder_new payload m =
     (if payload = [] \<or> length payload > m
      then Inl (if payload = [] then EmptyPayload else PayloadTooLarge)
      else Inr \<lparr>enc_payload = payload, enc_cursor = cursor_new None\<rparr>)"

definition encoder_new_prefixed :: "u8 \<Rightarrow> u8 list \<Rightarrow> nat \<Rightarrow> uart_error + Encoder" where
  "encoder_new_prefixed prefix payload m =
     (if sat_add64 (length payload) 1 > m then Inl PayloadTooLarge
      else Inr \<lparr>enc_payload = payload, enc_cursor = cursor_new (Some prefix)\<rparr>)"

definition encoder_write :: "nat \<Rightarrow> Encoder \<Rightarrow> Encoder \<times> u8 list" where
  "encoder_write cap e =
     (case cursor_write (enc_payload e) cap (enc_cursor e) of (c, bytes) \<Rightarrow> (e\<lparr>enc_cursor := c\<rparr>, bytes))"

definition encoder_is_finished :: "Encoder \<Rightarrow> bool" where
  "encoder_is_finished e = cursor_is_finished (enc_cursor e)"

fun escape_all :: "u8 list \<Rightarrow> u8 list" where
  "escape_all [] = []"
| "escape_all (byte # bytes) =
     (if must_escape byte then UART_ESCAPE # (byte XOR UART_ESCAPE_XOR) # escape_all bytes
      else byte # escape_all bytes)"

definition encode_payload :: "u8 list \<Rightarrow> nat \<Rightarrow> uart_error + u8 list" where
  "encode_payload payload m =
     (if payload = [] \<or> length payload > m
      then Inl (if payload = [] then EmptyPayload else PayloadTooLarge)
      else Inr (UART_FLAG # escape_all payload @ [UART_FLAG]))"

section \<open>Decoder\<close>

record Decoder =
  in_frame :: bool
  escaped :: bool
  discard :: bool
  dec_payload :: "u8 list"
  frame_activity :: bool
  frame_error :: bool
  max_payload :: usize

definition decoder_default :: Decoder where
  "decoder_default = \<lparr>in_frame = False, escaped = False, discard = False, dec_payload = [],
     frame_activity = False, frame_error = False, max_payload = DEFAULT_RECORD_MAX\<rparr>"

definition decoder_with_max :: "usize \<Rightarrow> Decoder" where
  "decoder_with_max m = decoder_default\<lparr>dec_payload := [], max_payload := m\<rparr>"

definition decoder_reset :: "Decoder \<Rightarrow> Decoder" where
  "decoder_reset d = d\<lparr>in_frame := False, escaped := False, discard := False, dec_payload := []\<rparr>"

text \<open>One byte of \<open>push\<close>, with the record it completes.\<close>

definition push_byte :: "u8 \<Rightarrow> Decoder \<Rightarrow> Decoder \<times> u8 list list" where
  "push_byte byte d =
     (if byte = UART_FLAG then
        if \<not> in_frame d then (d\<lparr>in_frame := True, escaped := False, discard := False, dec_payload := []\<rparr>, [])
        else
          let had_payload = dec_payload d \<noteq> [];
              records = (if \<not> escaped d \<and> \<not> discard d \<and> had_payload then [dec_payload d] else []);
              d1 = (if escaped d \<or> discard d then d\<lparr>frame_error := True\<rparr> else d);
              d2 = (if had_payload then d1\<lparr>frame_activity := True\<rparr> else d1)
          in (d2\<lparr>escaped := False, discard := False, dec_payload := []\<rparr>, records)
      else if \<not> in_frame d \<or> discard d then (d, [])
      else
        let d1 = (if escaped d then d\<lparr>dec_payload := dec_payload d @ [byte XOR UART_ESCAPE_XOR], escaped := False\<rparr>
                  else if byte = UART_ESCAPE then d\<lparr>escaped := True\<rparr>
                  else d\<lparr>dec_payload := dec_payload d @ [byte]\<rparr>)
        in if length (dec_payload d1) > max_payload d1
           then (d1\<lparr>dec_payload := [], escaped := False, discard := True, frame_error := True\<rparr>, [])
           else (d1, []))"

fun decoder_push :: "u8 list \<Rightarrow> Decoder \<Rightarrow> Decoder \<times> u8 list list" where
  "decoder_push [] d = (d, [])"
| "decoder_push (byte # bytes) d =
     (case push_byte byte d of (d1, r) \<Rightarrow> (case decoder_push bytes d1 of (d2, rs) \<Rightarrow> (d2, r @ rs)))"

definition take_frame_activity :: "Decoder \<Rightarrow> Decoder \<times> bool" where
  "take_frame_activity d = (d\<lparr>frame_activity := False\<rparr>, frame_activity d)"

definition take_frame_error :: "Decoder \<Rightarrow> Decoder \<times> bool" where
  "take_frame_error d = (d\<lparr>frame_error := False\<rparr>, frame_error d)"

section \<open>The encoder writes one frame, however it is cut\<close>

definition cursor_ok :: "u8 list \<Rightarrow> EncoderCursor \<Rightarrow> bool" where
  "cursor_ok payload c \<longleftrightarrow> cur_offset c \<le> length payload"

text \<open>What a cursor has still to write.\<close>

definition pending_bytes :: "u8 list \<Rightarrow> EncoderCursor \<Rightarrow> u8 list" where
  "pending_bytes payload c = (case cur_prefix c of None \<Rightarrow> [] | Some prefix \<Rightarrow> [prefix]) @ drop (cur_offset c) payload"

definition remaining :: "u8 list \<Rightarrow> EncoderCursor \<Rightarrow> u8 list" where
  "remaining payload c = (case cur_state c of
     OpeningFlag \<Rightarrow> UART_FLAG # escape_all (pending_bytes payload c) @ [UART_FLAG]
   | InPayload \<Rightarrow> escape_all (pending_bytes payload c) @ [UART_FLAG]
   | Escape byte \<Rightarrow> byte # escape_all (pending_bytes payload c) @ [UART_FLAG]
   | ClosingFlag \<Rightarrow> [UART_FLAG]
   | Done \<Rightarrow> [])"

lemma remaining_step:
  assumes "cursor_ok payload c" "cursor_step payload c = (byte, c')" "cur_state c \<noteq> Done"
  shows "cursor_ok payload c' \<and> remaining payload c = (case byte of None \<Rightarrow> [] | Some b \<Rightarrow> [b]) @ remaining payload c'"
proof (cases "cur_state c = InPayload \<and> cur_prefix c = None \<and> cur_offset c < length payload")
  case True
  then have "drop (cur_offset c) payload = payload ! cur_offset c # drop (Suc (cur_offset c)) payload"
    by (simp add: Cons_nth_drop_Suc)
  with True assms show ?thesis
    by (auto simp: cursor_step_def emit_def cursor_ok_def remaining_def pending_bytes_def)
next
  case False
  with assms show ?thesis
    by (auto simp: cursor_step_def emit_def cursor_ok_def remaining_def pending_bytes_def
        split: EncodeState.splits option.splits if_splits)
qed

lemma remaining_Nil: "remaining payload c = [] \<longleftrightarrow> cur_state c = Done"
  by (simp add: remaining_def split: EncodeState.splits)

lemma cursor_write_remaining:
  "cursor_ok payload c \<Longrightarrow> cursor_write payload cap c = (c', out) \<Longrightarrow>
     cursor_ok payload c' \<and> out = take cap (remaining payload c) \<and> remaining payload c' = drop cap (remaining payload c)"
proof (induction payload cap c arbitrary: c' out rule: cursor_write.induct)
  case (1 payload cap c)
  show ?case
  proof (cases "cap = 0 \<or> cur_state c = Done")
    case True
    with "1.prems" show ?thesis by (auto simp: cursor_write.simps remaining_def)
  next
    case False
    obtain byte c1 where s: "cursor_step payload c = (byte, c1)" by (cases "cursor_step payload c")
    have r: "cursor_ok payload c1" "remaining payload c = (case byte of None \<Rightarrow> [] | Some b \<Rightarrow> [b]) @ remaining payload c1"
      using remaining_step [OF "1.prems"(1) s] False by auto
    show ?thesis
    proof (cases byte)
      case None
      then have "cursor_write payload cap c1 = (c', out)"
        using "1.prems"(2) s False by (simp add: cursor_write.simps [of payload cap c])
      with "1.IH"(1) [OF False s [symmetric]] None r show ?thesis by simp
    next
      case (Some b)
      obtain out1 where w: "cursor_write payload (cap - 1) c1 = (c', out1)" and o: "out = b # out1"
        using "1.prems"(2) s False Some by (auto simp: cursor_write.simps [of payload cap c] split: prod.splits)
      obtain k where "cap = Suc k" using False by (cases cap) auto
      with "1.IH"(2) [OF False s [symmetric] Some r(1)] w o Some r show ?thesis by auto
    qed
  qed
qed

fun write_all :: "nat list \<Rightarrow> Encoder \<Rightarrow> Encoder \<times> u8 list" where
  "write_all [] e = (e, [])"
| "write_all (cap # caps) e =
     (case encoder_write cap e of (e1, bytes) \<Rightarrow> (case write_all caps e1 of (e2, rest) \<Rightarrow> (e2, bytes @ rest)))"

lemma write_all_remaining:
  "cursor_ok (enc_payload e) (enc_cursor e) \<Longrightarrow> write_all caps e = (e', out) \<Longrightarrow>
     enc_payload e' = enc_payload e \<and> out = take (sum_list caps) (remaining (enc_payload e) (enc_cursor e))
     \<and> remaining (enc_payload e) (enc_cursor e') = drop (sum_list caps) (remaining (enc_payload e) (enc_cursor e))"
proof (induction caps arbitrary: e out)
  case (Cons cap caps)
  obtain c b where w: "cursor_write (enc_payload e) cap (enc_cursor e) = (c, b)"
    by (cases "cursor_write (enc_payload e) cap (enc_cursor e)")
  obtain rest where m: "write_all caps (e\<lparr>enc_cursor := c\<rparr>) = (e', rest)" "out = b @ rest"
    using Cons.prems(2) w by (auto simp: encoder_write_def split: prod.splits)
  from cursor_write_remaining [OF Cons.prems(1) w] Cons.IH [OF _ m(1)] m(2) show ?case
    by (simp add: take_add drop_drop add.commute)
qed simp

text \<open>
  Writing a frame piecewise is writing it at once: whatever the sizes of the buffers the
  driver offers, the bytes written are a prefix of the frame the one-shot encoder builds, of exactly
  the offered size as long as the frame lasts, and the encoder is finished exactly when the whole
  frame is out.
\<close>

theorem encoder_pieces:
  assumes "encoder_new payload m = Inr e" "write_all caps e = (e', out)"
  shows "\<exists>wire. encode_payload payload m = Inr wire \<and> out = take (sum_list caps) wire
    \<and> (encoder_is_finished e' \<longleftrightarrow> length wire \<le> sum_list caps)"
proof -
  have e: "payload \<noteq> []" "length payload \<le> m" "e = \<lparr>enc_payload = payload, enc_cursor = cursor_new None\<rparr>"
    using assms(1) by (auto simp: encoder_new_def split: if_splits)
  let ?wire = "UART_FLAG # escape_all payload @ [UART_FLAG]"
  have r: "remaining payload (cursor_new None) = ?wire"
    by (simp add: remaining_def cursor_new_def pending_bytes_def)
  have "cursor_ok payload (cursor_new None)" by (simp add: cursor_ok_def cursor_new_def)
  with write_all_remaining [of e caps e' out] assms(2) e(3) r
  have w: "out = take (sum_list caps) ?wire" "remaining payload (enc_cursor e') = drop (sum_list caps) ?wire"
    by simp_all
  have "encoder_is_finished e' \<longleftrightarrow> remaining payload (enc_cursor e') = []"
    by (simp add: encoder_is_finished_def cursor_is_finished_def remaining_Nil)
  also have "\<dots> \<longleftrightarrow> length ?wire \<le> sum_list caps" by (simp only: w drop_eq_Nil)
  finally show ?thesis using e w by (auto simp: encode_payload_def)
qed

lemma encoder_pieces_witness:
  "\<exists>e wire. encoder_new [1, 0x7e, 0x7d, 2] 4000 = Inr e \<and> encode_payload [1, 0x7e, 0x7d, 2] 4000 = Inr wire
    \<and> snd (write_all [3, 0, 2, 5] e) = take 10 wire"
proof -
  have "isOk (encoder_new [1, 0x7e, 0x7d, 2] 4000)" by code_simp
  then obtain e where e: "encoder_new [1, 0x7e, 0x7d, 2] 4000 = Inr e" by (auto simp: isOk_def split: sum.splits)
  from encoder_pieces [OF e, of "[3, 0, 2, 5]" "fst (write_all [3, 0, 2, 5] e)" "snd (write_all [3, 0, 2, 5] e)"] e
  show ?thesis by auto
qed

section \<open>The decoder delivers every frame\<close>

lemma decoder_push_append:
  "decoder_push (xs @ ys) d =
     (case decoder_push xs d of (d1, r) \<Rightarrow> (case decoder_push ys d1 of (d2, rs) \<Rightarrow> (d2, r @ rs)))"
  by (induction xs arbitrary: d) (auto split: prod.splits)

lemma flag_xor: "must_escape byte \<Longrightarrow> byte XOR UART_ESCAPE_XOR \<noteq> UART_FLAG \<and> (byte XOR UART_ESCAPE_XOR) XOR UART_ESCAPE_XOR = byte"
  by (auto simp: must_escape_def UART_FLAG_def UART_ESCAPE_def UART_ESCAPE_XOR_def)

lemma escape_not_flag [simp]: "UART_ESCAPE \<noteq> UART_FLAG" "UART_FLAG \<noteq> UART_ESCAPE"
  by (simp_all add: UART_FLAG_def UART_ESCAPE_def)

text \<open>Inside a frame, escaped payload bytes accumulate.\<close>

definition receiving :: "Decoder \<Rightarrow> bool" where
  "receiving d \<longleftrightarrow> in_frame d \<and> \<not> escaped d \<and> \<not> discard d"

lemma push_escaped:
  "receiving d \<Longrightarrow> length (dec_payload d) + length bytes \<le> max_payload d \<Longrightarrow>
     decoder_push (escape_all bytes) d = (d\<lparr>dec_payload := dec_payload d @ bytes\<rparr>, [])"
proof (induction bytes arbitrary: d)
  case (Cons byte bytes)
  let ?d = "d\<lparr>dec_payload := dec_payload d @ [byte]\<rparr>"
  have IH: "decoder_push (escape_all bytes) ?d = (d\<lparr>dec_payload := dec_payload d @ byte # bytes\<rparr>, [])"
    using Cons.IH [of ?d] Cons.prems by (simp add: receiving_def)
  show ?case
  proof (cases "must_escape byte")
    case True
    have "push_byte UART_ESCAPE d = (d\<lparr>escaped := True\<rparr>, [])"
      using Cons.prems by (simp add: push_byte_def receiving_def Let_def)
    moreover have "push_byte (byte XOR UART_ESCAPE_XOR) (d\<lparr>escaped := True\<rparr>) = (?d, [])"
      using Cons.prems flag_xor [OF True] by (simp add: push_byte_def receiving_def Let_def)
    ultimately show ?thesis using True IH by simp
  next
    case False
    then have "push_byte byte d = (?d, [])"
      using Cons.prems by (simp add: push_byte_def receiving_def Let_def must_escape_def)
    with False IH show ?thesis by simp
  qed
qed simp

lemma push_flag:
  "\<exists>d' r. push_byte UART_FLAG d = (d', r) \<and> receiving d' \<and> dec_payload d' = [] \<and> max_payload d' = max_payload d
     \<and> length r \<le> 1 \<and> (\<not> in_frame d \<or> dec_payload d = [] \<longrightarrow> r = [])"
  by (auto simp: push_byte_def Let_def receiving_def)

lemma push_closing_flag:
  "receiving d \<Longrightarrow> dec_payload d \<noteq> [] \<Longrightarrow> \<exists>d'. push_byte UART_FLAG d = (d', [dec_payload d]) \<and> receiving d'
     \<and> dec_payload d' = [] \<and> max_payload d' = max_payload d"
  by (auto simp: push_byte_def Let_def receiving_def)

lemma push_frame:
  assumes "encode_payload payload m = Inr wire" "length payload \<le> max_payload d"
  shows "\<exists>d' r. decoder_push wire d = (d', r @ [payload]) \<and> receiving d' \<and> dec_payload d' = []
    \<and> max_payload d' = max_payload d \<and> length r \<le> 1 \<and> (\<not> in_frame d \<or> dec_payload d = [] \<longrightarrow> r = [])"
proof -
  have wire: "wire = UART_FLAG # escape_all payload @ [UART_FLAG]" "payload \<noteq> []"
    using assms(1) by (auto simp: encode_payload_def split: if_splits)
  obtain d1 r where o: "push_byte UART_FLAG d = (d1, r)" "receiving d1" "dec_payload d1 = []" "max_payload d1 = max_payload d"
    "length r \<le> 1" "\<not> in_frame d \<or> dec_payload d = [] \<longrightarrow> r = []"
    using push_flag [of d] by auto
  let ?d2 = "d1\<lparr>dec_payload := payload\<rparr>"
  have b: "decoder_push (escape_all payload) d1 = (?d2, [])" using push_escaped [of d1 payload] o assms(2) by simp
  have "receiving ?d2" using o(2) by (simp add: receiving_def)
  then obtain d3 where c: "push_byte UART_FLAG ?d2 = (d3, [payload])" "receiving d3" "dec_payload d3 = []"
    "max_payload d3 = max_payload d1"
    using push_closing_flag [of ?d2] wire(2) by auto
  show ?thesis using o b c by (simp add: wire(1) decoder_push_append)
qed

fun push_chunks :: "u8 list list \<Rightarrow> Decoder \<Rightarrow> Decoder \<times> u8 list list" where
  "push_chunks [] d = (d, [])"
| "push_chunks (chunk # chunks) d =
     (case decoder_push chunk d of (d1, r) \<Rightarrow> (case push_chunks chunks d1 of (d2, rs) \<Rightarrow> (d2, r @ rs)))"

lemma push_chunks_concat: "push_chunks chunks d = decoder_push (concat chunks) d"
  by (induction chunks arbitrary: d) (simp_all add: decoder_push_append)

lemma push_frames:
  assumes "list_all2 (\<lambda>payload wire. encode_payload payload m = Inr wire) payloads wires"
    "\<forall>payload \<in> set payloads. length payload \<le> max_payload d" "receiving d" "dec_payload d = []"
  shows "snd (decoder_push (concat wires) d) = payloads"
  using assms
proof (induction payloads wires arbitrary: d rule: list_all2_induct)
  case (Cons payload payloads wire wires)
  obtain d1 where p: "decoder_push wire d = (d1, [payload])" "receiving d1" "dec_payload d1 = []" "max_payload d1 = max_payload d"
    using push_frame [OF Cons.hyps(1), of d] Cons.prems by auto
  with Cons.IH [of d1] Cons.prems show ?case by (simp add: decoder_push_append split_beta)
qed simp

text \<open>
  Claim C22. The serial line delivers every frame and resynchronises by itself: whatever bytes were
  received before, in whatever state that left the decoder, and however the line cuts the stream into
  reads, the frames that follow are delivered in order and unchanged, after at most one damaged
  record that the noise began.
\<close>

theorem uart_delivers:
  assumes "list_all2 (\<lambda>payload wire. encode_payload payload m = Inr wire) payloads wires" "payloads \<noteq> []"
    and "\<forall>payload \<in> set payloads. length payload \<le> max_payload d" "concat chunks = concat wires"
  shows "\<exists>r. snd (push_chunks chunks d) = r @ payloads \<and> length r \<le> 1 \<and> (\<not> in_frame d \<longrightarrow> r = [])"
proof -
  obtain payload ps wire ws where c: "payloads = payload # ps" "wires = wire # ws"
    "encode_payload payload m = Inr wire" "list_all2 (\<lambda>payload wire. encode_payload payload m = Inr wire) ps ws"
    using assms(1,2) by (cases payloads; cases wires) auto
  obtain d1 r where p: "decoder_push wire d = (d1, r @ [payload])" "receiving d1" "dec_payload d1 = []"
    "max_payload d1 = max_payload d" "length r \<le> 1" "\<not> in_frame d \<or> dec_payload d = [] \<longrightarrow> r = []"
    using push_frame [OF c(3), of d] assms(3) c(1) by auto
  have "snd (decoder_push (concat ws) d1) = ps"
    using push_frames [OF c(4), of d1] p assms(3) c(1) by simp
  with p c show ?thesis
    by (intro exI [of _ r]) (simp add: push_chunks_concat assms(4) decoder_push_append split_beta)
qed

lemma uart_delivers_witness:
  "snd (push_chunks [[0x7e, 1, 0x7d], [0x5e, 0x7e, 0x7e, 9], [0x7e]] decoder_default) = [[1, 0x7e], [9]]"
proof -
  let ?cs = "[[0x7e, 1, 0x7d], [0x5e, 0x7e, 0x7e, 9], [0x7e]] :: u8 list list"
  have e: "encode_payload [1, 0x7e] 100 = Inr [0x7e, 1, 0x7d, 0x5e, 0x7e]" "encode_payload [9] 100 = Inr [0x7e, 9, 0x7e]"
    by code_simp+
  have "\<exists>r. snd (push_chunks ?cs decoder_default) = r @ [[1, 0x7e], [9]] \<and> length r \<le> 1
      \<and> (\<not> in_frame decoder_default \<longrightarrow> r = [])"
    by (rule uart_delivers [where m = 100 and wires = "[[0x7e, 1, 0x7d, 0x5e, 0x7e], [0x7e, 9, 0x7e]]"])
      (simp_all add: e decoder_default_def DEFAULT_RECORD_MAX_def)
  then show ?thesis by (simp add: decoder_default_def)
qed

end
