(* ===== verification/Spec2Isabelle.thy ===== *)
theory Spec2Isabelle
  imports Stream_Completion Stream_Mux Endpoint_Api Packet_Protection Bootstrap Packet_Pool Peer_Table Dcid_Registry Uart_Codec
begin

text \<open>
  A verification library for the transport of DMesh (\<^verbatim>\<open>src/crates/quic-lite\<close>), the \<^verbatim>\<open>no_std\<close> QUIC subset
  that carries the mesh over Wi-Fi, Bluetooth and serial links, and for the serial framing of
  \<^verbatim>\<open>src/crates/uart-codec\<close>.

  \<^bold>\<open>The program.\<close> A bearer (radio or serial port) delivers datagrams. A node reads the destination
  connection identifier of each packet without allocating: packets for a local association go to its
  endpoint, packets for an installed circuit are forwarded with only the destination rewritten. An
  endpoint decrypts nothing by itself; it parses headers and frames, keeps the received packet numbers to
  acknowledge them, accounts stream bytes against credit in both directions, keeps sent ranges until every
  byte is acknowledged, and holds for each network path a congestion controller, a pacer, a round-trip and
  a delivery-rate estimator and a status that the two ends agree on. Associations start with the two
  bootstrap packets OPEN and OPEN_ACK and end, at worst, with a stateless reset. Circuits through relays
  are set up by transactions that relays retain so that a lost reply can be replayed.

  \<^bold>\<open>Theories\<close>, in the order of their imports, with the code they model (\<^verbatim>\<open>lib.rs\<close>, \<^verbatim>\<open>relay.rs\<close>,
  \<^verbatim>\<open>callback.rs\<close>, \<^verbatim>\<open>peer_table.rs\<close>, \<^verbatim>\<open>packet_pool.rs\<close> are files of \<^verbatim>\<open>quic-lite/src\<close>):

  \<^item> \<open>Mesh_Prelude\<close>: widths of the Rust integers with their checked, saturating and wrapping operations, the
    transport \<open>error\<close> and the result monad, big-endian bytes, and the operations on tables kept as lists.
  \<^item> \<open>Transitions\<close>: the interface of a stateful component (locale \<open>stateful\<close>): a start condition, steps and an
    invariant. Flow control, congestion, paths, stream delivery, the endpoint, the peer table, the packet
    pool, the setup table, relayed setups and the packet router interpret it with their own operations as steps.
  \<^item> \<open>Wire_Codec\<close>: variable-length integers and connection identifiers (\<^verbatim>\<open>put_varint\<close>, \<^verbatim>\<open>get_varint\<close>,
    \<^verbatim>\<open>ConnectionId\<close>, \<^verbatim>\<open>encode_compact_cid\<close>). The locale \<open>prefix_codec\<close> states what an encoder and a decoder
    owe each other; both identifier codecs, the integers and (in \<open>Wire_Frames\<close>) the frames interpret it.
  \<^item> \<open>Wire_Header\<close>: short and long headers, packet-number truncation and recovery, \<^verbatim>\<open>rewrite_dcid\<close> in a
    second buffer and in place, \<^verbatim>\<open>wire.rs\<close>. A header decodes to what was encoded when the expected number is
    in the window, and a relay changes nothing of a packet but its destination.
  \<^item> \<open>Ack_Ranges\<close>: \<^verbatim>\<open>AckRanges<N>\<close> as a refinement of a set of packet numbers (locale \<open>packet_number_set\<close>).
  \<^item> \<open>Wire_Frames\<close>: \<^verbatim>\<open>Frame::encode\<close>, \<^verbatim>\<open>decode_frame\<close>, the parsing loop and the two packet classifiers. Any
    sequence of frames is parsed back from its encoding, and parsing any bytes stays in bounds and ends.
  \<^item> \<open>Flow_Control\<close>: \<^verbatim>\<open>SendFlowControl\<close>, \<^verbatim>\<open>StreamState\<close>, \<^verbatim>\<open>ConnectionState\<close>. No run of operations exceeds
    the credit of a stream or of the association, on either side.
  \<^item> \<open>Stream_Delivery\<close>, \<open>Stream_Completion\<close>: \<^verbatim>\<open>CallbackStreams\<close>; what the application accepted of a stream is a
    prefix of what was sent, and a stream whose frames all arrive is delivered completely. The application is
    a parameter: a record of callbacks over any state.
  \<^item> \<open>Congestion\<close>: \<^verbatim>\<open>RttEstimator\<close>, \<^verbatim>\<open>NewReno\<close> and the fixed-point pacing routines with their wide reference.
  \<^item> \<open>Send_Range\<close>: \<^verbatim>\<open>RetainedSendRange\<close>; its bitmap holds exactly the acknowledged bytes.
  \<^item> \<open>Path_State\<close>: \<^verbatim>\<open>PathState\<close>, all operations; pacing never sends more than the configured rate and burst, a
    computed deadline is late enough, and the path status converges under loss and reordering.
  \<^item> \<open>Path_Set\<close>: the linked increase over all paths and the timer heads of the packet ledger.
  \<^item> \<open>Endpoint_State\<close>: the record \<^verbatim>\<open>EndpointState\<close>, its construction, identifiers and paths, the received packet
    numbers and the schedule of acknowledgements, policy, and receive credit.
  \<^item> \<open>Endpoint_Ledger\<close>: the records of sent packets through submission, loss detection, persistent congestion,
    suspension and removal of a path. A packet is declared lost exactly when RFC 9002 says so, and the flight of
    a path is always the sum over the records that are accepted and not lost.
  \<^item> \<open>Endpoint_Control\<close>, \<open>Endpoint_Send\<close>: the control frames that are due and every packet the endpoint sends:
    acknowledgements and credit, path control, stream data, retransmissions, probes and duplicates.
  \<^item> \<open>Endpoint_Timers\<close>: deadlines, repair and probe timeouts. The deadline an endpoint announces is never later than
    the time at which one of its timers has something to do.
  \<^item> \<open>Endpoint_Receive\<close>: what a received packet does: acknowledgements with their samples, losses and congestion
    reports, credit, path frames, and the batch and stream entry points.
  \<^item> \<open>Endpoint_Steps\<close>: the operations above as one step relation. In every state it reaches, the flight of a path is
    the sum over its records, the table of paths is well formed, and no operation panics.
  \<^item> \<open>Endpoint_Api\<close>: the remaining entry points, the acknowledgement of single packets and of ranges among them.
  \<^item> \<open>Stream_Mux\<close>: \<^verbatim>\<open>mux.rs\<close>, which joins the endpoint and the stream delivery. A packet is acknowledged only when each
    of its stream bytes was taken or stored, and receiving ends on any bytes. A packet that arrives again after its
    stream was delivered and forgotten starts the stream anew (\<open>completed_stream_redelivered\<close>).
  \<^item> \<open>Packet_Protection\<close>: \<^verbatim>\<open>crypto.rs\<close> and its use by the endpoint. The AEAD and HKDF are parameters.
  \<^item> \<open>Stateless_Reset\<close>: reset keys, tokens and packets. HMAC-SHA256 is the parameter \<open>hmac\<close>.
  \<^item> \<open>Bootstrap\<close>: OPEN, OPEN_ACK and their rewriting by a relay.
  \<^item> \<open>Peer_Table\<close>: \<^verbatim>\<open>PeerL2Table\<close>; a removed handle never resolves again.
  \<^item> \<open>Packet_Pool\<close>: the lease queue (locale \<open>bounded_fifo\<close>) and the slot pool, whose atomic steps interleave
    freely in the step relation.
  \<^item> \<open>Setup_Table\<close>: \<^verbatim>\<open>SetupTransactionTable\<close> and its exact accounts.
  \<^item> \<open>Setup_Codec\<close>: \<^verbatim>\<open>SetupRequest\<close>, \<^verbatim>\<open>SetupReply\<close>, the validation of a downstream reply and one relay's part of a
    circuit setup; requests and replies decode to what was encoded, a relay consumes its own block only, and a
    completed setup is replayed.
  \<^item> \<open>Dcid_Registry\<close>: \<^verbatim>\<open>DcidRegistry\<close> (locale \<open>directory\<close>: a finite map) and \<^verbatim>\<open>PacketRouter\<close> with its leases and quotas.
  \<^item> \<open>Uart_Codec\<close>: \<^verbatim>\<open>codec.rs\<close>; frames survive any split of the byte stream and any state of the receiver.

  \<^bold>\<open>Correspondence.\<close> A struct is a record, an enum a datatype, a method a definition that takes the state last
  and returns it updated. Bytes and bitmap words are machine words; wider integers are naturals on which
  every wrapping, saturating or checked operation is written out. An output slice is the number of bytes it
  can hold, and an encoder returns the bytes it writes or the error. Three parameters stand for what the
  sources do not decide: \<open>pp\<close> is the Cargo feature \<^verbatim>\<open>packet-protection\<close>, \<open>mem\<close> the outcome of a fallible
  allocation, \<open>contended\<close> that of a lock attempt. Where the code can panic, the definition returns \<open>None\<close>.
  No definition needs fuel: every loop is structural or has a measure, or, in the frame loop \<open>packet_frames\<close> of
  \<^verbatim>\<open>mux.rs\<close>, is a partial function whose result is proved to exist; the compare-and-exchange loops are single rounds
  of a step relation.

  \<^bold>\<open>Not modelled.\<close> Receiving under the feature \<^verbatim>\<open>packet-protection\<close> stops at \<open>Packet_Protection\<close>: the frames of an
  opened packet are processed as in \<open>Endpoint_Receive\<close>, and the two are not composed. The node, its executors and
  bearers (\<^verbatim>\<open>node.rs\<close>, \<^verbatim>\<open>nostd.rs\<close>, \<^verbatim>\<open>tokio.rs\<close>) and the applications are scheduling and input/output around the
  modelled parts.
\<close>

end
